(* ===== verification/Prelude.thy ===== *)
theory Prelude
  imports Main "HOL-Library.Word" "HOL-Library.Signed_Division"
begin

text \<open>
  Shared vocabulary of the development: the machine types of \<^verbatim>\<open>src/lib/typedefs.h\<close>, the
  little-endian byte memory in which the kernel's structs live, the result type of kernel
  functions (a value and the next state, a PANIC, or no return), and the lemmas on words and
  memory that the component theories use.
\<close>

unbundle bit_operations_syntax

type_synonym u8 = "8 word"
type_synonym u16 = "16 word"
type_synonym u32 = "32 word"
type_synonym u64 = "64 word"
type_synonym ptr = "32 word"
type_synonym mem = "32 word \<Rightarrow> 8 word"

named_theorems mem_simps \<open>loads from stored-to memory\<close>
named_theorems word_arith \<open>words as numbers\<close>

section \<open>Results of kernel functions\<close>

text \<open>
  A kernel function returns a value in a new state, stops the machine in \<^verbatim>\<open>PANIC\<close> (the message
  and the state in which the processor is halted are kept), never returns, or leaves what the C
  program determines (a write behind the end of a static array).
\<close>

datatype 's stop = Panic string 's | Hang | Undefined

type_synonym ('a, 's) res = "'s stop + 'a \<times> 's"

definition seq :: "('a, 's) res \<Rightarrow> ('a \<Rightarrow> 's \<Rightarrow> ('b, 's) res) \<Rightarrow> ('b, 's) res" where
  "seq r f = (case r of Inl e \<Rightarrow> Inl e | Inr (a, s) \<Rightarrow> f a s)"

lemma seq_Inl [simp]: "seq (Inl e) f = Inl e"
  by (simp add: seq_def)

lemma seq_Inr [simp]: "seq (Inr (a, s)) f = f a s"
  by (simp add: seq_def)

lemma seq_eq_Inr: "seq r f = Inr y \<longleftrightarrow> (\<exists>a s. r = Inr (a, s) \<and> f a s = Inr y)"
  by (auto simp: seq_def split: sum.splits)

lemma seq_eq_Inl: "seq r f = Inl e \<longleftrightarrow> r = Inl e \<or> (\<exists>a s. r = Inr (a, s) \<and> f a s = Inl e)"
  by (auto simp: seq_def split: sum.splits)

lemma seq_cong [fundef_cong]:
  "r = r' \<Longrightarrow> (\<And>a s. r' = Inr (a, s) \<Longrightarrow> f a s = g a s) \<Longrightarrow> seq r f = seq r' g"
  by (auto simp: seq_def split: sum.splits)

section \<open>Byte memory\<close>

text \<open>Words are stored low byte first, as the i386 does.\<close>

definition ld32 :: "mem \<Rightarrow> ptr \<Rightarrow> u32" where
  "ld32 m a = ucast (m a) OR push_bit 8 (ucast (m (a + 1)))
     OR push_bit 16 (ucast (m (a + 2))) OR push_bit 24 (ucast (m (a + 3)))"

definition st32 :: "ptr \<Rightarrow> u32 \<Rightarrow> mem \<Rightarrow> mem" where
  "st32 a v m = m(a := ucast v, a + 1 := ucast (drop_bit 8 v),
     a + 2 := ucast (drop_bit 16 v), a + 3 := ucast (drop_bit 24 v))"

definition ld64 :: "mem \<Rightarrow> ptr \<Rightarrow> u64" where
  "ld64 m a = ucast (ld32 m a) OR push_bit 32 (ucast (ld32 m (a + 4)))"

definition aligned :: "ptr \<Rightarrow> bool" where
  "aligned a \<longleftrightarrow> 4 dvd unat a"

lemma join_bytes:
  fixes v :: u32
  shows "ucast (ucast v :: u8) OR push_bit 8 (ucast (ucast (drop_bit 8 v) :: u8))
     OR push_bit 16 (ucast (ucast (drop_bit 16 v) :: u8))
     OR push_bit 24 (ucast (ucast (drop_bit 24 v) :: u8)) = v"
proof (rule bit_word_eqI)
  fix n assume "n < LENGTH(32)"
  then consider "n < 8" | "8 \<le> n" "n < 16" | "16 \<le> n" "n < 24" | "24 \<le> n" "n < 32"
    by fastforce
  then show "bit (ucast (ucast v :: u8) OR push_bit 8 (ucast (ucast (drop_bit 8 v) :: u8))
     OR push_bit 16 (ucast (ucast (drop_bit 16 v) :: u8))
     OR push_bit 24 (ucast (ucast (drop_bit 24 v) :: u8)) :: u32) n = bit v n"
    by cases (auto simp: bit_simps)
qed

lemma small_offset_neq:
  fixes a :: ptr
  assumes "unat k < 4" and "unat l < 4" and "k \<noteq> l"
  shows "a + k \<noteq> a + l"
  using assms by simp

lemma ld32_st32_same [simp, mem_simps]: "ld32 (st32 a v m) a = v"
  by (simp add: ld32_def st32_def join_bytes)

lemma aligned_plus_unat:
  assumes "aligned a" and "unat k < 4"
  shows "unat (a + k) = unat a + unat k"
proof -
  have "unat a < 4294967296" using unsigned_less [of a] by simp
  then have "unat a + unat k < 4294967296"
    using assms unfolding aligned_def by presburger
  then show ?thesis by (simp add: unat_word_ariths)
qed

lemma aligned_word_disjoint:
  assumes "aligned a" and "aligned b" and "a \<noteq> b" and "unat k < 4" and "unat l < 4"
  shows "a + k \<noteq> b + l"
proof
  assume "a + k = b + l"
  then have "unat a + unat k = unat b + unat l"
    using assms aligned_plus_unat by metis
  then have "unat a = unat b"
    using assms unfolding aligned_def by presburger
  then have "a = b" by (simp only: word_unat_eq_iff)
  with assms show False by simp
qed

lemma st32_other_byte:
  assumes "unat (b - a) \<ge> 4"
  shows "st32 a v m b = m b"
proof -
  have "b \<noteq> a + k" if "unat k < 4" for k
    using assms that by auto
  from this [of 0] this [of 1] this [of 2] this [of 3] show ?thesis
    by (simp add: st32_def)
qed

lemma ld32_st32_other [simp, mem_simps]:
  assumes "aligned a" and "aligned b" and "a \<noteq> b"
  shows "ld32 (st32 a v m) b = ld32 m b"
proof -
  have *: "a + k \<noteq> b + l" if "unat k < 4" and "unat l < 4" for k l
    using aligned_word_disjoint assms that by blast
  have "st32 a v m (b + l) = m (b + l)" if "unat l < 4" for l
    using * [of 0 l] * [of 1 l] * [of 2 l] * [of 3 l] that by (auto simp: st32_def)
  from this [of 0] this [of 1] this [of 2] this [of 3] show ?thesis
    by (simp add: ld32_def)
qed

lemma ld32_cong:
  assumes "\<And>k. unat k < 4 \<Longrightarrow> m (a + k) = m' (a + k)"
  shows "ld32 m a = ld32 m' a"
  using assms [of 0] assms [of 1] assms [of 2] assms [of 3] by (simp add: ld32_def)

lemma aligned_plus [simp, intro]:
  assumes "aligned a" and "aligned k"
  shows "aligned (a + k)"
proof -
  have "4 dvd (unat a + unat k) mod 4294967296"
    using assms unfolding aligned_def by (intro dvd_mod) auto
  then show ?thesis by (simp add: aligned_def unat_word_ariths)
qed

lemma aligned_numeral [simp]: "aligned (numeral n) \<longleftrightarrow> (4::nat) dvd unat (numeral n :: u32)"
  by (simp add: aligned_def)

lemma aligned_0 [simp]: "aligned 0"
  by (simp add: aligned_def)

lemma aligned_of_nat4: "4 dvd n \<Longrightarrow> aligned (of_nat n)"
  unfolding aligned_def unat_of_nat by (intro dvd_mod) auto

lemma offset_neq [simp]: "(a::ptr) + k = a + l \<longleftrightarrow> k = l"
  by simp

section \<open>Words as numbers\<close>

lemma unat_plus_small [word_arith]:
  fixes a b :: u32
  assumes "unat a + unat b < 4294967296"
  shows "unat (a + b) = unat a + unat b"
  using assms by (simp add: unat_word_ariths)

lemma unat_lt32 [simp]: "unat (a::u32) < 4294967296"
  using unsigned_less [of a] by simp

section \<open>Bit fields\<close>

text \<open>\<open>fld k x\<close> is the value of a bit field \<open>x\<close> at bit \<open>k\<close> of a 32-bit word.\<close>

definition fld :: "nat \<Rightarrow> 'a::len word \<Rightarrow> u32" where
  "fld k x = push_bit k (ucast x)"

named_theorems field_bits \<open>bits of fields\<close>

lemma bit_fld [field_bits]: "bit (fld k x) n \<longleftrightarrow> n < 32 \<and> k \<le> n \<and> bit x (n - k)"
  by (auto simp: fld_def bit_simps dest: bit_imp_le_length)

lemma bit_1_word [field_bits]: "0 < n \<Longrightarrow> bit (x :: 1 word) n = False"
  using bit_imp_le_length [of x n] by auto

lemma bit_3_word [field_bits]: "3 \<le> n \<Longrightarrow> bit (x :: 3 word) n = False"
  using bit_imp_le_length [of x n] by auto

lemma bit_20_word [field_bits]: "20 \<le> n \<Longrightarrow> bit (x :: 20 word) n = False"
  using bit_imp_le_length [of x n] by auto

section \<open>Stores that change nothing, and the bytes a store leaves alone\<close>

lemma split_bytes:
  fixes x y z w :: u8
  defines "v \<equiv> ucast x OR push_bit 8 (ucast y) OR push_bit 16 (ucast z) OR push_bit 24 (ucast w) :: u32"
  shows "ucast v = x" "ucast (drop_bit 8 v) = y" "ucast (drop_bit 16 v) = z" "ucast (drop_bit 24 v) = w"
  unfolding v_def
  by (rule bit_word_eqI, auto simp: bit_simps dest: bit_imp_le_length)+

lemma st32_twice [simp]: "st32 a v (st32 a w m) = st32 a v m"
  by (rule ext) (simp add: st32_def)

lemma st32_same_value: "ld32 m a = v \<Longrightarrow> st32 a v m = m"
  unfolding st32_def ld32_def by (drule sym) (simp only: split_bytes fun_upd_triv)

text \<open>\<open>inside lo n a\<close>: byte \<open>a\<close> is one of the \<open>n\<close> bytes from \<open>lo\<close>, without wrap-around.\<close>

definition inside :: "nat \<Rightarrow> nat \<Rightarrow> ptr \<Rightarrow> bool" where
  "inside lo n a \<longleftrightarrow> lo \<le> unat a \<and> unat a < lo + n"

lemma st32_frame:
  assumes "unat a + 4 \<le> 4294967296" and "unat b < unat a \<or> unat a + 4 \<le> unat b"
  shows "st32 a v m b = m b"
proof -
  have "b \<noteq> a + k" if "unat k < 4" for k
  proof
    assume "b = a + k"
    then have "unat b = unat a + unat k" using assms(1) that by (simp add: unat_plus_small)
    with assms(2) that show False by simp
  qed
  from this [of 0] this [of 1] this [of 2] this [of 3] show ?thesis
    by (simp add: st32_def)
qed

section \<open>Memory given by its words\<close>

definition words :: "(ptr \<Rightarrow> u32) \<Rightarrow> mem" where
  "words w a = ucast (drop_bit (8 * unat (a mod 4)) (w (a - a mod 4)))"

lemma aligned_plus_mod:
  assumes "aligned a" and "unat k < 4"
  shows "(a + k) mod 4 = k"
proof -
  obtain q where q: "unat a = 4 * q" using assms(1) unfolding aligned_def by (elim dvdE)
  have "unat ((a + k) mod 4) = unat k"
    using assms(2) by (simp add: unat_mod aligned_plus_unat [OF assms] q)
  then show ?thesis by (simp only: word_unat_eq_iff)
qed

lemma ld32_words [simp]: "aligned a \<Longrightarrow> ld32 (words w) a = w a"
  using aligned_plus_mod [of a 0] aligned_plus_mod [of a 1] aligned_plus_mod [of a 2] aligned_plus_mod [of a 3]
  by (simp add: ld32_def words_def join_bytes)

end
