(* ===== verification/Strings.thy ===== *)
theory Strings
  imports Prelude
begin

text \<open>
  The library's byte and word routines: \<^verbatim>\<open>src/lib/int.c\<close> (number printing),
  \<^verbatim>\<open>src/lib/string.c\<close> (\<^verbatim>\<open>memset\<close> and \<^verbatim>\<open>memcpy\<close>, which step in 32-bit words) and
  \<^verbatim>\<open>src/lib/memory.c\<close> (\<^verbatim>\<open>memory_copy\<close>, in bytes). A \<^verbatim>\<open>char*\<close> buffer is a function from
  the offset to the byte there, so a write beyond any fixed length is visible; a C string is
  the list of its bytes before the NUL.
\<close>

type_synonym cbuf = "int \<Rightarrow> u8"

definition BASE_BIN :: u32 where "BASE_BIN = 2"
definition BASE_DEC :: u32 where "BASE_DEC = 10"
definition BASE_HEX :: u32 where "BASE_HEX = 16"

lemmas base_defs = BASE_BIN_def BASE_DEC_def BASE_HEX_def

abbreviation chr :: "char \<Rightarrow> u8" where
  "chr c \<equiv> of_char c"

section \<open>Reversing and printing numbers\<close>

function reverse_loop :: "int \<Rightarrow> int \<Rightarrow> cbuf \<Rightarrow> cbuf" where
  "reverse_loop start en str =
     (if start < en
      then (let tmp = str start;
                str = str(start := str en);
                str = str(en := tmp)
            in reverse_loop (start + 1) (en - 1) str)
      else str)"
  by pat_completeness auto
termination
  by (relation "measure (\<lambda>(start, en, str). nat (en - start))") auto

declare reverse_loop.simps [simp del]

definition reverse :: "cbuf \<Rightarrow> int \<Rightarrow> cbuf" where
  "reverse str len = reverse_loop 0 (len - 1) str"

text \<open>
  The digit loop of \<^verbatim>\<open>itoa\<close>. The division traps for base 0 and the loop never ends for
  base 1 (\<^verbatim>\<open>num/1\<close> is \<^verbatim>\<open>num\<close>): neither returns, which is \<^term>\<open>None\<close>.
\<close>

definition digit_char :: "u32 \<Rightarrow> u8" where
  "digit_char rem = (if sint rem > 9 then ucast (rem - 10) + chr CHR ''a''
                     else ucast rem + chr CHR ''0'')"

function itoa_loop :: "u32 \<Rightarrow> u32 \<Rightarrow> int \<Rightarrow> cbuf \<Rightarrow> (int \<times> cbuf) option" where
  "itoa_loop num base i str =
     (if num = 0 then Some (i, str)
      else if base < 2 then None
      else itoa_loop (num div base) base (i + 1) (str(i := digit_char (num mod base))))"
  by pat_completeness auto
termination
proof (relation "measure (\<lambda>(num, base, i, str). unat num)", goal_cases)
  case 1
  show ?case by simp
next
  case (2 num base i str)
  then have "0 < unat num" and "1 < unat base"
    by (simp_all add: unat_gt_0 word_less_nat_alt)
  then have "unat num div unat base < unat num"
    by (simp add: div_less_dividend)
  then show ?case by (simp add: unat_div)
qed

declare itoa_loop.simps [simp del]

definition itoa :: "u32 \<Rightarrow> cbuf \<Rightarrow> u32 \<Rightarrow> cbuf option" where
  "itoa num str base =
     (if num = 0 then Some (str(0 := chr CHR ''0'', 1 := 0))
      else
        let isNegative = (num < 0 \<and> base = BASE_DEC);
            num = (if isNegative then - num else num)
        in case itoa_loop num base 0 str of
             None \<Rightarrow> None
           | Some (i, str) \<Rightarrow>
               let (i, str) = (if isNegative then (i + 1, str(i := chr CHR ''-'')) else (i, str));
                   (i, str) = (if base = BASE_HEX
                     then (i + 2, str(i := chr CHR ''x'', i + 1 := chr CHR ''0'')) else (i, str));
                   (i, str) = (if base = BASE_BIN
                     then (i + 2, str(i := chr CHR ''b'', i + 1 := chr CHR ''0'')) else (i, str));
                   str = str(i := 0)
               in Some (reverse str i))"

text \<open>The C string a buffer of \<^verbatim>\<open>n\<close> bytes holds.\<close>

definition cstr :: "nat \<Rightarrow> cbuf \<Rightarrow> u8 list" where
  "cstr n str = takeWhile (\<lambda>c. c \<noteq> 0) (map (\<lambda>k. str (int k)) [0..<n])"

section \<open>Word-wise memset and memcpy, byte-wise memory_copy\<close>

fun memset_loop :: "nat \<Rightarrow> ptr \<Rightarrow> u32 \<Rightarrow> mem \<Rightarrow> mem" where
  "memset_loop 0 p c m = m"
| "memset_loop (Suc n) p c m = memset_loop n (p + 4) c (st32 p c m)"

definition memset :: "ptr \<Rightarrow> u32 \<Rightarrow> u32 \<Rightarrow> mem \<Rightarrow> mem" where
  "memset str c n m = memset_loop (unat n) str c m"

fun memcpy_loop :: "nat \<Rightarrow> ptr \<Rightarrow> ptr \<Rightarrow> mem \<Rightarrow> mem" where
  "memcpy_loop 0 to_ptr from_ptr m = m"
| "memcpy_loop (Suc n) to_ptr from_ptr m =
     memcpy_loop n (to_ptr + 4) (from_ptr + 4) (st32 to_ptr (ld32 m from_ptr) m)"

definition memcpy :: "ptr \<Rightarrow> ptr \<Rightarrow> u32 \<Rightarrow> mem \<Rightarrow> mem" where
  "memcpy to_ptr from_ptr n m = memcpy_loop (unat n) to_ptr from_ptr m"

fun memory_copy_loop :: "nat \<Rightarrow> int \<Rightarrow> int \<Rightarrow> cbuf \<Rightarrow> cbuf" where
  "memory_copy_loop 0 source dest m = m"
| "memory_copy_loop (Suc n) source dest m =
     memory_copy_loop n (source + 1) (dest + 1) (m(dest := m source))"

definition memory_copy :: "int \<Rightarrow> int \<Rightarrow> int \<Rightarrow> cbuf \<Rightarrow> cbuf" where
  "memory_copy source dest no_bytes m = memory_copy_loop (nat no_bytes) source dest m"

section \<open>What reverse and itoa compute\<close>

lemma reverse_loop_at:
  "reverse_loop s e str i = (if s \<le> i \<and> i \<le> e then str (s + e - i) else str i)"
proof (induction s e str rule: reverse_loop.induct)
  case (1 s e str)
  show ?case
  proof (cases "s < e")
    case True
    have "reverse_loop (s + 1) (e - 1) (str(s := str e, e := str s)) i =
      (if s + 1 \<le> i \<and> i \<le> e - 1 then (str(s := str e, e := str s)) (s + 1 + (e - 1) - i)
       else (str(s := str e, e := str s)) i)"
      by (rule 1 [OF True refl refl refl])
    with True show ?thesis by (subst reverse_loop.simps) (auto simp: Let_def)
  next
    case False
    then have "str (s + e - i) = str i" if "s \<le> i \<and> i \<le> e"
      using that by (intro arg_cong [where f = str]) arith
    with False show ?thesis by (subst reverse_loop.simps) simp
  qed
qed

definition bytes :: "cbuf \<Rightarrow> nat \<Rightarrow> u8 list" where
  "bytes str n = map (\<lambda>k. str (int k)) [0..<n]"

lemma length_bytes [simp]: "length (bytes str n) = n"
  by (simp add: bytes_def)

lemma nth_bytes [simp]: "k < n \<Longrightarrow> bytes str n ! k = str (int k)"
  by (simp add: bytes_def)

lemma bytes_reverse: "bytes (reverse str (int n)) n = rev (bytes str n)"
  by (rule nth_equalityI)
    (auto simp: reverse_def reverse_loop_at rev_nth of_nat_diff algebra_simps)

lemma reverse_other: "i < 0 \<or> n \<le> i \<Longrightarrow> reverse str n i = str i"
  by (auto simp: reverse_def reverse_loop_at)

lemma bytes_cong: "(\<And>k. k < n \<Longrightarrow> f (int k) = g (int k)) \<Longrightarrow> bytes f n = bytes g n"
  by (simp add: bytes_def)

lemma bytes_add: "bytes str (n + k) = bytes str n @ map (\<lambda>j. str (int (n + j))) [0..<k]"
  by (rule nth_equalityI) (auto simp: bytes_def nth_append)

lemma cstr_terminated:
  assumes "str (int n) = 0" and "0 \<notin> set (bytes str n)" and "n < N"
  shows "cstr N str = bytes str n"
proof -
  obtain k where N: "N = n + Suc k"
    using assms(3) less_imp_Suc_add by auto
  have "map (\<lambda>k. str (int k)) [0..<N] = bytes str n @ 0 # map (\<lambda>j. str (int (n + Suc j))) [0..<k]"
    using assms(1) unfolding N bytes_def [symmetric] bytes_add
    by (simp add: upt_conv_Cons map_Suc_upt [symmetric] algebra_simps del: upt_Suc)
  moreover have "takeWhile (\<lambda>c. c \<noteq> 0) (bytes str n @ 0 # ys) = bytes str n" for ys
    using assms(2) by (subst takeWhile_append2) auto
  ultimately show ?thesis by (simp add: cstr_def)
qed

text \<open>The digits of a number, least significant first, as the loop produces them.\<close>

function lsd :: "u32 \<Rightarrow> u32 \<Rightarrow> u32 list" where
  "lsd base num = (if num = 0 \<or> base < 2 then [] else num mod base # lsd base (num div base))"
  by pat_completeness auto
termination
proof (relation "measure (\<lambda>(base, num). unat num)", goal_cases)
  case 1
  show ?case by simp
next
  case (2 base num)
  then have "0 < unat num" and "1 < unat base"
    by (simp_all add: unat_gt_0 word_less_nat_alt)
  then show ?case by (simp add: unat_div div_less_dividend)
qed

declare lsd.simps [simp del]

fun put :: "int \<Rightarrow> u8 list \<Rightarrow> cbuf \<Rightarrow> cbuf" where
  "put i [] str = str"
| "put i (c # cs) str = put (i + 1) cs (str(i := c))"

lemma put_at:
  "put i cs str j = (if i \<le> j \<and> j < i + int (length cs) then cs ! nat (j - i) else str j)"
proof (induction i cs str rule: put.induct)
  case (2 i c cs str)
  have "put (i + 1) cs (str(i := c)) j =
    (if i + 1 \<le> j \<and> j < i + 1 + int (length cs) then cs ! nat (j - (i + 1)) else (str(i := c)) j)"
    by (rule 2)
  moreover have "nat (j - i) = Suc (nat (j - (i + 1)))" if "i + 1 \<le> j"
    using that by arith
  ultimately show ?case by auto
qed auto

lemma itoa_loop_lsd:
  assumes "2 \<le> base"
  shows "itoa_loop num base i str =
    Some (i + int (length (lsd base num)), put i (map digit_char (lsd base num)) str)"
  using assms
proof (induction num base i str rule: itoa_loop.induct)
  case (1 num base i str)
  show ?case
  proof (cases "num = 0")
    case True
    then show ?thesis by (simp add: itoa_loop.simps [of 0] lsd.simps [of base 0])
  next
    case False
    have "\<not> base < 2" using 1(2) by simp
    with 1(1) [OF False this 1(2)] False show ?thesis
      by (simp add: itoa_loop.simps [of num] lsd.simps [of base num] del: fun_upd_apply)
  qed
qed

lemma length_lsd: "unat num < 2 ^ k \<Longrightarrow> length (lsd base num) \<le> k"
proof (induction k arbitrary: num)
  case 0
  then show ?case by (subst lsd.simps) (simp add: unat_eq_0)
next
  case (Suc k)
  show ?case
  proof (cases "num = 0 \<or> base < 2")
    case True
    then show ?thesis by (subst lsd.simps) simp
  next
    case False
    then have b: "2 \<le> unat base" by (simp add: word_less_nat_alt)
    have "unat num div unat base \<le> unat num div 2"
      using b by (simp add: div_le_mono2)
    also have "\<dots> < 2 ^ k" using Suc.prems by (simp add: less_mult_imp_div_less mult.commute)
    finally have "unat (num div base) < 2 ^ k" by (simp add: unat_div)
    from Suc.IH [OF this] False show ?thesis by (subst lsd.simps) simp
  qed
qed

corollary length_lsd_32: "length (lsd base num) \<le> 32"
  by (rule length_lsd) simp

lemma lsd_bound: "d \<in> set (lsd base num) \<Longrightarrow> d < base"
proof (induction base num rule: lsd.induct)
  case (1 base num)
  show ?case
  proof (cases "num = 0 \<or> base < 2")
    case True
    with 1 show ?thesis by (subst (asm) lsd.simps) (simp add: lsd.simps)
  next
    case False
    then have "0 < unat base" by (auto simp: word_less_nat_alt)
    then have "num mod base < base" by (simp add: word_less_nat_alt unat_mod)
    with 1 False show ?thesis by (subst (asm) (2) lsd.simps) auto
  qed
qed

text \<open>
  What a reader makes of the string: the base prefix, then digits whose value is the number.
\<close>

definition digit_val :: "u8 \<Rightarrow> nat" where
  "digit_val c = (if c \<ge> chr CHR ''a'' then unat c - 87 else unat c - 48)"

definition val_of :: "nat \<Rightarrow> u8 list \<Rightarrow> nat" where
  "val_of b ds = foldl (\<lambda>v c. v * b + digit_val c) 0 ds"

definition base_prefix :: "u32 \<Rightarrow> u8 list" where
  "base_prefix base = (if base = BASE_HEX then [chr CHR ''0'', chr CHR ''x'']
     else if base = BASE_BIN then [chr CHR ''0'', chr CHR ''b''] else [])"

definition digits :: "u32 \<Rightarrow> u32 \<Rightarrow> u8 list" where
  "digits base num = rev (map digit_char (lsd base num))"

definition itoa_text :: "u32 \<Rightarrow> u32 \<Rightarrow> u8 list" where
  "itoa_text base num =
     (if num = 0 then [chr CHR ''0''] else base_prefix base @ digits base num)"

lemma digit_char_small:
  assumes "d < 16"
  shows "digit_char d = (if d < 10 then ucast d + 48 else ucast d + 87)"
proof -
  have "unat d < 16" using assms by (simp add: word_less_nat_alt)
  then have "d \<in> {0, 1, 2, 3, 4, 5, 6, 7, 8, 9, 10, 11, 12, 13, 14, 15}"
    using assms by unat_arith
  then show ?thesis by (auto simp: digit_char_def)
qed

lemma digit_char_val:
  assumes "d < 16"
  shows "digit_val (digit_char d) = unat d" and "digit_char d \<noteq> 0"
proof -
  have "unat d < 16" using assms by (simp add: word_less_nat_alt)
  then have "d \<in> {0, 1, 2, 3, 4, 5, 6, 7, 8, 9, 10, 11, 12, 13, 14, 15}"
    using assms by unat_arith
  then show "digit_val (digit_char d) = unat d" and "digit_char d \<noteq> 0"
    by (auto simp: digit_char_def digit_val_def)
qed

lemma val_of_snoc: "val_of b (ds @ [c]) = val_of b ds * b + digit_val c"
  by (simp add: val_of_def)

lemma val_of_digits:
  assumes "2 \<le> base" and "base \<le> 16"
  shows "val_of (unat base) (digits base num) = unat num"
  using assms
proof (induction base num rule: lsd.induct)
  case (1 base num)
  show ?case
  proof (cases "num = 0")
    case True
    then show ?thesis by (simp add: digits_def val_of_def lsd.simps [of base 0])
  next
    case False
    have nb: "\<not> base < 2" using 1(2) by simp
    have "0 < unat base" using 1(2) by (auto simp: word_le_nat_alt)
    then have "unat num mod unat base < unat base" by (rule mod_less_divisor)
    then have "num mod base < 16"
      using 1(3) by (simp add: word_less_nat_alt word_le_nat_alt unat_mod)
    then have d: "digit_val (digit_char (num mod base)) = unat num mod unat base"
      by (simp add: digit_char_val unat_mod)
    have IH: "val_of (unat base) (digits base (num div base)) = unat num div unat base"
      using 1 False nb by (simp add: unat_div)
    have "digits base num = digits base (num div base) @ [digit_char (num mod base)]"
      using False nb by (simp add: digits_def lsd.simps [of base num])
    then show ?thesis by (simp add: val_of_snoc IH d)
  qed
qed

lemma itoa_nonzero_buffer:
  assumes "2 \<le> base" and "num \<noteq> 0"
  defines "ds \<equiv> map digit_char (lsd base num) @ rev (base_prefix base)"
  shows "itoa num str base = Some (reverse ((put 0 ds str)(int (length ds) := 0)) (int (length ds)))"
proof -
  have put_app: "put i (xs @ ys) f = put (i + int (length xs)) ys (put i xs f)" for i xs ys f
    by (induction i xs f rule: put.induct) (auto simp del: fun_upd_apply simp: algebra_simps)
  consider "base = 16" | "base = 2" | "base \<noteq> 16" "base \<noteq> 2" by blast
  then show ?thesis
    unfolding itoa_def ds_def put_app itoa_loop_lsd [OF assms(1)] base_prefix_def base_defs
    using assms(2) by cases (simp_all add: Let_def del: fun_upd_apply, simp_all add: ac_simps)
qed

lemma bytes_put: "bytes (put 0 ds str) (length ds) = ds"
  by (rule nth_equalityI) (auto simp: put_at)

lemma itoa_text_nonzero: "num \<noteq> 0 \<Longrightarrow> 
  itoa_text base num = rev (map digit_char (lsd base num) @ rev (base_prefix base))"
  by (simp add: itoa_text_def digits_def)

lemma length_base_prefix: "length (base_prefix base) \<le> 2"
  by (simp add: base_prefix_def)

lemma itoa_text_length: "length (itoa_text base num) \<le> 34"
  using length_lsd_32 [of base num] length_base_prefix [of base]
  by (auto simp: itoa_text_def digits_def)

lemma itoa_text_no_nul:
  assumes "2 \<le> base" and "base \<le> 16"
  shows "0 \<notin> set (itoa_text base num)"
proof -
  have "digit_char d \<noteq> 0" if "d \<in> set (lsd base num)" for d
    using lsd_bound [OF that] assms(2) digit_char_val(2) [of d] by simp
  then have "0 \<notin> set (digits base num)"
    by (metis (no_types, lifting) digits_def image_iff list.set_map set_rev)
  then show ?thesis by (auto simp: itoa_text_def base_prefix_def)
qed

lemma itoa_zero: "itoa 0 str base = Some (str(0 := chr CHR ''0'', 1 := 0))"
  by (simp add: itoa_def)

text \<open>\<^verbatim>\<open>itoa\<close> returns, and its buffer holds the expected C string.\<close>

lemma itoa_result:
  assumes "2 \<le> base" and "base \<le> 16"
  obtains str' where "itoa num str base = Some str'" and "cstr 128 str' = itoa_text base num"
    and "\<And>j. j < 0 \<or> 34 < j \<Longrightarrow> str' j = str j"
proof (cases "num = 0")
  case True
  show ?thesis
  proof (rule that)
    show "itoa num str base = Some (str(0 := chr CHR ''0'', 1 := 0))"
      using True by (simp add: itoa_zero)
    show "cstr 128 (str(0 := chr CHR ''0'', 1 := 0)) = itoa_text base num"
      using cstr_terminated [of "str(0 := chr CHR ''0'', 1 := 0)" 1 128] True
      by (simp add: bytes_def itoa_text_def)
  qed auto
next
  case False
  define ds where "ds = map digit_char (lsd base num) @ rev (base_prefix base)"
  define b where "b = reverse ((put 0 ds str)(int (length ds) := 0)) (int (length ds))"
  have len: "length ds \<le> 34"
    using length_lsd_32 [of base num] length_base_prefix [of base] by (simp add: ds_def)
  have content: "itoa_text base num = rev ds"
    using False by (simp add: itoa_text_nonzero ds_def)
  have "bytes ((put 0 ds str)(int (length ds) := 0)) (length ds) = bytes (put 0 ds str) (length ds)"
    by (rule bytes_cong) simp
  then have rv: "bytes b (length ds) = rev ds"
    by (simp add: b_def bytes_reverse bytes_put)
  have "b (int (length ds)) = 0"
    by (simp add: b_def reverse_other)
  then have "cstr 128 b = rev ds"
    using cstr_terminated [of b "length ds" 128] itoa_text_no_nul [OF assms, of num] len
    by (simp add: rv content)
  moreover have "itoa num str base = Some b"
    using itoa_nonzero_buffer [OF assms(1) False, of str] by (simp add: b_def ds_def)
  moreover have "b j = str j" if "j < 0 \<or> 34 < j" for j
    using that len by (auto simp: b_def reverse_other put_at)
  ultimately show ?thesis using that content by metis
qed

text \<open>
  C33: printing a number in base 2, 10 or 16 and reading the text back gives the number: the
  call returns, the text is the base prefix and then digits, and the digits have the number's
  value in that base. Zero is printed as \<^verbatim>\<open>0\<close> without a prefix.
\<close>

theorem itoa_roundtrip:
  assumes "base \<in> {BASE_BIN, BASE_DEC, BASE_HEX}"
  shows "\<exists>str' ds. itoa num str base = Some str' \<and>
    cstr 128 str' = (if num = 0 then [] else base_prefix base) @ ds \<and>
    ds \<noteq> [] \<and> val_of (unat base) ds = unat num"
proof -
  have b: "2 \<le> base" "base \<le> 16" using assms by (auto simp: base_defs)
  obtain str' where s: "itoa num str base = Some str'" "cstr 128 str' = itoa_text base num"
    using itoa_result [OF b] by blast
  show ?thesis
  proof (cases "num = 0")
    case True
    with s show ?thesis by (simp add: itoa_text_def val_of_def digit_val_def)
  next
    case False
    then have "digits base num \<noteq> []"
      using b(1) by (simp add: digits_def lsd.simps [of base num] not_less)
    with False s val_of_digits [OF b] show ?thesis by (auto simp: itoa_text_def)
  qed
qed

theorem itoa_roundtrip_witness:
  "\<exists>str' ds. itoa 0x2A (\<lambda>_. 0) BASE_HEX = Some str' \<and>
    cstr 128 str' = (if (0x2A::u32) = 0 then [] else base_prefix BASE_HEX) @ ds \<and>
    ds \<noteq> [] \<and> val_of (unat BASE_HEX) ds = unat (0x2A::u32)"
  by (rule itoa_roundtrip) simp

text \<open>
  \<^verbatim>\<open>itoa\<close> writes only the first 35 bytes of its buffer in any base the kernel uses, so the
  shared 128-byte buffer \<^verbatim>\<open>str\<close> never overflows.
\<close>

theorem itoa_in_bounds:
  assumes "base \<in> {BASE_BIN, BASE_DEC, BASE_HEX}" and "itoa num str base = Some str'"
    and "j < 0 \<or> 34 < j"
  shows "str' j = str j"
proof -
  have b: "2 \<le> base" "base \<le> 16" using assms(1) by (auto simp: base_defs)
  show ?thesis using itoa_result [OF b, where num = num and str = str] assms(2,3) by (metis option.inject)
qed

theorem itoa_in_bounds_witness:
  "the (itoa 0xFFFFFFFF (\<lambda>_. 7) BASE_BIN) 35 = 7"
proof -
  obtain str' where "itoa 0xFFFFFFFF (\<lambda>_. 7) BASE_BIN = Some str'"
    using itoa_result [where base = BASE_BIN and num = "0xFFFFFFFF" and str = "\<lambda>_. 7"]
    by (auto simp: base_defs)
  then show ?thesis using itoa_in_bounds [of BASE_BIN "0xFFFFFFFF" "\<lambda>_. 7" str' 35] by simp
qed

section \<open>What memset and memcpy write\<close>

text \<open>
  \<open>within b p n\<close>: byte \<open>b\<close> is one of the \<open>n\<close> bytes from \<open>p\<close> on (addresses wrap at 4 GiB).
\<close>

definition within :: "ptr \<Rightarrow> ptr \<Rightarrow> nat \<Rightarrow> bool" where
  "within b p n \<longleftrightarrow> unat (b - p) < n"

lemma unat_minus_step:
  fixes b p :: ptr
  assumes "4 \<le> unat (b - p)"
  shows "unat (b - (p + 4)) = unat (b - p) - 4"
proof -
  have *: "b - (p + 4) = (b - p) - 4" by simp
  have "unat ((b - p) - 4) = unat (b - p) - unat (4 :: u32)"
    using assms by (intro unat_sub) (simp add: word_le_nat_alt)
  then show ?thesis unfolding * by simp
qed

lemma memset_loop_outside:
  "\<not> within b p (4 * n) \<Longrightarrow> memset_loop n p c m b = m b"
proof (induction n arbitrary: p m)
  case (Suc n)
  then have far: "4 + 4 * n \<le> unat (b - p)" by (simp add: within_def)
  then have "\<not> within b (p + 4) (4 * n)"
    by (simp add: within_def unat_minus_step)
  then have "memset_loop n (p + 4) c (st32 p c m) b = st32 p c m b" by (rule Suc.IH)
  with far show ?case by (simp add: st32_other_byte)
qed simp

lemma memset_loop_inside:
  assumes "i < n" and "4 * n \<le> 4294967296"
  shows "ld32 (memset_loop n p c m) (p + 4 * of_nat i) = c"
  using assms
proof (induction n arbitrary: i p m)
  case (Suc n)
  show ?case
  proof (cases i)
    case 0
    have "\<not> within (p + k) (p + 4) (4 * n)" if "unat k < 4" for k
    proof -
      have "unat (k - 4) = 4294967292 + unat k"
        using that by (simp add: unat_sub_if')
      then show ?thesis using Suc.prems(2) by (simp add: within_def algebra_simps)
    qed
    then have "ld32 (memset_loop n (p + 4) c (st32 p c m)) p = ld32 (st32 p c m) p"
      by (intro ld32_cong memset_loop_outside)
    with 0 show ?thesis by simp
  next
    case (Suc j)
    then have "ld32 (memset_loop n (p + 4) c (st32 p c m)) (p + 4 + 4 * of_nat j) = c"
      using Suc.prems by (intro Suc.IH) auto
    with Suc show ?thesis by (simp add: algebra_simps)
  qed
qed simp

lemma memcpy_loop_outside:
  "\<not> within b t (4 * n) \<Longrightarrow> memcpy_loop n t f m b = m b"
proof (induction n arbitrary: t f m)
  case (Suc n)
  then have far: "4 + 4 * n \<le> unat (b - t)" by (simp add: within_def)
  then have "\<not> within b (t + 4) (4 * n)"
    by (simp add: within_def unat_minus_step)
  then have "memcpy_loop n (t + 4) (f + 4) (st32 t (ld32 m f) m) b = st32 t (ld32 m f) m b"
    by (rule Suc.IH)
  with far show ?case by (simp add: st32_other_byte)
qed simp

lemma within_shift:
  assumes "within b (p + 4) n"
  shows "within b p (n + 4)"
proof -
  have "b - p = (b - (p + 4)) + 4" by simp
  then have "unat (b - p) = (unat (b - (p + 4)) + 4) mod 4294967296"
    by (simp only: unat_word_ariths) simp
  then have "unat (b - p) \<le> unat (b - (p + 4)) + 4"
    by (simp only: mod_less_eq_dividend)
  with assms show ?thesis by (simp add: within_def)
qed

text \<open>The copy is exact when no byte of the source lies in the destination.\<close>

definition apart :: "ptr \<Rightarrow> ptr \<Rightarrow> nat \<Rightarrow> bool" where
  "apart f t n \<longleftrightarrow> (\<forall>k<n. \<not> within (f + of_nat k) t n)"

lemma apart_below:
  assumes "unat f + n \<le> unat t" and "unat t + n \<le> 4294967296"
  shows "apart f t n"
  unfolding apart_def within_def
proof (intro allI impI)
  fix k assume k: "k < n"
  have "k < 4294967296" using k assms by simp
  then have "unat (of_nat k :: u32) = k" by (simp add: unat_of_nat)
  then have f: "unat (f + of_nat k) = unat f + k"
    using k assms by (simp add: unat_plus_small)
  show "\<not> unat (f + of_nat k - t) < n"
    unfolding unat_sub_if' f using k assms by simp
qed

lemma apart_step: "apart f t (4 * Suc n) \<Longrightarrow> apart (f + 4) (t + 4) (4 * n)"
  unfolding apart_def
proof (intro allI impI)
  fix k
  assume a: "\<forall>k<4 * Suc n. \<not> within (f + of_nat k) t (4 * Suc n)" and k: "k < 4 * n"
  have "\<not> within (f + of_nat (k + 4)) t (4 * n + 4)"
    using a [rule_format, of "k + 4"] k by (simp add: add.commute)
  then show "\<not> within (f + 4 + of_nat k) (t + 4) (4 * n)"
    using within_shift [of "f + 4 + of_nat k" t "4 * n"] by (auto simp: algebra_simps)
qed

lemma memcpy_loop_inside:
  assumes "i < n" and "4 * n \<le> 4294967296" and "apart f t (4 * n)"
  shows "ld32 (memcpy_loop n t f m) (t + 4 * of_nat i) = ld32 m (f + 4 * of_nat i)"
  using assms
proof (induction n arbitrary: i t f m)
  case (Suc n)
  let ?m = "st32 t (ld32 m f) m"
  show ?case
  proof (cases i)
    case 0
    have "\<not> within (t + k) (t + 4) (4 * n)" if "unat k < 4" for k
    proof -
      have "unat (k - 4) = 4294967292 + unat k"
        using that by (simp add: unat_sub_if')
      then show ?thesis using Suc.prems(2) by (simp add: within_def algebra_simps)
    qed
    then have "ld32 (memcpy_loop n (t + 4) (f + 4) ?m) t = ld32 ?m t"
      by (intro ld32_cong memcpy_loop_outside)
    with 0 show ?thesis by simp
  next
    case (Suc j)
    have far: "\<not> within (f + of_nat (4 + 4 * j + k)) t (4 * Suc n)" if "k < 4" for k
      using Suc.prems(1,3) [unfolded apart_def] \<open>i = Suc j\<close> that
      by (elim allE [of _ "4 + 4 * j + k"]) simp
    have "ld32 ?m (f + 4 + 4 * of_nat j) = ld32 m (f + 4 + 4 * of_nat j)"
    proof (rule ld32_cong, rule st32_other_byte)
      fix k :: u32
      assume "unat k < 4"
      then have "\<not> within (f + 4 + 4 * of_nat j + k) t (4 * Suc n)"
        using far [of "unat k"] by (simp add: algebra_simps)
      then show "4 \<le> unat (f + 4 + 4 * of_nat j + k - t)"
        by (simp add: within_def)
    qed
    moreover have "ld32 (memcpy_loop n (t + 4) (f + 4) ?m) (t + 4 + 4 * of_nat j)
        = ld32 ?m (f + 4 + 4 * of_nat j)"
      using Suc.prems \<open>i = Suc j\<close> apart_step by (intro Suc.IH) auto
    ultimately show ?thesis using \<open>i = Suc j\<close> by (simp add: algebra_simps)
  qed
qed simp

text \<open>
  \<^verbatim>\<open>memset(p, c, n)\<close> fills \<^verbatim>\<open>n\<close> words, that is \<^verbatim>\<open>4*n\<close> bytes, and changes no byte outside them.
\<close>

theorem memset_fills_words:
  assumes "unat n \<le> 1073741824"
  shows "(\<forall>i < unat n. ld32 (memset p c n m) (p + 4 * of_nat i) = c) \<and>
    (\<forall>b. \<not> within b p (4 * unat n) \<longrightarrow> memset p c n m b = m b)"
  using assms by (auto simp: memset_def memset_loop_outside intro!: memset_loop_inside)

theorem memset_fills_words_witness:
  "ld32 (memset 0xC0020000 0 4096 (\<lambda>_. 7)) (0xC0020000 + 4 * of_nat 4095) = 0"
proof -
  have n: "unat (4096 :: u32) \<le> 1073741824" by simp
  from memset_fills_words [OF n, where p = "0xC0020000" and c = 0 and m = "\<lambda>_. 7", THEN conjunct1] show ?thesis
    by (elim allE [of _ 4095]) simp
qed

text \<open>
  \<^verbatim>\<open>memcpy(to, from, n)\<close> copies \<^verbatim>\<open>n\<close> words between regions that are apart, and changes no
  byte outside the \<^verbatim>\<open>4*n\<close> bytes of the destination.
\<close>

theorem memcpy_copies_words:
  assumes "unat n \<le> 1073741824" and "apart src t (4 * unat n)"
  shows "(\<forall>i < unat n. ld32 (memcpy t src n m) (t + 4 * of_nat i) = ld32 m (src + 4 * of_nat i)) \<and>
    (\<forall>b. \<not> within b t (4 * unat n) \<longrightarrow> memcpy t src n m b = m b)"
  using assms by (auto simp: memcpy_def memcpy_loop_outside intro!: memcpy_loop_inside)

theorem memcpy_copies_words_witness:
  "ld32 (memcpy 0x2000 0x1000 2 (\<lambda>a. ucast a)) (0x2000 + 4 * of_nat 1) = ld32 (\<lambda>a. ucast a) (0x1000 + 4 * of_nat 1)"
proof -
  have a: "apart 0x1000 0x2000 (4 * unat (2 :: u32))"
    by (rule apart_below) simp_all
  have n: "unat (2 :: u32) \<le> 1073741824" by simp
  from memcpy_copies_words [OF n a, of "\<lambda>a. ucast a", THEN conjunct1] show ?thesis
    by (elim allE [of _ 1]) simp
qed

end
