(* ===== verification/Screen.thy ===== *)
theory Screen
  imports Strings
begin

text \<open>
  The console: port I/O (\<^verbatim>\<open>src/drivers/low_level.c\<close>) and the text screen
  (\<^verbatim>\<open>src/lib/screen.c\<close>). The state holds the VGA text buffer (byte offsets from
  \<^verbatim>\<open>VIDEO_ADDRESS\<close>), the log of port accesses, newest first, and the statics of
  \<^verbatim>\<open>screen.c\<close>. The devices are not code of the repository: \<open>dev\<close> answers a port read from the
  log of all accesses so far, and what the kernel relies on is the hypothesis \<open>crtc_law\<close>: reading
  a CRTC register returns the byte last written to it.
\<close>

section \<open>Ports\<close>

datatype ioev = Out u16 u8 | In u16 u8

record pos =
  pos_row :: int
  pos_col :: int

record console =
  vram :: cbuf
  io :: "ioev list"
  dev :: "ioev list \<Rightarrow> u16 \<Rightarrow> u8"
  strbuf :: cbuf
  position :: pos
  attempt_stack :: "int \<Rightarrow> int"
  stack_idx :: int

definition port_byte_out :: "u16 \<Rightarrow> u8 \<Rightarrow> console \<Rightarrow> console" where
  "port_byte_out port data c = c\<lparr>io := Out port data # io c\<rparr>"

definition port_byte_in :: "u16 \<Rightarrow> console \<Rightarrow> u8 \<times> console" where
  "port_byte_in port c =
     (let result = dev c (io c) port in (result, c\<lparr>io := In port result # io c\<rparr>))"

definition outportb :: "u16 \<Rightarrow> u8 \<Rightarrow> console \<Rightarrow> console" where
  "outportb port data c = c\<lparr>io := Out port data # io c\<rparr>"

definition inportb :: "u16 \<Rightarrow> console \<Rightarrow> u8 \<times> console" where
  "inportb port c =
     (let rv = dev c (io c) port in (rv, c\<lparr>io := In port rv # io c\<rparr>))"

lemmas port_defs = port_byte_out_def port_byte_in_def outportb_def inportb_def

section \<open>The text screen\<close>

definition MAX_ROWS :: int where "MAX_ROWS = 25"
definition MAX_COLS :: int where "MAX_COLS = 80"
definition WHITE_ON_BLACK :: u8 where "WHITE_ON_BLACK = 0x0f"
definition WHITE_ON_BLUE :: u8 where "WHITE_ON_BLUE = 0x1f"
definition GREEN_ON_BLACK :: u8 where "GREEN_ON_BLACK = 0x0a"
definition RED_ON_BLACK :: u8 where "RED_ON_BLACK = 0x0c"
definition REG_SCREEN_CTRL :: u16 where "REG_SCREEN_CTRL = 0x3D4"
definition REG_SCREEN_DATA :: u16 where "REG_SCREEN_DATA = 0x3D5"

lemmas screen_defs = MAX_ROWS_def MAX_COLS_def WHITE_ON_BLACK_def WHITE_ON_BLUE_def
  GREEN_ON_BLACK_def RED_ON_BLACK_def REG_SCREEN_CTRL_def REG_SCREEN_DATA_def

abbreviation newline :: u8 where "newline \<equiv> 10"

abbreviation lit :: "string \<Rightarrow> u8 list" where
  "lit s \<equiv> map of_char s"

definition get_screen_offset :: "int \<Rightarrow> int \<Rightarrow> int" where
  "get_screen_offset col row = (row * 80 + col) * 2"

definition get_cursor :: "console \<Rightarrow> u16 \<times> console" where
  "get_cursor c =
     (let c = port_byte_out REG_SCREEN_CTRL 15 c;
          (lo, c) = port_byte_in REG_SCREEN_DATA c;
          offset = (0 OR ucast lo :: u32);
          c = port_byte_out REG_SCREEN_CTRL 14 c;
          (hi, c) = port_byte_in REG_SCREEN_DATA c;
          offset = offset OR push_bit 8 (ucast hi)
      in (ucast (offset * 2), c))"

definition get_position :: "int \<Rightarrow> console \<Rightarrow> pos \<times> console" where
  "get_position offset c =
     (let offset = offset sdiv 2;
          row = offset smod 25;
          col = offset - row * 80;
          p = \<lparr>pos_row = row, pos_col = col\<rparr>
      in (p, c\<lparr>position := p\<rparr>))"

definition set_cursor :: "int \<Rightarrow> console \<Rightarrow> console" where
  "set_cursor offset c =
     (let offset = offset sdiv 2;
          c = port_byte_out REG_SCREEN_CTRL 14 c;
          c = port_byte_out REG_SCREEN_DATA (word_of_int (drop_bit 8 offset)) c;
          c = port_byte_out REG_SCREEN_CTRL 15 c
      in port_byte_out REG_SCREEN_DATA (word_of_int offset) c)"

definition scroll :: "cbuf \<Rightarrow> cbuf" where
  "scroll v =
     (let v = fold (\<lambda>i. memory_copy (get_screen_offset 0 i) (get_screen_offset 0 (i - 1)) (MAX_COLS * 2))
                [1..MAX_ROWS - 1] v;
          last_line = get_screen_offset 0 (MAX_ROWS - 1)
      in fold (\<lambda>i v. v(last_line + i := 0)) [0..MAX_COLS * 2 - 1] v)"

definition handle_scrolling :: "int \<Rightarrow> console \<Rightarrow> int \<times> console" where
  "handle_scrolling offset c =
     (if offset < MAX_ROWS * MAX_COLS * 2 then (offset, c)
      else (offset - 2 * MAX_COLS, c\<lparr>vram := scroll (vram c)\<rparr>))"

definition print_char :: "u8 \<Rightarrow> u8 \<Rightarrow> console \<Rightarrow> console" where
  "print_char character attribute_type c =
     (let attribute_type = (if attribute_type = 0 then WHITE_ON_BLACK else attribute_type);
          (cur, c) = get_cursor c;
          offset = uint cur;
          (offset, c) =
            (if character = newline
             then (get_screen_offset 79 (offset sdiv (2 * MAX_COLS)), c)
             else (offset, c\<lparr>vram := (vram c)(offset := character, offset + 1 := attribute_type)\<rparr>));
          offset = offset + 2;
          (offset, c) = handle_scrolling offset c
      in set_cursor offset c)"

definition print_char_loc :: "u8 \<Rightarrow> int \<Rightarrow> int \<Rightarrow> u8 \<Rightarrow> console \<Rightarrow> console" where
  "print_char_loc character col row attribute_type c =
     (let attribute_type = (if attribute_type = 0 then WHITE_ON_BLACK else attribute_type);
          (offset, c) =
            (if col \<ge> 0 \<and> row \<ge> 0 then (get_screen_offset col row, c)
             else (let (cur, c) = get_cursor c in (uint cur, c)))
      in if character = newline then c
         else c\<lparr>vram := (vram c)(offset := character, offset + 1 := attribute_type)\<rparr>)"

definition print :: "u8 list \<Rightarrow> console \<Rightarrow> console" where
  "print message c = fold (\<lambda>ch. print_char ch WHITE_ON_BLACK) message c"

definition print_at :: "u8 list \<Rightarrow> int \<Rightarrow> int \<Rightarrow> console \<Rightarrow> console" where
  "print_at message col row c =
     fold (\<lambda>ch. print_char ch WHITE_ON_BLACK) message (set_cursor (get_screen_offset col row) c)"

definition println :: "u8 list \<Rightarrow> console \<Rightarrow> console" where
  "println message c = print message (print [newline] c)"

definition push_row :: "console \<Rightarrow> console" where
  "push_row c =
     (let (cur, c) = get_cursor c
      in c\<lparr>attempt_stack := (attempt_stack c)(stack_idx c := uint cur sdiv (2 * MAX_COLS)),
           stack_idx := stack_idx c + 1\<rparr>)"

definition pop_row :: "console \<Rightarrow> int \<times> console" where
  "pop_row c =
     (let c = c\<lparr>stack_idx := stack_idx c - 1\<rparr> in (attempt_stack c (stack_idx c), c))"

definition print_attempt :: "u8 list \<Rightarrow> console \<Rightarrow> console" where
  "print_attempt message c = print message (push_row (println (lit ''[    ] '') c))"

definition print_ok :: "console \<Rightarrow> console" where
  "print_ok c =
     (let (row, c) = pop_row c;
          c = print_char_loc (chr CHR ''O'') 2 row GREEN_ON_BLACK c
      in print_char_loc (chr CHR ''K'') 3 row GREEN_ON_BLACK c)"

definition print_fail :: "console \<Rightarrow> console" where
  "print_fail c =
     (let (row, c) = pop_row c;
          c = print_char_loc (chr CHR ''F'') 1 row RED_ON_BLACK c;
          c = print_char_loc (chr CHR ''A'') 2 row RED_ON_BLACK c;
          c = print_char_loc (chr CHR ''I'') 3 row RED_ON_BLACK c
      in print_char_loc (chr CHR ''L'') 4 row RED_ON_BLACK c)"

definition fill_cells :: "(int \<times> int) list \<Rightarrow> u8 \<Rightarrow> console \<Rightarrow> console" where
  "fill_cells cells attribute_type c =
     fold (\<lambda>(col, row). print_char_loc (chr CHR '' '') col row attribute_type) cells c"

definition clear_screen :: "console \<Rightarrow> console" where
  "clear_screen c =
     set_cursor (get_screen_offset 0 0)
       (fill_cells [(col, row). row \<leftarrow> [0..MAX_ROWS - 1], col \<leftarrow> [0..MAX_COLS - 1]] WHITE_ON_BLACK c)"

definition test_colours :: "console \<Rightarrow> console" where
  "test_colours c =
     snd (fold (\<lambda>(i, j) (colour, c). (colour + 1, print_char_loc (chr CHR ''a'') i j (word_of_int colour) c))
       [(i, j). i \<leftarrow> [0..0xe], j \<leftarrow> [0..0xe]] (0 :: int, c))"

text \<open>\<^verbatim>\<open>print(itoa(num, str, base))\<close>, with the shared buffer \<^verbatim>\<open>str\<close>.\<close>

definition print_num :: "u32 \<Rightarrow> u32 \<Rightarrow> console \<Rightarrow> console option" where
  "print_num num base c =
     (case itoa num (strbuf c) base of None \<Rightarrow> None
      | Some str \<Rightarrow> Some (print (cstr 128 str) (c\<lparr>strbuf := str\<rparr>)))"

section \<open>The panic screen (\<^verbatim>\<open>src/lib/panic.c\<close>)\<close>

definition draw_panic_screen :: "console \<Rightarrow> console" where
  "draw_panic_screen c =
     set_cursor (get_screen_offset 0 0)
       (fill_cells [(column, row). column \<leftarrow> [0..79], row \<leftarrow> [0..24]] WHITE_ON_BLUE c)"

definition panic_text :: "u8 list \<Rightarrow> console \<Rightarrow> console" where
  "panic_text msg c =
     println msg (println (lit ''System fucked'') (println (lit ''PANIC'') (draw_panic_screen c)))"

section \<open>The CRTC cursor registers\<close>

fun crtc_index :: "ioev list \<Rightarrow> u8 option" where
  "crtc_index [] = None"
| "crtc_index (Out p v # l) = (if p = REG_SCREEN_CTRL then Some v else crtc_index l)"
| "crtc_index (In p v # l) = crtc_index l"

fun crtc_reg :: "ioev list \<Rightarrow> u8 \<Rightarrow> u8 option" where
  "crtc_reg [] r = None"
| "crtc_reg (Out p v # l) r =
     (if p = REG_SCREEN_DATA \<and> crtc_index l = Some r then Some v else crtc_reg l r)"
| "crtc_reg (In p v # l) r = crtc_reg l r"

definition crtc_law :: "(ioev list \<Rightarrow> u16 \<Rightarrow> u8) \<Rightarrow> bool" where
  "crtc_law d \<longleftrightarrow> (\<forall>l r v. crtc_index l = Some r \<longrightarrow> crtc_reg l r = Some v \<longrightarrow>
     d l REG_SCREEN_DATA = v)"

definition crtc_dev :: "ioev list \<Rightarrow> u16 \<Rightarrow> u8" where
  "crtc_dev l p = (case crtc_index l of None \<Rightarrow> 0
     | Some r \<Rightarrow> (case crtc_reg l r of None \<Rightarrow> 0 | Some v \<Rightarrow> v))"

lemma crtc_law_crtc_dev: "crtc_law crtc_dev"
  by (simp add: crtc_law_def crtc_dev_def)

text \<open>\<open>cursor c off\<close>: the hardware cursor is at byte offset \<open>off\<close> of the text buffer.\<close>

definition cursor :: "console \<Rightarrow> int \<Rightarrow> bool" where
  "cursor c off \<longleftrightarrow> crtc_law (dev c) \<and> (\<exists>hi lo. crtc_reg (io c) 14 = Some hi \<and>
     crtc_reg (io c) 15 = Some lo \<and> off = 2 * (256 * uint hi + uint lo))"

lemma join_low_high:
  fixes lo hi :: u8
  shows "uint (ucast lo OR push_bit 8 (ucast hi) :: u32) = 256 * uint hi + uint lo"
proof -
  have sum: "(ucast lo OR push_bit 8 (ucast hi) :: u32) = ucast lo + push_bit 8 (ucast hi)"
  proof (rule disjunctive_add [symmetric])
    show "\<not> bit (ucast lo :: u32) n \<or> \<not> bit (push_bit 8 (ucast hi) :: u32) n" for n
      using bit_imp_le_length [of lo n] by (auto simp: bit_simps)
  qed
  have "push_bit 8 (ucast hi) = (256 * ucast hi :: u32)"
    by (simp add: push_bit_eq_mult mult.commute)
  then have "uint (ucast lo OR push_bit 8 (ucast hi) :: u32)
    = (uint (ucast lo :: u32) + 256 * uint (ucast hi :: u32)) mod 4294967296"
    unfolding sum by (simp add: uint_word_ariths mod_simps)
  moreover have "uint (ucast lo :: u32) = uint lo" "uint (ucast hi :: u32) = uint hi"
    by (simp_all add: uint_up_ucast is_up)
  moreover have "uint hi < 256" "uint lo < 256" "0 \<le> uint hi" "0 \<le> uint lo"
    using uint_lt2p [of hi] uint_lt2p [of lo] by simp_all
  ultimately show ?thesis by simp
qed

lemma cursor_nonneg: "cursor c off \<Longrightarrow> 0 \<le> off"
  by (auto simp: cursor_def)

lemma cursor_even: "cursor c off \<Longrightarrow> even off"
  by (auto simp: cursor_def)

lemma get_cursor_result:
  assumes "cursor c off" and "off < 65536"
  shows "uint (fst (get_cursor c)) = off" and "cursor (snd (get_cursor c)) off"
    and "\<exists>l. snd (get_cursor c) = c\<lparr>io := l\<rparr>"
proof -
  obtain hi lo where r: "crtc_law (dev c)" "crtc_reg (io c) 14 = Some hi"
      "crtc_reg (io c) 15 = Some lo" "off = 2 * (256 * uint hi + uint lo)"
    using assms by (auto simp: cursor_def)
  let ?l1 = "Out REG_SCREEN_CTRL 15 # io c"
  let ?l2 = "Out REG_SCREEN_CTRL 14 # In REG_SCREEN_DATA lo # ?l1"
  have ports: "REG_SCREEN_CTRL \<noteq> REG_SCREEN_DATA" by (simp add: screen_defs)
  have lo: "dev c ?l1 REG_SCREEN_DATA = lo"
    using r(1) [unfolded crtc_law_def, rule_format, of ?l1 15 lo] r(3) ports by simp
  have hi: "dev c ?l2 REG_SCREEN_DATA = hi"
    using r(1) [unfolded crtc_law_def, rule_format, of ?l2 14 hi] r(2) ports by simp
  let ?w = "ucast lo OR push_bit 8 (ucast hi) :: u32"
  have g: "get_cursor c = (ucast (?w * 2), c\<lparr>io := In REG_SCREEN_DATA hi # ?l2\<rparr>)"
    using lo hi by (simp add: get_cursor_def port_defs Let_def)
  have "uint (?w * 2) = off"
    using assms(2) r(4) by (simp add: uint_word_ariths join_low_high)
  then have "uint (ucast (?w * 2) :: u16) = off"
    using assms(2) cursor_nonneg [OF assms(1)]
    by (simp add: unsigned_ucast_eq take_bit_eq_mod)
  then show "uint (fst (get_cursor c)) = off" by (simp add: g)
  show "cursor (snd (get_cursor c)) off"
    using r ports by (simp add: g cursor_def)
  show "\<exists>l. snd (get_cursor c) = c\<lparr>io := l\<rparr>" by (auto simp: g)
qed

lemma sdiv_pos: "0 \<le> a \<Longrightarrow> 0 < b \<Longrightarrow> a sdiv b = a div (b::int)"
  by (auto simp: signed_divide_int_def sgn_if)

lemma set_cursor_result:
  assumes "crtc_law (dev c)" and "0 \<le> off" and "off < 131072" and "even off"
  shows "cursor (set_cursor off c) off" and "\<exists>l. set_cursor off c = c\<lparr>io := l\<rparr>"
proof -
  have ports: "REG_SCREEN_DATA \<noteq> REG_SCREEN_CTRL" "REG_SCREEN_CTRL \<noteq> REG_SCREEN_DATA"
    by (simp_all add: screen_defs)
  let ?h = "word_of_int (drop_bit 8 (off div 2)) :: u8" and ?l = "word_of_int (off div 2) :: u8"
  have s: "set_cursor off c = c\<lparr>io := Out REG_SCREEN_DATA ?l # Out REG_SCREEN_CTRL 15
      # Out REG_SCREEN_DATA ?h # Out REG_SCREEN_CTRL 14 # io c\<rparr>"
    using assms(2) by (simp add: set_cursor_def port_defs Let_def sdiv_pos)
  have "256 * uint ?h + uint ?l = off div 2"
    using assms(2,3) by (simp add: uint_word_of_int drop_bit_eq_div)
  then have "off = 2 * (256 * uint ?h + uint ?l)"
    using assms(4) by simp
  then show "cursor (set_cursor off c) off"
    using assms(1) ports by (simp add: s cursor_def)
  show "\<exists>l. set_cursor off c = c\<lparr>io := l\<rparr>" by (auto simp: s)
qed

section \<open>Scrolling\<close>

lemma memory_copy_loop_at:
  assumes "s + int n \<le> d \<or> d + int n \<le> s"
  shows "memory_copy_loop n s d m i = (if d \<le> i \<and> i < d + int n then m (s + (i - d)) else m i)"
  using assms
proof (induction n arbitrary: s d m)
  case (Suc n)
  have "memory_copy_loop n (s + 1) (d + 1) (m(d := m s)) i =
    (if d + 1 \<le> i \<and> i < d + 1 + int n then (m(d := m s)) (s + 1 + (i - (d + 1)))
     else (m(d := m s)) i)"
    using Suc.prems by (intro Suc.IH) auto
  then show ?case using Suc.prems by (auto simp: algebra_simps)
qed auto

lemma fold_rows:
  "fold (\<lambda>i. memory_copy (get_screen_offset 0 i) (get_screen_offset 0 (i - 1)) 160) [1..int k] v j
    = (if 0 \<le> j \<and> j < 160 * int k then v (j + 160) else v j)"
proof (induction k arbitrary: j)
  case (Suc k)
  let ?f = "\<lambda>i. memory_copy (get_screen_offset 0 i) (get_screen_offset 0 (i - 1)) 160"
  have "[1..int (Suc k)] = [1..int k] @ [int k + 1]"
    by (simp add: upto_rec2 add.commute)
  then have "fold ?f [1..int (Suc k)] v j = ?f (int k + 1) (fold ?f [1..int k] v) j"
    by (simp only: fold_append fold.simps comp_apply id_apply)
  also have "\<dots> = (if 160 * int k \<le> j \<and> j < 160 * int k + 160
      then fold ?f [1..int k] v (j + 160) else fold ?f [1..int k] v j)"
    by (simp add: memory_copy_def memory_copy_loop_at get_screen_offset_def algebra_simps)
  also have "\<dots> = (if 0 \<le> j \<and> j < 160 * int (Suc k) then v (j + 160) else v j)"
    unfolding Suc.IH by auto
  finally show ?case .
qed auto

lemma fold_zero:
  "fold (\<lambda>i v. v(b + i := 0)) [0..int k - 1] v j = (if b \<le> j \<and> j < b + int k then 0 else v j)"
proof (induction k)
  case (Suc k)
  let ?f = "\<lambda>i v. v(b + i := 0)"
  have "[0..int (Suc k) - 1] = [0..int k - 1] @ [int k]"
    by (simp add: upto_rec2)
  then have "fold ?f [0..int (Suc k) - 1] v j = ?f (int k) (fold ?f [0..int k - 1] v) j"
    by (simp only: fold_append fold.simps comp_apply id_apply)
  also have "\<dots> = (if b \<le> j \<and> j < b + int (Suc k) then 0 else v j)"
    by (auto simp: Suc.IH)
  finally show ?case .
qed auto

lemma scroll_at:
  "scroll v j = (if 0 \<le> j \<and> j < 3840 then v (j + 160) else if 3840 \<le> j \<and> j < 4000 then 0 else v j)"
  using fold_zero [of 3840 160 "fold (\<lambda>i. memory_copy (get_screen_offset 0 i) (get_screen_offset 0 (i - 1)) 160) [1..24] v" j]
    fold_rows [of 24 v j]
  by (simp add: scroll_def screen_defs get_screen_offset_def)

section \<open>What printing does to the screen\<close>

text \<open>The statics of \<^verbatim>\<open>screen.c\<close> and the devices, which printing leaves alone.\<close>

definition same_statics :: "console \<Rightarrow> console \<Rightarrow> bool" where
  "same_statics c c' \<longleftrightarrow> dev c' = dev c \<and> strbuf c' = strbuf c \<and> position c' = position c \<and>
     attempt_stack c' = attempt_stack c \<and> stack_idx c' = stack_idx c"

lemma same_statics_refl [simp]: "same_statics c c"
  by (simp add: same_statics_def)

lemma same_statics_trans: "same_statics a b \<Longrightarrow> same_statics b c \<Longrightarrow> same_statics a c"
  by (simp add: same_statics_def)

text \<open>Where the cursor goes, and what the buffer is, after one character at \<open>off\<close>.\<close>

definition next_off :: "u8 \<Rightarrow> int \<Rightarrow> int" where
  "next_off ch off = (if ch = newline then 160 * (off div 160) + 160 else off + 2)"

definition put_cell :: "u8 \<Rightarrow> u8 \<Rightarrow> int \<Rightarrow> cbuf \<Rightarrow> cbuf" where
  "put_cell ch a off v = (if ch = newline then v
     else v(off := ch, off + 1 := (if a = 0 then WHITE_ON_BLACK else a)))"

lemma print_char_result:
  assumes "cursor c off" and "off < 4000"
  shows "vram (print_char ch a c) =
      (if next_off ch off < 4000 then put_cell ch a off (vram c) else scroll (put_cell ch a off (vram c)))"
    and "cursor (print_char ch a c)
      (if next_off ch off < 4000 then next_off ch off else next_off ch off - 160)"
    and "same_statics c (print_char ch a c)"
proof -
  have off: "0 \<le> off" "even off" using assms cursor_nonneg cursor_even by blast+
  obtain l where g: "uint (fst (get_cursor c)) = off" "snd (get_cursor c) = c\<lparr>io := l\<rparr>"
    using get_cursor_result [OF assms(1)] assms(2) by auto
  have law: "crtc_law (dev c)" using assms(1) by (simp add: cursor_def)
  let ?v = "put_cell ch a off (vram c)"
  let ?n = "next_off ch off"
  let ?o = "if ?n < 4000 then ?n else ?n - 160"
  let ?c = "c\<lparr>io := l, vram := if ?n < 4000 then ?v else scroll ?v\<rparr>"
  have "(160 * (off div 160) + 160 :: int) \<le> 4000" using assms(2) by presburger
  then have n: "0 \<le> ?n" "?n \<le> 4000" "even ?n"
    using off assms(2) by (auto simp: next_off_def)
  have p: "print_char ch a c = set_cursor ?o ?c"
    using g off by (simp add: print_char_def Let_def split_beta next_off_def put_cell_def
        handle_scrolling_def screen_defs get_screen_offset_def sdiv_pos) (simp add: add.commute)
  have o: "crtc_law (dev ?c)" "0 \<le> ?o" "?o < 131072" "even ?o"
    using law n by auto
  obtain l' where "set_cursor ?o ?c = ?c\<lparr>io := l'\<rparr>"
    using set_cursor_result(2) [OF o] by blast
  then show "vram (print_char ch a c) = (if ?n < 4000 then ?v else scroll ?v)"
    and "same_statics c (print_char ch a c)"
    by (simp_all add: p same_statics_def)
  show "cursor (print_char ch a c) ?o"
    unfolding p by (rule set_cursor_result(1) [OF o])
qed

text \<open>\<open>on_screen c\<close>: the cursor is in the 25 by 80 text buffer.\<close>

definition on_screen :: "console \<Rightarrow> bool" where
  "on_screen c \<longleftrightarrow> (\<exists>off. cursor c off \<and> off < 4000)"

lemma scroll_outside: "j < 0 \<or> 4000 \<le> j \<Longrightarrow> scroll v j = v j"
  by (auto simp: scroll_at)

lemma print_char_on_screen:
  assumes "on_screen c"
  shows "on_screen (print_char ch a c)" and "same_statics c (print_char ch a c)"
    and "j < 0 \<or> 4000 \<le> j \<Longrightarrow> vram (print_char ch a c) j = vram c j"
proof -
  obtain off where c: "cursor c off" "off < 4000"
    using assms by (auto simp: on_screen_def)
  have off: "0 \<le> off" "even off" using c cursor_nonneg cursor_even by blast+
  then have "off \<le> 3998" using c(2) by presburger
  moreover have "(160 * (off div 160) + 160 :: int) \<le> 4000" using c(2) by presburger
  ultimately have n: "next_off ch off \<le> 4000" by (simp add: next_off_def)
  show "on_screen (print_char ch a c)"
    unfolding on_screen_def
    by (intro exI conjI, rule print_char_result(2) [OF c, of ch a]) (use n in simp)
  show "same_statics c (print_char ch a c)"
    by (rule print_char_result(3) [OF c])
  assume j: "j < 0 \<or> 4000 \<le> j"
  then have "put_cell ch a off (vram c) j = vram c j"
    using off \<open>off \<le> 3998\<close> by (auto simp: put_cell_def)
  then show "vram (print_char ch a c) j = vram c j"
    using print_char_result(1) [OF c] j by (simp add: scroll_outside)
qed

lemma print_Nil [simp]: "print [] c = c"
  by (simp add: print_def)

lemma print_Cons [simp]: "print (ch # m) c = print m (print_char ch WHITE_ON_BLACK c)"
  by (simp add: print_def)

lemma print_append: "print (m @ m') c = print m' (print m c)"
  by (simp add: print_def)

lemma println_eq: "println m c = print (newline # m) c"
  by (simp add: println_def)

lemma print_on_screen:
  assumes "on_screen c"
  shows "on_screen (print m c) \<and> same_statics c (print m c) \<and>
    (\<forall>j. j < 0 \<or> 4000 \<le> j \<longrightarrow> vram (print m c) j = vram c j)"
  using assms
proof (induction m arbitrary: c)
  case (Cons ch m)
  note pc = print_char_on_screen [OF Cons.prems, where ch = ch and a = WHITE_ON_BLACK]
  show ?case
    using Cons.IH [OF pc(1)] pc(2,3) by (auto intro: same_statics_trans)
qed simp

fun put_text :: "int \<Rightarrow> u8 list \<Rightarrow> cbuf \<Rightarrow> cbuf" where
  "put_text off [] v = v"
| "put_text off (ch # m) v = put_text (off + 2) m (put_cell ch WHITE_ON_BLACK off v)"

lemma put_text_at:
  assumes "newline \<notin> set m"
  shows "put_text off m v j = (if off \<le> j \<and> j < off + 2 * int (length m)
    then (if even (j - off) then m ! nat ((j - off) div 2) else WHITE_ON_BLACK) else v j)"
  using assms
proof (induction m arbitrary: off v)
  case (Cons ch m)
  have IH: "put_text (off + 2) m w j = (if off + 2 \<le> j \<and> j < off + 2 + 2 * int (length m)
    then (if even (j - (off + 2)) then m ! nat ((j - (off + 2)) div 2) else WHITE_ON_BLACK)
    else w j)" for w
    using Cons by simp
  show ?case
  proof (cases "off + 2 \<le> j")
    case True
    then have "nat ((j - off) div 2) = Suc (nat ((j - (off + 2)) div 2))" by arith
    with True Cons.prems show ?thesis unfolding put_text.simps IH by (auto simp: put_cell_def)
  next
    case False
    then consider "j = off" | "j = off + 1" | "j < off" by arith
    then show ?thesis
      using Cons.prems unfolding put_text.simps IH by cases (auto simp: put_cell_def screen_defs)
  qed
qed auto

lemma print_line:
  assumes "cursor c off" and "newline \<notin> set m" and "off + 2 * int (length m) < 4000"
  shows "cursor (print m c) (off + 2 * int (length m)) \<and>
    vram (print m c) = put_text off m (vram c) \<and> same_statics c (print m c)"
  using assms
proof (induction m arbitrary: c off)
  case (Cons ch m)
  let ?c = "print_char ch WHITE_ON_BLACK c"
  have c: "cursor c off" "off < 4000" and n: "next_off ch off < 4000"
    and nl: "next_off ch off = off + 2"
    using Cons.prems by (auto simp: next_off_def)
  have c': "cursor ?c (off + 2)" and v: "vram ?c = put_cell ch WHITE_ON_BLACK off (vram c)"
    using print_char_result(1,2) [OF c, of ch WHITE_ON_BLACK] n nl by simp_all
  have st: "same_statics c ?c" by (rule print_char_result(3) [OF c])
  have "cursor (print m ?c) (off + 2 + 2 * int (length m)) \<and>
      vram (print m ?c) = put_text (off + 2) m (vram ?c) \<and> same_statics ?c (print m ?c)"
    using Cons.prems by (intro Cons.IH [OF c']) auto
  then show ?case using st v by (auto intro: same_statics_trans simp: algebra_simps)
qed simp

text \<open>
  \<^verbatim>\<open>println\<close> of a message that fits a row starts the next row (scrolling the screen up by
  one row when the cursor is on the last), shows the message there white on black, leaves the
  cursor behind it and changes nothing else on the screen.
\<close>

theorem println_shows:
  assumes "cursor c off" and "off < 4000" and "newline \<notin> set m" and "length m < 80"
  defines "r \<equiv> min (off div 160 + 1) 24"
  shows "cursor (println m c) (160 * r + 2 * int (length m)) \<and>
    (\<forall>k < length m. vram (println m c) (160 * r + 2 * int k) = m ! k \<and>
       vram (println m c) (160 * r + 2 * int k + 1) = WHITE_ON_BLACK) \<and>
    (\<forall>j. j < 160 * r \<or> 160 * r + 2 * int (length m) \<le> j \<longrightarrow> vram (println m c) j =
       (if off div 160 < 24 then vram c j else scroll (vram c) j))"
proof -
  let ?c = "print_char newline WHITE_ON_BLACK c"
  have n: "next_off newline off = 160 * (off div 160) + 160" by (simp add: next_off_def)
  have "off div 160 \<le> 24" using assms(2) by presburger
  then have pos: "(if next_off newline off < 4000 then next_off newline off
      else next_off newline off - 160) = 160 * r"
    unfolding n r_def by auto
  have c': "cursor ?c (160 * r)"
    using print_char_result(2) [OF assms(1,2), of newline WHITE_ON_BLACK] unfolding pos .
  have v': "vram ?c = (if off div 160 < 24 then vram c else scroll (vram c))"
    using print_char_result(1) [OF assms(1,2), of newline WHITE_ON_BLACK] n
    by (simp add: put_cell_def)
  have "r \<le> 24" by (simp add: r_def)
  then have "160 * r + 2 * int (length m) < 4000"
    using assms(4) by linarith
  note line = print_line [OF c' assms(3) this]
  show ?thesis
    unfolding println_eq print_Cons using line
    by (auto simp: put_text_at [OF assms(3)] v')
qed

text \<open>A console whose cursor is at \<open>off\<close>, with a CRTC that obeys the law.\<close>

definition console_at :: "int \<Rightarrow> console" where
  "console_at off = set_cursor off \<lparr>vram = (\<lambda>_. 0), io = [], dev = crtc_dev, strbuf = (\<lambda>_. 0),
     position = \<lparr>pos_row = 0, pos_col = 0\<rparr>, attempt_stack = (\<lambda>_. 0), stack_idx = 0\<rparr>"

lemma cursor_console_at: "0 \<le> off \<Longrightarrow> off < 4000 \<Longrightarrow> even off \<Longrightarrow> cursor (console_at off) off"
  unfolding console_at_def by (rule set_cursor_result(1)) (simp_all add: crtc_law_crtc_dev)

theorem println_shows_witness:
  "vram (println (lit ''OK'') (console_at 3840)) (160 * 24 + 2 * int 1) = chr CHR ''K''"
  using println_shows [OF cursor_console_at, of 3840 "lit ''OK''"]
  by (auto dest: spec [of _ 1])

text \<open>
  C34: whatever is printed, the cursor stays in the 25 by 80 buffer, no byte outside the
  buffer's 4000 bytes changes, and the statics of the module keep their values.
\<close>

theorem println_stays_in_buffer:
  assumes "on_screen c"
  shows "on_screen (println m c) \<and> same_statics c (println m c) \<and>
    (\<forall>j. j < 0 \<or> 4000 \<le> j \<longrightarrow> vram (println m c) j = vram c j)"
  unfolding println_eq by (rule print_on_screen [OF assms])

theorem println_stays_in_buffer_witness:
  "on_screen (println (lit ''NickOS'') (console_at 3998))"
proof -
  have "on_screen (console_at 3998)"
    unfolding on_screen_def by (intro exI conjI, rule cursor_console_at) simp_all
  from println_stays_in_buffer [OF this] show ?thesis by blast
qed

text \<open>
  the cursor offset \<^verbatim>\<open>set_cursor\<close> stores in the CRTC is the one \<^verbatim>\<open>get_cursor\<close> reads back, for
  every cell of a text buffer of up to 64 KiB.
\<close>

theorem cursor_roundtrip:
  assumes "crtc_law (dev c)" and "0 \<le> off" and "off < 65536" and "even off"
  shows "uint (fst (get_cursor (set_cursor off c))) = off"
  by (rule get_cursor_result(1), rule set_cursor_result(1)) (use assms in auto)

theorem cursor_roundtrip_witness:
  "uint (fst (get_cursor (set_cursor 322 (console_at 0)))) = 322"
proof (rule cursor_roundtrip)
  show "crtc_law (dev (console_at 0))"
    using cursor_console_at [of 0] by (simp add: cursor_def)
qed simp_all

section \<open>Whole-screen drawing and the status column\<close>

lemma print_char_loc_cell:
  assumes "0 \<le> col" and "0 \<le> row" and "ch \<noteq> newline"
  shows "print_char_loc ch col row a c = c\<lparr>vram := put_cell ch a (get_screen_offset col row) (vram c)\<rparr>"
  using assms by (simp add: print_char_loc_def put_cell_def Let_def)

definition on_grid :: "(int \<times> int) list \<Rightarrow> bool" where
  "on_grid cells \<longleftrightarrow> (\<forall>(col, row) \<in> set cells. 0 \<le> col \<and> col < 80 \<and> 0 \<le> row)"

lemma fill_cells_statics: "on_grid cells \<Longrightarrow> \<exists>v. fill_cells cells a c = c\<lparr>vram := v\<rparr>"
proof (induction cells arbitrary: c)
  case Nil
  have "fill_cells [] a c = c\<lparr>vram := vram c\<rparr>" by (simp add: fill_cells_def)
  then show ?case by blast
next
  case (Cons x cells)
  obtain col row where x: "x = (col, row)" by force
  let ?c = "print_char_loc (chr CHR '' '') col row a c"
  have g: "on_grid cells" "0 \<le> col" "0 \<le> row" using Cons.prems by (auto simp: on_grid_def x)
  obtain v where "fill_cells cells a ?c = ?c\<lparr>vram := v\<rparr>"
    using Cons.IH [OF g(1)] by blast
  then have "fill_cells (x # cells) a c = c\<lparr>vram := v\<rparr>"
    using g by (simp add: fill_cells_def x print_char_loc_cell)
  then show ?case by blast
qed

lemma get_screen_offset_inj:
  assumes "0 \<le> k" and "k < 80" and "0 \<le> col" and "col < 80"
  shows "get_screen_offset k l = get_screen_offset col row \<longleftrightarrow> k = col \<and> l = row"
proof
  assume "get_screen_offset k l = get_screen_offset col row"
  then have e: "l * 80 + k = row * 80 + col" by (simp add: get_screen_offset_def)
  have "(l * 80 + k) div 80 = l" "(row * 80 + col) div 80 = row" using assms by simp_all
  with e have "l = row" by simp
  with e show "k = col \<and> l = row" by simp
qed simp

lemma get_screen_offset_even: "even (get_screen_offset col row)"
  by (simp add: get_screen_offset_def)

lemma get_screen_offset_odd:
  "get_screen_offset k l \<noteq> get_screen_offset col row + 1"
  "get_screen_offset k l + 1 \<noteq> get_screen_offset col row"
  using get_screen_offset_even [of k l] get_screen_offset_even [of col row] by presburger+

lemma fill_cells_at:
  assumes "on_grid cells" and "0 \<le> col" and "col < 80" and "0 \<le> row"
  shows "vram (fill_cells cells a c) (get_screen_offset col row) =
      (if (col, row) \<in> set cells then chr CHR '' '' else vram c (get_screen_offset col row))"
    and "vram (fill_cells cells a c) (get_screen_offset col row + 1) =
      (if (col, row) \<in> set cells then (if a = 0 then WHITE_ON_BLACK else a)
       else vram c (get_screen_offset col row + 1))"
proof -
  have "vram (fill_cells cells a c) (get_screen_offset col row) =
      (if (col, row) \<in> set cells then chr CHR '' '' else vram c (get_screen_offset col row)) \<and>
    vram (fill_cells cells a c) (get_screen_offset col row + 1) =
      (if (col, row) \<in> set cells then (if a = 0 then WHITE_ON_BLACK else a)
       else vram c (get_screen_offset col row + 1))"
    using assms(1)
  proof (induction cells arbitrary: c)
    case (Cons x cells)
    obtain k l where x: "x = (k, l)" by force
    have g: "on_grid cells" "0 \<le> k" "k < 80" "0 \<le> l"
      using Cons.prems by (auto simp: on_grid_def x)
    have same: "get_screen_offset k l = get_screen_offset col row \<longleftrightarrow> k = col \<and> l = row"
      using g assms by (intro get_screen_offset_inj)
    have "fill_cells (x # cells) a c =
        fill_cells cells a (print_char_loc (chr CHR '' '') k l a c)"
      by (simp add: fill_cells_def x)
    then show ?case
      using Cons.IH [OF g(1)] g same get_screen_offset_odd
      by (auto simp: print_char_loc_cell put_cell_def x)
  qed (simp add: fill_cells_def)
  then show "vram (fill_cells cells a c) (get_screen_offset col row) =
      (if (col, row) \<in> set cells then chr CHR '' '' else vram c (get_screen_offset col row))"
    and "vram (fill_cells cells a c) (get_screen_offset col row + 1) =
      (if (col, row) \<in> set cells then (if a = 0 then WHITE_ON_BLACK else a)
       else vram c (get_screen_offset col row + 1))"
    by simp_all
qed

lemma set_cursor_vram [simp]: "vram (set_cursor off c) = vram c"
  by (simp add: set_cursor_def port_defs Let_def)

text \<open>
  the panic screen covers the whole text buffer: after \<^verbatim>\<open>draw_panic_screen\<close> each of the 25 by
  80 cells is a blank in white on blue, whatever was shown before.
\<close>

theorem panic_screen_covers:
  assumes "0 \<le> col" and "col < 80" and "0 \<le> row" and "row < 25"
  shows "vram (draw_panic_screen c) (get_screen_offset col row) = chr CHR '' '' \<and>
    vram (draw_panic_screen c) (get_screen_offset col row + 1) = WHITE_ON_BLUE"
proof -
  have g: "on_grid [(column, row). column \<leftarrow> [0..79], row \<leftarrow> [0..24]]"
    by (auto simp: on_grid_def)
  have i: "(col, row) \<in> set [(column, row). column \<leftarrow> [0..79], row \<leftarrow> [0..24]]"
    using assms by (auto intro!: bexI [of _ col])
  show ?thesis
    using fill_cells_at [OF g assms(1-3), of WHITE_ON_BLUE c] i
    by (simp add: draw_panic_screen_def screen_defs del: set_concat)
qed

theorem panic_screen_covers_witness:
  "vram (draw_panic_screen (console_at 0)) (get_screen_offset 79 24) = chr CHR '' ''"
  using panic_screen_covers [of 79 24 "console_at 0"] by simp

text \<open>
  \<^verbatim>\<open>get_position\<close> is not the inverse of \<^verbatim>\<open>get_screen_offset\<close>: it takes the row modulo the
  number of rows instead of dividing by the number of columns, and is right only for the
  cells with \<open>79 * row + col\<close> divisible by 25.
\<close>

theorem get_position_right_iff:
  assumes "0 \<le> col" and "col < 80" and "0 \<le> row" and "row < 25"
  shows "fst (get_position (get_screen_offset col row) c) = \<lparr>pos_row = row, pos_col = col\<rparr> \<longleftrightarrow>
    25 dvd (79 * row + col)"
proof -
  have "get_screen_offset col row sdiv 2 = row * 80 + col"
    using assms by (simp add: get_screen_offset_def sdiv_pos)
  moreover have "(row * 80 + col) smod 25 = (row * 80 + col) mod 25"
    using assms by (simp add: signed_modulo_int_def sgn_if)
  moreover have "(row * 80 + col) mod 25 = row \<longleftrightarrow> 25 dvd (79 * row + col)"
    using assms mod_eq_dvd_iff [of "row * 80 + col" 25 row] by simp
  ultimately show ?thesis by (auto simp: get_position_def Let_def)
qed

theorem get_position_right_iff_witness:
  "fst (get_position (get_screen_offset 0 1) (console_at 0)) \<noteq> \<lparr>pos_row = 1, pos_col = 0\<rparr>"
  using get_position_right_iff [of 0 1 "console_at 0"] by simp

end
