(* ===== verification/Segments.thy ===== *)
theory Segments
  imports Prelude
begin

text \<open>
  The global descriptor table (\<^verbatim>\<open>src/gdt/gdt.c\<close>, \<^verbatim>\<open>gdt.h\<close>). An entry is the packed bit-field
  struct; \<open>gdt_encode\<close> is its 8-byte image in memory, low field first, and \<open>seg_base\<close>,
  \<open>seg_limit\<close> read the image the way the processor does. The boot loader's descriptors
  (\<^verbatim>\<open>src/boot/gdt.asm\<close>) are the byte images the C table is compared with.
\<close>

record gdt_entry =
  g_limit_0_15 :: u16
  g_base_0_15 :: u16
  g_base_16_23 :: u8
  g_accessed :: "1 word"
  g_read_write :: "1 word"
  g_direction :: "1 word"
  g_executable :: "1 word"
  g_reserved_1 :: "1 word"
  g_privilege_level :: "2 word"
  g_present :: "1 word"
  g_limit_16_19 :: "4 word"
  g_reserved_2 :: "2 word"
  g_size :: "1 word"
  g_granularity :: "1 word"
  g_base_24_31 :: u8

record gdt_info =
  gi_size :: u16
  gi_offset :: u32

definition GDT_SIZE :: nat where "GDT_SIZE = 6"

definition sizeof_gdt_entry :: nat where "sizeof_gdt_entry = 8"

definition gdt_fill_entry :: "nat \<Rightarrow> bool \<Rightarrow> u8 \<Rightarrow> gdt_entry list \<Rightarrow> gdt_entry list" where
  "gdt_fill_entry index executable privilege_level gdt =
     gdt[index := (gdt ! index)
       \<lparr>g_limit_0_15 := 0xFFFF, g_base_0_15 := 0, g_base_16_23 := 0,
        g_accessed := 0, g_read_write := 1, g_direction := 0,
        g_executable := (if executable then 1 else 0), g_reserved_1 := 1,
        g_privilege_level := ucast privilege_level, g_present := 1,
        g_limit_16_19 := 0xf, g_reserved_2 := 0, g_size := 1, g_granularity := 1,
        g_base_24_31 := 0\<rparr>]"

text \<open>
  \<^verbatim>\<open>gdt_add_tss\<close>, for the address \<open>tss\<close> that \<^verbatim>\<open>get_kernel_tss()\<close> returns. The shift by
  \<^verbatim>\<open>0xFFFF\<close> exceeds the width of the operand: C leaves its value open, so it is the
  parameter \<open>oversize_shift\<close>.
\<close>

definition gdt_add_tss ::
  "(u32 \<Rightarrow> u8) \<Rightarrow> u32 \<Rightarrow> nat \<Rightarrow> bool \<Rightarrow> u8 \<Rightarrow> gdt_entry list \<Rightarrow> gdt_entry list" where
  "gdt_add_tss oversize_shift tss index executable privilege_level gdt =
     gdt[index := (gdt ! index)
       \<lparr>g_limit_0_15 := 0x68, g_base_0_15 := ucast (tss AND 0xFFFF),
        g_base_16_23 := oversize_shift (tss AND 0xFF0000),
        g_accessed := 0, g_read_write := 1, g_direction := 0,
        g_executable := (if executable then 1 else 0), g_reserved_1 := 1,
        g_privilege_level := ucast privilege_level, g_present := 1,
        g_limit_16_19 := 0xf, g_reserved_2 := 0, g_size := 1, g_granularity := 1,
        g_base_24_31 := 0\<rparr>]"

text \<open>The table \<^verbatim>\<open>gdt_init\<close> fills, and the pointer it loads with \<^verbatim>\<open>lgdt\<close>.\<close>

definition gdt_init_table :: "gdt_entry list \<Rightarrow> gdt_entry list" where
  "gdt_init_table gdt =
     gdt_fill_entry 4 False 3 (gdt_fill_entry 3 True 3
       (gdt_fill_entry 2 False 0 (gdt_fill_entry 1 True 0 gdt)))"

definition gdt_init_info :: "u32 \<Rightarrow> gdt_info" where
  "gdt_init_info gdt_addr =
     \<lparr>gi_size = of_nat (sizeof_gdt_entry * GDT_SIZE - 1), gi_offset = gdt_addr\<rparr>"

section \<open>The memory image\<close>

definition gdt_encode :: "gdt_entry \<Rightarrow> u64" where
  "gdt_encode e =
     ucast (g_limit_0_15 e) OR push_bit 16 (ucast (g_base_0_15 e))
     OR push_bit 32 (ucast (g_base_16_23 e)) OR push_bit 40 (ucast (g_accessed e))
     OR push_bit 41 (ucast (g_read_write e)) OR push_bit 42 (ucast (g_direction e))
     OR push_bit 43 (ucast (g_executable e)) OR push_bit 44 (ucast (g_reserved_1 e))
     OR push_bit 45 (ucast (g_privilege_level e)) OR push_bit 47 (ucast (g_present e))
     OR push_bit 48 (ucast (g_limit_16_19 e)) OR push_bit 52 (ucast (g_reserved_2 e))
     OR push_bit 54 (ucast (g_size e)) OR push_bit 55 (ucast (g_granularity e))
     OR push_bit 56 (ucast (g_base_24_31 e))"

definition seg_base :: "u64 \<Rightarrow> u32" where
  "seg_base d = ucast (take_bit 24 (drop_bit 16 d)) OR push_bit 24 (ucast (drop_bit 56 d))"

definition seg_limit :: "u64 \<Rightarrow> u32" where
  "seg_limit d = ucast (take_bit 16 d) OR push_bit 16 (ucast (take_bit 4 (drop_bit 48 d)))"

definition seg_dpl :: "u64 \<Rightarrow> u32" where
  "seg_dpl d = ucast (take_bit 2 (drop_bit 45 d))"

text \<open>The descriptors of \<^verbatim>\<open>src/boot/gdt.asm\<close>, as the words their directives lay out.\<close>

definition asm_desc :: "u16 \<Rightarrow> u16 \<Rightarrow> u8 \<Rightarrow> u8 \<Rightarrow> u8 \<Rightarrow> u8 \<Rightarrow> u64" where
  "asm_desc limit base_lo base_mid flags1 flags2 base_hi =
     ucast limit OR push_bit 16 (ucast base_lo) OR push_bit 32 (ucast base_mid)
     OR push_bit 40 (ucast flags1) OR push_bit 48 (ucast flags2) OR push_bit 56 (ucast base_hi)"

definition gdt_code :: u64 where "gdt_code = asm_desc 0xffff 0 0 0b10011010 0b11001111 0"

definition gdt_data :: u64 where "gdt_data = asm_desc 0xffff 0 0 0b10010010 0b11001111 0"

lemmas segment_defs = gdt_init_table_def gdt_fill_entry_def gdt_encode_def seg_base_def
  seg_limit_def seg_dpl_def

lemma length_gdt_init_table [simp]: "length (gdt_init_table gdt) = length gdt"
  by (simp add: gdt_init_table_def gdt_fill_entry_def)

text \<open>
  \<^verbatim>\<open>gdt_init\<close> installs, in entries 1 and 2, exactly the code and data descriptors of the
  boot loader's table, keeps the null descriptor and entry 5, and adds the same flat segments
  at privilege 3 in entries 3 and 4; the loaded limit covers the six entries.
\<close>

theorem gdt_init_flat:
  assumes "length gdt = GDT_SIZE"
  shows "gdt_encode (gdt_init_table gdt ! 1) = gdt_code \<and>
    gdt_encode (gdt_init_table gdt ! 2) = gdt_data \<and>
    gdt_init_table gdt ! 0 = gdt ! 0 \<and> gdt_init_table gdt ! 5 = gdt ! 5 \<and>
    (\<forall>i \<in> {1, 2, 3, 4}. seg_base (gdt_encode (gdt_init_table gdt ! i)) = 0 \<and>
       seg_limit (gdt_encode (gdt_init_table gdt ! i)) = 0xFFFFF \<and>
       seg_dpl (gdt_encode (gdt_init_table gdt ! i)) = (if i \<le> 2 then 0 else 3)) \<and>
    unat (gi_size (gdt_init_info a)) + 1 = sizeof_gdt_entry * GDT_SIZE"
  using assms
  by (simp add: segment_defs gdt_code_def gdt_data_def asm_desc_def gdt_init_info_def
      GDT_SIZE_def sizeof_gdt_entry_def)

definition null_entry :: gdt_entry where
  "null_entry = \<lparr>g_limit_0_15 = 0, g_base_0_15 = 0, g_base_16_23 = 0, g_accessed = 0,
     g_read_write = 0, g_direction = 0, g_executable = 0, g_reserved_1 = 0,
     g_privilege_level = 0, g_present = 0, g_limit_16_19 = 0, g_reserved_2 = 0, g_size = 0,
     g_granularity = 0, g_base_24_31 = 0\<rparr>"

theorem gdt_init_flat_witness:
  "gdt_encode (gdt_init_table (replicate 6 null_entry) ! 1) = gdt_code"
  using gdt_init_flat [of "replicate 6 null_entry"] by (simp add: GDT_SIZE_def)

text \<open>
  \<^verbatim>\<open>gdt_add_tss\<close> never describes the kernel's TSS: its top base byte is always 0, while the
  TSS lies in the kernel half of the address space; whatever the oversize shift gives, the
  descriptor's base is another address.
\<close>

theorem gdt_add_tss_wrong_base:
  assumes "index < length gdt" and "0xC0000000 \<le> tss"
  shows "seg_base (gdt_encode (gdt_add_tss f tss index x p gdt ! index)) \<noteq> tss"
proof -
  have "drop_bit 56 (gdt_encode (gdt_add_tss f tss index x p gdt ! index)) = 0"
    using assms(1)
    by (intro bit_word_eqI) (auto simp: gdt_add_tss_def gdt_encode_def bit_simps dest: bit_imp_le_length)
  then have "drop_bit 24 (seg_base (gdt_encode (gdt_add_tss f tss index x p gdt ! index))) = 0"
    by (intro bit_word_eqI) (auto simp: seg_base_def bit_simps)
  moreover have "drop_bit 24 tss \<noteq> 0"
  proof
    assume "drop_bit 24 tss = 0"
    then have "unat tss div 2 ^ 24 = 0"
      by (metis drop_bit_eq_div unat_0 unat_drop_bit_eq)
    then have "unat tss < 2 ^ 24" by (simp add: div_eq_0_iff)
    with assms(2) show False by (simp add: word_le_nat_alt)
  qed
  ultimately show ?thesis by auto
qed

theorem gdt_add_tss_wrong_base_witness:
  "seg_base (gdt_encode (gdt_add_tss (\<lambda>_. 2) 0xC0023000 5 True 0 (replicate 6 null_entry) ! 5))
    \<noteq> 0xC0023000"
  by (rule gdt_add_tss_wrong_base) simp_all

end
