(* ===== verification/PageTables.thy ===== *)
theory PageTables
  imports Strings
begin

text \<open>
  The x86 page directory and page tables (\<^verbatim>\<open>src/paging/pte.h\<close>, the entry structs of
  \<^verbatim>\<open>src/paging/paging.h\<close>): the entries as the packed bit-field structs with their 32-bit images,
  the index functions, the kernel's linear window \<^verbatim>\<open>Kptov\<close>/\<^verbatim>\<open>Kvtop\<close>, and \<open>mmu\<close>, the two-level
  walk that the processor does for a linear address, which is what the entries mean.
\<close>

definition PGBITS :: nat where "PGBITS = 12"
definition PGSIZE :: u32 where "PGSIZE = 4096"
definition PDSHIFT :: nat where "PDSHIFT = 22"
definition KERN_BASE :: u32 where "KERN_BASE = 0xC0000000"
definition PAGE_DIRECTORY_BASE :: u32 where "PAGE_DIRECTORY_BASE = 0xC0006000"
definition NO_ADDR :: ptr where "NO_ADDR = - 1"

lemmas page_consts = PGBITS_def PGSIZE_def PDSHIFT_def KERN_BASE_def PAGE_DIRECTORY_BASE_def

definition Kptov :: "ptr \<Rightarrow> ptr" where
  "Kptov phys = phys + KERN_BASE"

definition Kvtop :: "ptr \<Rightarrow> ptr" where
  "Kvtop virt = virt - KERN_BASE"

definition pt_no :: "ptr \<Rightarrow> u32" where
  "pt_no va = drop_bit PGBITS va AND 0x3ff"

definition pd_no :: "ptr \<Rightarrow> u32" where
  "pd_no va = drop_bit PDSHIFT va"

record page_directory_entry =
  d_present :: "1 word"
  d_read_write :: "1 word"
  d_user_supervisor :: "1 word"
  d_write_through :: "1 word"
  d_cache_disabled :: "1 word"
  d_accessed :: "1 word"
  d_reserved :: "1 word"
  d_page_size :: "1 word"
  d_global :: "1 word"
  d_available :: "3 word"
  d_page_table_base_addr :: "20 word"

record page_table_entry =
  p_present :: "1 word"
  p_read_write :: "1 word"
  p_user_supervisor :: "1 word"
  p_write_through :: "1 word"
  p_cache_disabled :: "1 word"
  p_accessed :: "1 word"
  p_dirty :: "1 word"
  p_page_table_attribute_index :: "1 word"
  p_global :: "1 word"
  p_available :: "3 word"
  p_page_base_addr :: "20 word"

definition pde_encode :: "page_directory_entry \<Rightarrow> u32" where
  "pde_encode e = fld 0 (d_present e) OR fld 1 (d_read_write e)
     OR fld 2 (d_user_supervisor e) OR fld 3 (d_write_through e)
     OR fld 4 (d_cache_disabled e) OR fld 5 (d_accessed e)
     OR fld 6 (d_reserved e) OR fld 7 (d_page_size e)
     OR fld 8 (d_global e) OR fld 9 (d_available e)
     OR fld 12 (d_page_table_base_addr e)"

definition pde_decode :: "u32 \<Rightarrow> page_directory_entry" where
  "pde_decode w = \<lparr>d_present = ucast w, d_read_write = ucast (drop_bit 1 w),
     d_user_supervisor = ucast (drop_bit 2 w), d_write_through = ucast (drop_bit 3 w),
     d_cache_disabled = ucast (drop_bit 4 w), d_accessed = ucast (drop_bit 5 w),
     d_reserved = ucast (drop_bit 6 w), d_page_size = ucast (drop_bit 7 w),
     d_global = ucast (drop_bit 8 w), d_available = ucast (drop_bit 9 w),
     d_page_table_base_addr = ucast (drop_bit 12 w)\<rparr>"

definition pte_encode :: "page_table_entry \<Rightarrow> u32" where
  "pte_encode e = fld 0 (p_present e) OR fld 1 (p_read_write e)
     OR fld 2 (p_user_supervisor e) OR fld 3 (p_write_through e)
     OR fld 4 (p_cache_disabled e) OR fld 5 (p_accessed e)
     OR fld 6 (p_dirty e) OR fld 7 (p_page_table_attribute_index e)
     OR fld 8 (p_global e) OR fld 9 (p_available e)
     OR fld 12 (p_page_base_addr e)"

definition pte_decode :: "u32 \<Rightarrow> page_table_entry" where
  "pte_decode w = \<lparr>p_present = ucast w, p_read_write = ucast (drop_bit 1 w),
     p_user_supervisor = ucast (drop_bit 2 w), p_write_through = ucast (drop_bit 3 w),
     p_cache_disabled = ucast (drop_bit 4 w), p_accessed = ucast (drop_bit 5 w),
     p_dirty = ucast (drop_bit 6 w), p_page_table_attribute_index = ucast (drop_bit 7 w),
     p_global = ucast (drop_bit 8 w), p_available = ucast (drop_bit 9 w),
     p_page_base_addr = ucast (drop_bit 12 w)\<rparr>"

lemma pde_decode_encode [simp]: "pde_decode (pde_encode e) = e"
  by (rule page_directory_entry.equality)
    (auto simp: pde_decode_def pde_encode_def bit_simps field_bits intro!: bit_word_eqI)

lemma pte_decode_encode [simp]: "pte_decode (pte_encode e) = e"
  by (rule page_table_entry.equality)
    (auto simp: pte_decode_def pte_encode_def bit_simps field_bits intro!: bit_word_eqI)

lemma fields_cover:
  fixes n :: nat
  assumes "n < 32"
  obtains "n = 0" | "n = 1" | "n = 2" | "n = 3" | "n = 4" | "n = 5" | "n = 6" | "n = 7" | "n = 8"
    | "9 \<le> n" "n < 12" | "12 \<le> n" "n < 32"
  using assms by arith

lemma pde_encode_decode [simp]: "pde_encode (pde_decode w) = w"
proof (rule bit_word_eqI)
  fix n assume "n < LENGTH(32)"
  then have "n < 32" by simp
  then show "bit (pde_encode (pde_decode w)) n = bit w n"
    by (cases rule: fields_cover) (auto simp: pde_decode_def pde_encode_def bit_simps field_bits)
qed

lemma pte_encode_decode [simp]: "pte_encode (pte_decode w) = w"
proof (rule bit_word_eqI)
  fix n assume "n < LENGTH(32)"
  then have "n < 32" by simp
  then show "bit (pte_encode (pte_decode w)) n = bit w n"
    by (cases rule: fields_cover) (auto simp: pte_decode_def pte_encode_def bit_simps field_bits)
qed

text \<open>
  the two entry structs are exact images of 32-bit words: decoding what was encoded
  gives the entry, and every word is the image of the entry it decodes to.
\<close>

theorem entry_images:
  "pde_decode (pde_encode d) = d \<and> pde_encode (pde_decode w) = w \<and>
   pte_decode (pte_encode e) = e \<and> pte_encode (pte_decode w) = w"
  by simp

section \<open>Page-aligned addresses\<close>

definition page_aligned :: "ptr \<Rightarrow> bool" where
  "page_aligned a \<longleftrightarrow> 4096 dvd unat a"

lemma page_aligned_mod: "page_aligned a \<longleftrightarrow> a mod PGSIZE = 0"
proof -
  have "a mod PGSIZE = 0 \<longleftrightarrow> unat (a mod PGSIZE) = 0" by (simp only: unat_eq_0)
  then show ?thesis by (simp add: page_aligned_def PGSIZE_def dvd_eq_mod_eq_0 unat_mod)
qed

lemma page_aligned_imp_aligned: "page_aligned a \<Longrightarrow> aligned a"
  unfolding page_aligned_def aligned_def by (rule dvd_trans [of _ 4096]) simp_all

lemma page_aligned_plus [intro]:
  assumes "page_aligned a" and "page_aligned b"
  shows "page_aligned (a + b)"
proof -
  have "4096 dvd (unat a + unat b) mod 4294967296"
    using assms unfolding page_aligned_def by (intro dvd_mod) auto
  then show ?thesis by (simp add: page_aligned_def unat_word_ariths)
qed

lemma page_aligned_KERN_BASE [simp]: "page_aligned KERN_BASE"
  by (simp add: page_aligned_def KERN_BASE_def)

lemma page_aligned_0 [simp]: "page_aligned 0"
  by (simp add: page_aligned_def)

lemma page_aligned_Kptov [simp]: "page_aligned (Kptov a) \<longleftrightarrow> page_aligned a"
proof
  assume "page_aligned (Kptov a)"
  moreover have "page_aligned (- KERN_BASE)"
    by (simp add: page_aligned_def KERN_BASE_def)
  ultimately have "page_aligned (Kptov a + - KERN_BASE)" by (rule page_aligned_plus)
  then show "page_aligned a" by (simp add: Kptov_def)
qed (auto simp: Kptov_def)

lemma page_plus_unat:
  assumes "page_aligned a" and "unat k < 4096"
  shows "unat (a + k) = unat a + unat k"
proof -
  obtain q where q: "unat a = 4096 * q"
    using assms(1) by (auto simp: page_aligned_def)
  moreover have "unat a < 4294967296" by simp
  ultimately have "q < 1048576" by simp
  then have "unat a + unat k < 4294967296"
    using assms(2) q by simp
  then show ?thesis by (simp add: unat_word_ariths)
qed

lemma page_offset_inj:
  assumes "page_aligned a" and "page_aligned b" and "unat k < 4096" and "unat l < 4096"
  shows "a + k = b + l \<longleftrightarrow> a = b \<and> k = l"
proof
  assume "a + k = b + l"
  then have e: "unat a + unat k = unat b + unat l"
    using assms page_plus_unat by metis
  obtain q r where q: "unat a = 4096 * q" "unat b = 4096 * r"
    using assms(1,2) unfolding page_aligned_def by (elim dvdE) (rule that)
  have "(4096 * q + unat k) div 4096 = q" "(4096 * r + unat l) div 4096 = r"
    using assms(3,4) by simp_all
  with e q have "unat a = unat b" by simp
  then have "a = b" by (simp only: word_unat_eq_iff)
  with \<open>a + k = b + l\<close> show "a = b \<and> k = l" by simp
qed simp

lemma bit_page_aligned: "page_aligned a \<Longrightarrow> n < 12 \<Longrightarrow> \<not> bit a n"
proof -
  assume "page_aligned a" and n: "n < 12"
  then have "unat (take_bit 12 a) = 0"
    by (simp add: page_aligned_def take_bit_eq_mod dvd_eq_mod_eq_0 unat_mod)
  then have "take_bit 12 a = 0" by (simp only: unat_eq_0)
  then have "\<not> bit (take_bit 12 a) n" by simp
  with n show "\<not> bit a n" by (simp add: bit_take_bit_iff)
qed

lemma fld_page [simp]: "page_aligned p \<Longrightarrow> fld 12 (ucast (drop_bit 12 p) :: 20 word) = p"
proof (rule bit_word_eqI)
  fix n assume "page_aligned p" and "n < LENGTH(32)"
  then show "bit (fld 12 (ucast (drop_bit 12 p) :: 20 word)) n = bit p n"
    using bit_page_aligned [of p n] by (cases "n < 12") (auto simp: bit_simps field_bits)
qed

lemma page_aligned_fld [simp]: "page_aligned (fld 12 (x :: 20 word))"
proof -
  have "take_bit 12 (fld 12 x) = 0"
    by (rule bit_word_eqI) (auto simp: bit_simps field_bits)
  then have "unat (take_bit 12 (fld 12 x)) = 0" by simp
  then show ?thesis
    by (simp add: page_aligned_def take_bit_eq_mod dvd_eq_mod_eq_0 unat_mod)
qed

lemma fld_12_inj: "fld 12 (x :: 20 word) = fld 12 y \<Longrightarrow> x = y"
proof (rule bit_word_eqI)
  fix n assume e: "fld 12 x = fld 12 y" and n: "n < LENGTH(20)"
  have "bit (fld 12 x) (n + 12) = bit (fld 12 y) (n + 12)" using e by simp
  with n show "bit x n = bit y n" by (simp add: field_bits)
qed

section \<open>The processor's translation\<close>

definition pde_at :: "mem \<Rightarrow> ptr \<Rightarrow> page_directory_entry" where
  "pde_at m va = pde_decode (ld32 m (PAGE_DIRECTORY_BASE + 4 * pd_no va))"

definition table_of :: "page_directory_entry \<Rightarrow> ptr" where
  "table_of pde = Kptov (fld 12 (d_page_table_base_addr pde))"

definition pte_at :: "mem \<Rightarrow> ptr \<Rightarrow> page_table_entry" where
  "pte_at m va = pte_decode (ld32 m (table_of (pde_at m va) + 4 * pt_no va))"

definition mmu :: "mem \<Rightarrow> ptr \<Rightarrow> ptr option" where
  "mmu m va =
     (if d_present (pde_at m va) = 0 then None
      else if p_present (pte_at m va) = 0 then None
      else Some (fld 12 (p_page_base_addr (pte_at m va)) + take_bit 12 va))"

lemma pd_no_bound: "unat (4 * pd_no va) = 4 * unat (pd_no va)" "unat (pd_no va) < 1024"
proof -
  have "unat (pd_no va) = unat va div 4194304"
    by (simp add: pd_no_def PDSHIFT_def drop_bit_eq_div unat_div)
  then show b: "unat (pd_no va) < 1024"
    using unsigned_less [of va] by (simp add: less_mult_imp_div_less)
  show "unat (4 * pd_no va) = 4 * unat (pd_no va)"
    using b by (simp add: unat_word_ariths)
qed

lemma pt_no_take: "pt_no va = take_bit 10 (drop_bit 12 va)"
proof -
  have "(0x3ff :: u32) = mask 10" by (simp add: mask_eq_exp_minus_1)
  then show ?thesis by (simp only: pt_no_def PGBITS_def take_bit_eq_mask)
qed

lemma pt_no_mod: "pt_no va = drop_bit 12 va mod 1024"
  by (simp add: pt_no_take take_bit_eq_mod)

lemma pt_no_bound: "unat (4 * pt_no va) = 4 * unat (pt_no va)" "unat (pt_no va) < 1024"
proof -
  show b: "unat (pt_no va) < 1024" by (simp add: pt_no_mod unat_mod)
  show "unat (4 * pt_no va) = 4 * unat (pt_no va)"
    using b by (simp add: unat_word_ariths)
qed

lemma va_parts: "va = push_bit 22 (pd_no va) + push_bit 12 (pt_no va) + take_bit 12 va"
proof -
  have "push_bit 22 (pd_no va) + push_bit 12 (pt_no va) = push_bit 22 (pd_no va) OR push_bit 12 (pt_no va)"
    by (rule disjunctive_add) (auto simp: bit_simps pd_no_def pt_no_take page_consts)
  moreover have "(push_bit 22 (pd_no va) OR push_bit 12 (pt_no va)) + take_bit 12 va
      = (push_bit 22 (pd_no va) OR push_bit 12 (pt_no va)) OR take_bit 12 va"
    by (rule disjunctive_add) (auto simp: bit_simps pd_no_def pt_no_take page_consts)
  moreover have "va = (push_bit 22 (pd_no va) OR push_bit 12 (pt_no va)) OR take_bit 12 va"
  proof (rule bit_word_eqI)
    fix n assume "n < LENGTH(32)"
    then show "bit va n = bit ((push_bit 22 (pd_no va) OR push_bit 12 (pt_no va)) OR take_bit 12 va) n"
      by (cases "n < 12"; cases "n < 22") (auto simp: bit_simps pd_no_def pt_no_take page_consts)
  qed
  ultimately show ?thesis by simp
qed

text \<open>Two linear addresses lie in one page exactly when they have the same two indices.\<close>

lemma same_page: "drop_bit 12 v = drop_bit 12 w \<longleftrightarrow> pd_no v = pd_no w \<and> pt_no v = pt_no w"
proof
  assume e: "drop_bit 12 v = drop_bit 12 w"
  have "drop_bit 22 x = drop_bit 10 (drop_bit 12 x)" for x :: u32 by simp
  with e have "drop_bit 22 v = drop_bit 22 w" by metis
  with e show "pd_no v = pd_no w \<and> pt_no v = pt_no w"
    by (simp add: pd_no_def pt_no_def page_consts)
next
  assume "pd_no v = pd_no w \<and> pt_no v = pt_no w"
  then have "v - take_bit 12 v = w - take_bit 12 w"
    using va_parts [of v] va_parts [of w] by (metis add_diff_cancel_right')
  moreover have "x - take_bit 12 x = push_bit 12 (drop_bit 12 x)" for x :: u32
    by (metis add_diff_cancel_right' bits_ident)
  ultimately have "push_bit 12 (drop_bit 12 v) = push_bit 12 (drop_bit 12 w)" by simp
  then have "drop_bit 12 (push_bit 12 (drop_bit 12 v)) = drop_bit 12 (push_bit 12 (drop_bit 12 w))"
    by simp
  moreover have "drop_bit 12 (push_bit 12 (drop_bit 12 x)) = drop_bit 12 x" for x :: u32
    by (rule bit_word_eqI) (auto simp: bit_simps dest: bit_imp_le_length)
  ultimately show "drop_bit 12 v = drop_bit 12 w" by simp
qed

lemma page_parts:
  assumes "page_aligned v" and "k < 4096"
  shows "drop_bit 12 (v + k) = drop_bit 12 v" and "take_bit 12 (v + k) = k"
proof -
  have k: "unat k < 4096" using assms(2) by (simp add: word_less_nat_alt)
  obtain q where q: "unat v = 4096 * q" using assms(1) by (auto simp: page_aligned_def)
  have u: "unat (v + k) = 4096 * q + unat k" using page_plus_unat [OF assms(1) k] q by simp
  have "unat (drop_bit 12 (v + k)) = unat (drop_bit 12 v)"
    using k q by (simp add: drop_bit_eq_div unat_div u)
  then show "drop_bit 12 (v + k) = drop_bit 12 v" by (simp only: word_unat_eq_iff)
  have "unat (take_bit 12 (v + k)) = unat k"
    using k by (simp add: take_bit_eq_mod unat_mod u)
  then show "take_bit 12 (v + k) = k" by (simp only: word_unat_eq_iff)
qed

lemma page_aligned_PD [simp]: "page_aligned PAGE_DIRECTORY_BASE"
  by (simp add: page_aligned_def PAGE_DIRECTORY_BASE_def)

lemma page_aligned_table_of [simp]: "page_aligned (table_of e)"
  by (simp add: table_of_def)

lemma aligned_entry [simp]: "aligned (4 * pd_no v)" "aligned (4 * pt_no v)"
  by (simp_all add: aligned_def pd_no_bound pt_no_bound)

lemma pd_entry_small: "unat (4 * pd_no v) < 4096"
  using pd_no_bound [of v] by simp

lemma pt_entry_small: "unat (4 * pt_no v) < 4096"
  using pt_no_bound [of v] by simp

lemma pd_entry_inj: "4 * pd_no v = 4 * pd_no w \<longleftrightarrow> pd_no v = pd_no w"
  using pd_no_bound [of v] pd_no_bound [of w] by (metis mult_left_cancel word_unat_eq_iff zero_neq_numeral)

lemma pt_entry_inj: "4 * pt_no v = 4 * pt_no w \<longleftrightarrow> pt_no v = pt_no w"
  using pt_no_bound [of v] pt_no_bound [of w] by (metis mult_left_cancel word_unat_eq_iff zero_neq_numeral)

lemma aligned_pde_addr [simp]: "aligned (PAGE_DIRECTORY_BASE + 4 * pd_no v)"
  by (rule aligned_plus) (simp_all add: page_aligned_imp_aligned)

lemma aligned_pte_addr [simp]: "aligned (table_of e + 4 * pt_no v)"
  by (rule aligned_plus) (simp_all add: page_aligned_imp_aligned)

text \<open>Entries of different tables, or different entries of one table, are different words.\<close>

lemma pte_addr_eq: "table_of d + 4 * pt_no v = table_of e + 4 * pt_no w \<longleftrightarrow> table_of d = table_of e \<and> pt_no v = pt_no w"
  by (simp add: page_offset_inj pt_entry_small pt_entry_inj)

lemma pde_addr_eq: "PAGE_DIRECTORY_BASE + 4 * pd_no v = PAGE_DIRECTORY_BASE + 4 * pd_no w \<longleftrightarrow> pd_no v = pd_no w"
  by (simp add: pd_entry_inj)

lemma pde_pte_addr: "table_of d \<noteq> PAGE_DIRECTORY_BASE \<Longrightarrow>
    PAGE_DIRECTORY_BASE + 4 * pd_no v \<noteq> table_of d + 4 * pt_no w"
  by (simp add: page_offset_inj pt_entry_small pd_entry_small)

lemma same_page_entries:
  assumes "drop_bit 12 v = drop_bit 12 w"
  shows "pde_at m v = pde_at m w" and "pte_at m v = pte_at m w"
  using same_page [of v w] assms by (auto simp: pde_at_def pte_at_def)

section \<open>Separate tables\<close>

text \<open>
  The page tables in use are frames of their own: none is the page directory, and no two
  directory entries share one. \<^verbatim>\<open>boot/paging.asm\<close> sets the tables up in this way.
\<close>

definition tables_ok :: "mem \<Rightarrow> bool" where
  "tables_ok m \<longleftrightarrow> (\<forall>v. d_present (pde_at m v) \<noteq> 0 \<longrightarrow> table_of (pde_at m v) \<noteq> PAGE_DIRECTORY_BASE) \<and>
    (\<forall>v w. d_present (pde_at m v) \<noteq> 0 \<longrightarrow> d_present (pde_at m w) \<noteq> 0 \<longrightarrow> pd_no v \<noteq> pd_no w \<longrightarrow>
      table_of (pde_at m v) \<noteq> table_of (pde_at m w))"

lemma tables_ok_pd: "tables_ok m \<Longrightarrow> d_present (pde_at m v) \<noteq> 0 \<Longrightarrow> table_of (pde_at m v) \<noteq> PAGE_DIRECTORY_BASE"
  by (simp add: tables_ok_def)

text \<open>A store to the entry of \<open>v\<close>, in its page table or in the directory.\<close>

definition put_pte :: "ptr \<Rightarrow> page_table_entry \<Rightarrow> mem \<Rightarrow> mem" where
  "put_pte v e m = st32 (table_of (pde_at m v) + 4 * pt_no v) (pte_encode e) m"

definition put_pde :: "ptr \<Rightarrow> page_directory_entry \<Rightarrow> mem \<Rightarrow> mem" where
  "put_pde v e m = st32 (PAGE_DIRECTORY_BASE + 4 * pd_no v) (pde_encode e) m"

lemma pde_at_put_pte [simp]:
  assumes "tables_ok m" and "d_present (pde_at m v) \<noteq> 0"
  shows "pde_at (put_pte v e m) w = pde_at m w"
proof -
  have "PAGE_DIRECTORY_BASE + 4 * pd_no w \<noteq> table_of (pde_at m v) + 4 * pt_no v"
    by (rule pde_pte_addr, rule tables_ok_pd) (rule assms)+
  then have "ld32 (put_pte v e m) (PAGE_DIRECTORY_BASE + 4 * pd_no w) = ld32 m (PAGE_DIRECTORY_BASE + 4 * pd_no w)"
    by (simp add: put_pte_def)
  then show ?thesis by (simp add: pde_at_def)
qed

lemma pte_at_put_pte:
  assumes "tables_ok m" and "d_present (pde_at m v) \<noteq> 0"
  shows "drop_bit 12 w = drop_bit 12 v \<Longrightarrow> pte_at (put_pte v e m) w = e"
    and "drop_bit 12 w \<noteq> drop_bit 12 v \<Longrightarrow> d_present (pde_at m w) \<noteq> 0 \<Longrightarrow>
      pte_at (put_pte v e m) w = pte_at m w"
proof -
  have r: "pte_at (put_pte v e m) w = pte_decode (ld32 (put_pte v e m) (table_of (pde_at m w) + 4 * pt_no w))" for w
    using assms by (simp add: pte_at_def)
  have v: "pte_at (put_pte v e m) v = e"
    unfolding r by (simp add: put_pte_def)
  assume "drop_bit 12 w = drop_bit 12 v"
  then show "pte_at (put_pte v e m) w = e" using v same_page_entries(2) by metis
next
  assume w: "drop_bit 12 w \<noteq> drop_bit 12 v" "d_present (pde_at m w) \<noteq> 0"
  have "table_of (pde_at m v) + 4 * pt_no v \<noteq> table_of (pde_at m w) + 4 * pt_no w"
    using w assms by (auto simp: pte_addr_eq tables_ok_def same_page)
  then have "ld32 (put_pte v e m) (table_of (pde_at m w) + 4 * pt_no w) = ld32 m (table_of (pde_at m w) + 4 * pt_no w)"
    by (simp add: put_pte_def)
  then show "pte_at (put_pte v e m) w = pte_at m w"
    using assms by (simp add: pte_at_def)
qed

lemma tables_ok_put_pte [simp]:
  "tables_ok m \<Longrightarrow> d_present (pde_at m v) \<noteq> 0 \<Longrightarrow> tables_ok (put_pte v e m)"
  by (subst tables_ok_def) (auto simp: tables_ok_def [of m])

lemma put_pte_twice:
  assumes "tables_ok m" and "d_present (pde_at m v) \<noteq> 0"
  shows "put_pte v e (put_pte v d m) = put_pte v e m"
proof -
  have "put_pte v e (put_pte v d m) = st32 (table_of (pde_at m v) + 4 * pt_no v) (pte_encode e) (put_pte v d m)"
    using assms by (simp add: put_pte_def [of v e])
  then show ?thesis by (simp add: put_pte_def)
qed

lemma pde_at_put_pde: "pde_at (put_pde v e m) w = (if pd_no w = pd_no v then e else pde_at m w)"
  by (auto simp: put_pde_def pde_at_def pd_entry_inj)

lemma pte_at_put_pde:
  assumes "pd_no w \<noteq> pd_no v" and "table_of (pde_at m w) \<noteq> PAGE_DIRECTORY_BASE"
  shows "pte_at (put_pde v e m) w = pte_at m w"
proof -
  have "ld32 (put_pde v e m) (table_of (pde_at m w) + 4 * pt_no w) = ld32 m (table_of (pde_at m w) + 4 * pt_no w)"
    using pde_pte_addr [OF assms(2), of v w] by (simp add: put_pde_def)
  then show ?thesis using assms(1) by (simp add: pte_at_def pde_at_put_pde)
qed

end
