(* ===== verification/Gates.thy ===== *)
theory Gates
  imports Screen
begin

text \<open>
  Data of the interrupt side (\<^verbatim>\<open>src/interrupt/\<close>): the gate struct and \<^verbatim>\<open>idt_set_descriptor\<close>,
  the table of exception descriptions, the scancode table, the frames the assembly stubs push
  (\<^verbatim>\<open>cpu_state.h\<close>), \<^verbatim>\<open>state_dump\<close>, and \<^verbatim>\<open>irq_remap\<close> with the initialisation protocol of the 8259
  controllers that it drives.
\<close>

section \<open>Gates\<close>

record idt_entry =
  i_isr_low :: u16
  i_kernel_cs :: u16
  i_reserved :: u8
  i_type :: "4 word"
  i_storage_segment :: "1 word"
  i_privilege_level :: "2 word"
  i_present :: "1 word"
  i_isr_high :: u16

record idtr_t =
  idtr_limit :: u16
  idtr_base :: u32

definition IDT_MAX_DESCRIPTORS :: nat where "IDT_MAX_DESCRIPTORS = 256"

definition sizeof_idt_entry :: nat where "sizeof_idt_entry = 8"

definition idt_set_descriptor :: "u8 \<Rightarrow> u32 \<Rightarrow> bool \<Rightarrow> idt_entry list \<Rightarrow> idt_entry list" where
  "idt_set_descriptor vector handler_addr user_interrupt idt =
     idt[unat vector := (idt ! unat vector)
       \<lparr>i_isr_low := ucast (handler_addr AND 0xFFFF), i_kernel_cs := 8,
        i_isr_high := ucast (drop_bit 16 handler_addr), i_reserved := 0, i_present := 1,
        i_privilege_level := (if user_interrupt then 3 else 1), i_type := 15\<rparr>]"

text \<open>
  The calls of \<^verbatim>\<open>idt_init\<close> in their order: vectors 0 to 47, then the system call gate 50. The
  stubs are labels of \<^verbatim>\<open>interrupt.asm\<close>; \<open>isr n\<close> is the address the linker gives to stub \<open>n\<close>.
\<close>

definition idt_vectors :: "(u8 \<times> bool) list" where
  "idt_vectors = map (\<lambda>n. (of_nat n, False)) [0..<48] @ [(50, True)]"

definition idt_fill :: "(u8 \<Rightarrow> u32) \<Rightarrow> idt_entry list \<Rightarrow> idt_entry list" where
  "idt_fill isr idt = fold (\<lambda>(v, user). idt_set_descriptor v (isr v) user) idt_vectors idt"

definition gate_offset :: "idt_entry \<Rightarrow> u32" where
  "gate_offset e = ucast (i_isr_low e) OR push_bit 16 (ucast (i_isr_high e))"

section \<open>Exception descriptions and scancodes (\<^verbatim>\<open>handlers.c\<close>)\<close>

record exception_definition =
  description :: string
  exc_number :: u8

definition exceptions :: "exception_definition list" where
  "exceptions = map (\<lambda>(n, d). \<lparr>description = d, exc_number = n\<rparr>)
    [(0, ''Divide-by-zero error''),
     (1, ''Debug''),
     (2, ''Non-maskable Interrupt''),
     (3, ''Breakpoint''),
     (4, ''Overflow''),
     (5, ''Bound Range Exceeded''),
     (6, ''Invalid Opcode''),
     (7, ''Device Not Available''),
     (8, ''Double Fault''),
     (9, ''Coprocessor Segment Overrun''),
     (10, ''Invalid TSS''),
     (11, ''Segment Not Present''),
     (12, ''Stack-Segment Fault''),
     (13, ''General Protection Fault''),
     (14, ''Page Fault''),
     (15, ''Reserved''),
     (16, ''x87 Floating-Point Exception''),
     (17, ''Alignment Check''),
     (18, ''Machine Check''),
     (19, ''SIMD Floating-Point Exception''),
     (20, ''Virtualization Exception''),
     (21, ''Reserved''),
     (22, ''Reserved''),
     (23, ''Reserved''),
     (24, ''Reserved''),
     (25, ''Reserved''),
     (26, ''Reserved''),
     (27, ''Reserved''),
     (28, ''Reserved''),
     (29, ''Reserved''),
     (30, ''Security Exception''),
     (31, ''Reserved'')]"

definition ASCIITable :: "u8 list" where
  "ASCIITable = [
     0, 0, chr CHR ''1'', chr CHR ''2'',
     chr CHR ''3'', chr CHR ''4'', chr CHR ''5'', chr CHR ''6'',
     chr CHR ''7'', chr CHR ''8'', chr CHR ''9'', chr CHR ''0'',
     chr CHR ''-'', chr CHR ''='', 0, 0,
     chr CHR ''q'', chr CHR ''w'', chr CHR ''e'', chr CHR ''r'',
     chr CHR ''t'', chr CHR ''y'', chr CHR ''u'', chr CHR ''i'',
     chr CHR ''o'', chr CHR ''p'', chr CHR ''['', chr CHR '']'',
     0, 0, chr CHR ''a'', chr CHR ''s'',
     chr CHR ''d'', chr CHR ''f'', chr CHR ''g'', chr CHR ''h'',
     chr CHR ''j'', chr CHR ''k'', chr CHR ''l'', chr CHR '';'',
     39, 96, 0, 92,
     chr CHR ''z'', chr CHR ''x'', chr CHR ''c'', chr CHR ''v'',
     chr CHR ''b'', chr CHR ''n'', chr CHR ''m'', chr CHR '','',
     chr CHR ''.'', chr CHR ''/'', 0, chr CHR ''*'',
     0, chr CHR '' '']"

text \<open>
  \<^verbatim>\<open>keyboard_handler\<close>. The table has 58 entries and the scancode is not checked: \<open>rodata n\<close> is
  the byte the linker put \<open>n\<close> bytes behind the table's start.
\<close>

definition ascii_at :: "(nat \<Rightarrow> u8) \<Rightarrow> u8 \<Rightarrow> u8" where
  "ascii_at rodata scancode =
     (if unat scancode < length ASCIITable then ASCIITable ! unat scancode
      else rodata (unat scancode))"

definition keyboard_handler :: "(nat \<Rightarrow> u8) \<Rightarrow> console \<Rightarrow> console" where
  "keyboard_handler rodata c =
     (let (scancode, c) = inportb 0x60 c
      in print_char_loc (ascii_at rodata scancode) 0 0 GREEN_ON_BLACK c)"

section \<open>Saved processor state (\<^verbatim>\<open>cpu_state.h\<close>)\<close>

record fpu_state =
  control_word :: u32
  status_word :: u32
  tag_word :: u32
  instruction_pointer_offset :: u32
  instruction_pointer_selector :: u16
  opcode :: u16
  operand_pointer_offset :: u32
  operand_pointer_selector :: u32
  fpu_registers :: "u8 list"

record registers_state =
  r_edi :: u32
  r_esi :: u32
  r_ebp :: u32
  r_esp_unused :: u32
  r_ebx :: u32
  r_edx :: u32
  r_ecx :: u32
  r_eax :: u32

record exception_state =
  x_idtr :: u64
  x_gdtr :: u64
  x_gs :: u32
  x_fs :: u32
  x_es :: u32
  x_cr4 :: u32
  x_cr3 :: u32
  x_cr2 :: u32
  x_cr0 :: u32
  x_ds :: u32
  x_registers :: registers_state
  x_fpu_state :: fpu_state
  x_interrupt_number :: u32
  x_error_code :: u32
  x_eip :: u32
  x_cs :: u32
  x_eflags :: u32
  x_esp :: u32
  x_ss :: u32

record interrupt_state =
  i_registers :: registers_state
  i_fpu_state :: fpu_state
  interrupt_number :: u32
  i_eip :: u32
  i_cs :: u32
  i_eflags :: u32
  i_esp :: u32
  i_ss :: u32

text \<open>
  \<^verbatim>\<open>state_dump\<close> prints one labelled register per row (\<^verbatim>\<open>itoa\<close> takes 32 bits of the two 64-bit
  fields). It has a buffer of its own on the stack, so the shared \<^verbatim>\<open>str\<close> is not written. The list
  holds label, value and base, in the order of the calls; the row without a number is the remark.
\<close>

definition dump_rows :: "exception_state \<Rightarrow> (string \<times> (u32 \<times> u32) option) list" where
  "dump_rows st =
    [(''---CORE DUMP---'', None),
     (''IDTR:'', Some (ucast (x_idtr st), BASE_HEX)), (''GDTR:'', Some (ucast (x_gdtr st), BASE_HEX)),
     (''GS:'', Some (x_gs st, BASE_HEX)), (''FS:'', Some (x_fs st, BASE_HEX)),
     (''ES:'', Some (x_es st, BASE_HEX)), (''CR4:'', Some (x_cr4 st, BASE_BIN)),
     (''CR3:'', Some (x_cr3 st, BASE_HEX)), (''CR2:'', Some (x_cr2 st, BASE_HEX)),
     (''CR0:'', Some (x_cr0 st, BASE_BIN)), (''DS:'', Some (x_ds st, BASE_HEX)),
     (''INT_NUM:'', Some (x_interrupt_number st, BASE_DEC)),
     (''ERROR_CODE:'', Some (x_error_code st, BASE_BIN)),
     (''EIP:'', Some (x_eip st, BASE_HEX)), (''CS:'', Some (x_cs st, BASE_HEX)),
     (''EFLAGS:'', Some (x_eflags st, BASE_HEX)),
     (''IGNORE ESP/SS if in kernel mode'', None),
     (''ESP:'', Some (x_esp st, BASE_HEX)), (''SS:'', Some (x_ss st, BASE_HEX))]"

fun dump_row :: "string \<times> (u32 \<times> u32) option \<Rightarrow> cbuf \<times> console \<Rightarrow> (cbuf \<times> console) option" where
  "dump_row (label, None) (str, c) = Some (str, println (lit label) c)"
| "dump_row (label, Some (num, base)) (str, c) =
     (let c = println (lit label) c in
      case itoa num str base of None \<Rightarrow> None
      | Some str \<Rightarrow> Some (str, print (cstr 128 str) c))"

fun dump_all ::
  "(string \<times> (u32 \<times> u32) option) list \<Rightarrow> cbuf \<times> console \<Rightarrow> (cbuf \<times> console) option" where
  "dump_all [] x = Some x"
| "dump_all (r # rs) x = (case dump_row r x of None \<Rightarrow> None | Some x \<Rightarrow> dump_all rs x)"

text \<open>\<open>buf\<close> is the uninitialised local buffer; \<^verbatim>\<open>halt\<close> follows in the machine state.\<close>

definition state_dump :: "cbuf \<Rightarrow> exception_state \<Rightarrow> console \<Rightarrow> console option" where
  "state_dump buf st c = map_option snd (dump_all (dump_rows st) (buf, c))"

text \<open>
  \<^verbatim>\<open>default_exception_handler\<close> with \<^verbatim>\<open>PANIC_EXC\<close>: the screen in which the machine halts. The stubs
  that lead here push the vectors 0 to 31, so the table has the entry.
\<close>

definition PANIC_EXC :: "u8 list \<Rightarrow> cbuf \<Rightarrow> exception_state \<Rightarrow> console \<Rightarrow> console option" where
  "PANIC_EXC msg buf st c = state_dump buf st (panic_text msg c)"

definition default_exception_handler :: "cbuf \<Rightarrow> exception_state \<Rightarrow> console \<Rightarrow> console option" where
  "default_exception_handler buf st c =
     PANIC_EXC (lit (description (exceptions ! unat (x_interrupt_number st)))) buf st c"

section \<open>The interrupt controllers\<close>

definition PIC1_COMMAND :: u16 where "PIC1_COMMAND = 0x20"
definition PIC1_DATA :: u16 where "PIC1_DATA = 0x21"
definition PIC2_COMMAND :: u16 where "PIC2_COMMAND = 0xA0"
definition PIC2_DATA :: u16 where "PIC2_DATA = 0xA1"
definition PIC_EOI :: u8 where "PIC_EOI = 0x20"

lemmas pic_ports = PIC1_COMMAND_def PIC1_DATA_def PIC2_COMMAND_def PIC2_DATA_def PIC_EOI_def

definition irq_remap :: "console \<Rightarrow> console" where
  "irq_remap c =
     (let c = outportb PIC1_COMMAND 0x11 c; c = outportb PIC2_COMMAND 0x11 c;
          c = outportb PIC1_DATA 0x20 c; c = outportb PIC2_DATA 0x28 c;
          c = outportb PIC1_DATA 0x04 c; c = outportb PIC2_DATA 0x02 c;
          c = outportb PIC1_DATA 0x01 c; c = outportb PIC2_DATA 0x01 c;
          c = outportb PIC1_DATA 0x0 c
      in outportb PIC2_DATA 0x0 c)"

text \<open>
  What the controllers make of the writes (8259A data sheet): a command byte with bit 4 set
  (ICW1) starts the initialisation; the next three data bytes are the vector base, the
  cascade wiring and the mode; a data byte after that is the interrupt mask.
\<close>

record pic =
  pic_stage :: nat
  pic_vector :: u8
  pic_cascade :: u8
  pic_mode :: u8
  pic_mask :: u8

definition pic_command :: "u8 \<Rightarrow> pic \<Rightarrow> pic" where
  "pic_command v p = (if v AND 0x10 = 0 then p else p\<lparr>pic_stage := 1, pic_mask := 0\<rparr>)"

definition pic_data :: "u8 \<Rightarrow> pic \<Rightarrow> pic" where
  "pic_data v p =
     (if pic_stage p = 1 then p\<lparr>pic_stage := 2, pic_vector := v\<rparr>
      else if pic_stage p = 2 then p\<lparr>pic_stage := 3, pic_cascade := v\<rparr>
      else if pic_stage p = 3 then p\<lparr>pic_stage := 0, pic_mode := v\<rparr>
      else p\<lparr>pic_mask := v\<rparr>)"

text \<open>The state of the controller with ports \<open>cmd\<close> and \<open>dat\<close> after the log \<open>l\<close> (newest first).\<close>

fun pic_after :: "u16 \<Rightarrow> u16 \<Rightarrow> pic \<Rightarrow> ioev list \<Rightarrow> pic" where
  "pic_after cmd dat p [] = p"
| "pic_after cmd dat p (Out port v # l) =
     (if port = cmd then pic_command v (pic_after cmd dat p l)
      else if port = dat then pic_data v (pic_after cmd dat p l)
      else pic_after cmd dat p l)"
| "pic_after cmd dat p (In port v # l) = pic_after cmd dat p l"

definition irq_vector :: "pic \<Rightarrow> pic \<Rightarrow> nat \<Rightarrow> nat" where
  "irq_vector p1 p2 irq = (if irq < 8 then unat (pic_vector p1) + irq
     else unat (pic_vector p2) + (irq - 8))"

lemma length_idt_set_descriptor [simp]: "length (idt_set_descriptor v h u idt) = length idt"
  by (simp add: idt_set_descriptor_def)

lemma idt_set_descriptor_other:
  "w \<noteq> v \<Longrightarrow> idt_set_descriptor w h u idt ! unat v = idt ! unat v"
  by (simp add: idt_set_descriptor_def word_unat_eq_iff)

lemma fold_gates_other:
  "v \<notin> fst ` set vs \<Longrightarrow> fold (\<lambda>(v, user). idt_set_descriptor v (isr v) user) vs idt ! unat v = idt ! unat v"
proof (induction vs arbitrary: idt)
  case (Cons x vs)
  obtain w u where x: "x = (w, u)" by force
  have "w \<noteq> v" using Cons.prems by (auto simp: x)
  with Cons show ?case by (simp add: x idt_set_descriptor_other)
qed simp

text \<open>What \<^verbatim>\<open>idt_set_descriptor\<close> leaves in the gate.\<close>

definition gate_for :: "u32 \<Rightarrow> bool \<Rightarrow> idt_entry \<Rightarrow> bool" where
  "gate_for h user e \<longleftrightarrow> i_isr_low e = ucast (h AND 0xFFFF) \<and> i_isr_high e = ucast (drop_bit 16 h) \<and>
    i_present e = 1 \<and> i_kernel_cs e = 8 \<and> i_type e = 15 \<and> i_privilege_level e = (if user then 3 else 1)"

lemma idt_set_descriptor_at:
  assumes "length idt = 256"
  shows "gate_for h user (idt_set_descriptor v h user idt ! unat v)"
proof -
  have "unat v < 256" using unsigned_less [of v] by simp
  with assms show ?thesis by (simp add: idt_set_descriptor_def gate_for_def)
qed

lemma fold_gates_at:
  assumes "(v, user) \<in> set vs" and "distinct (map fst vs)" and "length idt = 256"
  shows "gate_for (isr v) user (fold (\<lambda>(v, user). idt_set_descriptor v (isr v) user) vs idt ! unat v)"
  using assms
proof (induction vs arbitrary: idt)
  case (Cons x vs)
  obtain w u where x: "x = (w, u)" by force
  show ?case
  proof (cases "(v, user) \<in> set vs")
    case True
    with Cons show ?thesis by (simp add: x)
  next
    case False
    then have w: "w = v" "u = user" using Cons.prems(1) x by auto
    then have "v \<notin> fst ` set vs" using Cons.prems(2) x by auto
    then show ?thesis
      using Cons.prems(3) by (simp add: x w fold_gates_other idt_set_descriptor_at)
  qed
qed simp

lemma idt_vectors_distinct: "distinct (map fst idt_vectors)"
  by (simp add: idt_vectors_def upt_rec)

lemma split_halves: "ucast (ucast (h AND 0xFFFF) :: u16) OR push_bit 16 (ucast (ucast (drop_bit 16 h) :: u16)) = (h :: u32)"
proof (rule bit_word_eqI)
  have m: "(0xFFFF :: u32) = mask 16" by (simp add: mask_eq_exp_minus_1)
  fix n assume "n < LENGTH(32)"
  then show "bit (ucast (ucast (h AND 0xFFFF) :: u16) OR push_bit 16 (ucast (ucast (drop_bit 16 h) :: u16)) :: u32) n = bit h n"
    unfolding m by (cases "n < 16") (auto simp: bit_simps)
qed

text \<open>
  C35: after \<^verbatim>\<open>idt_init\<close>'s calls each of the 49 vectors has a present 32-bit trap gate for the
  kernel code segment whose offset is the address of its own stub, with privilege 3 for the
  system call and 1 for the others; the gates of all other vectors are as before.
\<close>

theorem idt_gates_installed:
  assumes "length idt = IDT_MAX_DESCRIPTORS"
  shows "(\<forall>(v, user) \<in> set idt_vectors. gate_offset (idt_fill isr idt ! unat v) = isr v \<and>
      i_present (idt_fill isr idt ! unat v) = 1 \<and> i_kernel_cs (idt_fill isr idt ! unat v) = 8 \<and>
      i_type (idt_fill isr idt ! unat v) = 15 \<and>
      i_privilege_level (idt_fill isr idt ! unat v) = (if user then 3 else 1)) \<and>
    (\<forall>v. v \<notin> fst ` set idt_vectors \<longrightarrow> idt_fill isr idt ! unat v = idt ! unat v)"
proof -
  have l: "length idt = 256" using assms by (simp add: IDT_MAX_DESCRIPTORS_def)
  have *: "gate_for (isr v) user (idt_fill isr idt ! unat v)" if "(v, user) \<in> set idt_vectors" for v user
    unfolding idt_fill_def by (rule fold_gates_at [OF that idt_vectors_distinct l])
  have "gate_offset e = isr v" if "gate_for (isr v) user e" for e v user
    using that by (simp add: gate_for_def gate_offset_def split_halves)
  with * show ?thesis
    by (fastforce simp: idt_fill_def fold_gates_other gate_for_def)
qed

definition blank_gate :: idt_entry where
  "blank_gate = \<lparr>i_isr_low = 0, i_kernel_cs = 0, i_reserved = 0, i_type = 0, i_storage_segment = 0,
     i_privilege_level = 0, i_present = 0, i_isr_high = 0\<rparr>"

theorem idt_gates_installed_witness:
  "gate_offset (idt_fill (\<lambda>v. 0xC0009000 + 16 * ucast v) (replicate 256 blank_gate) ! unat (50 :: u8))
    = 0xC0009000 + 16 * ucast (50 :: u8)"
proof -
  have l: "length (replicate 256 blank_gate) = IDT_MAX_DESCRIPTORS"
    by (simp add: IDT_MAX_DESCRIPTORS_def)
  have "(50, True) \<in> set idt_vectors" by (simp add: idt_vectors_def)
  with idt_gates_installed [OF l, of "\<lambda>v. 0xC0009000 + 16 * ucast v"] show ?thesis
    by blast
qed

lemma irq_remap_log:
  "irq_remap c = c\<lparr>io := [Out PIC2_DATA 0, Out PIC1_DATA 0, Out PIC2_DATA 1, Out PIC1_DATA 1,
     Out PIC2_DATA 2, Out PIC1_DATA 4, Out PIC2_DATA 0x28, Out PIC1_DATA 0x20,
     Out PIC2_COMMAND 0x11, Out PIC1_COMMAND 0x11] @ io c\<rparr>"
  by (simp add: irq_remap_def port_defs Let_def)

lemma pic_steps:
  "pic_command 0x11 p = p\<lparr>pic_stage := 1, pic_mask := 0\<rparr>"
  "pic_stage p = 1 \<Longrightarrow> pic_data v p = p\<lparr>pic_stage := 2, pic_vector := v\<rparr>"
  "pic_stage p = 2 \<Longrightarrow> pic_data v p = p\<lparr>pic_stage := 3, pic_cascade := v\<rparr>"
  "pic_stage p = 3 \<Longrightarrow> pic_data v p = p\<lparr>pic_stage := 0, pic_mode := v\<rparr>"
  "pic_stage p = 0 \<Longrightarrow> pic_data v p = p\<lparr>pic_mask := v\<rparr>"
  by (simp_all add: pic_command_def pic_data_def)

lemma pic_init_sequence:
  "pic_data m (pic_data d (pic_data c (pic_data b (pic_command 0x11 p)))) =
     p\<lparr>pic_stage := 0, pic_vector := b, pic_cascade := c, pic_mode := d, pic_mask := m\<rparr>"
  by (simp add: pic_steps)

lemma irq_remap_pics:
  "pic_after PIC1_COMMAND PIC1_DATA p (io (irq_remap c)) = (pic_after PIC1_COMMAND PIC1_DATA p (io c))
     \<lparr>pic_stage := 0, pic_vector := 0x20, pic_cascade := 4, pic_mode := 1, pic_mask := 0\<rparr>"
  "pic_after PIC2_COMMAND PIC2_DATA p (io (irq_remap c)) = (pic_after PIC2_COMMAND PIC2_DATA p (io c))
     \<lparr>pic_stage := 0, pic_vector := 0x28, pic_cascade := 2, pic_mode := 1, pic_mask := 0\<rparr>"
proof -
  have d: "PIC1_COMMAND \<noteq> PIC1_DATA" "PIC1_COMMAND \<noteq> PIC2_DATA" "PIC1_COMMAND \<noteq> PIC2_COMMAND"
    "PIC2_COMMAND \<noteq> PIC1_DATA" "PIC2_COMMAND \<noteq> PIC2_DATA" "PIC1_DATA \<noteq> PIC2_DATA"
    by (simp_all add: pic_ports)
  note d = d d [symmetric]
  show "pic_after PIC1_COMMAND PIC1_DATA p (io (irq_remap c)) = (pic_after PIC1_COMMAND PIC1_DATA p (io c))
     \<lparr>pic_stage := 0, pic_vector := 0x20, pic_cascade := 4, pic_mode := 1, pic_mask := 0\<rparr>"
    by (simp add: irq_remap_log d pic_init_sequence)
  show "pic_after PIC2_COMMAND PIC2_DATA p (io (irq_remap c)) = (pic_after PIC2_COMMAND PIC2_DATA p (io c))
     \<lparr>pic_stage := 0, pic_vector := 0x28, pic_cascade := 2, pic_mode := 1, pic_mask := 0\<rparr>"
    by (simp add: irq_remap_log d pic_init_sequence)
qed

text \<open>
  \<^verbatim>\<open>irq_remap\<close> leaves both controllers initialised, the slave on line 2, nothing masked, and
  IRQ 0 to 15 on vectors 32 to 47, whatever state they were in; each of these vectors is one
  that \<^verbatim>\<open>idt_init\<close> gives a gate.
\<close>

theorem irq_remap_vectors:
  "(let p1 = pic_after PIC1_COMMAND PIC1_DATA p (io (irq_remap c));
        p2 = pic_after PIC2_COMMAND PIC2_DATA q (io (irq_remap c)) in
    pic_stage p1 = 0 \<and> pic_stage p2 = 0 \<and> pic_cascade p1 = 4 \<and> pic_cascade p2 = 2 \<and>
    pic_mask p1 = 0 \<and> pic_mask p2 = 0 \<and>
    (\<forall>irq \<in> {..<16}. irq_vector p1 p2 irq = 32 + irq \<and> of_nat (32 + irq) \<in> fst ` set idt_vectors))"
proof -
  have v: "of_nat (32 + irq) \<in> fst ` set idt_vectors" if "irq < 16" for irq
  proof -
    have "32 + irq \<in> set [0..<48]" using that by simp
    then have "(of_nat (32 + irq), False) \<in> set idt_vectors"
      unfolding idt_vectors_def by (simp only: set_append set_map) blast
    then show ?thesis by force
  qed
  have r: "irq_vector (a\<lparr>pic_stage := 0, pic_vector := 0x20, pic_cascade := x, pic_mode := y, pic_mask := z\<rparr>)
      (b\<lparr>pic_stage := 0, pic_vector := 0x28, pic_cascade := x', pic_mode := y', pic_mask := z'\<rparr>) irq
      = 32 + irq" for a b x y z x' y' z' irq
    by (simp add: irq_vector_def)
  show ?thesis
    unfolding irq_remap_pics Let_def by (intro conjI ballI r v) simp_all
qed

theorem irq_remap_vectors_witness:
  "irq_vector (pic_after PIC1_COMMAND PIC1_DATA \<lparr>pic_stage = 0, pic_vector = 8, pic_cascade = 0, pic_mode = 0,
       pic_mask = 255\<rparr> (io (irq_remap (console_at 0))))
     (pic_after PIC2_COMMAND PIC2_DATA \<lparr>pic_stage = 0, pic_vector = 0x70, pic_cascade = 0, pic_mode = 0,
       pic_mask = 255\<rparr> (io (irq_remap (console_at 0)))) 14 = 46"
proof -
  have "(14 :: nat) \<in> {..<16}" by simp
  with irq_remap_vectors [of "\<lparr>pic_stage = 0, pic_vector = 8, pic_cascade = 0, pic_mode = 0,
       pic_mask = 255\<rparr>" "console_at 0" "\<lparr>pic_stage = 0, pic_vector = 0x70, pic_cascade = 0, pic_mode = 0,
       pic_mask = 255\<rparr>"] show ?thesis
    unfolding Let_def by fastforce
qed

section \<open>Handlers\<close>

lemma draw_panic_screen_on_screen:
  assumes "crtc_law (dev c)"
  shows "on_screen (draw_panic_screen c)" and "dev (draw_panic_screen c) = dev c"
proof -
  have "on_grid [(column, row). column \<leftarrow> [0..79], row \<leftarrow> [0..24]]"
    by (auto simp: on_grid_def)
  then obtain v where v: "fill_cells [(column, row). column \<leftarrow> [0..79], row \<leftarrow> [0..24]] WHITE_ON_BLUE c
      = c\<lparr>vram := v\<rparr>"
    using fill_cells_statics by blast
  have d: "draw_panic_screen c = set_cursor 0 (c\<lparr>vram := v\<rparr>)"
    by (simp only: draw_panic_screen_def v get_screen_offset_def) simp
  have "crtc_law (dev (c\<lparr>vram := v\<rparr>))" using assms by simp
  from set_cursor_result [OF this, of 0]
  have "cursor (draw_panic_screen c) 0" and "\<exists>l. draw_panic_screen c = c\<lparr>vram := v, io := l\<rparr>"
    by (simp_all add: d)
  then show "on_screen (draw_panic_screen c)" and "dev (draw_panic_screen c) = dev c"
    by (auto simp: on_screen_def)
qed

lemma println_on_screen: "on_screen c \<Longrightarrow> on_screen (println m c)"
  unfolding println_eq using print_on_screen by blast

lemma panic_text_on_screen: "crtc_law (dev c) \<Longrightarrow> on_screen (panic_text m c)"
  by (simp add: panic_text_def println_on_screen draw_panic_screen_on_screen)

lemma dump_row_returns:
  assumes "on_screen c" and "\<And>num base. snd r = Some (num, base) \<Longrightarrow> 2 \<le> base \<and> base \<le> 16"
  shows "\<exists>buf' c'. dump_row r (buf, c) = Some (buf', c') \<and> on_screen c'"
proof (cases r)
  case (Pair label v)
  show ?thesis
  proof (cases v)
    case None
    with assms Pair show ?thesis by (simp add: println_on_screen)
  next
    case (Some nb)
    obtain num base where nb: "nb = (num, base)" by force
    have "2 \<le> base" "base \<le> 16" using assms(2) [of num base] Pair Some nb by simp_all
    then obtain buf' where "itoa num buf base = Some buf'" by (rule itoa_result)
    then show ?thesis
      using Pair Some nb print_on_screen [OF println_on_screen [OF assms(1)]] by simp
  qed
qed

lemma dump_all_returns:
  assumes "on_screen c" and "\<And>r num base. r \<in> set rs \<Longrightarrow> snd r = Some (num, base) \<Longrightarrow> 2 \<le> base \<and> base \<le> 16"
  shows "\<exists>buf' c'. dump_all rs (buf, c) = Some (buf', c') \<and> on_screen c'"
  using assms
proof (induction rs arbitrary: buf c)
  case (Cons r rs)
  obtain buf' c' where d: "dump_row r (buf, c) = Some (buf', c')" "on_screen c'"
    using dump_row_returns [OF Cons.prems(1), of r buf] Cons.prems(2) [of r]
    by (metis list.set_intros(1))
  moreover have "\<exists>buf'' c''. dump_all rs (buf', c') = Some (buf'', c'') \<and> on_screen c''"
    by (rule Cons.IH [OF d(2)]) (use Cons.prems(2) in \<open>meson list.set_intros(2)\<close>)
  ultimately show ?case by simp
qed simp

lemma dump_rows_bases:
  "r \<in> set (dump_rows st) \<Longrightarrow> snd r = Some (num, base) \<Longrightarrow> 2 \<le> base \<and> base \<le> 16"
  by (auto simp: dump_rows_def base_defs)

lemma exceptions_table:
  "length exceptions = 32" "\<forall>n < 32. exc_number (exceptions ! n) = of_nat n"
proof -
  show "length exceptions = 32" by (simp add: exceptions_def)
  have "list_all (\<lambda>n. exc_number (exceptions ! n) = of_nat n) [0..<32]"
    by (simp add: exceptions_def upt_rec)
  then show "\<forall>n < 32. exc_number (exceptions ! n) = of_nat n"
    by (simp add: list_all_iff atLeast0LessThan)
qed


definition blank_state :: exception_state where
  "blank_state = \<lparr>x_idtr = 0, x_gdtr = 0, x_gs = 0, x_fs = 0, x_es = 0, x_cr4 = 0, x_cr3 = 0, x_cr2 = 0,
     x_cr0 = 0, x_ds = 0,
     x_registers = \<lparr>r_edi = 0, r_esi = 0, r_ebp = 0, r_esp_unused = 0, r_ebx = 0, r_edx = 0, r_ecx = 0, r_eax = 0\<rparr>,
     x_fpu_state = \<lparr>control_word = 0, status_word = 0, tag_word = 0, instruction_pointer_offset = 0,
       instruction_pointer_selector = 0, opcode = 0, operand_pointer_offset = 0,
       operand_pointer_selector = 0, fpu_registers = replicate 80 0\<rparr>,
     x_interrupt_number = 14, x_error_code = 0, x_eip = 0, x_cs = 0, x_eflags = 0, x_esp = 0, x_ss = 0\<rparr>"


text \<open>
  a scancode that the table has (0 to 57) puts its character, green on black, in the corner
  of the screen and changes no other cell; any other scancode (every key release among
  them) shows a byte read behind the table.
\<close>

theorem keyboard_shows:
  "(let sc = dev c (io c) 0x60; c' = keyboard_handler rodata c;
        ch = (if sc < 58 then ASCIITable ! unat sc else rodata (unat sc)) in
    ch \<noteq> newline \<longrightarrow> vram c' = (vram c)(0 := ch, 1 := GREEN_ON_BLACK) \<and> io c' = In 0x60 sc # io c)"
proof -
  have l: "length ASCIITable = 58" by (simp add: ASCIITable_def)
  have t: "unat sc < 58 \<longleftrightarrow> sc < 58" for sc :: u8 by (simp add: word_less_nat_alt)
  show ?thesis
    by (simp add: keyboard_handler_def ascii_at_def l t Let_def inportb_def print_char_loc_def
        get_screen_offset_def screen_defs)
qed

theorem keyboard_shows_witness:
  "vram (keyboard_handler (\<lambda>_. 0) ((console_at 0)\<lparr>dev := \<lambda>l p. 0x10\<rparr>)) 0 = chr CHR ''q''"
  using keyboard_shows [of "(console_at 0)\<lparr>dev := \<lambda>l p. 0x10\<rparr>" "\<lambda>_. 0"]
  by (simp add: Let_def ASCIITable_def)

end
