(* ===== verification/Machine.thy ===== *)
theory Machine
  imports Gates Segments PageTables
begin

text \<open>
  The state of the machine and the kernel: the linear memory in which the C structs live, the
  console, the interrupt flag and the registers the code reads, and the static variables of the C
  files. Kernel functions pass this state and return a \<open>res\<close>. Memory is the kernel's linear
  address space after paging is on; the text buffer at \<^verbatim>\<open>VIDEO_ADDRESS\<close> is the console's \<open>vram\<close>.
\<close>

record phys_page =
  pp_type :: u8
  pp_addr :: ptr

record kstate =
  kmem :: mem
  con :: console
  iflag :: bool
  esp :: u32
  cr3 :: u32
  physical_page_entries :: "phys_page list"
  pagecount :: u32
  base_pd :: ptr
  kernel_pool :: ptr
  UsableMemoryRegionCount :: int
  usableMemoryRegions :: "ptr list"
  firstFreeSegment :: ptr
  kernel_thread :: ptr
  idle_thread :: ptr
  all_threads :: ptr
  ready_threads :: ptr
  sleeper_list :: ptr
  tick_count :: u32
  num_threads :: u32
  ticks :: u32
  kernel_tss :: ptr
  gdt_table :: "gdt_entry list"
  gdt_register :: gdt_info
  idt_table :: "idt_entry list"
  idt_register :: idtr_t

type_synonym 'a kres = "('a, kstate) res"

text \<open>A word of a struct in memory: read, and written.\<close>

abbreviation rd :: "kstate \<Rightarrow> ptr \<Rightarrow> u32" where
  "rd s a \<equiv> ld32 (kmem s) a"

abbreviation wr :: "ptr \<Rightarrow> u32 \<Rightarrow> kstate \<Rightarrow> kstate" where
  "wr a v s \<equiv> kmem_update (st32 a v) s"

abbreviation wr8 :: "ptr \<Rightarrow> u8 \<Rightarrow> kstate \<Rightarrow> kstate" where
  "wr8 a v s \<equiv> kmem_update (\<lambda>m. m(a := v)) s"

abbreviation ret :: "'a \<Rightarrow> kstate \<Rightarrow> 'a kres" where
  "ret a s \<equiv> Inr (a, s)"

section \<open>Panic and printing\<close>

text \<open>\<^verbatim>\<open>PANIC\<close>: the message on the panic screen, then \<^verbatim>\<open>cli; hlt\<close>.\<close>

definition PANIC :: "string \<Rightarrow> kstate \<Rightarrow> 'a kres" where
  "PANIC msg s = Inl (Panic msg (s\<lparr>con := panic_text (lit msg) (con s), iflag := False\<rparr>))"

abbreviation kprintln :: "string \<Rightarrow> kstate \<Rightarrow> kstate" where
  "kprintln msg s \<equiv> con_update (println (lit msg)) s"

abbreviation kprint :: "string \<Rightarrow> kstate \<Rightarrow> kstate" where
  "kprint msg s \<equiv> con_update (print (lit msg)) s"

text \<open>\<^verbatim>\<open>print(itoa(num, str, base))\<close> and \<^verbatim>\<open>println(itoa(num, str, base))\<close>.\<close>

definition kprint_num :: "u32 \<Rightarrow> u32 \<Rightarrow> kstate \<Rightarrow> unit kres" where
  "kprint_num num base s =
     (case print_num num base (con s) of None \<Rightarrow> Inl Hang
      | Some c \<Rightarrow> ret () (con_update (\<lambda>_. c) s))"

definition kprintln_num :: "u32 \<Rightarrow> u32 \<Rightarrow> kstate \<Rightarrow> unit kres" where
  "kprintln_num num base s =
     (case itoa num (strbuf (con s)) base of None \<Rightarrow> Inl Hang
      | Some str \<Rightarrow> ret () (con_update (\<lambda>c. println (cstr 128 str) (c\<lparr>strbuf := str\<rparr>)) s))"

text \<open>Printing a register: only the console changes, and it always returns.\<close>

lemma PANIC_not_Inr [simp]: "PANIC msg s \<noteq> Inr x" "Inr x \<noteq> PANIC msg s"
  by (simp_all add: PANIC_def)

lemma PANIC_not_Hang [simp]: "PANIC msg s \<noteq> Inl Hang" "PANIC msg s \<noteq> Inl Undefined"
  by (simp_all add: PANIC_def)

lemma seq_PANIC [simp]: "seq (PANIC msg s) f = PANIC msg s"
  by (simp add: PANIC_def)

lemma kprint_num_returns:
  assumes "2 \<le> base" and "base \<le> 16"
  obtains f where "kprint_num num base s = ret () (con_update f s)"
proof -
  obtain str' where "itoa num (strbuf (con s)) base = Some str'"
    by (rule itoa_result [OF assms])
  then show ?thesis
    by (intro that [of "\<lambda>_. print (cstr 128 str') (con s\<lparr>strbuf := str'\<rparr>)"])
      (simp add: kprint_num_def print_num_def)
qed

lemma kprintln_num_returns:
  assumes "2 \<le> base" and "base \<le> 16"
  obtains f where "kprintln_num num base s = ret () (con_update f s)"
proof -
  obtain str' where "itoa num (strbuf (con s)) base = Some str'"
    by (rule itoa_result [OF assms])
  then show ?thesis
    by (intro that [of "\<lambda>c. println (cstr 128 str') (c\<lparr>strbuf := str'\<rparr>)"])
      (simp add: kprintln_num_def)
qed

section \<open>The interrupt flag (\<^verbatim>\<open>src/interrupt/idt.c\<close>)\<close>

definition int_get_level :: "kstate \<Rightarrow> bool" where
  "int_get_level s = iflag s"

definition int_enable :: "kstate \<Rightarrow> bool \<times> kstate" where
  "int_enable s = (let level = int_get_level s in (level, s\<lparr>iflag := True\<rparr>))"

definition int_disable :: "kstate \<Rightarrow> bool \<times> kstate" where
  "int_disable s = (let level = int_get_level s in (level, s\<lparr>iflag := False\<rparr>))"

definition int_set :: "bool \<Rightarrow> kstate \<Rightarrow> kstate" where
  "int_set level s = (if level then snd (int_enable s) else s)"

lemmas int_defs = int_get_level_def int_enable_def int_disable_def int_set_def

lemma int_critical_section:
  "int_set (fst (int_disable s)) (snd (int_disable s)) = s"
  by (simp add: int_defs Let_def)

end
