(* ===== verification/Paging.thy ===== *)
theory Paging
  imports Machine
begin

text \<open>
  Physical memory and the kernel's page tables: the BIOS memory map (\<^verbatim>\<open>src/lib/smap.c\<close>), the
  frame table, \<^verbatim>\<open>map_page\<close> and the page allocators (\<^verbatim>\<open>src/paging/paging.c\<close>), and the first segment of
  the heap (\<^verbatim>\<open>initialiseHeap\<close> of \<^verbatim>\<open>src/heap/heap.c\<close>). Structs are read and written at their
  offsets: a memory map entry is Base 0, Length 8, Type 16, ACPI 20 (24 bytes); a pool is ring 0,
  next_free_page_index 4, heap_base_pointer 8 and 512 virtual pages from 12, each type 0,
  base_vaddr 4, nextPage 8, previousPage 12 (16 bytes); a segment header is MemoryLength 0,
  nextSegment 4, previousSegment 8, nextFreeSegment 12, previousFreeSegment 16, free 20 (24 bytes).
\<close>

section \<open>The memory map\<close>

record MemoryMapEntry =
  me_Base :: u64
  me_Length :: u64
  me_Type :: u32
  me_ACPI :: u32

definition MemoryMapEntry_at :: "mem \<Rightarrow> ptr \<Rightarrow> MemoryMapEntry" where
  "MemoryMapEntry_at m p = \<lparr>me_Base = ld64 m p, me_Length = ld64 m (p + 8),
     me_Type = ld32 m (p + 16), me_ACPI = ld32 m (p + 20)\<rparr>"

definition sizeof_MemoryMapEntry :: u32 where "sizeof_MemoryMapEntry = 24"

text \<open>The static array has ten places; the source does not check the count.\<close>

fun usable_loop :: "nat \<Rightarrow> ptr \<Rightarrow> ptr list \<Rightarrow> mem \<Rightarrow> ptr list option" where
  "usable_loop 0 mMap regions m = Some regions"
| "usable_loop (Suc n) mMap regions m =
     (let mMap = mMap + sizeof_MemoryMapEntry in
      if me_Type (MemoryMapEntry_at m mMap) \<noteq> 1 then usable_loop n mMap regions m
      else if length regions < 10 then usable_loop n mMap (regions @ [mMap]) m
      else None)"

definition getUsableMemoryRegions :: "u8 \<Rightarrow> kstate \<Rightarrow> ptr list kres" where
  "getUsableMemoryRegions MRC s =
     (case usable_loop (unat MRC) (0x5000 - sizeof_MemoryMapEntry) [] (kmem s) of
        None \<Rightarrow> Inl Undefined
      | Some regions \<Rightarrow> ret regions
          (s\<lparr>UsableMemoryRegionCount := int (length regions), usableMemoryRegions := regions\<rparr>))"

fun print_fields :: "(string \<times> u32) list \<Rightarrow> u32 \<Rightarrow> kstate \<Rightarrow> unit kres" where
  "print_fields [] base s = ret () s"
| "print_fields ((label, v) # fs) base s =
     seq (kprint_num v base (kprintln label s)) (\<lambda>_. print_fields fs base)"

definition printMemoryMap :: "ptr \<Rightarrow> kstate \<Rightarrow> unit kres" where
  "printMemoryMap p s =
     (let e = MemoryMapEntry_at (kmem s) p in
      print_fields [(''Base:'', ucast (me_Base e)), (''Length:'', ucast (me_Length e)),
        (''Type:'', me_Type e), (''ACPI:'', me_ACPI e)] BASE_HEX s)"

fun printMemoryRegions :: "nat \<Rightarrow> nat \<Rightarrow> ptr \<Rightarrow> kstate \<Rightarrow> unit kres" where
  "printMemoryRegions 0 i mMap s = ret () s"
| "printMemoryRegions (Suc n) i mMap s =
     seq (kprint_num (of_nat i) 10 (kprintln ''Memory Region:'' s)) (\<lambda>_ s.
     seq (printMemoryMap mMap s) (\<lambda>_ s.
     printMemoryRegions n (Suc i) (mMap + sizeof_MemoryMapEntry) s))"

section \<open>Frames\<close>

definition M_FREE :: u8 where "M_FREE = 1"
definition M_ALLOCATED :: u8 where "M_ALLOCATED = 2"
definition M_RESERVED :: u8 where "M_RESERVED = 3"
definition MAX_PHYS_PAGES :: nat where "MAX_PHYS_PAGES = 4096"
definition F_KERN :: u8 where "F_KERN = 0x1"
definition F_ZERO :: u8 where "F_ZERO = 0x2"
definition F_ASSERT :: u8 where "F_ASSERT = 0x4"
definition F_VERBOSE :: u8 where "F_VERBOSE = 0x80"

lemmas page_flags = F_KERN_def F_ZERO_def F_ASSERT_def F_VERBOSE_def
lemmas page_types = M_FREE_def M_ALLOCATED_def M_RESERVED_def

text \<open>The search of \<^verbatim>\<open>get_next_free_physical_page\<close>: the first free entry, now allocated.\<close>

fun take_free :: "phys_page list \<Rightarrow> (ptr \<times> phys_page list) option" where
  "take_free [] = None"
| "take_free (p # ps) =
     (if pp_type p = M_FREE then Some (pp_addr p, p\<lparr>pp_type := M_ALLOCATED\<rparr> # ps)
      else map_option (\<lambda>(a, qs). (a, p # qs)) (take_free ps))"

definition get_next_free_physical_page :: "kstate \<Rightarrow> ptr \<times> kstate" where
  "get_next_free_physical_page s =
     (case take_free (physical_page_entries s) of
        None \<Rightarrow> (NO_ADDR, s)
      | Some (a, ps) \<Rightarrow> (a, s\<lparr>physical_page_entries := ps\<rparr>))"

text \<open>The addresses of the free entries, in the order in which they are handed out.\<close>

definition free_frames :: "phys_page list \<Rightarrow> ptr list" where
  "free_frames ps = map pp_addr (filter (\<lambda>p. pp_type p = M_FREE) ps)"

lemma take_free_None: "take_free ps = None \<longleftrightarrow> free_frames ps = []"
  by (induction ps) (auto simp: free_frames_def)

lemma take_free_Some: "take_free ps = Some (a, qs) \<Longrightarrow> free_frames ps = a # free_frames qs"
  by (induction ps arbitrary: qs)
    (auto simp: free_frames_def page_types split: if_splits)

lemma take_free_length: "take_free ps = Some (a, qs) \<Longrightarrow> length qs = length ps"
  by (induction ps arbitrary: qs) (auto split: if_splits)

lemma get_next_free_cases:
  obtains "get_next_free_physical_page s = (NO_ADDR, s)" and "free_frames (physical_page_entries s) = []"
  | a ps where "get_next_free_physical_page s = (a, s\<lparr>physical_page_entries := ps\<rparr>)"
      and "free_frames (physical_page_entries s) = a # free_frames ps"
      and "length ps = length (physical_page_entries s)"
proof (cases "take_free (physical_page_entries s)")
  case None
  then have "get_next_free_physical_page s = (NO_ADDR, s)"
    by (simp add: get_next_free_physical_page_def)
  with None show ?thesis using that(1) by (simp add: take_free_None)
next
  case (Some x)
  obtain a ps where x: "x = (a, ps)" by force
  then have "get_next_free_physical_page s = (a, s\<lparr>physical_page_entries := ps\<rparr>)"
    using Some by (simp add: get_next_free_physical_page_def)
  with Some x show ?thesis using that(2) take_free_Some take_free_length by blast
qed

lemma page_aligned_mod_lit: "(a :: u32) mod 4096 = 0 \<longleftrightarrow> page_aligned a"
  by (simp add: page_aligned_mod PGSIZE_def)

lemma page_aligned_dvd: "4096 dvd (a :: u32) \<Longrightarrow> page_aligned a"
proof -
  assume "4096 dvd a"
  then obtain k where "a = 4096 * k" ..
  then have "unat a = (4096 * unat k) mod 4294967296" by (simp add: unat_word_ariths)
  moreover have "4096 dvd (4096 * unat k) mod 4294967296" by (intro dvd_mod) simp_all
  ultimately show ?thesis by (simp add: page_aligned_def)
qed

lemma not_page_aligned_NO_ADDR [simp]: "\<not> page_aligned NO_ADDR"
proof -
  have "unat NO_ADDR = 4294967295"
    by (simp add: NO_ADDR_def unsigned_minus_1_eq_mask mask_eq_exp_minus_1)
  then show ?thesis by (simp only: page_aligned_def) arith
qed

text \<open>What the recursion of \<^verbatim>\<open>map_page\<close> uses up: frames, then the aligned address.\<close>

definition frame_measure :: "ptr \<Rightarrow> kstate \<Rightarrow> nat" where
  "frame_measure a s = 2 * length (free_frames (physical_page_entries s)) + (if page_aligned a then 1 else 0)"

lemma get_next_free_measure:
  "get_next_free_physical_page s = (a, s') \<Longrightarrow> page_aligned b \<Longrightarrow> frame_measure a s' < frame_measure b s"
  by (cases s rule: get_next_free_cases) (auto simp: frame_measure_def)

section \<open>Page table entries in memory\<close>

definition set_pde :: "ptr \<Rightarrow> (page_directory_entry \<Rightarrow> page_directory_entry) \<Rightarrow> kstate \<Rightarrow> kstate" where
  "set_pde va f s = s\<lparr>kmem := put_pde va (f (pde_at (kmem s) va)) (kmem s)\<rparr>"

definition set_pte :: "ptr \<Rightarrow> (page_table_entry \<Rightarrow> page_table_entry) \<Rightarrow> kstate \<Rightarrow> kstate" where
  "set_pte va f s = s\<lparr>kmem := put_pte va (f (pte_at (kmem s) va)) (kmem s)\<rparr>"

text \<open>
  \<^verbatim>\<open>map_page\<close>. A missing page table is a frame of its own, mapped into the kernel window by the
  function itself before the directory entry is filled in.
\<close>

definition map_entry :: "ptr \<Rightarrow> ptr \<Rightarrow> u8 \<Rightarrow> kstate \<Rightarrow> unit kres" where
  "map_entry paddr vaddr flags s =
     (let s = set_pte vaddr (\<lambda>e. e\<lparr>p_page_base_addr := ucast (drop_bit PGBITS paddr),
            p_present := 1, p_read_write := 1\<rparr>) s;
          s = (if flags AND F_KERN \<noteq> 0 then set_pte vaddr (\<lambda>e. e\<lparr>p_user_supervisor := 1\<rparr>) s else s)
      in if flags AND F_VERBOSE \<noteq> 0
         then seq (kprint_num paddr BASE_HEX (kprintln ''Mapped Page (P:V) '' s)) (\<lambda>_ s.
              kprint_num vaddr BASE_HEX (kprint '':'' s))
         else ret () s)"

function map_page :: "ptr \<Rightarrow> ptr \<Rightarrow> u8 \<Rightarrow> kstate \<Rightarrow> unit kres" where
  "map_page paddr vaddr flags s =
     (if vaddr mod PGSIZE \<noteq> 0 \<or> paddr mod 4096 \<noteq> 0 then PANIC ''VADDR NOT 4k ALIGNED'' s
      else if d_present (pde_at (kmem s) vaddr) = 0 then
        (let (pt_addr, s) = get_next_free_physical_page s in
         seq (map_page pt_addr (Kptov pt_addr) F_KERN s) (\<lambda>_ s.
         map_entry paddr vaddr flags
           (set_pde vaddr (\<lambda>e. e\<lparr>d_page_table_base_addr := ucast (drop_bit PGBITS pt_addr),
              d_present := 1, d_read_write := 1\<rparr>) s)))
      else map_entry paddr vaddr flags s)"
  by pat_completeness auto

text \<open>
  The recursion takes a frame each time, or is called with \<^verbatim>\<open>NO_ADDR\<close>, which is not aligned.
\<close>

termination
  by (relation "measure (\<lambda>(paddr, vaddr, flags, s). frame_measure paddr s)")
    (auto simp: PGSIZE_def dest: page_aligned_dvd intro: get_next_free_measure)

declare map_page.simps [simp del]

section \<open>What \<^verbatim>\<open>map_page\<close> does\<close>

text \<open>The entry that \<^verbatim>\<open>map_page\<close> leaves for a frame, given the entry that was there.\<close>

definition leaf :: "ptr \<Rightarrow> u8 \<Rightarrow> page_table_entry \<Rightarrow> page_table_entry" where
  "leaf paddr flags e = e\<lparr>p_page_base_addr := ucast (drop_bit PGBITS paddr), p_present := 1,
     p_read_write := 1, p_user_supervisor := (if flags AND F_KERN \<noteq> 0 then 1 else p_user_supervisor e)\<rparr>"

lemma map_entry_result:
  assumes "tables_ok (kmem s)" and "d_present (pde_at (kmem s) v) \<noteq> 0"
  obtains c where "map_entry p v flags s =
    ret () (s\<lparr>kmem := put_pte v (leaf p flags (pte_at (kmem s) v)) (kmem s), con := c\<rparr>)"
proof -
  let ?s = "s\<lparr>kmem := put_pte v (leaf p flags (pte_at (kmem s) v)) (kmem s)\<rparr>"
  have w: "map_entry p v flags s = (if flags AND F_VERBOSE \<noteq> 0
      then seq (kprint_num p BASE_HEX (kprintln ''Mapped Page (P:V) '' ?s)) (\<lambda>_ s.
        kprint_num v BASE_HEX (kprint '':'' s)) else ret () ?s)"
    using assms by (simp add: map_entry_def set_pte_def leaf_def put_pte_twice pte_at_put_pte Let_def)
  show ?thesis
  proof (cases "flags AND F_VERBOSE \<noteq> 0")
    case True
    have hex: "2 \<le> BASE_HEX" "BASE_HEX \<le> 16" by (simp_all add: base_defs)
    obtain f where f: "kprint_num p BASE_HEX (kprintln ''Mapped Page (P:V) '' ?s)
        = ret () (con_update f (kprintln ''Mapped Page (P:V) '' ?s))"
      using kprint_num_returns [OF hex] by blast
    obtain g where g: "kprint_num v BASE_HEX (kprint '':'' (con_update f (kprintln ''Mapped Page (P:V) '' ?s)))
        = ret () (con_update g (kprint '':'' (con_update f (kprintln ''Mapped Page (P:V) '' ?s))))"
      using kprint_num_returns [OF hex] by blast
    show ?thesis
      by (rule that [of "g (print (lit '':'') (f (println (lit ''Mapped Page (P:V) '') (con s))))"])
        (use True f g in \<open>simp add: w\<close>)
  next
    case False
    then show ?thesis using that [of "con s"] by (simp add: w)
  qed
qed

text \<open>
  The frames that can still be handed out: distinct, aligned, mapped in the kernel window, and
  none of them the directory or a page table in use.
\<close>

definition frames_ok :: "mem \<Rightarrow> phys_page list \<Rightarrow> bool" where
  "frames_ok m ps \<longleftrightarrow> distinct (free_frames ps) \<and> (\<forall>p \<in> set (free_frames ps). page_aligned p \<and>
     Kptov p \<noteq> PAGE_DIRECTORY_BASE \<and> d_present (pde_at m (Kptov p)) \<noteq> 0 \<and>
     (\<forall>v. d_present (pde_at m v) \<noteq> 0 \<longrightarrow> table_of (pde_at m v) \<noteq> Kptov p))"

definition paging_ok :: "kstate \<Rightarrow> bool" where
  "paging_ok s \<longleftrightarrow> tables_ok (kmem s) \<and> frames_ok (kmem s) (physical_page_entries s)"

lemma Kptov_inj [simp]: "Kptov p = Kptov q \<longleftrightarrow> p = q"
  by (simp add: Kptov_def)

lemma frames_ok_put_pte [simp]:
  "tables_ok m \<Longrightarrow> d_present (pde_at m v) \<noteq> 0 \<Longrightarrow> frames_ok (put_pte v e m) ps = frames_ok m ps"
  by (simp add: frames_ok_def)

lemma map_page_present:
  assumes "tables_ok (kmem s)" and "page_aligned p" and "page_aligned v"
    and "d_present (pde_at (kmem s) v) \<noteq> 0"
  obtains c where "map_page p v flags s =
    ret () (s\<lparr>kmem := put_pte v (leaf p flags (pte_at (kmem s) v)) (kmem s), con := c\<rparr>)"
  using map_entry_result [OF assms(1,4), of p flags] assms(2-4)
  by (auto simp: map_page.simps [of p v] page_aligned_mod page_aligned_mod_lit)

text \<open>The directory entry for a new table in frame \<open>f\<close>.\<close>

definition new_pde :: "ptr \<Rightarrow> page_directory_entry \<Rightarrow> page_directory_entry" where
  "new_pde f e = e\<lparr>d_page_table_base_addr := ucast (drop_bit PGBITS f), d_present := 1, d_read_write := 1\<rparr>"

lemma table_of_new_pde [simp]: "page_aligned f \<Longrightarrow> table_of (new_pde f e) = Kptov f"
  by (simp add: new_pde_def table_of_def PGBITS_def)

lemma d_present_new_pde [simp]: "d_present (new_pde f e) = 1"
  by (simp add: new_pde_def)

lemma new_table_ok:
  assumes "tables_ok m" and "d_present (pde_at m v) = 0" and "page_aligned f"
    and "Kptov f \<noteq> PAGE_DIRECTORY_BASE"
    and "\<And>w. d_present (pde_at m w) \<noteq> 0 \<Longrightarrow> table_of (pde_at m w) \<noteq> Kptov f"
  shows "tables_ok (put_pde v (new_pde f (pde_at m v)) m)"
proof -
  let ?m = "put_pde v (new_pde f (pde_at m v)) m"
  have p: "table_of (pde_at ?m w) \<noteq> PAGE_DIRECTORY_BASE" if "d_present (pde_at ?m w) \<noteq> 0" for w
    using assms(1,3,4) that by (cases "pd_no w = pd_no v") (simp_all add: pde_at_put_pde tables_ok_pd)
  have d: "table_of (pde_at ?m w) \<noteq> table_of (pde_at ?m u)"
    if "d_present (pde_at ?m w) \<noteq> 0" "d_present (pde_at ?m u) \<noteq> 0" "pd_no w \<noteq> pd_no u" for w u
    using that assms(1,3,5) assms(5) [THEN not_sym]
    by (cases "pd_no w = pd_no v"; cases "pd_no u = pd_no v") (auto simp: pde_at_put_pde tables_ok_def)
  from p d show ?thesis unfolding tables_ok_def by blast
qed

lemma map_page_absent:
  assumes "paging_ok s" and "page_aligned p" and "page_aligned v"
    and "d_present (pde_at (kmem s) v) = 0" and "free_frames (physical_page_entries s) \<noteq> []"
  obtains f ps c where "free_frames (physical_page_entries s) = f # free_frames ps"
    and "length ps = length (physical_page_entries s)"
    and "page_aligned f" and "Kptov f \<noteq> PAGE_DIRECTORY_BASE"
    and "d_present (pde_at (kmem s) (Kptov f)) \<noteq> 0"
    and "\<And>w. d_present (pde_at (kmem s) w) \<noteq> 0 \<Longrightarrow> table_of (pde_at (kmem s) w) \<noteq> Kptov f"
    and "map_page p v flags s =
      (let m = put_pte (Kptov f) (leaf f F_KERN (pte_at (kmem s) (Kptov f))) (kmem s);
           m = put_pde v (new_pde f (pde_at (kmem s) v)) m
       in ret () (s\<lparr>kmem := put_pte v (leaf p flags (pte_at m v)) m, con := c, physical_page_entries := ps\<rparr>))"
proof (cases s rule: get_next_free_cases)
  case 1
  with assms(5) show ?thesis by simp
next
  case (2 f ps)
  note t = assms(1) [unfolded paging_ok_def frames_ok_def]
  have f: "page_aligned f" "Kptov f \<noteq> PAGE_DIRECTORY_BASE" "d_present (pde_at (kmem s) (Kptov f)) \<noteq> 0"
    "\<And>w. d_present (pde_at (kmem s) w) \<noteq> 0 \<Longrightarrow> table_of (pde_at (kmem s) w) \<noteq> Kptov f"
    using t 2(2) by auto
  let ?s = "s\<lparr>physical_page_entries := ps\<rparr>"
  let ?m = "put_pte (Kptov f) (leaf f F_KERN (pte_at (kmem s) (Kptov f))) (kmem s)"
  let ?m' = "put_pde v (new_pde f (pde_at (kmem s) v)) ?m"
  have t': "tables_ok (kmem s)" using t by simp
  obtain c where c: "map_page f (Kptov f) F_KERN ?s = ret () (?s\<lparr>kmem := ?m, con := c\<rparr>)"
    using map_page_present [of ?s f "Kptov f" F_KERN] f t' by auto
  have tm: "tables_ok ?m" using t' f by simp
  have pd: "pde_at ?m w = pde_at (kmem s) w" for w using t' f by simp
  have "tables_ok (put_pde v (new_pde f (pde_at ?m v)) ?m)"
    by (rule new_table_ok [OF tm]) (use pd f assms(4) in auto)
  then have tm': "tables_ok ?m'" by (simp only: pd)
  have pm': "d_present (pde_at ?m' v) \<noteq> 0" by (simp add: pde_at_put_pde)
  let ?s' = "?s\<lparr>con := c, kmem := ?m'\<rparr>"
  obtain c' where c': "map_entry p v flags ?s' = ret () (?s'\<lparr>kmem := put_pte v (leaf p flags (pte_at ?m' v)) ?m', con := c'\<rparr>)"
    using map_entry_result [of ?s' v p flags] tm' pm' by auto
  have "map_page p v flags s = seq (map_page f (Kptov f) F_KERN ?s) (\<lambda>_ s. map_entry p v flags
      (set_pde v (new_pde f) s))"
    using assms(2-4) 2(1)
    by (simp add: map_page.simps [of p v] page_aligned_mod page_aligned_mod_lit new_pde_def [abs_def])
  also have "\<dots> = map_entry p v flags ?s'"
    by (simp add: c set_pde_def pd)
  finally have "map_page p v flags s = ret () (s\<lparr>kmem := put_pte v (leaf p flags (pte_at ?m' v)) ?m',
      con := c', physical_page_entries := ps\<rparr>)"
    unfolding c' by (simp only: sum.inject prod.inject simp_thms) (rule kstate.equality; simp)
  with that [OF 2(2,3) f] show ?thesis by (simp add: Let_def)
qed

text \<open>The walk through an entry that \<^verbatim>\<open>map_page\<close> wrote.\<close>

lemma mmu_leaf:
  assumes "page_aligned v" and "page_aligned p" and "unat k < 4096"
    and "d_present (pde_at m v) \<noteq> 0" and "pte_at m v = leaf p flags e"
  shows "mmu m (v + k) = Some (p + k)"
proof -
  have k: "k < 4096" using assms(3) by (simp add: word_less_nat_alt)
  note pp = page_parts [OF assms(1) k]
  from same_page_entries [OF pp(1), of m] show ?thesis
    using assms(2,4,5) by (simp add: mmu_def pp leaf_def PGBITS_def)
qed

lemma mmu_cong:
  "pde_at m w = pde_at m' w \<Longrightarrow> pte_at m w = pte_at m' w \<Longrightarrow> mmu m w = mmu m' w"
  by (simp add: mmu_def)

lemma frames_ok_put_pde:
  assumes "frames_ok m ps" and "free_frames ps = f # free_frames qs"
    and "d_present (pde_at m v) = 0" and "page_aligned f"
  shows "frames_ok (put_pde v (new_pde f (pde_at m v)) m) qs"
  using assms by (auto simp: frames_ok_def pde_at_put_pde)

text \<open>The page table is there.\<close>

lemma map_page_here:
  assumes "paging_ok s" and "page_aligned p" and "page_aligned v" and pr: "d_present (pde_at (kmem s) v) \<noteq> 0"
  obtains m c where "map_page p v flags s = ret () (s\<lparr>kmem := m, con := c\<rparr>)"
    and "tables_ok m" and "frames_ok m (physical_page_entries s)"
    and "\<And>k. unat k < 4096 \<Longrightarrow> mmu m (v + k) = Some (p + k)" and "\<And>w. pde_at m w = pde_at (kmem s) w"
    and "\<And>w. d_present (pde_at (kmem s) w) \<noteq> 0 \<Longrightarrow> drop_bit 12 w \<noteq> drop_bit 12 v \<Longrightarrow> mmu m w = mmu (kmem s) w"
proof -
  have t: "tables_ok (kmem s)" "frames_ok (kmem s) (physical_page_entries s)"
    using assms(1) by (simp_all add: paging_ok_def)
  let ?m = "put_pte v (leaf p flags (pte_at (kmem s) v)) (kmem s)"
  have pd: "pde_at ?m w = pde_at (kmem s) w" for w using t pr by simp
  have pt: "pte_at ?m v = leaf p flags (pte_at (kmem s) v)" using t pr by (simp add: pte_at_put_pte)
  obtain c where c: "map_page p v flags s = ret () (s\<lparr>kmem := ?m, con := c\<rparr>)"
    using map_page_present [OF t(1) assms(2,3) pr] .
  show ?thesis
  proof (rule that [OF c])
    show "mmu ?m (v + k) = Some (p + k)" if "unat k < 4096" for k
      by (rule mmu_leaf [OF assms(3,2) that _ pt]) (simp add: pd pr)
    show "mmu ?m w = mmu (kmem s) w" if "d_present (pde_at (kmem s) w) \<noteq> 0" "drop_bit 12 w \<noteq> drop_bit 12 v" for w
      by (rule mmu_cong) (use that t pr in \<open>simp_all add: pd pte_at_put_pte\<close>)
  qed (use t pr pd in simp_all)
qed

text \<open>The memory with a new page table in frame \<open>f\<close>, and the entry for \<open>v\<close> in it.\<close>

definition with_table :: "ptr \<Rightarrow> ptr \<Rightarrow> mem \<Rightarrow> mem" where
  "with_table f v m = put_pde v (new_pde f (pde_at m v)) (put_pte (Kptov f) (leaf f F_KERN (pte_at m (Kptov f))) m)"

definition new_table_fits :: "ptr \<Rightarrow> ptr \<Rightarrow> mem \<Rightarrow> bool" where
  "new_table_fits f v m \<longleftrightarrow> tables_ok m \<and> d_present (pde_at m v) = 0 \<and> page_aligned f \<and> Kptov f \<noteq> PAGE_DIRECTORY_BASE \<and>
     d_present (pde_at m (Kptov f)) \<noteq> 0 \<and> (\<forall>w. d_present (pde_at m w) \<noteq> 0 \<longrightarrow> table_of (pde_at m w) \<noteq> Kptov f)"

lemma with_table_ok:
  assumes "new_table_fits f v m"
  shows "pde_at (with_table f v m) w = (if pd_no w = pd_no v then new_pde f (pde_at m v) else pde_at m w)"
    and "tables_ok (with_table f v m)"
    and "frames_ok m ps \<Longrightarrow> free_frames ps = f # free_frames qs \<Longrightarrow> frames_ok (with_table f v m) qs"
proof -
  let ?m1 = "put_pte (Kptov f) (leaf f F_KERN (pte_at m (Kptov f))) m"
  note f = assms [unfolded new_table_fits_def]
  have pd: "pde_at ?m1 w = pde_at m w" for w using f by simp
  then show "pde_at (with_table f v m) w = (if pd_no w = pd_no v then new_pde f (pde_at m v) else pde_at m w)"
    by (simp add: with_table_def pde_at_put_pde)
  have "tables_ok (put_pde v (new_pde f (pde_at ?m1 v)) ?m1)"
    by (rule new_table_ok) (use pd f in auto)
  then show "tables_ok (with_table f v m)" by (simp only: pd with_table_def)
  assume fr: "frames_ok m ps" "free_frames ps = f # free_frames qs"
  have "frames_ok ?m1 ps" using fr(1) f by simp
  then have "frames_ok (put_pde v (new_pde f (pde_at ?m1 v)) ?m1) qs"
    by (rule frames_ok_put_pde [OF _ fr(2)]) (use f in \<open>simp_all add: pd\<close>)
  then show "frames_ok (with_table f v m) qs" by (simp only: pd with_table_def)
qed

text \<open>The walk of pages other than that of \<open>v\<close> and that of the new table is as before.\<close>

lemma with_table_mmu:
  assumes f: "new_table_fits f v m" and w: "d_present (pde_at m w) \<noteq> 0" "drop_bit 12 w \<noteq> drop_bit 12 v"
    "drop_bit 12 w \<noteq> drop_bit 12 (Kptov f)"
  shows "mmu (put_pte v e (with_table f v m)) w = mmu m w"
proof (rule mmu_cong)
  note ok = with_table_ok [OF f]
  have p: "d_present (pde_at (with_table f v m) v) \<noteq> 0" by (simp add: ok(1))
  have old: "pd_no w \<noteq> pd_no v" using w(1) f by (auto simp: pde_at_def new_table_fits_def)
  show "pde_at (put_pte v e (with_table f v m)) w = pde_at m w" using p ok(2) old by (simp add: ok(1))
  let ?m1 = "put_pte (Kptov f) (leaf f F_KERN (pte_at m (Kptov f))) m"
  have pd: "pde_at ?m1 u = pde_at m u" for u using f by (simp add: new_table_fits_def)
  have "pte_at (put_pte v e (with_table f v m)) w = pte_at (with_table f v m) w"
    using w old by (intro pte_at_put_pte(2) ok(2) p) (simp_all add: ok(1))
  also have "\<dots> = pte_at ?m1 w"
    unfolding with_table_def by (rule pte_at_put_pde) (use old w(1) f tables_ok_pd pd in \<open>simp_all add: new_table_fits_def\<close>)
  also have "\<dots> = pte_at m w"
    using w f by (intro pte_at_put_pte(2)) (simp_all add: new_table_fits_def)
  finally show "pte_at (put_pte v e (with_table f v m)) w = pte_at m w" .
qed

lemma map_page_new_table:
  assumes "paging_ok s" and "page_aligned p" and "page_aligned v"
    and "d_present (pde_at (kmem s) v) = 0" and "free_frames (physical_page_entries s) \<noteq> []"
  obtains f m c ps where "free_frames (physical_page_entries s) = f # free_frames ps"
    and "map_page p v flags s = ret () (s\<lparr>kmem := m, con := c, physical_page_entries := ps\<rparr>)"
    and "tables_ok m" and "frames_ok m ps" and "length ps = length (physical_page_entries s)"
    and "\<And>k. unat k < 4096 \<Longrightarrow> mmu m (v + k) = Some (p + k)"
    and "\<And>w. d_present (pde_at (kmem s) w) \<noteq> 0 \<Longrightarrow> pde_at m w = pde_at (kmem s) w"
    and "\<And>w. d_present (pde_at (kmem s) w) \<noteq> 0 \<Longrightarrow> drop_bit 12 w \<noteq> drop_bit 12 v \<Longrightarrow>
      drop_bit 12 w \<noteq> drop_bit 12 (Kptov f) \<Longrightarrow> mmu m w = mmu (kmem s) w"
proof -
  obtain f ps c where f: "free_frames (physical_page_entries s) = f # free_frames ps"
    "length ps = length (physical_page_entries s)" "page_aligned f" "Kptov f \<noteq> PAGE_DIRECTORY_BASE"
    "d_present (pde_at (kmem s) (Kptov f)) \<noteq> 0"
    "\<And>w. d_present (pde_at (kmem s) w) \<noteq> 0 \<Longrightarrow> table_of (pde_at (kmem s) w) \<noteq> Kptov f"
    and run: "map_page p v flags s =
      (let m = put_pte (Kptov f) (leaf f F_KERN (pte_at (kmem s) (Kptov f))) (kmem s);
           m = put_pde v (new_pde f (pde_at (kmem s) v)) m
       in ret () (s\<lparr>kmem := put_pte v (leaf p flags (pte_at m v)) m, con := c, physical_page_entries := ps\<rparr>))"
    by (rule map_page_absent [OF assms, where flags = flags]) (rule that)
  have fits: "new_table_fits f v (kmem s)" using assms(1,4) f by (simp add: new_table_fits_def paging_ok_def)
  note ok = with_table_ok [OF fits]
  let ?m2 = "with_table f v (kmem s)"
  let ?m = "put_pte v (leaf p flags (pte_at ?m2 v)) ?m2"
  have p2: "d_present (pde_at ?m2 v) \<noteq> 0" by (simp add: ok(1))
  have pd: "pde_at ?m w = pde_at ?m2 w" for w using ok(2) p2 by simp
  show ?thesis
  proof (rule that [OF f(1) _ _ _ f(2)])
    show "map_page p v flags s = ret () (s\<lparr>kmem := ?m, con := c, physical_page_entries := ps\<rparr>)"
      using run by (simp only: Let_def with_table_def)
    show "mmu ?m (v + k) = Some (p + k)" if "unat k < 4096" for k
      by (rule mmu_leaf [OF assms(3,2) that]) (use p2 ok(2) in \<open>simp_all add: pte_at_put_pte\<close>)
    show "pde_at ?m w = pde_at (kmem s) w" if "d_present (pde_at (kmem s) w) \<noteq> 0" for w
    proof -
      have "pd_no w \<noteq> pd_no v" using that assms(4) by (auto simp: pde_at_def)
      then show ?thesis by (simp add: pd ok(1))
    qed
    show "mmu ?m w = mmu (kmem s) w" if "d_present (pde_at (kmem s) w) \<noteq> 0" "drop_bit 12 w \<noteq> drop_bit 12 v"
        "drop_bit 12 w \<noteq> drop_bit 12 (Kptov f)" for w
      by (rule with_table_mmu [OF fits that])
    show "tables_ok ?m" using ok(2) p2 by simp
    have "frames_ok (kmem s) (physical_page_entries s)" using assms(1) by (simp add: paging_ok_def)
    then show "frames_ok ?m ps" using ok(2) ok(3) [OF _ f(1)] p2 by simp
  qed
qed

text \<open>
  The outcome of \<^verbatim>\<open>map_page\<close> in one statement, for both cases: the page table is there, or a frame
  is left to make one.
\<close>

lemma map_page_result:
  assumes "paging_ok s" and "page_aligned p" and "page_aligned v"
    and "d_present (pde_at (kmem s) v) \<noteq> 0 \<or> free_frames (physical_page_entries s) \<noteq> []"
  obtains m c ps where
    "map_page p v flags s = ret () (s\<lparr>kmem := m, con := c, physical_page_entries := ps\<rparr>)"
    and "tables_ok m" and "frames_ok m ps" and "length ps = length (physical_page_entries s)"
    and "\<And>k. unat k < 4096 \<Longrightarrow> mmu m (v + k) = Some (p + k)"
    and "\<And>w. d_present (pde_at (kmem s) w) \<noteq> 0 \<Longrightarrow> pde_at m w = pde_at (kmem s) w"
    and "\<And>w. d_present (pde_at (kmem s) w) \<noteq> 0 \<Longrightarrow> drop_bit 12 w \<noteq> drop_bit 12 v \<Longrightarrow>
      d_present (pde_at (kmem s) v) \<noteq> 0 \<or>
        drop_bit 12 w \<noteq> drop_bit 12 (Kptov (hd (free_frames (physical_page_entries s)))) \<Longrightarrow>
      mmu m w = mmu (kmem s) w"
    and "if d_present (pde_at (kmem s) v) \<noteq> 0 then ps = physical_page_entries s
      else free_frames (physical_page_entries s) = hd (free_frames (physical_page_entries s)) # free_frames ps"
proof (cases "d_present (pde_at (kmem s) v) = 0")
  case False
  obtain m c where m: "map_page p v flags s = ret () (s\<lparr>kmem := m, con := c\<rparr>)" "tables_ok m" "frames_ok m (physical_page_entries s)"
    "\<And>k. unat k < 4096 \<Longrightarrow> mmu m (v + k) = Some (p + k)" "\<And>w. pde_at m w = pde_at (kmem s) w"
    "\<And>w. d_present (pde_at (kmem s) w) \<noteq> 0 \<Longrightarrow> drop_bit 12 w \<noteq> drop_bit 12 v \<Longrightarrow> mmu m w = mmu (kmem s) w"
    by (rule map_page_here [OF assms(1-3) False, where flags = flags]) (rule that)
  have "s\<lparr>kmem := m, con := c\<rparr> = s\<lparr>kmem := m, con := c, physical_page_entries := physical_page_entries s\<rparr>" by simp
  with m(1) have "map_page p v flags s = ret () (s\<lparr>kmem := m, con := c, physical_page_entries := physical_page_entries s\<rparr>)"
    by (simp only:)
  then show ?thesis by (rule that) (use m(2-6) False in simp_all)
next
  case True
  then have free: "free_frames (physical_page_entries s) \<noteq> []" using assms(4) by simp
  obtain f m c ps where m: "free_frames (physical_page_entries s) = f # free_frames ps"
    "map_page p v flags s = ret () (s\<lparr>kmem := m, con := c, physical_page_entries := ps\<rparr>)" "tables_ok m" "frames_ok m ps"
    "length ps = length (physical_page_entries s)" "\<And>k. unat k < 4096 \<Longrightarrow> mmu m (v + k) = Some (p + k)"
    "\<And>w. d_present (pde_at (kmem s) w) \<noteq> 0 \<Longrightarrow> pde_at m w = pde_at (kmem s) w"
    "\<And>w. d_present (pde_at (kmem s) w) \<noteq> 0 \<Longrightarrow> drop_bit 12 w \<noteq> drop_bit 12 v \<Longrightarrow>
      drop_bit 12 w \<noteq> drop_bit 12 (Kptov f) \<Longrightarrow> mmu m w = mmu (kmem s) w"
    by (rule map_page_new_table [OF assms(1-3) True free, where flags = flags]) (rule that)
  show ?thesis by (rule that [OF m(2-7)]) (use m(1,8) True in simp_all)
qed

end
