(* ===== verification/BootTables.thy ===== *)
theory BootTables
  imports Paging
begin

text \<open>
  The page tables that \<^verbatim>\<open>src/boot/paging.asm\<close> leaves when it turns paging on, as a memory image: a
  directory whose entries 0 to 5 (identity) and 768 to 773 (the kernel window) have tables of
  their own at \<^verbatim>\<open>PAGE_TABLES_BASE\<close> and 3 MiB behind it, with the physical pages in order, and zero
  elsewhere. These tables establish the invariant under which \<^verbatim>\<open>map_page\<close> is proved.
\<close>

definition PAGE_TABLES_BASE :: u32 where "PAGE_TABLES_BASE = 0x01100000"

definition boot_pde :: "u32 \<Rightarrow> u32" where
  "boot_pde i = (if i < 6 then PAGE_TABLES_BASE + i * 0x1000 + 3
     else if 768 \<le> i \<and> i < 774 then PAGE_TABLES_BASE + 0x300000 + (i - 768) * 0x1000 + 3
     else 0)"

text \<open>
  The loops that fill the tables count to \<^verbatim>\<open>PAGES_COUNT * 0x1000\<close> entries; entry \<open>i\<close> of either
  area is \<open>i * 0x1000 + 3\<close>. The tables lie in the kernel window.
\<close>

definition boot_word :: "u32 \<Rightarrow> u32" where
  "boot_word a =
     (if PAGE_DIRECTORY_BASE \<le> a \<and> a < PAGE_DIRECTORY_BASE + 0x1000
      then boot_pde ((a - PAGE_DIRECTORY_BASE) div 4)
      else if Kptov PAGE_TABLES_BASE \<le> a \<and> a < Kptov PAGE_TABLES_BASE + 0x18000
      then (a - Kptov PAGE_TABLES_BASE) div 4 * 0x1000 + 3
      else if Kptov PAGE_TABLES_BASE + 0x300000 \<le> a \<and> a < Kptov PAGE_TABLES_BASE + 0x318000
      then (a - (Kptov PAGE_TABLES_BASE + 0x300000)) div 4 * 0x1000 + 3
      else 0)"

definition boot_mem :: mem where "boot_mem = words boot_word"

lemma pde_at_boot: "pde_at boot_mem v = pde_decode (boot_pde (pd_no v))"
proof -
  let ?a = "PAGE_DIRECTORY_BASE + 4 * pd_no v"
  have u: "unat ?a = unat PAGE_DIRECTORY_BASE + 4 * unat (pd_no v)"
    using page_plus_unat [OF page_aligned_PD pd_entry_small] by (simp add: pd_no_bound)
  have "unat (pd_no v) < 1024" by (rule pd_no_bound)
  with u have r: "PAGE_DIRECTORY_BASE \<le> ?a \<and> ?a < PAGE_DIRECTORY_BASE + 0x1000"
    by (simp add: word_le_nat_alt word_less_nat_alt PAGE_DIRECTORY_BASE_def)
  have "unat ((?a - PAGE_DIRECTORY_BASE) div 4) = unat (pd_no v)"
    by (simp add: unat_div pd_no_bound)
  then have "(?a - PAGE_DIRECTORY_BASE) div 4 = pd_no v" by (simp only: word_unat_eq_iff)
  with r show ?thesis by (simp add: pde_at_def boot_mem_def boot_word_def)
qed

text \<open>The twelve entries that are present, and the page number of the table of each.\<close>

lemma boot_pde_cases:
  assumes "d_present (pde_decode (boot_pde i)) \<noteq> 0"
  obtains "i \<in> {0, 1, 2, 3, 4, 5}" | "i \<in> {768, 769, 770, 771, 772, 773}"
proof -
  have "i < 6 \<or> 768 \<le> i \<and> i < 774"
    using assms by (auto simp: boot_pde_def pde_decode_def split: if_splits)
  then have "unat i < 6 \<or> 768 \<le> unat i \<and> unat i < 774"
    by (simp add: word_le_nat_alt word_less_nat_alt)
  then have "unat i \<in> {0, 1, 2, 3, 4, 5} \<or> unat i \<in> {768, 769, 770, 771, 772, 773}"
    by auto
  moreover have "i = of_nat (unat i)" by simp
  ultimately show ?thesis using that by (elim disjE insertE) auto
qed

lemma table_of_boot:
  assumes "d_present (pde_decode (boot_pde i)) \<noteq> 0"
  shows "table_of (pde_decode (boot_pde i)) =
    (if i < 6 then 0xC1100000 + i * 0x1000 else 0xC1400000 + (i - 768) * 0x1000)"
  using assms
proof (cases rule: boot_pde_cases)
  case 1
  then show ?thesis
    by (elim insertE)
      (simp_all add: boot_pde_def pde_decode_def table_of_def fld_def PAGE_TABLES_BASE_def Kptov_def KERN_BASE_def)
next
  case 2
  then show ?thesis
    by (elim insertE)
      (simp_all add: boot_pde_def pde_decode_def table_of_def fld_def PAGE_TABLES_BASE_def Kptov_def KERN_BASE_def)
qed

lemma boot_tables_small:
  assumes "d_present (pde_decode (boot_pde i)) \<noteq> 0"
  shows "unat (table_of (pde_decode (boot_pde i))) \<in> {0xC1100000..<0xC1500000}"
proof -
  have "i \<in> {0, 1, 2, 3, 4, 5, 768, 769, 770, 771, 772, 773}"
    using assms by (cases rule: boot_pde_cases) auto
  then show ?thesis
    unfolding table_of_boot [OF assms] by (elim insertE) simp_all
qed

lemma boot_tables_inj:
  assumes "d_present (pde_decode (boot_pde i)) \<noteq> 0" and "d_present (pde_decode (boot_pde j)) \<noteq> 0"
    and "table_of (pde_decode (boot_pde i)) = table_of (pde_decode (boot_pde j))"
  shows "i = j"
  using assms(1)
proof (cases rule: boot_pde_cases)
  case 1
  from assms(2) show ?thesis
    by (cases rule: boot_pde_cases)
      (use 1 assms(3) table_of_boot [OF assms(1)] table_of_boot [OF assms(2)] in auto)
next
  case 2
  from assms(2) show ?thesis
    by (cases rule: boot_pde_cases)
      (use 2 assms(3) table_of_boot [OF assms(1)] table_of_boot [OF assms(2)] in auto)
qed

lemma boot_tables_ok: "tables_ok boot_mem"
  unfolding tables_ok_def pde_at_boot
proof (intro conjI allI impI)
  fix v assume "d_present (pde_decode (boot_pde (pd_no v))) \<noteq> 0"
  from boot_tables_small [OF this] show "table_of (pde_decode (boot_pde (pd_no v))) \<noteq> PAGE_DIRECTORY_BASE"
    by (auto simp: PAGE_DIRECTORY_BASE_def)
next
  fix v w
  assume "d_present (pde_decode (boot_pde (pd_no v))) \<noteq> 0" "d_present (pde_decode (boot_pde (pd_no w))) \<noteq> 0"
    and "pd_no v \<noteq> pd_no w"
  then show "table_of (pde_decode (boot_pde (pd_no v))) \<noteq> table_of (pde_decode (boot_pde (pd_no w)))"
    using boot_tables_inj by blast
qed

lemma pd_no_Kptov:
  assumes "unat p < 0x1800000"
  shows "pd_no (Kptov p) \<in> {768, 769, 770, 771, 772, 773}"
proof -
  have "unat (Kptov p) = unat p + 0xC0000000"
    using assms by (simp add: Kptov_def KERN_BASE_def unat_plus_small)
  then have "unat (pd_no (Kptov p)) = 768 + unat p div 0x400000"
    by (simp add: pd_no_def PDSHIFT_def drop_bit_eq_div unat_div)
  moreover have "unat p div 0x400000 < 6" using assms by (simp add: less_mult_imp_div_less)
  ultimately have "unat (pd_no (Kptov p)) \<in> {768, 769, 770, 771, 772, 773}" by auto
  moreover have "pd_no (Kptov p) = of_nat (unat (pd_no (Kptov p)))" by simp
  ultimately show ?thesis by (elim insertE) auto
qed

lemma boot_tables_frames:
  assumes "distinct (free_frames ps)"
    and "\<forall>p \<in> set (free_frames ps). page_aligned p \<and> 0x7000 \<le> unat p \<and> unat p < 0x1100000"
  shows "tables_ok boot_mem \<and> frames_ok boot_mem ps"
proof -
  have "Kptov p \<noteq> PAGE_DIRECTORY_BASE \<and> d_present (pde_at boot_mem (Kptov p)) \<noteq> 0 \<and>
      (\<forall>v. d_present (pde_at boot_mem v) \<noteq> 0 \<longrightarrow> table_of (pde_at boot_mem v) \<noteq> Kptov p)"
    if p: "0x7000 \<le> unat p" "unat p < 0x1100000" for p
  proof -
    have u: "unat (Kptov p) = unat p + 0xC0000000"
      using p by (simp add: Kptov_def KERN_BASE_def unat_plus_small)
    have "Kptov p \<noteq> PAGE_DIRECTORY_BASE"
      using u p by (auto simp: PAGE_DIRECTORY_BASE_def)
    moreover have "d_present (pde_at boot_mem (Kptov p)) \<noteq> 0"
      using pd_no_Kptov [of p] p
      by (auto simp: pde_at_boot boot_pde_def pde_decode_def PAGE_TABLES_BASE_def)
    moreover have "table_of (pde_at boot_mem v) \<noteq> Kptov p" if "d_present (pde_at boot_mem v) \<noteq> 0" for v
      using boot_tables_small [of "pd_no v"] that u p by (auto simp: pde_at_boot)
    ultimately show ?thesis by blast
  qed
  then show ?thesis
    using assms boot_tables_ok by (auto simp: frames_ok_def)
qed

text \<open>
  the tables of the boot code satisfy the invariant of the paging code for every frame table
  whose free frames are distinct pages between the directory and the boot tables, as the frames
  that \<^verbatim>\<open>setupAvailablePages\<close> can free are.
\<close>

theorem boot_paging_ok:
  assumes "distinct (free_frames ps)"
    and "\<forall>p \<in> set (free_frames ps). page_aligned p \<and> 0x7000 \<le> unat p \<and> unat p < 0x1100000"
  shows "tables_ok boot_mem \<and> frames_ok boot_mem ps"
  by (rule boot_tables_frames [OF assms])

theorem boot_paging_ok_witness:
  "frames_ok boot_mem [\<lparr>pp_type = M_RESERVED, pp_addr = 0\<rparr>, \<lparr>pp_type = M_FREE, pp_addr = 0x20000\<rparr>,
     \<lparr>pp_type = M_FREE, pp_addr = 0x100000\<rparr>]"
  by (rule conjunct2, rule boot_paging_ok) (simp_all add: free_frames_def page_types page_aligned_def)

text \<open>
  A kernel state on these tables with 64 pages of memory, the first 32 reserved, as a start for
  concrete runs.
\<close>

definition boot_pages :: "phys_page list" where
  "boot_pages = map (\<lambda>i. \<lparr>pp_type = (if i < 32 then M_RESERVED else M_FREE), pp_addr = of_nat i * 4096\<rparr>) [0..<64]"

definition boot_state :: kstate where
  "boot_state = \<lparr>kmem = boot_mem, con = console_at 0, iflag = False, esp = 0xC0008000, cr3 = 0x6000,
     physical_page_entries = boot_pages, pagecount = 64, base_pd = 0, kernel_pool = 0,
     UsableMemoryRegionCount = 0, usableMemoryRegions = [], firstFreeSegment = 0,
     kernel_thread = 0xC0007000, idle_thread = 0, all_threads = 0, ready_threads = 0, sleeper_list = 0,
     tick_count = 0, num_threads = 0, ticks = 0, kernel_tss = 0, gdt_table = replicate 6 null_entry,
     gdt_register = \<lparr>gi_size = 0, gi_offset = 0\<rparr>, idt_table = replicate 256 blank_gate,
     idt_register = \<lparr>idtr_limit = 0, idtr_base = 0\<rparr>\<rparr>"

lemma boot_state_fields [simp]:
  "kmem boot_state = boot_mem" "physical_page_entries boot_state = boot_pages"
  by (simp_all add: boot_state_def)

lemma page_number_unat: "i < 64 \<Longrightarrow> unat (of_nat i * 4096 :: u32) = i * 4096"
  by (simp add: unat_word_ariths unsigned_of_nat take_bit_eq_mod)

lemma boot_pages_free:
  "free_frames boot_pages = map (\<lambda>i. of_nat i * 4096) [32..<64]"
proof -
  have "[0..<64] = [0..<32] @ [32..<64]"
    using upt_add_eq_append [of 0 32 32] by simp
  then show ?thesis
    by (simp add: boot_pages_def free_frames_def page_types filter_map comp_def del: upt_rec_numeral)
qed

lemma paging_ok_boot: "paging_ok boot_state"
proof -
  have "inj_on (\<lambda>i. of_nat i * 4096 :: u32) {32..<64}"
  proof (rule inj_onI)
    fix i j :: nat
    assume ij: "i \<in> {32..<64}" "j \<in> {32..<64}" and "(of_nat i * 4096 :: u32) = of_nat j * 4096"
    then have "unat (of_nat i * 4096 :: u32) = unat (of_nat j * 4096 :: u32)" by simp
    with ij show "i = j" by (simp add: page_number_unat)
  qed
  then have d: "distinct (free_frames boot_pages)" by (simp add: boot_pages_free distinct_map del: upt_rec_numeral)
  have "\<forall>p \<in> set (free_frames boot_pages). page_aligned p \<and> 0x7000 \<le> unat p \<and> unat p < 0x1100000"
    by (auto simp: boot_pages_free page_aligned_def page_number_unat simp del: upt_rec_numeral)
  with boot_tables_frames [OF d] show ?thesis by (simp add: paging_ok_def)
qed

end
