(* ===== verification/Palloc.thy ===== *)
theory Palloc
  imports BootTables
begin

text \<open>
  The page allocators and the initialisation of memory (\<^verbatim>\<open>src/paging/paging.c\<close>): the frame table
  from the memory map, \<^verbatim>\<open>palloc_kern\<close>, \<^verbatim>\<open>palloc_heap\<close>, the pool, the first heap page,
  \<^verbatim>\<open>unmap_page\<close> and \<^verbatim>\<open>lookup_phys\<close>; then the theorems about \<^verbatim>\<open>map_page\<close> and the allocators.
\<close>

section \<open>\<^verbatim>\<open>setupAvailablePages\<close>\<close>

definition count_pages :: "mem \<Rightarrow> ptr list \<Rightarrow> u32 \<Rightarrow> u32" where
  "count_pages m regions n =
     fold (\<lambda>r n. n + ucast (me_Length (MemoryMapEntry_at m r) div 4096)) regions n"

function fill_region :: "ptr \<Rightarrow> int \<Rightarrow> int \<Rightarrow> nat \<Rightarrow> phys_page list \<Rightarrow> nat \<times> phys_page list" where
  "fill_region baseAddr maxPages x pg pages =
     (if x < maxPages \<and> pg < MAX_PHYS_PAGES
      then fill_region baseAddr maxPages (x + 1) (pg + 1)
        (pages[pg := \<lparr>pp_type = M_FREE, pp_addr = baseAddr + of_int x * PGSIZE\<rparr>])
      else (pg, pages))"
  by pat_completeness auto

termination by (relation "measure (\<lambda>(b, n, x, pg, ps). MAX_PHYS_PAGES - pg)") auto

declare fill_region.simps [simp del]

fun fill_regions :: "mem \<Rightarrow> ptr list \<Rightarrow> nat \<times> phys_page list \<Rightarrow> nat \<times> phys_page list" where
  "fill_regions m [] x = x"
| "fill_regions m (r # rs) (pg, pages) =
     (let e = MemoryMapEntry_at m r in
      fill_regions m rs (fill_region (ucast (me_Base e)) (sint (ucast (me_Length e div 4096) :: u32)) 0 pg pages))"

definition set_type :: "nat \<Rightarrow> u8 \<Rightarrow> kstate \<Rightarrow> kstate" where
  "set_type i t s = s\<lparr>physical_page_entries :=
     (physical_page_entries s)[i := (physical_page_entries s ! i)\<lparr>pp_type := t\<rparr>]\<rparr>"

text \<open>One of the pages that setup reserves and maps into the kernel window.\<close>

definition reserve_page :: "nat \<Rightarrow> kstate \<Rightarrow> unit kres" where
  "reserve_page i s =
     (let s = set_type i M_RESERVED s; phys_addr = of_nat i * 4096 in
      map_page phys_addr (Kptov phys_addr) F_KERN s)"

fun reserve_pages :: "nat list \<Rightarrow> kstate \<Rightarrow> unit kres" where
  "reserve_pages [] s = ret () s"
| "reserve_pages (i # is) s = seq (reserve_page i s) (\<lambda>_ s. reserve_pages is s)"

section \<open>Allocators\<close>

text \<open>The loop returns \<open>None\<close> where the source returns \<^verbatim>\<open>NO_ADDR\<close> early.\<close>

fun palloc_kern_loop :: "nat \<Rightarrow> bool \<Rightarrow> ptr \<Rightarrow> u8 \<Rightarrow> kstate \<Rightarrow> ptr option kres" where
  "palloc_kern_loop 0 first return_addr flags s = ret (Some return_addr) s"
| "palloc_kern_loop (Suc n) first return_addr flags s =
     (let (paddr, s) = get_next_free_physical_page s in
      if paddr = NO_ADDR
      then if flags AND F_ASSERT \<noteq> 0 then PANIC ''UNABLE TO ALLOCATE REQUIRED PAGES'' s
           else ret None s
      else seq (map_page paddr (Kptov paddr) flags s) (\<lambda>_ s.
        palloc_kern_loop n False (if first then Kptov paddr else return_addr) flags s))"

definition zero_pages :: "ptr \<Rightarrow> int \<Rightarrow> u8 \<Rightarrow> kstate \<Rightarrow> kstate" where
  "zero_pages return_addr num_pages flags s =
     (if flags AND F_ZERO \<noteq> 0 then kmem_update (memset return_addr 0 (of_int num_pages * PGSIZE)) s else s)"

definition palloc_kern :: "int \<Rightarrow> u8 \<Rightarrow> kstate \<Rightarrow> ptr kres" where
  "palloc_kern num_pages flags s =
     seq (palloc_kern_loop (nat num_pages) True 0 flags s) (\<lambda>r s.
       case r of None \<Rightarrow> ret NO_ADDR s
       | Some return_addr \<Rightarrow> ret return_addr (zero_pages return_addr num_pages flags s))"

definition setupAvailablePages :: "u8 \<Rightarrow> ptr list \<Rightarrow> kstate \<Rightarrow> unit kres" where
  "setupAvailablePages count regions s =
     (let regions = take (unat count) regions;
          n = count_pages (kmem s) regions 0;
          s = s\<lparr>pagecount := (if sint n > int MAX_PHYS_PAGES then of_nat MAX_PHYS_PAGES else n)\<rparr>;
          s = s\<lparr>physical_page_entries := snd (fill_regions (kmem s) regions (0, physical_page_entries s))\<rparr>;
          s = kprintln ''Mapping kernel pages'' s
      in seq (reserve_pages ([0..<32] @ [0xb8000 div 4096]) s) (\<lambda>_ s.
         seq (palloc_kern 1 (F_ZERO OR F_ASSERT) s) (\<lambda>addr s.
         let s = s\<lparr>base_pd := addr\<rparr> in
         ret () (kmem_update (memcpy addr PAGE_DIRECTORY_BASE PGSIZE) s))))"

text \<open>
  \<^verbatim>\<open>palloc_heap\<close> fills in a copy of the pool's next virtual page, a local variable whose address
  is \<open>local_vp\<close>; what it stores in the pool is that address, in the previous page's \<^verbatim>\<open>nextPage\<close>.
\<close>

definition pool_index :: "ptr \<Rightarrow> kstate \<Rightarrow> u32" where
  "pool_index pool s = rd s (pool + 4)"

definition virt_page :: "ptr \<Rightarrow> u32 \<Rightarrow> ptr" where
  "virt_page pool i = pool + 12 + 16 * i"

fun palloc_heap_loop :: "ptr \<Rightarrow> nat \<Rightarrow> bool \<Rightarrow> ptr \<Rightarrow> ptr \<Rightarrow> u8 \<Rightarrow> kstate \<Rightarrow> ptr option kres" where
  "palloc_heap_loop local_vp 0 first return_addr mem_pool flags s = ret (Some return_addr) s"
| "palloc_heap_loop local_vp (Suc n) first return_addr mem_pool flags s =
     (let (paddr, s) = get_next_free_physical_page s in
      if paddr = NO_ADDR
      then if flags AND F_ASSERT \<noteq> 0 then PANIC ''UNABLE TO ALLOCATE REQUIRED PAGES'' s
           else ret None s
      else let vaddr = pool_index mem_pool s * 4096 in
        seq (map_page paddr vaddr flags s) (\<lambda>_ s.
        let kp = kernel_pool s;
            previousPage = virt_page kp (pool_index kp s - 1);
            s = wr (previousPage + 8) local_vp s;
            s = wr (kp + 4) (pool_index kp s + 1) s
        in palloc_heap_loop local_vp n False (if first then vaddr else return_addr) mem_pool flags s))"

definition palloc_heap :: "ptr \<Rightarrow> int \<Rightarrow> ptr \<Rightarrow> u8 \<Rightarrow> kstate \<Rightarrow> ptr kres" where
  "palloc_heap local_vp num_pages mem_pool flags s =
     seq (palloc_heap_loop local_vp (nat num_pages) True 0 mem_pool flags s) (\<lambda>r s.
       case r of None \<Rightarrow> ret NO_ADDR s
       | Some return_addr \<Rightarrow> ret return_addr (zero_pages return_addr num_pages flags s))"

section \<open>The pool and the first heap page\<close>

definition sizeof_pool :: int where "sizeof_pool = 12 + 512 * 16"

definition pool_pages :: nat where
  "pool_pages = (let n = sizeof_pool; n = (if n mod 4096 \<noteq> 0 then n - n mod 4096 + 4096 else n)
     in nat (n div 4096))"

fun init_pool_loop :: "nat \<Rightarrow> bool \<Rightarrow> ptr \<Rightarrow> u8 \<Rightarrow> kstate \<Rightarrow> ptr kres" where
  "init_pool_loop 0 first pool_addr flags s = ret pool_addr s"
| "init_pool_loop (Suc n) first pool_addr flags s =
     (let (paddr, s) = get_next_free_physical_page s in
      seq (map_page paddr (Kptov paddr) flags s) (\<lambda>_ s.
        init_pool_loop n False (if first then Kptov paddr else pool_addr) flags s))"

definition init_pool :: "u8 \<Rightarrow> kstate \<Rightarrow> ptr kres" where
  "init_pool flags s = init_pool_loop pool_pages True 0 flags s"

definition sizeof_header :: u32 where "sizeof_header = 24"

text \<open>\<^verbatim>\<open>initialiseHeap\<close>: one free segment; the heap's first address is linear address 0.\<close>

definition initialiseHeap :: "ptr \<Rightarrow> u32 \<Rightarrow> kstate \<Rightarrow> kstate" where
  "initialiseHeap baseAddr len s =
     (let s = s\<lparr>firstFreeSegment := baseAddr\<rparr>;
          s = wr baseAddr (len - sizeof_header) s;
          s = wr (baseAddr + 12) 0 s;
          s = wr (baseAddr + 4) 0 s;
          s = wr (baseAddr + 16) 0 s;
          s = wr (baseAddr + 8) 0 s
      in wr (baseAddr + 20) 1 s)"

definition init_heap_page :: "ptr \<Rightarrow> u8 \<Rightarrow> kstate \<Rightarrow> unit kres" where
  "init_heap_page pl flags s =
     (if pool_index pl s \<noteq> 0 then PANIC ''ALREADY INITIALISED HEAP'' s
      else let (paddr, s) = get_next_free_physical_page s;
               vaddr = 0;
               s = wr (pl + 4) 1 s;
               s = wr8 (virt_page pl 0) M_ALLOCATED s
        in seq (map_page paddr vaddr F_KERN s) (\<lambda>_ s.
           let s = wr (virt_page pl 0 + 4) vaddr s;
               s = wr (virt_page pl 0 + 8) 0 s;
               s = wr (virt_page pl 0 + 12) 0 s;
               s = wr pl (if flags AND F_KERN \<noteq> 0 then 0 else 3) s
           in ret () (initialiseHeap vaddr PGSIZE s)))"

definition clear_identity_pages :: "kstate \<Rightarrow> kstate" where
  "clear_identity_pages s =
     fold (\<lambda>i. set_pde (of_nat i * 0x400000) (\<lambda>e. e\<lparr>d_present := 0\<rparr>)) [0..<6] s"

definition paging_init :: "kstate \<Rightarrow> unit kres" where
  "paging_init s =
     (let s = clear_identity_pages s in
      seq (init_pool F_KERN s) (\<lambda>pool s.
      let s = s\<lparr>kernel_pool := pool\<rparr> in
      init_heap_page (kernel_pool s) F_KERN s))"

section \<open>\<^verbatim>\<open>unmap_page\<close> and \<^verbatim>\<open>lookup_phys\<close>\<close>

text \<open>
  The guard \<^verbatim>\<open>!(int)vaddr%4096\<close> is \<^verbatim>\<open>(!vaddr)%4096\<close>. Without \<^verbatim>\<open>F_KERN\<close> the function ends without a
  value (\<open>None\<close>).
\<close>

definition unmap_page :: "ptr \<Rightarrow> u8 \<Rightarrow> kstate \<Rightarrow> bool option \<times> kstate" where
  "unmap_page vaddr flags s =
     (if (if vaddr = 0 then 1 else 0 :: int) mod 4096 \<noteq> 0 then (Some False, s)
      else if flags AND F_KERN \<noteq> 0 then
        if d_present (pde_at (kmem s) vaddr) = 0 then (Some True, s)
        else (Some True, set_pte vaddr (\<lambda>e. e\<lparr>p_present := 0\<rparr>) s)
      else (None, s))"

definition lookup_phys :: "ptr \<Rightarrow> bool \<Rightarrow> kstate \<Rightarrow> ptr kres" where
  "lookup_phys vaddr dump s =
     (if d_present (pde_at (kmem s) vaddr) = 0 then ret NO_ADDR s
      else let pte = pte_at (kmem s) vaddr in
      if \<not> dump \<and> p_present pte = 0 then ret NO_ADDR s
      else seq (print_fields [(''Vaddr: '', vaddr)] BASE_HEX (kprintln (CHR 0x0A # ''PHYS DUMP:'') s)) (\<lambda>_ s.
        seq (print_fields [(''Present:'', ucast (p_present pte)),
            (''Read/Write:'', ucast (p_read_write pte)),
            (''User Supervisor:'', ucast (p_user_supervisor pte)),
            (''Write Through:'', ucast (p_write_through pte)),
            (''Cache Disabled:'', ucast (p_cache_disabled pte)),
            (''Accessed:'', ucast (p_accessed pte)),
            (''Dirty:'', ucast (p_dirty pte)),
            (''Page Table Attribute Index:'', ucast (p_page_table_attribute_index pte)),
            (''Global:'', ucast (p_global pte)),
            (''Avail:'', ucast (p_available pte)),
            (''Page Base Addr:'', fld PGBITS (p_page_base_addr pte))] BASE_HEX (kprintln ''PTE DATA: '' s)) (\<lambda>_ s.
        ret (drop_bit PGBITS (ucast (p_page_base_addr (pte_at (kmem s) vaddr)))) (kprintln '''' s))))"

section \<open>Theorems about \<^verbatim>\<open>map_page\<close>\<close>

lemma boot_facts:
  "d_present (pde_at boot_mem 0x40000000) = 0" "d_present (pde_at boot_mem 0xC0020000) \<noteq> 0"
  "page_aligned 0x40000000" "page_aligned 0xC0020000" "page_aligned 0x20000"
  "free_frames boot_pages \<noteq> []" "hd (free_frames boot_pages) = 0x20000"
proof -
  show "d_present (pde_at boot_mem 0x40000000) = 0" "d_present (pde_at boot_mem 0xC0020000) \<noteq> 0"
    by (simp_all add: pde_at_boot boot_pde_def pd_no_def PDSHIFT_def pde_decode_def PAGE_TABLES_BASE_def)
  show "page_aligned 0x40000000" "page_aligned 0xC0020000" "page_aligned 0x20000"
    by (simp_all add: page_aligned_def)
  have "free_frames boot_pages = 0x20000 # map (\<lambda>i. of_nat i * 4096) [33..<64]"
    unfolding boot_pages_free by (subst upt_conv_Cons) (simp_all del: upt_rec_numeral)
  then show "free_frames boot_pages \<noteq> []" "hd (free_frames boot_pages) = 0x20000"
    by simp_all
qed

text \<open>
  C9: after \<^verbatim>\<open>map_page\<close> the processor translates every address of the linear page to the same
  offset in the frame, whether the page table was there or had to be made from a free frame, and
  the tables are still separate.
\<close>

theorem map_page_maps:
  assumes "paging_ok s" and "page_aligned p" and "page_aligned v"
    and "d_present (pde_at (kmem s) v) \<noteq> 0 \<or> free_frames (physical_page_entries s) \<noteq> []"
  shows "\<exists>s'. map_page p v flags s = ret () s' \<and> paging_ok s' \<and>
    (\<forall>k. unat k < 4096 \<longrightarrow> mmu (kmem s') (v + k) = Some (p + k))"
proof -
  obtain m c ps where
    r: "map_page p v flags s = ret () (s\<lparr>kmem := m, con := c, physical_page_entries := ps\<rparr>)"
      "tables_ok m" "frames_ok m ps"
    and mm: "\<And>k. unat k < 4096 \<Longrightarrow> mmu m (v + k) = Some (p + k)"
    by (rule map_page_result [OF assms, where flags = flags]) (rule that)
  then show ?thesis by (simp add: paging_ok_def)
qed

theorem map_page_maps_witness:
  "\<exists>s'. map_page 0x20000 0x40000000 F_KERN boot_state = ret () s' \<and>
     mmu (kmem s') 0x40000004 = Some 0x20004"
proof -
  obtain s' where s': "map_page 0x20000 0x40000000 F_KERN boot_state = ret () s'"
    and m: "\<forall>k. unat k < 4096 \<longrightarrow> mmu (kmem s') (0x40000000 + k) = Some (0x20000 + k)"
    using map_page_maps [where s = boot_state and p = "0x20000" and v = "0x40000000" and flags = F_KERN] paging_ok_boot boot_facts by auto
  have "mmu (kmem s') (0x40000000 + 4) = Some (0x20000 + 4)" using m by (elim allE [of _ 4]) simp
  with s' show ?thesis by simp
qed



lemma print_two_returns:
  "\<exists>s'. seq (kprint_num x BASE_HEX s) (\<lambda>_ s. kprint_num y BASE_HEX (f s)) = ret () s'"
proof -
  have hex: "2 \<le> BASE_HEX" "BASE_HEX \<le> 16" by (simp_all add: base_defs)
  obtain g where g: "kprint_num x BASE_HEX s = ret () (con_update g s)"
    by (rule kprint_num_returns [OF hex])
  obtain h where "kprint_num y BASE_HEX (f (con_update g s)) = ret () (con_update h (f (con_update g s)))"
    by (rule kprint_num_returns [OF hex])
  with g show ?thesis by simp
qed

lemma map_entry_returns: "\<exists>s'. map_entry p v flags s = ret () s'"
  by (simp add: map_entry_def Let_def print_two_returns)

text \<open>
  C31: \<^verbatim>\<open>map_page\<close> ends on every input: it returns, or it stops in the panic for addresses that
  are not page aligned (which is also where it ends when no frame is left for a page table).
\<close>

theorem map_page_outcome:
  "(\<exists>s'. map_page paddr vaddr flags s = ret () s') \<or>
   (\<exists>s'. map_page paddr vaddr flags s = PANIC ''VADDR NOT 4k ALIGNED'' s')"
proof (induction paddr vaddr flags s rule: map_page.induct)
  case (1 paddr vaddr flags s)
  note entry = map_entry_returns
  show ?case
  proof (cases "vaddr mod PGSIZE \<noteq> 0 \<or> paddr mod 4096 \<noteq> 0")
    case True
    then show ?thesis by (subst (1 2) map_page.simps) auto
  next
    case False
    obtain pt_addr s1 where g: "get_next_free_physical_page s = (pt_addr, s1)" by force
    show ?thesis
    proof (cases "d_present (pde_at (kmem s) vaddr) = 0")
      case True
      note run = map_page.simps [of paddr vaddr flags s]
      from 1 [OF False True g [symmetric] refl] consider
        s2 where "map_page pt_addr (Kptov pt_addr) F_KERN s1 = ret () s2"
        | s2 where "map_page pt_addr (Kptov pt_addr) F_KERN s1 = PANIC ''VADDR NOT 4k ALIGNED'' s2"
        by blast
      then show ?thesis
        by cases (use False True g entry run in auto)
    next
      case False2: False
      then show ?thesis using False entry by (subst (1 2) map_page.simps) auto
    qed
  qed
qed

lemma ld32_put_pte_other:
  "aligned a \<Longrightarrow> a \<noteq> table_of (pde_at m v) + 4 * pt_no v \<Longrightarrow> ld32 (put_pte v e m) a = ld32 m a"
  by (simp add: put_pte_def)

lemma ld32_put_pde_other:
  "aligned a \<Longrightarrow> a \<noteq> PAGE_DIRECTORY_BASE + 4 * pd_no v \<Longrightarrow> ld32 (put_pde v e m) a = ld32 m a"
  by (simp add: put_pde_def)

text \<open>
  a new page table is used as it is found: another page under the same directory entry is
  mapped after \<^verbatim>\<open>map_page\<close> exactly when the word its entry falls on in the frame was odd.
\<close>

theorem new_table_not_cleared:
  assumes "paging_ok s" and "page_aligned p" and "page_aligned v"
    and "d_present (pde_at (kmem s) v) = 0"
    and "free_frames (physical_page_entries s) = f # fs"
    and "pd_no w = pd_no v" and "pt_no w \<noteq> pt_no v"
  shows "\<exists>s'. map_page p v flags s = ret () s' \<and>
    (mmu (kmem s') w \<noteq> None \<longleftrightarrow> odd (ld32 (kmem s) (Kptov f + 4 * pt_no w)))"
proof -
  have t: "tables_ok (kmem s)" using assms(1) by (simp add: paging_ok_def)
  obtain f' ps c where f': "free_frames (physical_page_entries s) = f' # free_frames ps"
    "length ps = length (physical_page_entries s)" "page_aligned f'" "Kptov f' \<noteq> PAGE_DIRECTORY_BASE"
    "d_present (pde_at (kmem s) (Kptov f')) \<noteq> 0"
    "\<And>w. d_present (pde_at (kmem s) w) \<noteq> 0 \<Longrightarrow> table_of (pde_at (kmem s) w) \<noteq> Kptov f'"
    and run: "map_page p v flags s =
      (let m = put_pte (Kptov f') (leaf f' F_KERN (pte_at (kmem s) (Kptov f'))) (kmem s);
           m = put_pde v (new_pde f' (pde_at (kmem s) v)) m
       in ret () (s\<lparr>kmem := put_pte v (leaf p flags (pte_at m v)) m, con := c, physical_page_entries := ps\<rparr>))"
    by (rule map_page_absent [OF assms(1-4), where flags = flags]) (use assms(5) that in auto)
  have [simp]: "f' = f" using f'(1) assms(5) by simp
  let ?a = "Kptov f + 4 * pt_no w"
  let ?m1 = "put_pte (Kptov f) (leaf f F_KERN (pte_at (kmem s) (Kptov f))) (kmem s)"
  let ?m2 = "put_pde v (new_pde f (pde_at (kmem s) v)) ?m1"
  let ?m = "put_pte v (leaf p flags (pte_at ?m2 v)) ?m2"
  have pd1: "pde_at ?m1 w = pde_at (kmem s) w" for w using t f' by simp
  have pd2: "pde_at ?m2 w = (if pd_no w = pd_no v then new_pde f (pde_at (kmem s) v) else pde_at (kmem s) w)" for w
    by (simp add: pde_at_put_pde pd1)
  have tab: "table_of (pde_at ?m2 v) = Kptov f" using f' by (simp add: pd2)
  have al: "aligned ?a" using f'(3) by (intro aligned_plus) (simp_all add: page_aligned_imp_aligned)
  have e1: "ld32 ?m1 ?a = ld32 (kmem s) ?a"
    by (rule ld32_put_pte_other [OF al])
      (use f'(3) f'(6) [OF f'(5), THEN not_sym] in \<open>simp add: page_offset_inj pt_entry_small\<close>)
  have e2: "ld32 ?m2 ?a = ld32 ?m1 ?a"
    by (rule ld32_put_pde_other [OF al])
      (use f'(3,4) in \<open>simp add: page_offset_inj pt_entry_small pd_entry_small\<close>)
  have e3: "ld32 ?m ?a = ld32 ?m2 ?a"
    by (rule ld32_put_pte_other [OF al]) (use assms(7) pt_entry_inj in \<open>simp add: tab\<close>)
  have pdw: "pde_at ?m w = new_pde f (pde_at (kmem s) v)"
  proof -
    have "tables_ok (put_pde v (new_pde f (pde_at ?m1 v)) ?m1)"
      by (rule new_table_ok) (use t pd1 f' assms(4) in auto)
    then have "tables_ok ?m2" by (simp only: pd1)
    moreover have "d_present (pde_at ?m2 v) \<noteq> 0" by (simp add: pd2)
    ultimately have "pde_at ?m w = pde_at ?m2 w" by simp
    then show ?thesis by (simp add: pd2 assms(6))
  qed
  then have "pte_at ?m w = pte_decode (ld32 (kmem s) ?a)"
    using e1 e2 e3 f'(3) by (simp add: pte_at_def)
  moreover have "p_present (pte_decode x) = 0 \<longleftrightarrow> even x" for x
  proof -
    have "(ucast x :: 1 word) = 0 \<longleftrightarrow> \<not> bit x 0"
      by (auto simp: bit_eq_iff [of "ucast x :: 1 word"] bit_simps simp flip: bit_0)
    then show ?thesis by (simp add: pte_decode_def bit_0)
  qed
  ultimately have "mmu ?m w \<noteq> None \<longleftrightarrow> odd (ld32 (kmem s) ?a)"
    using pdw by (simp add: mmu_def)
  with run show ?thesis by (simp add: Let_def)
qed

theorem new_table_not_cleared_witness:
  "\<exists>s'. map_page 0x21000 0x40000000 F_KERN (boot_state\<lparr>kmem := st32 0xC0020004 0xDEAD0FFF boot_mem\<rparr>) = ret () s' \<and>
     mmu (kmem s') 0x40001000 \<noteq> None"
proof -
  let ?m = "st32 0xC0020004 0xDEAD0FFF boot_mem"
  let ?s = "boot_state\<lparr>kmem := ?m\<rparr>"
  have "0xC0020004 \<noteq> PAGE_DIRECTORY_BASE + 4 * pd_no v" for v
  proof -
    have "0xC0020000 + 4 \<noteq> PAGE_DIRECTORY_BASE + 4 * pd_no v"
      using page_offset_inj [OF boot_facts(4) page_aligned_PD _ pd_entry_small, of 4]
      by (simp add: PAGE_DIRECTORY_BASE_def)
    then show ?thesis by simp
  qed
  then have pd: "pde_at ?m v = pde_at boot_mem v" for v by (simp add: pde_at_def)
  have ok: "paging_ok ?s"
    using paging_ok_boot by (simp add: paging_ok_def tables_ok_def frames_ok_def pd)
  obtain fs where fs: "free_frames boot_pages = 0x20000 # fs"
    using boot_facts(6,7) by (cases "free_frames boot_pages") auto
  have i: "pt_no 0x40001000 = 1" "pt_no 0x40000000 = 0" "pd_no 0x40001000 = pd_no 0x40000000"
    by (simp_all add: pt_no_def pd_no_def page_consts)
  show ?thesis
    using new_table_not_cleared [where s = ?s and p = "0x21000" and v = "0x40000000" and w = "0x40001000"
        and flags = F_KERN and f = "0x20000" and fs = fs] ok fs boot_facts(1,3) pd
    by (simp add: i page_aligned_def Kptov_def KERN_BASE_def)
qed

section \<open>Frames are handed out once\<close>

text \<open>An allocator of resources that hands out what it has from the front, and ends only with nothing left.\<close>

locale frame_pool =
  fixes take_one :: "'p \<Rightarrow> ('a \<times> 'p) option"
    and left :: "'p \<Rightarrow> 'a list"
    and inv :: "'p \<Rightarrow> bool"
  assumes take_some: "inv p \<Longrightarrow> take_one p = Some (a, q) \<Longrightarrow> left p = a # left q \<and> inv q"
    and take_none: "inv p \<Longrightarrow> take_one p = None \<Longrightarrow> left p = []"

fun take_many :: "('p \<Rightarrow> ('a \<times> 'p) option) \<Rightarrow> nat \<Rightarrow> 'p \<Rightarrow> 'a list \<times> 'p" where
  "take_many t 0 p = ([], p)"
| "take_many t (Suc n) p =
     (case t p of None \<Rightarrow> ([], p) | Some (a, q) \<Rightarrow> (let (as, r) = take_many t n q in (a # as, r)))"

context frame_pool
begin

lemma take_many_result:
  "inv p \<Longrightarrow> take_many take_one n p = (as, q) \<Longrightarrow> as = take n (left p) \<and> left q = drop n (left p) \<and> inv q"
proof (induction n arbitrary: p as)
  case (Suc n)
  show ?case
  proof (cases "take_one p")
    case None
    with Suc.prems take_none show ?thesis by auto
  next
    case (Some x)
    obtain a r where x: "x = (a, r)" by force
    obtain bs where bs: "take_many take_one n r = (bs, q)" "as = a # bs"
      using Suc.prems(2) Some x by (auto split: prod.splits)
    have r: "left p = a # left r" "inv r"
      using take_some [OF Suc.prems(1)] Some x by auto
    from Suc.IH [OF r(2) bs(1)] r bs(2) show ?thesis by simp
  qed
qed auto

end

text \<open>\<^verbatim>\<open>get_next_free_physical_page\<close> as such an allocator over the kernel state.\<close>

definition take_frame :: "kstate \<Rightarrow> (ptr \<times> kstate) option" where
  "take_frame s = (let (a, s') = get_next_free_physical_page s in if a = NO_ADDR then None else Some (a, s'))"

definition frames_left :: "kstate \<Rightarrow> ptr list" where
  "frames_left s = free_frames (physical_page_entries s)"

definition frames_distinct :: "kstate \<Rightarrow> bool" where
  "frames_distinct s \<longleftrightarrow> distinct (frames_left s) \<and> NO_ADDR \<notin> set (frames_left s)"

interpretation frames: frame_pool take_frame frames_left frames_distinct
proof unfold_locales
  fix p a q
  assume i: "frames_distinct p" and t: "take_frame p = Some (a, q)"
  show "frames_left p = a # frames_left q \<and> frames_distinct q"
    using i t by (cases p rule: get_next_free_cases)
      (auto simp: take_frame_def frames_left_def frames_distinct_def split: if_splits)
next
  fix p assume i: "frames_distinct p" and t: "take_frame p = None"
  show "frames_left p = []"
    using i t by (cases p rule: get_next_free_cases)
      (auto simp: take_frame_def frames_left_def frames_distinct_def split: if_splits)
qed

text \<open>
  C16: \<open>n\<close> calls of \<^verbatim>\<open>get_next_free_physical_page\<close> hand out the first \<open>n\<close> free frames of the table (all
  of them when there are fewer), each once, and leave exactly the others free; the next call then
  returns \<^verbatim>\<open>NO_ADDR\<close> if and only if no frame is left.
\<close>

theorem frames_handed_out_once:
  assumes "frames_distinct s" and "take_many take_frame n s = (as, s')"
  shows "as = take n (frames_left s) \<and> frames_left s' = drop n (frames_left s) \<and> distinct as \<and>
    set as \<inter> set (frames_left s') = {} \<and>
    (fst (get_next_free_physical_page s') = NO_ADDR \<longleftrightarrow> frames_left s' = [])"
proof -
  have r: "as = take n (frames_left s)" "frames_left s' = drop n (frames_left s)" "frames_distinct s'"
    using frames.take_many_result [OF assms] by auto
  moreover have "fst (get_next_free_physical_page s') = NO_ADDR \<longleftrightarrow> frames_left s' = []"
    using r(3) by (cases s' rule: get_next_free_cases) (auto simp: frames_left_def frames_distinct_def)
  moreover have "distinct (frames_left s)" using assms(1) by (simp add: frames_distinct_def)
  ultimately show ?thesis by (simp add: set_take_disj_set_drop_if_distinct)
qed

theorem frames_handed_out_once_witness:
  "frames_distinct boot_state \<and> fst (take_many take_frame 3 boot_state) = [0x20000, 0x21000, 0x22000]"
proof -
  have d: "frames_distinct boot_state"
    using paging_ok_boot not_page_aligned_NO_ADDR
    by (auto simp: paging_ok_def frames_ok_def frames_distinct_def frames_left_def)
  obtain as s' where t: "take_many take_frame 3 boot_state = (as, s')" by force
  have "frames_left boot_state = 0x20000 # 0x21000 # 0x22000 # map (\<lambda>i. of_nat i * 4096) [35..<64]"
    unfolding frames_left_def boot_state_fields boot_pages_free by (simp add: upt_conv_Cons del: upt_rec_numeral)
  with frames_handed_out_once [OF d t] d t show ?thesis by simp
qed

section \<open>Unmapping\<close>

text \<open>
  C30: \<^verbatim>\<open>unmap_page\<close> removes the page of any address except 0, aligned or not, and touches no other
  page; for address 0, the first heap page, its guard is the only one to fire.
\<close>

theorem unmap_page_result:
  assumes "tables_ok (kmem s)" and "d_present (pde_at (kmem s) v) \<noteq> 0"
  shows "\<exists>s'. unmap_page v F_KERN s = (Some (v \<noteq> 0), s') \<and> (v = 0 \<longrightarrow> s' = s) \<and>
    (v \<noteq> 0 \<longrightarrow> (\<forall>w. drop_bit 12 w = drop_bit 12 v \<longrightarrow> mmu (kmem s') w = None)) \<and>
    (\<forall>w. d_present (pde_at (kmem s) w) \<noteq> 0 \<and> drop_bit 12 w \<noteq> drop_bit 12 v \<longrightarrow>
      mmu (kmem s') w = mmu (kmem s) w)"
proof (cases "v = 0")
  case True
  then show ?thesis by (simp add: unmap_page_def)
next
  case False
  let ?m = "put_pte v (pte_at (kmem s) v\<lparr>p_present := 0\<rparr>) (kmem s)"
  have u: "unmap_page v F_KERN s = (Some True, s\<lparr>kmem := ?m\<rparr>)"
    using False assms(2) by (simp add: unmap_page_def set_pte_def F_KERN_def)
  have "mmu ?m w = None" if "drop_bit 12 w = drop_bit 12 v" for w
    using assms that by (simp add: mmu_def pte_at_put_pte)
  moreover have "mmu ?m w = mmu (kmem s) w"
    if "d_present (pde_at (kmem s) w) \<noteq> 0" "drop_bit 12 w \<noteq> drop_bit 12 v" for w
    using assms that by (intro mmu_cong) (simp_all add: pte_at_put_pte)
  ultimately show ?thesis using u False by simp
qed

theorem unmap_page_result_witness:
  "\<exists>s'. unmap_page 0xC0020123 F_KERN boot_state = (Some True, s') \<and> mmu (kmem s') 0xC0020000 = None"
proof -
  have "pde_at boot_mem 0xC0020123 = pde_at boot_mem 0xC0020000"
    by (rule same_page_entries(1)) simp
  then show ?thesis
    using unmap_page_result [where s = boot_state and v = "0xC0020123"] boot_tables_ok boot_facts
    by auto
qed

section \<open>The frame table\<close>

text \<open>The frames of a usable region, in order.\<close>

definition region_frames :: "mem \<Rightarrow> ptr \<Rightarrow> ptr list" where
  "region_frames m r = (let e = MemoryMapEntry_at m r in
     map (\<lambda>x. ucast (me_Base e) + of_nat x * PGSIZE) [0..<nat (sint (ucast (me_Length e div 4096) :: u32))])"

definition free_entry :: "ptr \<Rightarrow> phys_page" where
  "free_entry a = \<lparr>pp_type = M_FREE, pp_addr = a\<rparr>"

lemma fill_region_result:
  assumes "length pages = MAX_PHYS_PAGES" and "pg \<le> MAX_PHYS_PAGES" and "0 \<le> x"
  shows "fill_region b n x pg pages =
    (let fr = take (MAX_PHYS_PAGES - pg) (map (\<lambda>k. free_entry (b + of_nat k * PGSIZE)) [nat x..<nat n])
     in (pg + length fr, take pg pages @ fr @ drop (pg + length fr) pages))"
  using assms
proof (induction b n x pg pages rule: fill_region.induct)
  case (1 b n x pg pages)
  show ?case
  proof (cases "x < n \<and> pg < MAX_PHYS_PAGES")
    case False
    then show ?thesis using 1 by (subst fill_region.simps) auto
  next
    case True
    let ?e = "free_entry (b + of_int x * PGSIZE)"
    let ?pages = "pages[pg := ?e]"
    let ?fr = "take (MAX_PHYS_PAGES - Suc pg) (map (\<lambda>k. free_entry (b + of_nat k * PGSIZE)) [nat (x + 1)..<nat n])"
    have IH: "fill_region b n (x + 1) (pg + 1) ?pages =
        (pg + 1 + length ?fr, take (pg + 1) ?pages @ ?fr @ drop (pg + 1 + length ?fr) ?pages)"
      using 1 True by (simp add: Let_def free_entry_def)
    have up: "[nat x..<nat n] = nat x # [nat (x + 1)..<nat n]"
      using True 1(4) by (simp add: upt_conv_Cons nat_add_distrib)
    have m: "MAX_PHYS_PAGES - pg = Suc (MAX_PHYS_PAGES - Suc pg)" using True by arith
    have t: "take (Suc pg) ?pages = take pg pages @ [?e]"
      using True 1(2) by (simp add: take_Suc_conv_app_nth)
    have x: "of_nat (nat x) = (of_int x :: u32)"
      using 1(4) by simp
    have "fill_region b n x pg pages = fill_region b n (x + 1) (pg + 1) ?pages"
      using True by (subst fill_region.simps) (simp add: free_entry_def)
    then show ?thesis unfolding IH using t by (simp add: up m x Let_def)
  qed
qed

lemma fill_regions_result:
  assumes "length pages = MAX_PHYS_PAGES" and "pg \<le> MAX_PHYS_PAGES"
  shows "fill_regions m rs (pg, pages) =
    (let fr = take (MAX_PHYS_PAGES - pg) (map free_entry (concat (map (region_frames m) rs)))
     in (pg + length fr, take pg pages @ fr @ drop (pg + length fr) pages))"
  using assms
proof (induction rs arbitrary: pg pages)
  case (Cons r rs)
  define k where "k = MAX_PHYS_PAGES - pg"
  define xs where "xs = map free_entry (region_frames m r)"
  define ys where "ys = map free_entry (concat (map (region_frames m) rs))"
  define a where "a = take k xs"
  define b where "b = take (k - length a) ys"
  let ?pages = "take pg pages @ a @ drop (pg + length a) pages"
  have one: "fill_region (ucast (me_Base (MemoryMapEntry_at m r)))
      (sint (ucast (me_Length (MemoryMapEntry_at m r) div 4096) :: u32)) 0 pg pages = (pg + length a, ?pages)"
    using Cons.prems
    by (simp add: fill_region_result region_frames_def Let_def comp_def a_def xs_def k_def)
  have la: "length a \<le> k" by (simp add: a_def)
  then have l: "length ?pages = MAX_PHYS_PAGES" and p: "pg + length a \<le> MAX_PHYS_PAGES"
    using Cons.prems by (auto simp: k_def)
  have m: "MAX_PHYS_PAGES - (pg + length a) = k - length a" by (simp add: k_def)
  have "fill_regions m (r # rs) (pg, pages) = fill_regions m rs (pg + length a, ?pages)"
    using one by (simp add: Let_def)
  also have "\<dots> = (pg + length a + length b,
      take (pg + length a) ?pages @ b @ drop (pg + length a + length b) ?pages)"
    using Cons.IH [OF l p] by (simp only: Let_def m b_def ys_def)
  also have "take (pg + length a) ?pages = take pg pages @ a"
    using Cons.prems by (simp add: min_absorb2)
  also have "drop (pg + length a + length b) ?pages = drop (pg + length a + length b) pages"
    using Cons.prems by (simp add: min_absorb2 ac_simps)
  finally have "fill_regions m (r # rs) (pg, pages) =
    (pg + length (a @ b), take pg pages @ (a @ b) @ drop (pg + length (a @ b)) pages)"
    by (simp add: ac_simps)
  moreover have "a @ b = take k (xs @ ys)"
    by (cases "length xs \<le> k") (simp_all add: a_def b_def)
  moreover have "xs @ ys = map free_entry (concat (map (region_frames m) (r # rs)))"
    by (simp add: xs_def ys_def)
  ultimately show ?case by (simp only: k_def Let_def)
qed simp

lemma free_frames_entries: "free_frames (map free_entry as) = as"
  by (induction as) (simp_all add: free_frames_def free_entry_def)

lemma free_frames_append: "free_frames (xs @ ys) = free_frames xs @ free_frames ys"
  by (simp add: free_frames_def)

text \<open>
  the frame table that \<^verbatim>\<open>setupAvailablePages\<close> builds over a table with no free entry holds the
  pages of the usable regions, in the order of the regions, cut off at 4096 frames.
\<close>

theorem frame_table_from_map:
  assumes "length pages = MAX_PHYS_PAGES" and "free_frames pages = []"
  shows "free_frames (snd (fill_regions m regions (0, pages))) =
    take MAX_PHYS_PAGES (concat (map (region_frames m) regions))"
proof -
  have d: "free_frames (drop n pages) = []" for n
    using assms(2) free_frames_append [of "take n pages" "drop n pages"] by simp
  show ?thesis
    using fill_regions_result [OF assms(1), of 0 m regions]
    by (simp add: Let_def free_frames_append d take_map free_frames_entries)
qed

text \<open>A memory map with one usable region of 8 pages at 1 MiB, as the BIOS would leave it.\<close>

definition small_map :: mem where
  "small_map = words (\<lambda>a. if a = 0x5000 then 0x100000 else if a = 0x5008 then 0x8000
     else if a = 0x5010 then 1 else 0)"

theorem frame_table_from_map_witness:
  "free_frames (snd (fill_regions small_map [0x5000] (0, replicate MAX_PHYS_PAGES \<lparr>pp_type = 0, pp_addr = 0\<rparr>))) =
     [0x100000, 0x101000, 0x102000, 0x103000, 0x104000, 0x105000, 0x106000, 0x107000]"
proof -
  let ?pages = "replicate MAX_PHYS_PAGES \<lparr>pp_type = 0, pp_addr = 0\<rparr>"
  have l: "length ?pages = MAX_PHYS_PAGES" and f: "free_frames ?pages = []"
    by (simp_all add: free_frames_def page_types)
  have "region_frames small_map 0x5000 =
      [0x100000, 0x101000, 0x102000, 0x103000, 0x104000, 0x105000, 0x106000, 0x107000]"
    by (simp add: region_frames_def small_map_def MemoryMapEntry_at_def ld64_def PGSIZE_def Let_def upt_rec)
  then show ?thesis
    using frame_table_from_map [OF l f, of small_map "[0x5000]"] by (simp add: MAX_PHYS_PAGES_def)
qed

section \<open>\<^verbatim>\<open>palloc_kern\<close>\<close>

lemma paging_ok_take:
  assumes "paging_ok s" and "free_frames (physical_page_entries s) = f # free_frames ps"
  shows "paging_ok (s\<lparr>physical_page_entries := ps\<rparr>)"
  using assms by (auto simp: paging_ok_def frames_ok_def)

text \<open>One page: the frame, its entry in the page table of the kernel window, the zeroing.\<close>

lemma palloc_kern_one:
  assumes "paging_ok s" and "free_frames (physical_page_entries s) = f # fs"
  obtains c ps where "palloc_kern 1 flags s = ret (Kptov f) (zero_pages (Kptov f) 1 flags
      (s\<lparr>kmem := put_pte (Kptov f) (leaf f flags (pte_at (kmem s) (Kptov f))) (kmem s), con := c,
        physical_page_entries := ps\<rparr>))"
    and "free_frames ps = fs" and "page_aligned f" and "d_present (pde_at (kmem s) (Kptov f)) \<noteq> 0"
proof (cases s rule: get_next_free_cases)
  case 1
  with assms(2) show ?thesis by simp
next
  case (2 a ps)
  then have a: "a = f" "free_frames ps = fs" using assms(2) by simp_all
  have f: "page_aligned f" "d_present (pde_at (kmem s) (Kptov f)) \<noteq> 0"
    using assms by (auto simp: paging_ok_def frames_ok_def)
  then have "f \<noteq> NO_ADDR" using not_page_aligned_NO_ADDR by auto
  let ?s = "s\<lparr>physical_page_entries := ps\<rparr>"
  let ?m = "put_pte (Kptov f) (leaf f flags (pte_at (kmem s) (Kptov f))) (kmem s)"
  obtain c where c: "map_page f (Kptov f) flags ?s = ret () (?s\<lparr>kmem := ?m, con := c\<rparr>)"
    using map_page_present [of ?s f "Kptov f" flags] f assms(1) by (auto simp: paging_ok_def)
  have e: "?s\<lparr>kmem := ?m, con := c\<rparr> = s\<lparr>kmem := ?m, con := c, physical_page_entries := ps\<rparr>"
    by (rule kstate.equality) simp_all
  show ?thesis
    by (rule that [OF _ a(2) f], insert 2(1) a(1) c \<open>f \<noteq> NO_ADDR\<close>)
      (simp add: palloc_kern_def e)
qed

lemma zero_pages_off [simp]: "flags AND F_ZERO = 0 \<Longrightarrow> zero_pages a n flags s = s"
  by (simp add: zero_pages_def)

lemma zero_pages_on:
  "flags AND F_ZERO \<noteq> 0 \<Longrightarrow> zero_pages a 1 flags s = kmem_update (memset a 0 4096) s"
  by (simp add: zero_pages_def PGSIZE_def)

text \<open>
  C29: with a frame left, \<^verbatim>\<open>palloc_kern(1, flags)\<close> returns the kernel address of the first free frame,
  mapped; with \<^verbatim>\<open>F_ZERO\<close> it zeroes not one page but the four pages from there (4096 words). With no
  frame left it panics under \<^verbatim>\<open>F_ASSERT\<close> and returns \<^verbatim>\<open>NO_ADDR\<close> otherwise.
\<close>

theorem palloc_kern_result:
  assumes "paging_ok s"
  shows "case free_frames (physical_page_entries s) of
      [] \<Rightarrow> palloc_kern 1 flags s =
        (if flags AND F_ASSERT \<noteq> 0 then PANIC ''UNABLE TO ALLOCATE REQUIRED PAGES'' s else ret NO_ADDR s)
    | f # fs \<Rightarrow> (\<exists>s'. palloc_kern 1 flags s = ret (Kptov f) s' \<and>
        free_frames (physical_page_entries s') = fs \<and>
        (if flags AND F_ZERO \<noteq> 0
         then \<forall>i \<in> {..<4096}. ld32 (kmem s') (Kptov f + 4 * of_nat i) = 0
         else paging_ok s' \<and> (\<forall>k. unat k < 4096 \<longrightarrow> mmu (kmem s') (Kptov f + k) = Some (f + k))))"
proof (cases "free_frames (physical_page_entries s)")
  case Nil
  then show ?thesis
    by (cases s rule: get_next_free_cases) (auto simp: palloc_kern_def)
next
  case (Cons f fs)
  let ?m = "put_pte (Kptov f) (leaf f flags (pte_at (kmem s) (Kptov f))) (kmem s)"
  obtain c ps where run: "palloc_kern 1 flags s = ret (Kptov f) (zero_pages (Kptov f) 1 flags
      (s\<lparr>kmem := ?m, con := c, physical_page_entries := ps\<rparr>))"
    and f: "free_frames ps = fs" "page_aligned f" "d_present (pde_at (kmem s) (Kptov f)) \<noteq> 0"
    by (rule palloc_kern_one [OF assms Cons, where flags = flags])
  have t: "tables_ok (kmem s)" "frames_ok (kmem s) ps"
    using paging_ok_take [OF assms, of f ps] Cons f by (simp_all add: paging_ok_def)
  have "mmu ?m (Kptov f + k) = Some (f + k)" if "unat k < 4096" for k
    by (rule mmu_leaf [OF _ f(2) that]) (use t f in \<open>simp_all add: pte_at_put_pte\<close>)
  moreover have "tables_ok ?m" "frames_ok ?m ps" using t f by simp_all
  moreover have "ld32 (memset (Kptov f) 0 4096 ?m) (Kptov f + 4 * of_nat i) = 0" if "i < 4096" for i
    unfolding memset_def by (rule memset_loop_inside) (use that in simp_all)
  ultimately show ?thesis
    using run f Cons by (simp add: zero_pages_on paging_ok_def)
qed

theorem palloc_kern_result_witness:
  "\<exists>s'. palloc_kern 1 (F_ZERO OR F_ASSERT) boot_state = ret 0xC0020000 s' \<and>
     ld32 (kmem s') (0xC0020000 + 4 * of_nat 4095) = 0"
proof -
  obtain fs where fs: "free_frames boot_pages = 0x20000 # fs"
    using boot_facts(6,7) by (cases "free_frames boot_pages") auto
  have z: "(F_ZERO OR F_ASSERT) AND F_ZERO \<noteq> 0" by (simp add: page_flags)
  obtain s' where "palloc_kern 1 (F_ZERO OR F_ASSERT) boot_state = ret (Kptov 0x20000) s'"
    and s': "\<forall>i \<in> {..<4096}. ld32 (kmem s') (Kptov 0x20000 + 4 * of_nat i) = 0"
    using palloc_kern_result [OF paging_ok_boot, of "F_ZERO OR F_ASSERT"] z by (auto simp: fs)
  moreover have "ld32 (kmem s') (Kptov 0x20000 + 4 * of_nat 4095) = 0"
    by (rule bspec [OF s']) simp
  moreover have "Kptov 0x20000 = 0xC0020000" by (simp add: Kptov_def KERN_BASE_def)
  ultimately show ?thesis by (metis)
qed

end
