(* ===== verification/Heap.thy ===== *)
theory Heap
  imports Palloc
begin

text \<open>
  The kernel heap (\<^verbatim>\<open>src/heap/heap.c\<close>): \<^verbatim>\<open>malloc\<close> as the search for a segment followed by one of its
  two branches (carving the segment up, or new pages), \<^verbatim>\<open>CombineFreeSegments\<close> and \<^verbatim>\<open>free\<close>, on the
  24-byte segment headers in memory. Then the heap that is only allocated from, which is the one the
  kernel has (no caller of \<^verbatim>\<open>free\<close> is compiled in): blocks in a row from address 0 and one free
  segment behind them.
\<close>

section \<open>\<^verbatim>\<open>malloc\<close>\<close>

abbreviation seg_len :: "kstate \<Rightarrow> ptr \<Rightarrow> u32" where "seg_len s a \<equiv> rd s a"
abbreviation seg_next :: "kstate \<Rightarrow> ptr \<Rightarrow> ptr" where "seg_next s a \<equiv> rd s (a + 4)"
abbreviation seg_prev :: "kstate \<Rightarrow> ptr \<Rightarrow> ptr" where "seg_prev s a \<equiv> rd s (a + 8)"
abbreviation seg_next_free :: "kstate \<Rightarrow> ptr \<Rightarrow> ptr" where "seg_next_free s a \<equiv> rd s (a + 12)"
abbreviation seg_prev_free :: "kstate \<Rightarrow> ptr \<Rightarrow> ptr" where "seg_prev_free s a \<equiv> rd s (a + 16)"
abbreviation seg_free :: "kstate \<Rightarrow> ptr \<Rightarrow> u32" where "seg_free s a \<equiv> rd s (a + 20)"

definition round8 :: "u32 \<Rightarrow> u32" where
  "round8 sz = (let remainder = sz mod 8; sz = sz - remainder in
     if remainder \<noteq> 0 then sz + 8 else sz)"

text \<open>The two loops follow pointers and need not end on a damaged list.\<close>

partial_function (option) find_segment :: "mem \<Rightarrow> u32 \<Rightarrow> ptr \<Rightarrow> ptr option" where
  "find_segment m sz cur =
     (if ld32 m cur < sz \<and> ld32 m (cur + 12) \<noteq> 0 then find_segment m sz (ld32 m (cur + 12))
      else Some cur)"

partial_function (option) last_segment :: "mem \<Rightarrow> ptr \<Rightarrow> ptr option" where
  "last_segment m tmp =
     (if ld32 m (tmp + 4) \<noteq> 0 then last_segment m (ld32 m (tmp + 4)) else Some tmp)"

text \<open>The pages that the heap asks for: the rounding is on \<^verbatim>\<open>size\<close> without the header.\<close>

definition grow_pages :: "u32 \<Rightarrow> u32" where
  "grow_pages sz = (let numPages = (sz + sizeof_header) div PGSIZE in
     if sz mod PGSIZE \<noteq> 0 then numPages + 1 else numPages)"

definition malloc_grow :: "ptr \<Rightarrow> u32 \<Rightarrow> ptr \<Rightarrow> kstate \<Rightarrow> ptr kres" where
  "malloc_grow local_vp sz cur s =
     (let remainder = sz mod PGSIZE in
      seq (palloc_heap local_vp (sint (grow_pages sz)) (kernel_pool s) F_KERN s) (\<lambda>base s.
      if base = NO_ADDR then ret NO_ADDR s
      else let new1 = base; s = wr (new1 + 20) 0 s in
      if remainder > sizeof_header then
        let new2 = base + sizeof_header + sz;
            s = wr (new2 + 20) 1 s;
            s = wr new2 (remainder - sizeof_header) s;
            s = wr (new2 + 4) 0 s;
            s = wr (new2 + 12) 0 s;
            s = wr (new2 + 8) new1 s;
            s = wr (new2 + 16) (if seg_free s cur \<noteq> 0 then cur else seg_prev_free s cur) s
        in case last_segment (kmem s) cur of None \<Rightarrow> Inl Hang
        | Some tmp \<Rightarrow>
          let s = wr (new1 + 8) tmp s;
              s = wr (new1 + 16) cur s;
              s = wr (new1 + 12) new2 s;
              s = wr (new1 + 4) new2 s;
              s = wr (cur + 4) new1 s;
              s = wr (cur + 12) new2 s
          in ret (base + sizeof_header) s
      else
        let s = wr (new1 + 4) 0 s;
            s = wr (new1 + 12) 0 s;
            s = wr (new1 + 8) cur s;
            s = wr (new1 + 16) (if seg_free s cur \<noteq> 0 then cur else seg_prev_free s cur) s;
            s = wr (cur + 4) 0 s;
            s = wr (cur + 12) 0 s
        in ret (base + sizeof_header) s))"

text \<open>
  Carving a segment up: the header of the remainder, the header of the block, and the links of
  the neighbours.
\<close>

definition split_new :: "ptr \<Rightarrow> u32 \<Rightarrow> ptr \<Rightarrow> kstate \<Rightarrow> kstate" where
  "split_new new sz cur s =
     (let s = wr (new + 20) 1 s;
          s = wr new (seg_len s cur - (sizeof_header + sz)) s;
          s = wr (new + 12) (seg_next_free s cur) s;
          s = wr (new + 4) (seg_next s cur) s;
          s = wr (new + 16) (seg_prev_free s cur) s
      in wr (new + 8) cur s)"

definition split_cur :: "ptr \<Rightarrow> u32 \<Rightarrow> ptr \<Rightarrow> kstate \<Rightarrow> kstate" where
  "split_cur new sz cur s =
     (let s = wr (cur + 12) new s;
          s = wr (cur + 4) new s;
          s = wr cur sz s
      in wr (cur + 20) 0 s)"

definition split_links :: "ptr \<Rightarrow> kstate \<Rightarrow> kstate" where
  "split_links cur s =
     (let s = (if seg_prev_free s cur \<noteq> 0 then wr (seg_prev_free s cur + 12) (seg_next_free s cur) s else s);
          s = (if seg_next_free s cur \<noteq> 0 then wr (seg_next_free s cur + 16) (seg_prev_free s cur) s else s);
          s = (if seg_prev s cur \<noteq> 0 then wr (seg_prev s cur + 12) (seg_next_free s cur) s else s)
      in if seg_next s cur \<noteq> 0 then wr (seg_next s cur + 16) (seg_prev_free s cur) s else s)"

definition malloc_split :: "u32 \<Rightarrow> ptr \<Rightarrow> kstate \<Rightarrow> ptr kres" where
  "malloc_split sz cur s =
     (let new = cur + sizeof_header + sz;
          s = split_new new sz cur s;
          s = split_cur new sz cur s;
          s = (if cur = firstFreeSegment s then s\<lparr>firstFreeSegment := new\<rparr> else s);
          s = split_links cur s
      in ret (cur + sizeof_header) s)"

definition malloc :: "ptr \<Rightarrow> u32 \<Rightarrow> kstate \<Rightarrow> ptr kres" where
  "malloc local_vp sz s =
     (let sz = round8 sz in
      case find_segment (kmem s) sz (firstFreeSegment s) of None \<Rightarrow> Inl Hang
      | Some cur \<Rightarrow>
          if seg_len s cur < sz then malloc_grow local_vp sz cur s else malloc_split sz cur s)"

section \<open>\<^verbatim>\<open>free\<close>\<close>

definition combine_into :: "ptr \<Rightarrow> ptr \<Rightarrow> kstate \<Rightarrow> kstate" where
  "combine_into a b s =
     (let s = wr a (seg_len s a + (seg_len s b + sizeof_header)) s;
          s = wr (a + 4) (seg_next s b) s;
          s = wr (a + 12) (seg_next_free s b) s;
          s = wr (seg_next s b + 8) a s;
          s = wr (seg_next s b + 16) a s
      in wr (seg_next_free s b + 16) a s)"

definition CombineFreeSegments :: "ptr \<Rightarrow> ptr \<Rightarrow> kstate \<Rightarrow> kstate" where
  "CombineFreeSegments a b s =
     (if a = 0 then s else if b = 0 then s
      else if a < b then combine_into a b s else combine_into b a s)"

definition free :: "ptr \<Rightarrow> kstate \<Rightarrow> kstate" where
  "free address s =
     (let cur = address - sizeof_header;
          s = wr (cur + 20) 1 s;
          s = (if cur < firstFreeSegment s then s\<lparr>firstFreeSegment := cur\<rparr> else s);
          s = (if seg_next_free s cur \<noteq> 0 \<and> seg_prev_free s (seg_next_free s cur) < cur
               then wr (seg_next_free s cur + 16) cur s else s);
          s = (if seg_prev_free s cur \<noteq> 0 \<and> seg_next_free s (seg_prev_free s cur) > cur
               then wr (seg_prev_free s cur + 12) cur s else s);
          s = (if seg_next s cur \<noteq> 0
               then let s = wr (seg_next s cur + 8) cur s in
                 if seg_free s (seg_next s cur) \<noteq> 0 then CombineFreeSegments cur (seg_next s cur) s else s
               else s)
      in if seg_prev s cur \<noteq> 0
         then let s = wr (seg_prev s cur + 4) cur s in
           if seg_free s (seg_prev s cur) \<noteq> 0 then CombineFreeSegments cur (seg_prev s cur) s else s
         else s)"

section \<open>Headers do not overlap\<close>

text \<open>\<open>below a b\<close>: a 24-byte header at \<open>a\<close> ends before one at \<open>b\<close>, and neither wraps.\<close>

definition below :: "ptr \<Rightarrow> ptr \<Rightarrow> bool" where
  "below a b \<longleftrightarrow> unat a + 24 \<le> unat b \<and> unat b + 24 \<le> 4294967296"

lemma below_offsets:
  assumes "below a b" and "unat k < 24" and "unat l < 24"
  shows "a + k \<noteq> b + l"
proof
  assume e: "a + k = b + l"
  have "unat (a + k) = unat a + unat k" "unat (b + l) = unat b + unat l"
    using assms by (simp_all add: below_def unat_plus_small)
  with e assms show False by (simp add: below_def)
qed

lemma below_neq [simp]:
  assumes "below a b"
  shows "a \<noteq> b" "b \<noteq> a"
    and "unat l < 24 \<Longrightarrow> a \<noteq> b + l" "unat l < 24 \<Longrightarrow> b + l \<noteq> a"
    and "unat k < 24 \<Longrightarrow> a + k \<noteq> b" "unat k < 24 \<Longrightarrow> b \<noteq> a + k"
    and "unat k < 24 \<Longrightarrow> unat l < 24 \<Longrightarrow> a + k \<noteq> b + l" "unat k < 24 \<Longrightarrow> unat l < 24 \<Longrightarrow> b + l \<noteq> a + k"
  using below_offsets [OF assms, of 0 0] below_offsets [OF assms, of 0 l] below_offsets [OF assms, of k 0]
    below_offsets [OF assms, of k l] by (auto dest: not_sym)

lemma st32_header:
  assumes "\<not> inside (unat a) 24 x" and "unat a + 24 \<le> 4294967296" and "unat k \<le> 20"
  shows "st32 (a + k) v m x = m x"
proof -
  have "unat (a + k) = unat a + unat k" using assms by (simp add: unat_plus_small)
  then show ?thesis using assms by (intro st32_frame) (auto simp: inside_def)
qed

lemma st32_header0:
  "\<not> inside (unat a) 24 x \<Longrightarrow> unat a + 24 \<le> 4294967296 \<Longrightarrow> st32 a v m x = m x"
  using st32_header [of a x 0 v m] by simp

section \<open>Carving up the last free segment\<close>

text \<open>A header as it is read: length, next, previous, next free, previous free, free.\<close>

definition header :: "mem \<Rightarrow> ptr \<Rightarrow> u32 \<Rightarrow> ptr \<Rightarrow> ptr \<Rightarrow> ptr \<Rightarrow> ptr \<Rightarrow> u32 \<Rightarrow> bool" where
  "header m a len nx pv nf pf fr \<longleftrightarrow> ld32 m a = len \<and> ld32 m (a + 4) = nx \<and> ld32 m (a + 8) = pv \<and>
     ld32 m (a + 12) = nf \<and> ld32 m (a + 16) = pf \<and> ld32 m (a + 20) = fr"

text \<open>\<open>same_outside as m m'\<close>: the memories agree outside the headers at \<open>as\<close>.\<close>

definition same_outside :: "ptr set \<Rightarrow> mem \<Rightarrow> mem \<Rightarrow> bool" where
  "same_outside as m m' \<longleftrightarrow> (\<forall>x. (\<forall>a \<in> as. \<not> inside (unat a) 24 x) \<longrightarrow> m' x = m x)"

lemma split_new_run:
  assumes "header (kmem s) a l nx pv nf pf fr" and "aligned a" and "aligned n" and "below a n"
  obtains m where "split_new n sz a s = s\<lparr>kmem := m\<rparr>" and "header m a l nx pv nf pf fr"
    and "header m n (l - (24 + sz)) nx a nf pf 1" and "same_outside {n} (kmem s) m"
proof
  let ?m = "st32 (n + 8) a (st32 (n + 16) pf (st32 (n + 4) nx (st32 (n + 12) nf
    (st32 n (l - (24 + sz)) (st32 (n + 20) 1 (kmem s))))))"
  show "split_new n sz a s = s\<lparr>kmem := ?m\<rparr>"
    using assms by (simp add: split_new_def Let_def header_def sizeof_header_def)
  show "header ?m a l nx pv nf pf fr" and "header ?m n (l - (24 + sz)) nx a nf pf 1"
    using assms by (simp_all add: header_def)
  show "same_outside {n} (kmem s) ?m"
    using assms(4) by (simp add: same_outside_def st32_header st32_header0 below_def)
qed

lemma split_cur_run:
  assumes "header (kmem s) a l nx pv nf pf fr" and "aligned a" and "unat a + 24 \<le> 4294967296"
  obtains m where "split_cur n sz a s = s\<lparr>kmem := m\<rparr>" and "header m a sz n pv n pf 0"
    and "same_outside {a} (kmem s) m"
proof
  let ?m = "st32 (a + 20) 0 (st32 a sz (st32 (a + 4) n (st32 (a + 12) n (kmem s))))"
  show "split_cur n sz a s = s\<lparr>kmem := ?m\<rparr>"
    by (simp add: split_cur_def Let_def)
  show "header ?m a sz n pv n pf 0"
    using assms by (simp add: header_def)
  show "same_outside {a} (kmem s) ?m"
    using assms(3) by (simp add: same_outside_def st32_header st32_header0)
qed

text \<open>With no free segment before the block, the links concern the remainder and the block before.\<close>

lemma split_links_run:
  assumes "header (kmem s) a sz n p n 0 0" and "header (kmem s) n l 0 a 0 0 1"
    and "aligned a" and "aligned n" and "below a n"
    and "p \<noteq> 0 \<Longrightarrow> aligned p \<and> below p a \<and> below p n"
  obtains m where "split_links a s = s\<lparr>kmem := m\<rparr>" and "header m a sz n p n 0 0"
    and "header m n l 0 a 0 0 1" and "same_outside (if p = 0 then {n} else {p, n}) (kmem s) m"
proof -
  have n0: "n \<noteq> 0" using assms(5) by (auto simp: below_def)
  define m1 where "m1 = st32 (n + 16) 0 (kmem s)"
  define m2 where "m2 = (if p \<noteq> 0 then st32 (p + 12) n m1 else m1)"
  define m where "m = st32 (n + 16) 0 m2"
  have h1: "header m1 a sz n p n 0 0" "header m1 n l 0 a 0 0 1"
    using assms(1-5) by (simp_all add: header_def m1_def)
  have h2: "header m2 a sz n p n 0 0" "header m2 n l 0 a 0 0 1"
    using h1 assms(3,4,6) by (cases "p = 0"; simp add: header_def m2_def)+
  have h: "header m a sz n p n 0 0" "header m n l 0 a 0 0 1"
    using h2 assms(3-5) by (simp_all add: header_def m_def)
  have "split_links a s = s\<lparr>kmem := m\<rparr>"
  proof (cases "p = 0")
    case True
    have "header (st32 (n + 16) 0 (kmem s)) a sz n 0 n 0 0" using h1(1) True by (simp add: m1_def)
    then show ?thesis using True assms(1) n0
      by (simp add: split_links_def header_def Let_def m_def m2_def m1_def)
  next
    case False
    have "header (st32 (n + 16) 0 (kmem s)) a sz n p n 0 0"
      and "header (st32 (p + 12) n (st32 (n + 16) 0 (kmem s))) a sz n p n 0 0"
      using h1(1) h2(1) False by (simp_all add: m1_def m2_def)
    then show ?thesis using False assms(1) n0
      by (simp add: split_links_def header_def Let_def m_def m2_def m1_def)
  qed
  moreover have "same_outside (if p = 0 then {n} else {p, n}) (kmem s) m"
  proof (cases "p = 0")
    case True
    then show ?thesis using assms(5) by (simp add: same_outside_def st32_header below_def m_def m2_def m1_def)
  next
    case False
    then show ?thesis using assms(5,6)
      by (simp add: same_outside_def st32_header below_def m_def m2_def m1_def)
  qed
  ultimately show ?thesis using that h by blast
qed

lemma same_outside_trans:
  "same_outside as m m' \<Longrightarrow> same_outside bs m' m'' \<Longrightarrow> as \<union> bs \<subseteq> cs \<Longrightarrow> same_outside cs m m''"
  unfolding same_outside_def by (metis UnCI subsetD)

lemma header_same_outside:
  assumes "same_outside as m m'" and "header m a l nx pv nf pf fr"
    and "unat a + 24 \<le> 4294967296"
    and "\<And>b. b \<in> as \<Longrightarrow> unat b + 24 \<le> unat a \<or> unat a + 24 \<le> unat b"
  shows "header m' a l nx pv nf pf fr"
proof -
  have byte: "m' (a + k) = m (a + k)" if "unat k < 24" for k
  proof -
    have "unat (a + k) = unat a + unat k" using assms(3) that by (simp add: unat_plus_small)
    then have "\<not> inside (unat b) 24 (a + k)" if "b \<in> as" for b
      using assms(4) [OF that] \<open>unat k < 24\<close> by (auto simp: inside_def)
    then show ?thesis using assms(1) by (simp add: same_outside_def)
  qed
  have "ld32 m' (a + k) = ld32 m (a + k)" if "unat k \<le> 20" for k
  proof (rule ld32_cong)
    fix j :: u32 assume "unat j < 4"
    with that have "unat (k + j) < 24" by (simp add: unat_plus_small)
    from byte [OF this] show "m' (a + k + j) = m (a + k + j)" by (simp add: add.assoc)
  qed
  from this [of 0] this [of 4] this [of 8] this [of 12] this [of 16] this [of 20] assms(2)
  show ?thesis by (simp add: header_def)
qed

lemma malloc_split_run:
  assumes h: "header (kmem s) a l 0 p 0 0 fr" and f: "firstFreeSegment s = a"
    and al: "aligned a" "aligned sz" and n: "n = a + 24 + sz" "below a n"
    and p: "p \<noteq> 0 \<Longrightarrow> aligned p \<and> below p a \<and> below p n"
  obtains m where "malloc_split sz a s = ret (a + 24) (s\<lparr>kmem := m, firstFreeSegment := n\<rparr>)"
    and "header m a sz n p n 0 0" and "header m n (l - (24 + sz)) 0 a 0 0 1"
    and "same_outside (if p = 0 then {a, n} else {p, a, n}) (kmem s) m"
proof -
  have an: "aligned n" using al n(1) by simp
  obtain m1 where m1: "split_new n sz a s = s\<lparr>kmem := m1\<rparr>" "header m1 a l 0 p 0 0 fr"
      "header m1 n (l - (24 + sz)) 0 a 0 0 1" "same_outside {n} (kmem s) m1"
    by (rule split_new_run [OF h al(1) an n(2), of sz])
  have a24: "unat a + 24 \<le> 4294967296" using n(2) by (simp add: below_def)
  have h1: "header (kmem (s\<lparr>kmem := m1\<rparr>)) a l 0 p 0 0 fr" using m1 by simp
  obtain m2 where m2: "split_cur n sz a (s\<lparr>kmem := m1\<rparr>) = s\<lparr>kmem := m1\<rparr>\<lparr>kmem := m2\<rparr>"
      "header m2 a sz n p n 0 0" "same_outside {a} m1 m2"
    using split_cur_run [OF h1 al(1) a24, of n sz] by auto
  have hn2: "header m2 n (l - (24 + sz)) 0 a 0 0 1"
    by (rule header_same_outside [OF m2(3) m1(3)]) (use n(2) in \<open>auto simp: below_def\<close>)
  let ?s = "s\<lparr>kmem := m2, firstFreeSegment := n\<rparr>"
  have h2: "header (kmem ?s) a sz n p n 0 0" "header (kmem ?s) n (l - (24 + sz)) 0 a 0 0 1"
    using m2 hn2 by simp_all
  obtain m3 where m3: "split_links a ?s = ?s\<lparr>kmem := m3\<rparr>" "header m3 a sz n p n 0 0"
      "header m3 n (l - (24 + sz)) 0 a 0 0 1" "same_outside (if p = 0 then {n} else {p, n}) m2 m3"
    using split_links_run [OF h2 al(1) an n(2) p] by auto
  show ?thesis
  proof (rule that [OF _ m3(2,3)])
    have "malloc_split sz a s = ret (a + 24) (?s\<lparr>kmem := m3\<rparr>)"
      using m1(1) m2(1) m3(1) f by (simp add: malloc_split_def sizeof_header_def Let_def n(1) [symmetric])
    then show "malloc_split sz a s = ret (a + 24) (s\<lparr>kmem := m3, firstFreeSegment := n\<rparr>)"
      by simp
    have "same_outside {a, n} (kmem s) m2"
      by (rule same_outside_trans [OF m1(4) m2(3)]) auto
    then show "same_outside (if p = 0 then {a, n} else {p, a, n}) (kmem s) m3"
      by (rule same_outside_trans [OF _ m3(4)]) auto
  qed
qed

section \<open>The heap as a row of blocks\<close>

text \<open>
  The heap from address 0 to \<open>lim\<close> after allocations of the sizes \<open>zs\<close> in this order: headers and
  blocks in a row, then one free segment whose bytes are still zero.
\<close>

definition heap_end :: "nat list \<Rightarrow> nat" where
  "heap_end zs = sum_list (map (\<lambda>z. 24 + z) zs)"

definition last_header :: "nat list \<Rightarrow> nat" where
  "last_header zs = (if zs = [] then 0 else heap_end (butlast zs))"

definition heap_ok :: "kstate \<Rightarrow> nat list \<Rightarrow> nat \<Rightarrow> bool" where
  "heap_ok s zs lim \<longleftrightarrow> (\<forall>z \<in> set zs. 8 dvd z) \<and> heap_end zs + 24 \<le> lim \<and> 8 dvd lim \<and> lim \<le> 0x80000000 \<and>
     firstFreeSegment s = of_nat (heap_end zs) \<and>
     header (kmem s) (of_nat (heap_end zs)) (of_nat (lim - heap_end zs - 24)) 0
       (of_nat (last_header zs)) 0 0 1 \<and>
     (\<forall>x. inside (heap_end zs + 24) (lim - (heap_end zs + 24)) x \<longrightarrow> kmem s x = 0)"

fun blocks_from :: "nat \<Rightarrow> nat list \<Rightarrow> (nat \<times> nat) list" where
  "blocks_from k [] = []"
| "blocks_from k (z # zs) = (k + 24, z) # blocks_from (k + 24 + z) zs"

abbreviation blocks :: "nat list \<Rightarrow> (nat \<times> nat) list" where
  "blocks zs \<equiv> blocks_from 0 zs"

lemma heap_end_simps [simp]:
  "heap_end [] = 0" "heap_end (z # zs) = 24 + z + heap_end zs" "heap_end (ys @ zs) = heap_end ys + heap_end zs"
  by (simp_all add: heap_end_def)

lemma heap_end_dvd: "\<forall>z \<in> set zs. 8 dvd z \<Longrightarrow> 8 dvd heap_end zs"
  by (induction zs) auto

lemma last_header_bound: "zs \<noteq> [] \<Longrightarrow> last_header zs + 24 \<le> heap_end zs"
  by (cases zs rule: rev_cases) (auto simp: last_header_def)

lemma last_header_dvd: "\<forall>z \<in> set zs. 8 dvd z \<Longrightarrow> 8 dvd last_header zs"
  by (cases zs rule: rev_cases) (auto simp: last_header_def heap_end_dvd)

lemma blocks_append: "blocks_from k (ys @ zs) = blocks_from k ys @ blocks_from (k + heap_end ys) zs"
  by (induction ys arbitrary: k) (simp_all add: add.assoc)

text \<open>Blocks lie between the start and the end, apart from every header in use.\<close>

lemma blocks_from_bounds:
  "(b, z) \<in> set (blocks_from k zs) \<Longrightarrow> k + 24 \<le> b \<and> b + z \<le> k + heap_end zs"
  by (induction zs arbitrary: k) fastforce+

lemma blocks_last_header:
  assumes "(b, z) \<in> set (blocks zs)"
  shows "b + z \<le> last_header zs \<or> last_header zs + 24 \<le> b"
proof (cases zs rule: rev_cases)
  case Nil
  then show ?thesis using assms by simp
next
  case (snoc ys y)
  from assms consider "(b, z) \<in> set (blocks ys)" | "b = heap_end ys + 24"
    by (auto simp: snoc blocks_append)
  then show ?thesis
    using blocks_from_bounds [of b z 0 ys] by cases (auto simp: snoc last_header_def)
qed

lemma round8_nat: "(k + 7) div 8 * 8 = (if k mod 8 = 0 then k else k - k mod 8 + 8)" for k :: nat
proof -
  define q r where "q = k div 8" and "r = k mod 8"
  have k: "k = 8 * q + r" and r: "r < 8" by (simp_all add: q_def r_def)
  show ?thesis
  proof (cases "r = 0")
    case True
    then show ?thesis by (simp add: k)
  next
    case False
    then have "8 * q + r + 7 = 8 * (q + 1) + (r - 1)" by simp
    moreover have "r - 1 < 8" using r by simp
    ultimately have "(k + 7) div 8 = q + 1" by (simp add: k div_mult2_eq)
    moreover have "k mod 8 = r" using r by (simp add: k)
    ultimately show ?thesis using False by (simp add: k)
  qed
qed

lemma round8_unat: "unat n \<le> 4294967287 \<Longrightarrow> unat (round8 n) = (unat n + 7) div 8 * 8"
proof -
  assume n: "unat n \<le> 4294967287"
  have r: "unat (n mod 8) = unat n mod 8" by (simp add: unat_mod)
  have d: "unat (n - n mod 8) = unat n - unat n mod 8"
    by (simp add: r unat_sub word_le_nat_alt)
  have z: "n mod 8 = 0 \<longleftrightarrow> unat n mod 8 = 0"
    using r by (metis unat_0 unat_eq_0)
  show ?thesis
  proof (cases "n mod 8 = 0")
    case True
    then show ?thesis unfolding round8_nat using z by (simp add: round8_def)
  next
    case False
    have "unat (n - n mod 8) + unat (8 :: u32) < 4294967296" using n by (simp add: d)
    from unat_plus_small [OF this] have "unat (round8 n) = unat n - unat n mod 8 + 8"
      using False by (simp add: round8_def Let_def d)
    moreover have "unat n mod 8 \<noteq> 0" using False z by simp
    ultimately show ?thesis unfolding round8_nat by simp
  qed
qed

lemma aligned_of_nat8: "8 dvd k \<Longrightarrow> aligned (of_nat k)"
  by (rule aligned_of_nat4, rule dvd_trans [of _ 8]) simp_all

lemma last_header_below: "last_header zs = 0 \<or> last_header zs + 24 \<le> heap_end zs"
  using last_header_bound [of zs] by (cases "zs = []") (auto simp: last_header_def)

lemma malloc_last:
  assumes h: "heap_ok s zs lim" and sz: "unat sz \<le> 4294967287"
    and r: "r = (unat sz + 7) div 8 * 8" and fit: "heap_end zs + 24 + r + 24 \<le> lim"
  obtains m where "malloc vp sz s = ret (of_nat (heap_end zs + 24))
      (s\<lparr>kmem := m, firstFreeSegment := of_nat (heap_end zs + 24 + r)\<rparr>)"
    and "header m (of_nat (heap_end zs + 24 + r)) (of_nat (lim - (heap_end zs + 24 + r) - 24)) 0 (of_nat (heap_end zs)) 0 0 1"
    and "\<And>x. \<not> inside (heap_end zs) 24 x \<Longrightarrow> \<not> inside (heap_end zs + 24 + r) 24 x \<Longrightarrow>
      last_header zs = 0 \<or> \<not> inside (last_header zs) 24 x \<Longrightarrow> m x = kmem s x"
proof -
  define e where "e = heap_end zs"
  define lh where "lh = last_header zs"
  have dv: "8 dvd e" "8 dvd lh" and lim: "lim \<le> 0x80000000" and f: "firstFreeSegment s = of_nat e"
    and hd: "header (kmem s) (of_nat e) (of_nat (lim - e - 24)) 0 (of_nat lh) 0 0 1"
    using h by (auto simp: heap_ok_def heap_end_dvd last_header_dvd e_def lh_def)
  have ur: "unat (round8 sz) = r" using sz by (simp add: round8_unat r)
  then have rw: "round8 sz = of_nat r" using word_unat_eq_iff by fastforce
  have fit': "e + 24 + r + 24 \<le> lim" using fit by (simp add: e_def)
  let ?a = "of_nat e :: ptr" and ?n = "of_nat (e + 24 + r) :: ptr" and ?p = "of_nat lh :: ptr"
  have u: "unat ?a = e" "unat ?n = e + 24 + r"
    using fit' lim by (simp_all only: unat_of_nat) simp_all
  have lh: "lh = 0 \<or> lh + 24 \<le> e" using last_header_below [of zs] by (simp add: lh_def e_def)
  then have up: "unat ?p = lh" using fit' lim by (simp only: unat_of_nat) auto
  have al: "aligned ?a" "aligned (round8 sz)" "aligned ?p"
    unfolding rw using dv by (auto simp: r intro!: aligned_of_nat8 simp del: of_nat_mult)
  have below: "below ?a ?n" using u fit' lim by (simp add: below_def)
  have pb: "aligned ?p \<and> below ?p ?a \<and> below ?p ?n" if "?p \<noteq> 0"
    using that lh al u up fit' lim by (auto simp: below_def)
  have len: "(of_nat (lim - e - 24) :: u32) = of_nat (lim - (e + 24 + r) - 24) + (24 + round8 sz)"
  proof -
    have "lim - e - 24 = (lim - (e + 24 + r) - 24) + (24 + r)" using fit' by simp
    then show ?thesis unfolding rw by (metis of_nat_add of_nat_numeral)
  qed
  have "unat (of_nat (lim - e - 24) :: u32) = lim - e - 24"
    using lim by (simp only: unat_of_nat) simp
  then have big: "\<not> seg_len s ?a < round8 sz"
    using fit' hd by (simp add: word_less_nat_alt ur header_def)
  obtain m where m: "malloc_split (round8 sz) ?a s = ret (?a + 24) (s\<lparr>kmem := m, firstFreeSegment := ?n\<rparr>)"
      "header m ?n (of_nat (lim - e - 24) - (24 + round8 sz)) 0 ?a 0 0 1"
      "same_outside (if ?p = 0 then {?a, ?n} else {?p, ?a, ?n}) (kmem s) m"
    by (rule malloc_split_run [OF hd f al(1,2) _ below pb]) (simp_all add: rw)
  have "find_segment (kmem s) (round8 sz) ?a = Some ?a"
    using hd by (subst find_segment.simps) (simp add: header_def)
  then have "malloc vp sz s = ret (of_nat (e + 24)) (s\<lparr>kmem := m, firstFreeSegment := ?n\<rparr>)"
    using f big m(1) by (simp add: malloc_def Let_def)
  moreover have "header m ?n (of_nat (lim - (e + 24 + r) - 24)) 0 ?a 0 0 1" using m(2) unfolding len by simp
  moreover have "m x = kmem s x"
    if "\<not> inside e 24 x" "\<not> inside (e + 24 + r) 24 x" "lh = 0 \<or> \<not> inside lh 24 x" for x
    using m(3) that by (auto simp: same_outside_def u up simp del: of_nat_add split: if_splits)
  ultimately show ?thesis unfolding e_def lh_def by (rule that)
qed

lemma malloc_carves:
  assumes h: "heap_ok s zs lim" and sz: "unat sz \<le> 4294967287"
    and r: "r = (unat sz + 7) div 8 * 8" and fit: "heap_end zs + 24 + r + 24 \<le> lim"
  obtains m where "malloc vp sz s = ret (of_nat (heap_end zs + 24))
      (s\<lparr>kmem := m, firstFreeSegment := of_nat (heap_end zs + 24 + r)\<rparr>)"
    and "heap_ok (s\<lparr>kmem := m, firstFreeSegment := of_nat (heap_end zs + 24 + r)\<rparr>) (zs @ [r]) lim"
    and "\<And>b z x. (b, z) \<in> set (blocks (zs @ [r])) \<Longrightarrow> inside b z x \<Longrightarrow> m x = kmem s x"
    and "\<And>x. lim \<le> unat x \<Longrightarrow> m x = kmem s x"
proof -
  define e where "e = heap_end zs"
  define lh where "lh = last_header zs"
  have zero: "kmem s x = 0" if "inside (e + 24) (lim - (e + 24)) x" for x
    using h that by (simp add: heap_ok_def e_def)
  have dr: "8 dvd r" by (simp add: r)
  have fit': "e + 24 + r + 24 \<le> lim" using fit by (simp add: e_def)
  have lh: "lh = 0 \<or> lh + 24 \<le> e" using last_header_below [of zs] by (simp add: lh_def e_def)
  obtain m where m: "malloc vp sz s = ret (of_nat (e + 24)) (s\<lparr>kmem := m, firstFreeSegment := of_nat (e + 24 + r)\<rparr>)"
      "header m (of_nat (e + 24 + r)) (of_nat (lim - (e + 24 + r) - 24)) 0 (of_nat e) 0 0 1"
    and keep: "\<And>x. \<not> inside e 24 x \<Longrightarrow> \<not> inside (e + 24 + r) 24 x \<Longrightarrow> lh = 0 \<or> \<not> inside lh 24 x \<Longrightarrow> m x = kmem s x"
    by (rule malloc_last [OF h sz r fit, where vp = vp, folded e_def lh_def]) (rule that)
  show ?thesis
  proof (rule that [OF m(1) [unfolded e_def]])
    have "m x = 0" if x: "e + 24 + r + 24 \<le> unat x" "unat x < lim" for x
    proof -
      have "m x = kmem s x" using x lh by (intro keep) (auto simp: inside_def)
      also have "\<dots> = 0" using x by (intro zero) (simp add: inside_def)
      finally show ?thesis .
    qed
    moreover have "last_header (zs @ [r]) = e" by (simp add: last_header_def e_def)
    ultimately show "heap_ok (s\<lparr>kmem := m, firstFreeSegment := of_nat (heap_end zs + 24 + r)\<rparr>) (zs @ [r]) lim"
      using h m(2) dr fit' by (auto simp: heap_ok_def e_def add.assoc inside_def)
    show "m x = kmem s x" if b: "(b, z) \<in> set (blocks (zs @ [r]))" and x: "inside b z x" for b z x
    proof (rule keep)
      from b consider "(b, z) \<in> set (blocks zs)" | "b = e + 24" "z = r"
        by (auto simp: blocks_append e_def)
      then show "\<not> inside e 24 x" "\<not> inside (e + 24 + r) 24 x" "lh = 0 \<or> \<not> inside lh 24 x"
        using x lh blocks_from_bounds [of b z 0 zs] blocks_last_header [of b z zs]
        by (cases; auto simp: inside_def e_def lh_def)+
    qed
    show "m x = kmem s x" if "lim \<le> unat x" for x
      using that lh fit' by (intro keep) (auto simp: inside_def)
  qed
qed

section \<open>Blocks stay apart\<close>

text \<open>
  A store of blocks: each allocation gives a block apart from those in use, and keeps the bytes
  of those. The client's view: after any allocations the blocks in use are pairwise apart.
\<close>

definition apart_blocks :: "nat \<times> nat \<Rightarrow> nat \<times> nat \<Rightarrow> bool" where
  "apart_blocks p q \<longleftrightarrow> fst p + snd p \<le> fst q \<or> fst q + snd q \<le> fst p"

fun alloc_many :: "('n \<Rightarrow> 's \<Rightarrow> (nat \<times> 's) option) \<Rightarrow> 'n list \<Rightarrow> 's \<Rightarrow> (nat list \<times> 's) option" where
  "alloc_many f [] s = Some ([], s)"
| "alloc_many f (n # ns) s =
     (case f n s of None \<Rightarrow> None | Some (a, s) \<Rightarrow>
        (case alloc_many f ns s of None \<Rightarrow> None | Some (as, s) \<Rightarrow> Some (a # as, s)))"

locale block_store =
  fixes alloc :: "u32 \<Rightarrow> 's \<Rightarrow> (nat \<times> 's) option"
    and live :: "'s \<Rightarrow> (nat \<times> nat) list"
    and inv :: "'s \<Rightarrow> bool"
    and byte :: "'s \<Rightarrow> ptr \<Rightarrow> u8"
  assumes alloc_block: "inv s \<Longrightarrow> alloc n s = Some (a, s') \<Longrightarrow>
      inv s' \<and> (\<exists>z. unat n \<le> z \<and> live s' = live s @ [(a, z)] \<and> (\<forall>p \<in> set (live s). apart_blocks p (a, z)))"
    and alloc_keeps: "inv s \<Longrightarrow> alloc n s = Some (a, s') \<Longrightarrow> (b, z) \<in> set (live s) \<Longrightarrow> inside b z x \<Longrightarrow>
      byte s' x = byte s x"
begin

lemma alloc_many_apart:
  "inv s \<Longrightarrow> sorted_wrt apart_blocks (live s) \<Longrightarrow> alloc_many alloc ns s = Some (as, s') \<Longrightarrow>
    inv s' \<and> sorted_wrt apart_blocks (live s') \<and>
    (\<exists>zs. live s' = live s @ zip as zs \<and> length zs = length as \<and> list_all2 (\<lambda>n z. unat n \<le> z) ns zs)"
proof (induction ns arbitrary: s as)
  case (Cons n ns)
  obtain a s1 bs where a: "alloc n s = Some (a, s1)" and bs: "alloc_many alloc ns s1 = Some (bs, s')" "as = a # bs"
    using Cons.prems(3) by (auto split: option.splits)
  obtain z where z: "inv s1" "unat n \<le> z" "live s1 = live s @ [(a, z)]" "\<forall>p \<in> set (live s). apart_blocks p (a, z)"
    using alloc_block [OF Cons.prems(1) a] by blast
  have "sorted_wrt apart_blocks (live s1)"
    using Cons.prems(2) z by (simp add: sorted_wrt_append)
  from Cons.IH [OF z(1) this bs(1)] obtain zs where IH: "inv s'" "sorted_wrt apart_blocks (live s')"
      "live s' = live s1 @ zip bs zs" "length zs = length bs" "list_all2 (\<lambda>n z. unat n \<le> z) ns zs"
    by blast
  then have "live s' = live s @ zip as (z # zs) \<and> length (z # zs) = length as \<and>
      list_all2 (\<lambda>n z. unat n \<le> z) (n # ns) (z # zs)"
    using z bs(2) by simp
  with IH show ?case by blast
qed simp

lemma alloc_many_keeps:
  "inv s \<Longrightarrow> alloc_many alloc ns s = Some (as, s') \<Longrightarrow> (b, z) \<in> set (live s) \<Longrightarrow> inside b z x \<Longrightarrow>
    byte s' x = byte s x"
proof (induction ns arbitrary: s as)
  case (Cons n ns)
  obtain a s1 bs where a: "alloc n s = Some (a, s1)" and bs: "alloc_many alloc ns s1 = Some (bs, s')"
    using Cons.prems(2) by (auto split: option.splits)
  obtain y where "inv s1" "live s1 = live s @ [(a, y)]"
    using alloc_block [OF Cons.prems(1) a] by blast
  then have "byte s' x = byte s1 x"
    using Cons.prems(3,4) by (intro Cons.IH [OF _ bs]) simp_all
  then show ?case using alloc_keeps [OF Cons.prems(1) a Cons.prems(3,4)] by simp
qed simp

end

text \<open>
  The kernel's \<^verbatim>\<open>malloc\<close> as a store of blocks: \<open>zs\<close> are the sizes given out so far, the heap ends at
  \<open>lim\<close>, and the request fits with the header of the remainder.
\<close>

definition heap_alloc :: "ptr \<Rightarrow> nat \<Rightarrow> u32 \<Rightarrow> kstate \<times> nat list \<Rightarrow> (nat \<times> kstate \<times> nat list) option" where
  "heap_alloc vp lim n x =
     (let (s, zs) = x; r = (unat n + 7) div 8 * 8 in
      if unat n \<le> 4294967287 \<and> heap_end zs + 48 + r \<le> lim then
        case malloc vp n s of Inl _ \<Rightarrow> None | Inr (a, s') \<Rightarrow> Some (unat a, s', zs @ [r])
      else None)"

lemma heap_alloc_run:
  assumes "heap_ok s zs lim" and "heap_alloc vp lim n (s, zs) = Some (a, x)"
  obtains s' r where "x = (s', zs @ [r])" and "a = heap_end zs + 24" and "unat n \<le> r"
    and "heap_ok s' (zs @ [r]) lim" and "malloc vp n s = ret (of_nat a) s'"
    and "\<And>b z x. (b, z) \<in> set (blocks (zs @ [r])) \<Longrightarrow> inside b z x \<Longrightarrow> kmem s' x = kmem s x"
proof -
  let ?r = "(unat n + 7) div 8 * 8"
  have c: "unat n \<le> 4294967287" "heap_end zs + 24 + ?r + 24 \<le> lim"
    using assms(2) by (auto simp: heap_alloc_def Let_def split: if_splits)
  obtain m where m: "malloc vp n s = ret (of_nat (heap_end zs + 24))
      (s\<lparr>kmem := m, firstFreeSegment := of_nat (heap_end zs + 24 + ?r)\<rparr>)"
    and h: "heap_ok (s\<lparr>kmem := m, firstFreeSegment := of_nat (heap_end zs + 24 + ?r)\<rparr>) (zs @ [?r]) lim"
    and k: "\<And>b z x. (b, z) \<in> set (blocks (zs @ [?r])) \<Longrightarrow> inside b z x \<Longrightarrow> m x = kmem s x"
    by (rule malloc_carves [OF assms(1) c(1) refl c(2), where vp = vp]) (rule that)
  have "heap_end zs + 24 < 4294967296" using c assms(1) by (simp add: heap_ok_def)
  then have u: "unat (of_nat (heap_end zs + 24) :: u32) = heap_end zs + 24"
    by (simp only: unat_of_nat) simp
  have "a = heap_end zs + 24" and "x = (s\<lparr>kmem := m, firstFreeSegment := of_nat (heap_end zs + 24 + ?r)\<rparr>, zs @ [?r])"
    using assms(2) m u c by (auto simp: heap_alloc_def Let_def simp del: of_nat_add)
  moreover have "unat n \<le> ?r" by presburger
  ultimately show ?thesis using that m h k by simp
qed

interpretation kheap: block_store "heap_alloc vp lim" "\<lambda>(s, zs). blocks zs" "\<lambda>(s, zs). heap_ok s zs lim"
    "\<lambda>(s, zs). kmem s" for vp lim
proof unfold_locales
  fix x :: "kstate \<times> nat list" and n a y
  obtain s zs where x: "x = (s, zs)" by force
  assume i: "case x of (s, zs) \<Rightarrow> heap_ok s zs lim" and run: "heap_alloc vp lim n x = Some (a, y)"
  obtain s' r where y: "y = (s', zs @ [r])" "a = heap_end zs + 24" "unat n \<le> r" "heap_ok s' (zs @ [r]) lim"
    and k: "\<And>b z x. (b, z) \<in> set (blocks (zs @ [r])) \<Longrightarrow> inside b z x \<Longrightarrow> kmem s' x = kmem s x"
    using i run unfolding x by (auto elim: heap_alloc_run)
  have "apart_blocks (b, z) (a, r)" if "(b, z) \<in> set (blocks zs)" for b z
    using blocks_from_bounds [OF that] y(2) by (simp add: apart_blocks_def)
  then show "(case y of (s, zs) \<Rightarrow> heap_ok s zs lim) \<and>
      (\<exists>z. unat n \<le> z \<and> (case y of (s, zs) \<Rightarrow> blocks zs) = (case x of (s, zs) \<Rightarrow> blocks zs) @ [(a, z)] \<and>
        (\<forall>p \<in> set (case x of (s, zs) \<Rightarrow> blocks zs). apart_blocks p (a, z)))"
    using y by (auto simp: x blocks_append)
  fix b z w
  assume "(b, z) \<in> set (case x of (s, zs) \<Rightarrow> blocks zs)" and "inside b z w"
  then show "(case y of (s, zs) \<Rightarrow> kmem s) w = (case x of (s, zs) \<Rightarrow> kmem s) w"
    using k [of b z w] by (simp add: x y blocks_append)
qed

section \<open>Properties\<close>

lemma initialiseHeap_run:
  obtains m where "initialiseHeap 0 len s = s\<lparr>firstFreeSegment := 0, kmem := m\<rparr>"
    and "header m 0 (len - 24) 0 0 0 0 1" and "same_outside {0} (kmem s) m"
proof
  let ?m = "st32 20 1 (st32 8 0 (st32 16 0 (st32 4 0 (st32 12 0 (st32 0 (len - 24) (kmem s))))))"
  show "initialiseHeap 0 len s = s\<lparr>firstFreeSegment := 0, kmem := ?m\<rparr>"
    by (simp add: initialiseHeap_def Let_def sizeof_header_def)
  show "header ?m 0 (len - 24) 0 0 0 0 1" by (simp add: header_def)
  show "same_outside {0} (kmem s) ?m"
    using st32_header [of 0] st32_header0 [of 0] by (simp add: same_outside_def)
qed

lemma initialiseHeap_ok:
  assumes "\<And>x. inside 24 (unat len - 24) x \<Longrightarrow> kmem s x = 0"
    and "8 dvd unat len" and "24 \<le> unat len" and "unat len \<le> 0x80000000"
  shows "heap_ok (initialiseHeap 0 len s) [] (unat len)"
proof -
  obtain m where m: "initialiseHeap 0 len s = s\<lparr>firstFreeSegment := 0, kmem := m\<rparr>"
      "header m 0 (len - 24) 0 0 0 0 1" "same_outside {0} (kmem s) m"
    by (rule initialiseHeap_run)
  have "of_nat (unat len - 24) = len - 24"
    using assms(3) by (simp add: of_nat_diff)
  moreover have "m x = 0" if "inside 24 (unat len - 24) x" for x
  proof -
    have "\<not> inside 0 24 x" using that by (auto simp: inside_def)
    then show ?thesis using assms(1) [OF that] m(3) by (simp add: same_outside_def)
  qed
  ultimately show ?thesis
    using m(1,2) assms(2-4) by (simp add: heap_ok_def last_header_def)
qed

lemma boot_mem_low: "unat a < 0xC0000000 \<Longrightarrow> boot_mem a = 0"
proof -
  assume a: "unat a < 0xC0000000"
  have "unat (a - a mod 4) \<le> unat a"
    by (simp add: unat_sub word_le_nat_alt unat_mod)
  then have "boot_word (a - a mod 4) = 0"
    using a by (simp add: boot_word_def PAGE_DIRECTORY_BASE_def Kptov_def KERN_BASE_def PAGE_TABLES_BASE_def
        word_le_nat_alt word_less_nat_alt)
  then show ?thesis by (simp add: boot_mem_def words_def)
qed

definition heap_state :: kstate where "heap_state = initialiseHeap 0 PGSIZE boot_state"

lemma heap_state_ok: "heap_ok heap_state [] 4096"
proof -
  have "heap_ok (initialiseHeap 0 PGSIZE boot_state) [] (unat PGSIZE)"
    by (rule initialiseHeap_ok) (auto simp: PGSIZE_def inside_def intro: boot_mem_low)
  then show ?thesis by (simp add: heap_state_def PGSIZE_def)
qed

text \<open>
  C17: on a heap that is only allocated from, a request that fits is answered with the block right
  behind the last one, of the size rounded up to 8 and still zero; the bytes of all blocks in use
  are kept, nothing outside the heap changes, and the heap is again of this form.
\<close>

theorem malloc_block:
  assumes "heap_ok s zs lim" and "unat sz \<le> 4294967287"
    and "r = (unat sz + 7) div 8 * 8" and "heap_end zs + 24 + r + 24 \<le> lim"
  shows "\<exists>s'. malloc vp sz s = ret (of_nat (heap_end zs + 24)) s' \<and> heap_ok s' (zs @ [r]) lim \<and>
    (\<forall>x. inside (heap_end zs + 24) r x \<longrightarrow> kmem s' x = 0) \<and>
    (\<forall>b z x. (b, z) \<in> set (blocks zs) \<and> inside b z x \<longrightarrow> kmem s' x = kmem s x) \<and>
    (\<forall>x. lim \<le> unat x \<longrightarrow> kmem s' x = kmem s x)"
proof -
  obtain m where m: "malloc vp sz s = ret (of_nat (heap_end zs + 24))
      (s\<lparr>kmem := m, firstFreeSegment := of_nat (heap_end zs + 24 + r)\<rparr>)"
    and h: "heap_ok (s\<lparr>kmem := m, firstFreeSegment := of_nat (heap_end zs + 24 + r)\<rparr>) (zs @ [r]) lim"
    and k: "\<And>b z x. (b, z) \<in> set (blocks (zs @ [r])) \<Longrightarrow> inside b z x \<Longrightarrow> m x = kmem s x"
    and o: "\<And>x. lim \<le> unat x \<Longrightarrow> m x = kmem s x"
    by (rule malloc_carves [OF assms, where vp = vp]) (rule that)
  have "m x = 0" if "inside (heap_end zs + 24) r x" for x
  proof -
    have "m x = kmem s x" by (rule k [OF _ that]) (simp add: blocks_append)
    also have "\<dots> = 0" using assms(1,4) that by (auto simp: heap_ok_def inside_def)
    finally show ?thesis .
  qed
  moreover have "m x = kmem s x" if "(b, z) \<in> set (blocks zs)" "inside b z x" for b z x
    using that by (intro k) (auto simp: blocks_append)
  ultimately show ?thesis using m h o by auto
qed

theorem malloc_block_witness:
  "\<exists>s'. malloc 0 12 heap_state = ret 24 s' \<and> heap_ok s' [16] 4096"
proof -
  have "\<exists>s'. malloc 0 12 heap_state = ret (of_nat (heap_end [] + 24)) s' \<and> heap_ok s' ([] @ [16]) 4096 \<and>
    (\<forall>x. inside (heap_end [] + 24) 16 x \<longrightarrow> kmem s' x = 0) \<and>
    (\<forall>b z x. (b, z) \<in> set (blocks []) \<and> inside b z x \<longrightarrow> kmem s' x = kmem heap_state x) \<and>
    (\<forall>x. 4096 \<le> unat x \<longrightarrow> kmem s' x = kmem heap_state x)"
    by (rule malloc_block [OF heap_state_ok]) simp_all
  then obtain s' where "malloc 0 12 heap_state = ret (of_nat (heap_end [] + 24)) s'"
    and "heap_ok s' ([] @ [16]) 4096" by blast
  then show ?thesis by simp
qed





text \<open>
  the pages \<^verbatim>\<open>malloc\<close> asks for hold the block with its header exactly when the size is not a
  multiple of the page size; and the free segment it makes of the rest lies in these pages only if
  the remainder is at most 2036 (or one page more was taken).
\<close>

theorem grow_pages_enough_iff:
  assumes "0 < unat sz" and "unat sz \<le> 0x80000000"
  shows "(24 + unat sz \<le> 4096 * unat (grow_pages sz) \<longleftrightarrow> unat sz mod 4096 \<noteq> 0) \<and>
    (24 < unat (sz mod PGSIZE) \<and> unat (sz mod PGSIZE) < 4072 \<longrightarrow>
      (24 + unat sz + 24 + unat (sz mod PGSIZE - sizeof_header) \<le> 4096 * unat (grow_pages sz) \<longleftrightarrow>
       unat (sz mod PGSIZE) \<le> 2036))"
proof -
  define q where "q = unat sz div 4096"
  define k where "k = unat sz mod 4096"
  have sz: "unat sz = 4096 * q + k" and k: "k < 4096" by (simp_all add: q_def k_def)
  have q: "q \<le> 524288" using assms(2) sz by simp
  have um: "unat (sz mod PGSIZE) = k" by (simp add: PGSIZE_def unat_mod k_def)
  have z: "sz mod PGSIZE = 0 \<longleftrightarrow> k = 0" using um by (metis unat_0 unat_eq_0)
  have "unat (sz + sizeof_header) = unat sz + 24"
    using assms(2) by (simp add: sizeof_header_def unat_plus_small)
  then have d: "unat ((sz + sizeof_header) div PGSIZE) = (unat sz + 24) div 4096"
    by (simp add: PGSIZE_def unat_div)
  have dq: "(unat sz + 24) div 4096 = (if k < 4072 then q else q + 1)"
  proof (cases "k < 4072")
    case True
    have "(4096 * q + (k + 24)) div 4096 = q" using True by simp
    then show ?thesis using True by (simp add: sz add.assoc)
  next
    case False
    have "(4096 * (q + 1) + (k - 4072)) div 4096 = q + 1" using False k by simp
    moreover have "unat sz + 24 = 4096 * (q + 1) + (k - 4072)" using False by (simp add: sz)
    ultimately show ?thesis using False by (simp only: if_False)
  qed
  have g: "unat (grow_pages sz) = (if k = 0 then q else (if k < 4072 then q else q + 1) + 1)"
  proof (cases "k = 0")
    case True
    then show ?thesis using z d dq by (simp add: grow_pages_def Let_def)
  next
    case False
    have "unat ((sz + sizeof_header) div PGSIZE) + unat (1 :: u32) < 4294967296"
      using q by (simp add: d dq)
    from unat_plus_small [OF this] show ?thesis
      using False z d dq by (simp add: grow_pages_def Let_def)
  qed
  have s: "unat (sz mod PGSIZE - sizeof_header) = k - 24" if "24 < k"
    using that um by (simp add: unat_sub word_le_nat_alt sizeof_header_def)
  show ?thesis
    using k s by (auto simp: g um sz)
qed

theorem grow_pages_enough_iff_witness:
  "unat (grow_pages 8192) * 4096 < 24 + unat (8192 :: u32)"
  using grow_pages_enough_iff [of 8192] by simp

end
