(* ===== verification/Lists.thy ===== *)
theory Lists
  imports Heap
begin

text \<open>
  The doubly linked lists of the kernel (\<^verbatim>\<open>src/lib/list.c\<close>) in memory: a list is size 0, head 4,
  tail 8; an element is data 0, next 4, prev 8 (12 bytes each, so 16 from \<^verbatim>\<open>malloc\<close>). Every operation
  is the code's sequence of reads and writes, through null pointers too: in this kernel address 0 is
  mapped and is the heap's first header. Then the proof that on a heap that is only allocated from
  the lists are FIFO queues, through an interface for queues.
\<close>

section \<open>Operations\<close>

abbreviation list_size :: "kstate \<Rightarrow> ptr \<Rightarrow> u32" where "list_size s l \<equiv> rd s l"
abbreviation list_head :: "kstate \<Rightarrow> ptr \<Rightarrow> ptr" where "list_head s l \<equiv> rd s (l + 4)"
abbreviation list_tail :: "kstate \<Rightarrow> ptr \<Rightarrow> ptr" where "list_tail s l \<equiv> rd s (l + 8)"
abbreviation elem_data :: "kstate \<Rightarrow> ptr \<Rightarrow> u32" where "elem_data s e \<equiv> rd s e"
abbreviation elem_next :: "kstate \<Rightarrow> ptr \<Rightarrow> ptr" where "elem_next s e \<equiv> rd s (e + 4)"
abbreviation elem_prev :: "kstate \<Rightarrow> ptr \<Rightarrow> ptr" where "elem_prev s e \<equiv> rd s (e + 8)"

definition sizeof_list :: u32 where "sizeof_list = 12"
definition sizeof_list_elem :: u32 where "sizeof_list_elem = 12"

text \<open>\<open>vp\<close> is the stack address that \<^verbatim>\<open>palloc_heap\<close> may leave behind (see \<^verbatim>\<open>malloc\<close>).\<close>

definition list_init :: "ptr \<Rightarrow> kstate \<Rightarrow> ptr kres" where
  "list_init vp s =
     seq (malloc vp sizeof_list s) (\<lambda>new_list s.
     let s = wr new_list 0 s; s = wr (new_list + 8) 0 s; s = wr (new_list + 4) 0 s
     in ret new_list s)"

definition list_init_with :: "ptr \<Rightarrow> u32 \<Rightarrow> kstate \<Rightarrow> ptr kres" where
  "list_init_with vp data s =
     seq (malloc vp sizeof_list s) (\<lambda>new_list s.
     let s = wr new_list 1 s in
     seq (malloc vp sizeof_list_elem s) (\<lambda>elem s.
     let s = wr (new_list + 4) elem s;
         s = wr (new_list + 8) (list_head s new_list) s;
         s = wr (list_head s new_list) data s
     in ret new_list (wr new_list 1 s)))"

definition is_empty :: "ptr \<Rightarrow> kstate \<Rightarrow> bool" where
  "is_empty l s \<longleftrightarrow> list_size s l = 0"

definition pop :: "ptr \<Rightarrow> kstate \<Rightarrow> u32 \<times> kstate" where
  "pop l s =
     (if is_empty l s then (0, s)
      else let elem = list_head s l;
               s = wr (l + 4) (elem_next s elem) s;
               s = wr (list_head s l + 8) 0 s;
               data = elem_data s elem
        in (data, wr l (list_size s l - 1) s))"

definition push :: "ptr \<Rightarrow> ptr \<Rightarrow> u32 \<Rightarrow> kstate \<Rightarrow> unit kres" where
  "push vp l data s =
     seq (malloc vp sizeof_list_elem s) (\<lambda>elem s.
     let s = wr elem data s;
         s = wr (elem + 4) (list_head s l) s;
         s = wr (list_head s l + 8) elem s;
         s = wr (l + 4) elem s
     in ret () (wr l (list_size s l + 1) s))"

definition append :: "ptr \<Rightarrow> ptr \<Rightarrow> u32 \<Rightarrow> kstate \<Rightarrow> unit kres" where
  "append vp l data s =
     seq (malloc vp sizeof_list_elem s) (\<lambda>elem s.
     let s = wr elem data s in
     if is_empty l s
     then let s = wr (l + 4) elem s;
              s = wr (l + 8) elem s;
              s = wr (elem + 8) 0 s;
              s = wr (elem + 4) 0 s
       in ret () (wr l (list_size s l + 1) s)
     else let s = wr (elem + 8) (list_tail s l) s;
              s = wr (l + 8) elem s;
              s = wr (elem_prev s elem + 4) elem s
       in ret () (wr l (list_size s l + 1) s))"

partial_function (option) find_elem :: "mem \<Rightarrow> u32 \<Rightarrow> ptr \<Rightarrow> ptr option" where
  "find_elem m data elem =
     (if ld32 m elem \<noteq> data \<and> ld32 m (elem + 4) \<noteq> 0 then find_elem m data (ld32 m (elem + 4))
      else Some elem)"

definition unlink :: "ptr \<Rightarrow> ptr \<Rightarrow> kstate \<Rightarrow> kstate" where
  "unlink l elem s =
     (let s = (if elem = list_head s l
            then let s = wr (l + 4) (elem_next s elem) s in wr (list_head s l + 8) 0 s
            else wr (elem_prev s elem + 4) (elem_next s elem) s);
          s = (if elem = list_tail s l then wr (l + 8) (elem_prev s elem) s
               else wr (elem_next s elem + 8) (elem_prev s elem) s)
      in wr l (list_size s l - 1) s)"

definition remove :: "ptr \<Rightarrow> u32 \<Rightarrow> kstate \<Rightarrow> bool kres" where
  "remove l data s =
     (case find_elem (kmem s) data (list_head s l) of None \<Rightarrow> Inl Hang
      | Some elem \<Rightarrow> if elem_data s elem = data then ret True (unlink l elem s) else ret False s)"

fun walk :: "mem \<Rightarrow> nat \<Rightarrow> ptr \<Rightarrow> ptr" where
  "walk m 0 elem = elem"
| "walk m (Suc n) elem = walk m n (ld32 m (elem + 4))"

definition list_get :: "ptr \<Rightarrow> u32 \<Rightarrow> kstate \<Rightarrow> u32 kres" where
  "list_get l idx s =
     (if idx \<ge> list_size s l then PANIC ''LIST OUT OF BOUNDS EXCEPTION'' s
      else ret (elem_data s (walk (kmem s) (unat idx) (list_head s l))) s)"

text \<open>The data that \<^verbatim>\<open>list_dump\<close> prints, and the printing (the memory does not change meanwhile).\<close>

partial_function (option) chain :: "mem \<Rightarrow> ptr \<Rightarrow> u32 list option" where
  "chain m elem =
     (if elem = 0 then Some []
      else if ld32 m (elem + 4) = 0 then Some [ld32 m elem]
      else Option.bind (chain m (ld32 m (elem + 4))) (\<lambda>ds. Some (ld32 m elem # ds)))"

fun print_items :: "u32 list \<Rightarrow> kstate \<Rightarrow> unit kres" where
  "print_items [] s = ret () s"
| "print_items [d] s = kprint_num d BASE_HEX s"
| "print_items (d # ds) s = seq (kprint_num d BASE_HEX s) (\<lambda>_ s. print_items ds (kprint '','' s))"

definition list_dump :: "ptr \<Rightarrow> kstate \<Rightarrow> unit kres" where
  "list_dump l s =
     (case chain (kmem s) (list_head s l) of None \<Rightarrow> Inl Hang
      | Some ds \<Rightarrow> seq (print_items ds (kprintln ''['' s)) (\<lambda>_ s. ret () (kprint '']'' s)))"

section \<open>Lists in memory\<close>

text \<open>\<open>node zs a\<close>: \<open>a\<close> is a 16-byte block of the heap with the blocks \<open>zs\<close>.\<close>

definition node :: "nat list \<Rightarrow> ptr \<Rightarrow> bool" where
  "node zs a \<longleftrightarrow> (unat a, 16) \<in> set (blocks zs)"

definition sep :: "ptr \<Rightarrow> ptr \<Rightarrow> bool" where
  "sep a b \<longleftrightarrow> aligned a \<and> aligned b \<and> unat a + 16 \<le> 4294967296 \<and> unat b + 16 \<le> 4294967296 \<and>
     (unat a + 16 \<le> unat b \<or> unat b + 16 \<le> unat a)"

lemma sep_sym: "sep a b \<Longrightarrow> sep b a"
  by (auto simp: sep_def)

lemma sep_offsets:
  assumes "sep a b" and "unat k < 16" and "unat l < 16"
  shows "a + k \<noteq> b + l"
proof
  assume e: "a + k = b + l"
  have "unat (a + k) = unat a + unat k" "unat (b + l) = unat b + unat l"
    using assms by (auto simp: sep_def unat_plus_small)
  with e assms show False by (auto simp: sep_def)
qed

text \<open>Writing a field of one struct does not change a field of another.\<close>

lemma ld32_sep_fields:
  assumes "sep a b" and "unat k < 16" and "aligned k" and "unat l < 16" and "aligned l"
  shows "ld32 (st32 (a + k) v m) (b + l) = ld32 m (b + l)"
  using assms sep_offsets [OF assms(1,2,4)] by (intro ld32_st32_other aligned_plus) (simp_all add: sep_def)

lemma ld32_sep0:
  assumes "sep a b"
  shows "ld32 (st32 a v m) b = ld32 m b"
    and "unat l < 16 \<Longrightarrow> aligned l \<Longrightarrow> ld32 (st32 a v m) (b + l) = ld32 m (b + l)"
    and "unat l < 16 \<Longrightarrow> aligned l \<Longrightarrow> ld32 (st32 (a + l) v m) b = ld32 m b"
proof -
  have z: "unat (0 :: u32) < 16" "aligned 0" by simp_all
  show "ld32 (st32 a v m) b = ld32 m b"
    using ld32_sep_fields [OF assms z z, where v = v and m = m] by (simp only: add_0_right)
  show "ld32 (st32 a v m) (b + l) = ld32 m (b + l)" if "unat l < 16" "aligned l"
    using ld32_sep_fields [OF assms z that, where v = v and m = m] by (simp only: add_0_right)
  show "ld32 (st32 (a + l) v m) b = ld32 m b" if "unat l < 16" "aligned l"
    using ld32_sep_fields [OF assms that z, where v = v and m = m] by (simp only: add_0_right)
qed

lemmas ld32_sep [simp] = ld32_sep0 ld32_sep_fields

definition blocks_ok :: "nat list \<Rightarrow> bool" where
  "blocks_ok zs \<longleftrightarrow> (\<forall>z \<in> set zs. 8 dvd z) \<and> heap_end zs \<le> 0x80000000"

lemma heap_ok_blocks_ok: "heap_ok s zs lim \<Longrightarrow> blocks_ok zs"
  by (auto simp: heap_ok_def blocks_ok_def)

lemma blocks_from_dvd: "\<forall>z \<in> set zs. 8 dvd z \<Longrightarrow> 8 dvd k \<Longrightarrow> (b, z) \<in> set (blocks_from k zs) \<Longrightarrow> 8 dvd b"
proof (induction zs arbitrary: k)
  case (Cons x zs)
  have k: "8 dvd k + 24" "8 dvd k + 24 + x" using Cons.prems(1,2) by (simp_all add: dvd_add)
  show ?case
  proof (cases "(b, z) \<in> set (blocks_from (k + 24 + x) zs)")
    case True
    then show ?thesis using Cons.prems(1) k(2) by (intro Cons.IH) simp_all
  next
    case False
    then show ?thesis using Cons.prems(3) k(1) by simp
  qed
qed simp

lemma node_aligned: "blocks_ok zs \<Longrightarrow> node zs a \<Longrightarrow> aligned a"
  unfolding node_def aligned_def
  by (rule dvd_trans [of _ 8]) (auto simp: blocks_ok_def intro: blocks_from_dvd)

lemma blocks_from_apart:
  "(b, z) \<in> set (blocks_from k zs) \<Longrightarrow> (c, y) \<in> set (blocks_from k zs) \<Longrightarrow> b \<noteq> c \<Longrightarrow>
    b + z \<le> c \<or> c + y \<le> b"
proof (induction zs arbitrary: k)
  case (Cons x zs)
  let ?r = "blocks_from (k + 24 + x) zs"
  consider "(b, z) \<in> set ?r" "(c, y) \<in> set ?r" | "b = k + 24" "z = x" "(c, y) \<in> set ?r"
    | "c = k + 24" "y = x" "(b, z) \<in> set ?r"
    using Cons.prems by auto
  then show ?case
  proof cases
    case 1
    then show ?thesis using Cons.IH Cons.prems(3) by blast
  next
    case 2
    then show ?thesis using blocks_from_bounds [of c y "k + 24 + x" zs] by simp
  next
    case 3
    then show ?thesis using blocks_from_bounds [of b z "k + 24 + x" zs] by simp
  qed
qed simp

lemma node_sep: "blocks_ok zs \<Longrightarrow> node zs a \<Longrightarrow> node zs b \<Longrightarrow> a \<noteq> b \<Longrightarrow> sep a b"
  using node_aligned [of zs a] node_aligned [of zs b]
    blocks_from_apart [of "unat a" 16 0 zs "unat b" 16]
    blocks_from_bounds [of "unat a" 16 0 zs] blocks_from_bounds [of "unat b" 16 0 zs]
  by (auto simp: node_def sep_def blocks_ok_def word_unat_eq_iff)

lemma node_nonzero: "node zs a \<Longrightarrow> a \<noteq> 0"
  using blocks_from_bounds [of "unat a" 16 0 zs] by (auto simp: node_def)

text \<open>Address 8, which a null pointer's \<^verbatim>\<open>prev\<close> is, lies in the heap's first header.\<close>

lemma node_sep_null: "blocks_ok zs \<Longrightarrow> node zs a \<Longrightarrow> sep 0 a"
  using node_aligned [of zs a] blocks_from_bounds [of "unat a" 16 0 zs]
  by (auto simp: node_def sep_def blocks_ok_def)

text \<open>The elements \<open>ns\<close> with the data \<open>xs\<close>, linked both ways.\<close>

definition linked :: "mem \<Rightarrow> ptr list \<Rightarrow> u32 list \<Rightarrow> bool" where
  "linked m ns xs \<longleftrightarrow> length ns = length xs \<and> (\<forall>i < length ns. ld32 m (ns ! i) = xs ! i \<and>
     ld32 m (ns ! i + 4) = (if i + 1 < length ns then ns ! (i + 1) else 0) \<and>
     ld32 m (ns ! i + 8) = (if i = 0 then 0 else ns ! (i - 1)))"

definition list_at :: "mem \<Rightarrow> nat list \<Rightarrow> ptr \<Rightarrow> ptr list \<Rightarrow> u32 list \<Rightarrow> bool" where
  "list_at m zs l ns xs \<longleftrightarrow> (\<forall>a \<in> set (l # ns). node zs a) \<and> distinct (l # ns) \<and>
     ld32 m l = of_nat (length xs) \<and> ld32 m (l + 4) = (if ns = [] then 0 else hd ns) \<and>
     (ns \<noteq> [] \<longrightarrow> ld32 m (l + 8) = last ns) \<and> linked m ns xs"

text \<open>\<open>kept zs as m m'\<close>: the nodes other than \<open>as\<close> read the same in both memories.\<close>

definition kept :: "nat list \<Rightarrow> ptr set \<Rightarrow> mem \<Rightarrow> mem \<Rightarrow> bool" where
  "kept zs as m m' \<longleftrightarrow> (\<forall>a k. node zs a \<and> a \<notin> as \<and> unat k < 16 \<and> aligned k \<longrightarrow>
     ld32 m' (a + k) = ld32 m (a + k))"

lemma kept_read:
  assumes "kept zs as m m'" and "node zs a" and "a \<notin> as"
  shows "ld32 m' a = ld32 m a" "ld32 m' (a + 4) = ld32 m (a + 4)" "ld32 m' (a + 8) = ld32 m (a + 8)"
proof -
  have r: "ld32 m' (a + k) = ld32 m (a + k)" if "unat k < 16" "aligned k" for k
    using assms that by (simp add: kept_def)
  from r [of 0] r [of 4] r [of 8] show "ld32 m' a = ld32 m a" "ld32 m' (a + 4) = ld32 m (a + 4)"
    "ld32 m' (a + 8) = ld32 m (a + 8)" by simp_all
qed

lemma linked_kept:
  assumes "kept zs as m m'" and "\<forall>a \<in> set ns. node zs a \<and> a \<notin> as" and "linked m ns xs"
  shows "linked m' ns xs"
  using assms(2,3) kept_read [OF assms(1)] by (auto simp: linked_def)

lemma list_at_kept:
  assumes "kept zs as m m'" and "list_at m zs l ns xs" and "set (l # ns) \<inter> as = {}"
  shows "list_at m' zs l ns xs"
proof -
  have n: "\<forall>a \<in> set (l # ns). node zs a \<and> a \<notin> as"
    using assms(2,3) by (auto simp: list_at_def)
  then have "linked m' ns xs"
    using assms(2) by (intro linked_kept [OF assms(1)]) (auto simp: list_at_def)
  then show ?thesis
    using n assms(2) kept_read [OF assms(1), of l] by (auto simp: list_at_def)
qed

lemma kept_trans: "kept zs as m m' \<Longrightarrow> kept zs bs m' m'' \<Longrightarrow> kept zs (as \<union> bs) m m''"
  by (auto simp: kept_def)

lemma kept_mono: "kept zs as m m' \<Longrightarrow> as \<subseteq> bs \<Longrightarrow> kept zs bs m m'"
  by (auto simp: kept_def)

lemma kept_refl: "kept zs as m m"
  by (simp add: kept_def)

text \<open>Writing a field of a node keeps the other nodes, the heap and what is outside it.\<close>

lemma kept_st32:
  assumes "blocks_ok zs" and "node zs a \<or> a = 0" and "unat k < 16" and "aligned k"
  shows "kept zs {a} m (st32 (a + k) v m)"
  using assms node_sep node_sep_null by (auto simp: kept_def intro!: ld32_sep_fields)

lemma heap_ok_low:
  assumes "heap_ok s zs lim" and "\<And>x. heap_end zs \<le> unat x \<Longrightarrow> kmem s' x = kmem s x"
    and "firstFreeSegment s' = firstFreeSegment s"
  shows "heap_ok s' zs lim"
proof -
  let ?e = "of_nat (heap_end zs) :: ptr"
  have e: "unat ?e = heap_end zs" "heap_end zs + 24 \<le> lim" "lim \<le> 0x80000000"
    using assms(1) by (auto simp: heap_ok_def unat_of_nat)
  have "ld32 (kmem s') (?e + k) = ld32 (kmem s) (?e + k)" if "unat k \<le> 20" for k
  proof (rule ld32_cong)
    fix j :: u32 assume "unat j < 4"
    with that e have "unat (?e + k + j) = heap_end zs + unat k + unat j"
      by (simp add: unat_plus_small)
    then show "kmem s' (?e + k + j) = kmem s (?e + k + j)" by (intro assms(2)) simp
  qed
  from this [of 0] this [of 4] this [of 8] this [of 12] this [of 16] this [of 20]
  have "header (kmem s') ?e l nx pv nf pf fr = header (kmem s) ?e l nx pv nf pf fr" for l nx pv nf pf fr
    by (simp add: header_def)
  then show ?thesis
    using assms by (simp add: heap_ok_def inside_def del: of_nat_diff of_nat_add)
qed

lemma node_end: "node zs a \<Longrightarrow> unat a + 16 \<le> heap_end zs"
  using blocks_from_bounds [of "unat a" 16 0 zs] by (simp add: node_def)

lemma st32_low:
  assumes "unat a + 16 \<le> k" and "k \<le> 4294967296" and "unat j \<le> 12" and "k \<le> unat x"
  shows "st32 (a + j) v m x = m x"
proof -
  have "unat (a + j) = unat a + unat j" using assms by (simp add: unat_plus_small)
  then show ?thesis using assms by (intro st32_frame) simp_all
qed

section \<open>What the operations do to a list\<close>

text \<open>
  A node from the heap: zero, apart from all nodes in use, which keep their contents. \<open>room lim s\<close>
  says that a node and the next header still fit.
\<close>

definition room :: "nat \<Rightarrow> kstate \<Rightarrow> bool" where
  "room lim s \<longleftrightarrow> unat (firstFreeSegment s) + 64 \<le> lim"

lemma malloc_node16:
  assumes h: "heap_ok s zs lim" and r: "room lim s" and sz: "sz = 12 \<or> sz = 16"
  obtains m e where "malloc vp sz s = ret e (s\<lparr>kmem := m, firstFreeSegment := firstFreeSegment s + 40\<rparr>)"
    and "heap_ok (s\<lparr>kmem := m, firstFreeSegment := firstFreeSegment s + 40\<rparr>) (zs @ [16]) lim"
    and "node (zs @ [16]) e" and "\<not> node zs e" and "kept zs {} (kmem s) m"
    and "ld32 m e = 0" "ld32 m (e + 4) = 0" "ld32 m (e + 8) = 0" "ld32 m (e + 12) = 0"
    and "\<And>x. lim \<le> unat x \<Longrightarrow> m x = kmem s x"
proof -
  have f: "firstFreeSegment s = of_nat (heap_end zs)" and b: "heap_end zs + 24 \<le> lim" "lim \<le> 0x80000000"
    using h by (simp_all add: heap_ok_def)
  have u: "unat (firstFreeSegment s) = heap_end zs"
    using b unfolding f by (simp only: unat_of_nat) simp
  let ?e = "of_nat (heap_end zs + 24) :: ptr"
  have ue: "unat ?e = heap_end zs + 24" using b by (simp only: unat_of_nat) simp
  obtain m where m: "malloc vp sz s = ret ?e (s\<lparr>kmem := m, firstFreeSegment := of_nat (heap_end zs + 24 + 16)\<rparr>)"
    and ok: "heap_ok (s\<lparr>kmem := m, firstFreeSegment := of_nat (heap_end zs + 24 + 16)\<rparr>) (zs @ [16]) lim"
    and k: "\<And>b z x. (b, z) \<in> set (blocks (zs @ [16])) \<Longrightarrow> inside b z x \<Longrightarrow> m x = kmem s x"
    and o: "\<And>x. lim \<le> unat x \<Longrightarrow> m x = kmem s x"
    by (rule malloc_carves [OF h, where sz = sz and r = 16 and vp = vp])
      (use r u sz in \<open>auto simp: room_def\<close>)
  have g: "of_nat (heap_end zs + 24 + 16) = firstFreeSegment s + 40" by (simp add: f)
  have keep: "ld32 m (a + j) = ld32 (kmem s) (a + j)"
    if "(unat a, 16) \<in> set (blocks (zs @ [16]))" "unat j < 16" "aligned j" for a j
  proof (rule ld32_cong)
    fix i :: u32 assume i: "unat i < 4"
    have "unat a + 16 \<le> heap_end zs + 40"
      using blocks_from_bounds [OF that(1)] by simp
    moreover have "unat j + 4 \<le> 16"
      using that(2,3) unfolding aligned_def by presburger
    ultimately have "unat (a + j + i) = unat a + unat j + unat i" and "unat j + unat i < 16"
      using i b r u by (simp_all add: unat_plus_small room_def)
    then show "m (a + j + i) = kmem s (a + j + i)"
      by (intro k [OF that(1)]) (simp add: inside_def)
  qed
  have en: "(unat ?e, 16) \<in> set (blocks (zs @ [16]))" by (simp add: blocks_append ue del: of_nat_add)
  have z: "ld32 (kmem s) (?e + j) = 0" if "unat j \<le> 12" for j
  proof -
    have "kmem s (?e + j + i) = 0" if "unat i < 4" for i
    proof -
      have "unat (?e + j + i) = heap_end zs + 24 + unat j + unat i"
        using \<open>unat j \<le> 12\<close> that b ue by (simp add: unat_plus_small del: of_nat_add)
      then show ?thesis
        using h r u \<open>unat j \<le> 12\<close> that by (simp add: heap_ok_def inside_def room_def)
    qed
    from this [of 0] this [of 1] this [of 2] this [of 3] show ?thesis by (simp add: ld32_def)
  qed
  show ?thesis
  proof (rule that [of ?e m])
    show "\<not> node zs ?e"
      using node_end [of zs ?e] ue by (auto simp del: of_nat_add)
    show "kept zs {} (kmem s) m"
      using keep by (auto simp: kept_def node_def blocks_append)
    show "ld32 m ?e = 0" "ld32 m (?e + 4) = 0" "ld32 m (?e + 8) = 0" "ld32 m (?e + 12) = 0"
      using keep [OF en, of 0] keep [OF en, of 4] keep [OF en, of 8] keep [OF en, of 12]
        z [of 0] z [of 4] z [of 8] z [of 12]
      by (simp_all del: of_nat_add)
  qed (use m ok en o in \<open>simp_all only: g node_def\<close>)
qed

lemma malloc_node:
  assumes h: "heap_ok s zs lim" and r: "room lim s"
  obtains m e where "malloc vp 12 s = ret e (s\<lparr>kmem := m, firstFreeSegment := firstFreeSegment s + 40\<rparr>)"
    and "heap_ok (s\<lparr>kmem := m, firstFreeSegment := firstFreeSegment s + 40\<rparr>) (zs @ [16]) lim"
    and "node (zs @ [16]) e" and "\<not> node zs e" and "kept zs {} (kmem s) m"
    and "ld32 m e = 0" "ld32 m (e + 4) = 0" "ld32 m (e + 8) = 0"
    and "\<And>x. lim \<le> unat x \<Longrightarrow> m x = kmem s x"
  by (rule malloc_node16 [OF h r, where sz = 12 and vp = vp]) (simp, rule that)

lemma linked_snoc:
  assumes "linked m ns xs" and "ns \<noteq> []" and "distinct ns"
    and "\<And>a. a \<in> set ns \<Longrightarrow> ld32 m' a = ld32 m a \<and> ld32 m' (a + 8) = ld32 m (a + 8) \<and>
      (a \<noteq> last ns \<longrightarrow> ld32 m' (a + 4) = ld32 m (a + 4))"
    and "ld32 m' (last ns + 4) = e" and "ld32 m' e = d" "ld32 m' (e + 4) = 0" "ld32 m' (e + 8) = last ns"
  shows "linked m' (ns @ [e]) (xs @ [d])"
proof -
  have l: "length ns = length xs" using assms(1) by (simp add: linked_def)
  have "ld32 m' ((ns @ [e]) ! i) = (xs @ [d]) ! i \<and>
      ld32 m' ((ns @ [e]) ! i + 4) = (if i + 1 < length (ns @ [e]) then (ns @ [e]) ! (i + 1) else 0) \<and>
      ld32 m' ((ns @ [e]) ! i + 8) = (if i = 0 then 0 else (ns @ [e]) ! (i - 1))"
    if i: "i < length (ns @ [e])" for i
  proof (cases "i < length ns")
    case True
    then have a: "ns ! i \<in> set ns" by simp
    note old = assms(1) [unfolded linked_def, THEN conjunct2, rule_format, OF True]
    have x: "ld32 m' (ns ! i) = xs ! i" "ld32 m' (ns ! i + 8) = (if i = 0 then 0 else ns ! (i - 1))"
      using old assms(4) [OF a] by simp_all
    have "ld32 m' (ns ! i + 4) = (ns @ [e]) ! (i + 1)"
    proof (cases "i + 1 < length ns")
      case True
      have "ns ! i \<noteq> last ns"
        using True assms(2,3) by (simp add: last_conv_nth nth_eq_iff_index_eq)
      then show ?thesis using old assms(4) [OF a] True by (simp add: nth_append)
    next
      case False
      then have "i = length ns - 1" using True by simp
      then have "ns ! i = last ns" "i + 1 = length ns"
        using assms(2) True by (simp_all add: last_conv_nth)
      then show ?thesis using assms(5) by simp
    qed
    then show ?thesis using x True l by (auto simp: nth_append)
  next
    case False
    then have "i = length ns" using i by simp
    moreover have "xs \<noteq> []" using assms(2) l by auto
    ultimately show ?thesis using assms(2,6-8) l by (simp add: nth_append last_conv_nth)
  qed
  then show ?thesis by (simp add: linked_def l)
qed

lemma node_snoc: "node zs a \<Longrightarrow> node (zs @ [16]) a"
  by (simp add: node_def blocks_append)

lemma list_at_snoc:
  assumes "list_at m zs l ns xs"
  shows "list_at m (zs @ [16]) l ns xs"
  using assms node_snoc by (auto simp: list_at_def)

text \<open>\<open>apart_writes\<close>: what the writes of an operation may touch below the end of the heap.\<close>

lemma heap_ok_same_end:
  assumes "heap_ok s zs lim" and "\<And>x. heap_end zs \<le> unat x \<Longrightarrow> m x = kmem s x"
  shows "heap_ok (s\<lparr>kmem := m\<rparr>) zs lim"
  by (rule heap_ok_low [OF assms(1)]) (simp_all add: assms(2))

lemma length_blocks [simp]: "length (blocks_from k zs) = length zs"
  by (induction zs arbitrary: k) simp_all

lemma heap_end_length: "24 * length zs \<le> heap_end zs"
  by (induction zs) simp_all

lemma nodes_length_bound:
  assumes "blocks_ok zs" and "distinct ns" and "\<forall>a \<in> set ns. node zs a"
  shows "length ns < 4294967296"
proof -
  have "length ns = card (unat ` set ns)"
    using assms(2) by (simp add: card_image inj_on_def word_unat_eq_iff distinct_card)
  also have "\<dots> \<le> card (set (map fst (blocks zs)))"
    using assms(3) by (intro card_mono) (force simp: node_def)+
  also have "\<dots> \<le> length zs" using card_length [of "map fst (blocks zs)"] by simp
  also have "\<dots> < 4294967296"
    using heap_end_length [of zs] assms(1) by (simp add: blocks_ok_def)
  finally show ?thesis .
qed

lemma list_length_bound:
  assumes "blocks_ok zs" and "list_at m zs l ns xs"
  shows "length xs < 4294967296"
  using nodes_length_bound [OF assms(1), of ns] assms(2) by (auto simp: list_at_def linked_def)

text \<open>The memory that \<^verbatim>\<open>append\<close> leaves: the list \<open>l\<close> of the \<open>n\<close> elements \<open>ns\<close>, the new element \<open>e\<close>.\<close>

definition appended :: "mem \<Rightarrow> ptr \<Rightarrow> ptr list \<Rightarrow> nat \<Rightarrow> ptr \<Rightarrow> u32 \<Rightarrow> mem" where
  "appended m l ns n e d = (if ns = [] then st32 l 1 (st32 (e + 4) 0 (st32 (e + 8) 0 (st32 (l + 8) e (st32 (l + 4) e (st32 e d m)))))
    else st32 l (of_nat n + 1) (st32 (last ns + 4) e (st32 (l + 8) e (st32 (e + 8) (last ns) (st32 e d m)))))"

text \<open>List, elements and new element lie apart.\<close>

lemma append_seps:
  assumes "blocks_ok (zs @ [16])" and "list_at m zs l ns xs" and "node (zs @ [16]) e" "\<not> node zs e"
  shows "a \<in> set (l # ns) \<Longrightarrow> sep a e \<and> sep e a" and "a \<in> set ns \<Longrightarrow> sep l a \<and> sep a l"
    and "a \<in> set ns \<Longrightarrow> b \<in> set ns \<Longrightarrow> a \<noteq> b \<Longrightarrow> sep a b"
    and "node zs a \<Longrightarrow> a \<notin> set (l # ns) \<Longrightarrow> b \<in> set (l # e # ns) \<Longrightarrow> sep b a"
    and "a \<in> set (l # e # ns) \<Longrightarrow> node (zs @ [16]) a \<and> aligned a"
proof -
  have nn: "\<forall>a \<in> set (l # ns). node zs a \<and> node (zs @ [16]) a \<and> a \<noteq> e" and lns: "l \<notin> set ns"
    using assms(2-4) node_snoc by (auto simp: list_at_def)
  note sep = node_sep [OF assms(1)]
  show "a \<in> set (l # ns) \<Longrightarrow> sep a e \<and> sep e a"
    using sep [OF _ assms(3)] nn sep_sym by blast
  show "a \<in> set ns \<Longrightarrow> sep l a \<and> sep a l"
    using sep [of l a] nn lns sep_sym by auto
  show "a \<in> set ns \<Longrightarrow> b \<in> set ns \<Longrightarrow> a \<noteq> b \<Longrightarrow> sep a b"
    by (rule sep) (use nn in auto)
  show "node zs a \<Longrightarrow> a \<notin> set (l # ns) \<Longrightarrow> b \<in> set (l # e # ns) \<Longrightarrow> sep b a"
    by (rule sep) (use nn assms(3,4) node_snoc in auto)
  show "a \<in> set (l # e # ns) \<Longrightarrow> node (zs @ [16]) a \<and> aligned a"
    using nn assms(3) node_aligned [OF assms(1)] by auto
qed

lemma appended_kept:
  assumes "blocks_ok (zs @ [16])" and "list_at m zs l ns xs" and "node (zs @ [16]) e" "\<not> node zs e"
  shows "kept zs (set (l # ns)) m (appended m l ns n e d)"
  unfolding kept_def
proof (intro allI impI, elim conjE)
  fix a k assume a: "node zs a" "a \<notin> set (l # ns)" "unat k < 16" "aligned k"
  note sep = append_seps(4) [OF assms a(1,2)]
  have "sep (last ns) a" if "ns \<noteq> []" using sep [of "last ns"] that by simp
  then show "ld32 (appended m l ns n e d) (a + k) = ld32 m (a + k)"
    using sep [of l] sep [of e] a(3,4) by (simp add: appended_def)
qed

lemma appended_low:
  assumes "blocks_ok (zs @ [16])" and "list_at m zs l ns xs" and "node (zs @ [16]) e" "\<not> node zs e"
    and x: "heap_end (zs @ [16]) \<le> unat x"
  shows "appended m l ns n e d x = m x"
proof -
  have st: "st32 (a + j) v m' x = m' x" if "a \<in> set (l # e # ns)" "unat j \<le> 12" for a j v m'
    by (rule st32_low [OF node_end _ that(2) x])
      (use append_seps(5) [OF assms(1-4) that(1)] assms(1) in \<open>auto simp: blocks_ok_def\<close>)
  have st0: "st32 a v m' x = m' x" if "a \<in> set (l # e # ns)" for a v m'
    using st [OF that, of 0] by simp
  show ?thesis using st st0 by (simp add: appended_def)
qed

lemma appended_list:
  assumes bo: "blocks_ok (zs @ [16])" and l: "list_at m zs l ns xs" and ne: "node (zs @ [16]) e" "\<not> node zs e"
    and z: "ld32 m (e + 4) = 0" "ld32 m (e + 8) = 0"
  shows "list_at (appended m l ns (length xs) e d) (zs @ [16]) l (ns @ [e]) (xs @ [d])"
proof -
  note seps = append_seps [OF assms(1-4)]
  have nn: "\<forall>a \<in> set (l # ns). node (zs @ [16]) a \<and> a \<noteq> e" using l ne node_snoc by (auto simp: list_at_def)
  have al: "aligned e" "aligned l" "\<And>a. a \<in> set ns \<Longrightarrow> aligned a" using seps(5) by auto
  have dl: "distinct ns" "length ns = length xs" "linked m ns xs" using l by (auto simp: list_at_def linked_def)
  let ?m = "appended m l ns (length xs) e d"
  show ?thesis
  proof (cases "ns = []")
    case True
    then have "xs = []" using dl(2) by simp
    with True show ?thesis
      using seps(1) [of l] al nn ne by (simp add: list_at_def linked_def appended_def)
  next
    case False
    note t = last_in_set [OF False]
    have "linked ?m (ns @ [e]) (xs @ [d])"
    proof (rule linked_snoc [OF dl(3) False dl(1)])
      show "ld32 ?m (last ns + 4) = e" "ld32 ?m e = d" "ld32 ?m (e + 4) = 0" "ld32 ?m (e + 8) = last ns"
        using False seps(1) [of l] seps(1) [of "last ns"] seps(2) [OF t] al t z by (simp_all add: appended_def)
      fix a assume a: "a \<in> set ns"
      show "ld32 ?m a = ld32 m a \<and> ld32 ?m (a + 8) = ld32 m (a + 8) \<and>
          (a \<noteq> last ns \<longrightarrow> ld32 ?m (a + 4) = ld32 m (a + 4))"
        using False seps(1) [of a] seps(2) [OF a] seps(3) [OF t a] al a
        by (cases "a = last ns") (simp_all add: appended_def)
    qed
    moreover have "ld32 ?m l = of_nat (length (xs @ [d]))" "ld32 ?m (l + 4) = hd (ns @ [e])" "ld32 ?m (l + 8) = last (ns @ [e])"
      using False seps(1) [of l] seps(2) [OF t] al l by (simp_all add: appended_def list_at_def)
    ultimately show ?thesis
      using False l nn ne by (auto simp: list_at_def)
  qed
qed

lemma append_stores:
  assumes bo: "blocks_ok (zs @ [16])" and l: "list_at (kmem s1) zs l ns xs" and ne: "node (zs @ [16]) e" "\<not> node zs e"
    and m: "malloc vp 12 s = ret e s1" and len: "length xs < 4294967296"
  shows "append vp l d s = ret () (s1\<lparr>kmem := appended (kmem s1) l ns (length xs) e d\<rparr>)"
proof -
  note seps = append_seps [OF assms(1-4)]
  have al: "aligned e" "aligned l" using seps(5) by auto
  have sz: "rd s1 l = of_nat (length xs)" "length ns = length xs" using l by (auto simp: list_at_def linked_def)
  have "unat (of_nat (length xs) :: u32) = length xs" using len by (simp only: unat_of_nat) simp
  then have "(of_nat (length xs) :: u32) = 0 \<longleftrightarrow> xs = []" by (metis length_0_conv unat_eq_0)
  then have "rd s1 l = 0 \<longleftrightarrow> ns = []" using sz by auto
  then show ?thesis using m seps(1) [of l] seps(1) [of "last ns"] seps(2) [of "last ns"] al sz l
    by (cases "ns = []") (simp_all add: append_def sizeof_list_elem_def is_empty_def Let_def appended_def list_at_def)
qed

lemma append_result:
  assumes h: "heap_ok s zs lim" and r: "room lim s" and l: "list_at (kmem s) zs l ns xs"
  obtains m e where "append vp l d s = ret () (s\<lparr>kmem := m, firstFreeSegment := firstFreeSegment s + 40\<rparr>)"
    and "heap_ok (s\<lparr>kmem := m, firstFreeSegment := firstFreeSegment s + 40\<rparr>) (zs @ [16]) lim"
    and "list_at m (zs @ [16]) l (ns @ [e]) (xs @ [d])"
    and "kept zs (set (l # ns)) (kmem s) m" and "\<And>x. lim \<le> unat x \<Longrightarrow> m x = kmem s x" and "\<not> node zs e"
proof -
  obtain m1 e where m1: "malloc vp 12 s = ret e (s\<lparr>kmem := m1, firstFreeSegment := firstFreeSegment s + 40\<rparr>)"
    and h1: "heap_ok (s\<lparr>kmem := m1, firstFreeSegment := firstFreeSegment s + 40\<rparr>) (zs @ [16]) lim"
    and ne: "node (zs @ [16]) e" "\<not> node zs e" and k1: "kept zs {} (kmem s) m1"
    and z: "ld32 m1 (e + 4) = 0" "ld32 m1 (e + 8) = 0"
    and o1: "\<And>x. lim \<le> unat x \<Longrightarrow> m1 x = kmem s x"
    by (rule malloc_node [OF h r, where vp = vp]) (rule that)
  have l1: "list_at m1 zs l ns xs" by (rule list_at_kept [OF k1 l]) simp
  note app = heap_ok_blocks_ok [OF h1] l1 ne
  let ?s = "s\<lparr>kmem := m1, firstFreeSegment := firstFreeSegment s + 40\<rparr>" and ?m = "appended m1 l ns (length xs) e d"
  have e: "?s\<lparr>kmem := ?m\<rparr> = s\<lparr>kmem := ?m, firstFreeSegment := firstFreeSegment s + 40\<rparr>" by simp
  have low: "?m x = m1 x" if "heap_end (zs @ [16]) \<le> unat x" for x by (rule appended_low [OF app that])
  show ?thesis
  proof (rule that [of ?m e])
    show "append vp l d s = ret () (s\<lparr>kmem := ?m, firstFreeSegment := firstFreeSegment s + 40\<rparr>)"
      using append_stores [of zs ?s l ns xs e vp s d] app m1 list_length_bound [OF heap_ok_blocks_ok [OF h] l] by simp
    show "heap_ok (s\<lparr>kmem := ?m, firstFreeSegment := firstFreeSegment s + 40\<rparr>) (zs @ [16]) lim"
      unfolding e [symmetric] by (rule heap_ok_same_end [OF h1]) (simp add: low del: heap_end_simps)
    show "list_at ?m (zs @ [16]) l (ns @ [e]) (xs @ [d])" by (rule appended_list [OF app z])
    show "kept zs (set (l # ns)) (kmem s) ?m" using k1 appended_kept [OF app] by (simp add: kept_def)
    show "?m x = kmem s x" if "lim \<le> unat x" for x
    proof -
      have "heap_end (zs @ [16]) \<le> unat x" using h1 that by (simp add: heap_ok_def del: heap_end_simps)
      then show ?thesis using low o1 [OF that] by simp
    qed
  qed (rule ne(2))
qed

lemma linked_tail:
  assumes "linked m (n # ns) (x # xs)" and "distinct ns"
    and "\<And>a. a \<in> set ns \<Longrightarrow> ld32 m' a = ld32 m a \<and> ld32 m' (a + 4) = ld32 m (a + 4) \<and>
      ld32 m' (a + 8) = (if a = hd ns then 0 else ld32 m (a + 8))"
  shows "linked m' ns xs"
proof -
  have l: "length ns = length xs" using assms(1) by (simp add: linked_def)
  have "ld32 m' (ns ! i) = xs ! i \<and> ld32 m' (ns ! i + 4) = (if i + 1 < length ns then ns ! (i + 1) else 0) \<and>
      ld32 m' (ns ! i + 8) = (if i = 0 then 0 else ns ! (i - 1))" if i: "i < length ns" for i
  proof -
    have a: "ns ! i \<in> set ns" using i by simp
    have h: "ns ! i = hd ns \<longleftrightarrow> i = 0"
    proof -
      have "ns \<noteq> []" using i by auto
      then show ?thesis using i assms(2) nth_eq_iff_index_eq [of ns i 0] by (simp add: hd_conv_nth)
    qed
    have "Suc i < length (n # ns)" using i by simp
    note old = assms(1) [unfolded linked_def, THEN conjunct2, rule_format, OF this]
    from old assms(3) [OF a] h i show ?thesis by (cases i) simp_all
  qed
  then show ?thesis by (simp add: linked_def l)
qed

text \<open>
  The memory that \<^verbatim>\<open>pop\<close> leaves of a list whose elements behind the first are \<open>ns\<close>; the previous link of
  the new head, or the word at address 8 when there is none, becomes null.
\<close>

abbreviation head_of :: "ptr list \<Rightarrow> ptr" where "head_of ns \<equiv> if ns = [] then 0 else hd ns"

definition popped :: "mem \<Rightarrow> ptr \<Rightarrow> ptr list \<Rightarrow> nat \<Rightarrow> mem" where
  "popped m l ns n = st32 l (of_nat n) (st32 (head_of ns + 8) 0 (st32 (l + 4) (head_of ns) m))"

lemma pop_seps:
  assumes bo: "blocks_ok zs" and l: "list_at m zs l (n # ns) xs"
  shows "node zs a \<Longrightarrow> a \<noteq> head_of ns \<Longrightarrow> sep (head_of ns) a" and "node zs a \<Longrightarrow> a \<noteq> l \<Longrightarrow> sep l a"
    and "sep (head_of ns) l" and "sep (head_of ns) n" and "aligned l" "aligned n" "aligned (head_of ns)"
    and "node zs l" "node zs n" "a \<in> set ns \<Longrightarrow> node zs a" "l \<noteq> n" "l \<notin> set ns" "n \<notin> set ns" "distinct ns"
proof -
  show nn: "node zs l" "node zs n" "\<And>a. a \<in> set ns \<Longrightarrow> node zs a" and dd: "l \<noteq> n" "l \<notin> set ns" "n \<notin> set ns" "distinct ns"
    using l by (auto simp: list_at_def)
  show "node zs a \<Longrightarrow> a \<noteq> l \<Longrightarrow> sep l a" by (rule node_sep [OF bo nn(1)]) auto
  have q: "sep (head_of ns) a" if "node zs a" "a \<noteq> head_of ns" for a
  proof (cases "ns = []")
    case True
    then show ?thesis using node_sep_null [OF bo that(1)] by simp
  next
    case False
    then have "node zs (hd ns)" using nn(3) by simp
    then show ?thesis using False node_sep [OF bo _ that(1)] that(2) by simp
  qed
  then show "node zs a \<Longrightarrow> a \<noteq> head_of ns \<Longrightarrow> sep (head_of ns) a" .
  show ql: "sep (head_of ns) l" "sep (head_of ns) n"
    by (rule q; use nn dd node_nonzero in \<open>cases ns; auto\<close>)+
  then show "aligned l" "aligned n" "aligned (head_of ns)" by (auto simp: sep_def)
qed

lemma linked_first:
  assumes "linked m (n # ns) (x # xs)"
  shows "ld32 m n = x" and "ld32 m (n + 4) = head_of ns"
proof -
  have "ld32 m n = x \<and> ld32 m (n + 4) = (if ns \<noteq> [] then (n # ns) ! 1 else 0)"
  proof (cases "ns = []")
    case True
    then show ?thesis using assms unfolding linked_def by (elim conjE allE [of _ 0]) simp
  next
    case False
    then have "xs \<noteq> []" using assms by (auto simp: linked_def)
    then show ?thesis using False assms unfolding linked_def by (elim conjE allE [of _ 0]) simp
  qed
  then show "ld32 m n = x" "ld32 m (n + 4) = head_of ns" by (simp_all add: hd_conv_nth)
qed

lemma pop_stores:
  assumes bo: "blocks_ok zs" and l: "list_at (kmem s) zs l (n # ns) (x # xs)"
  shows "pop l s = (x, s\<lparr>kmem := popped (kmem s) l ns (length xs)\<rparr>)"
proof -
  note seps = pop_seps [OF bo l]
  let ?q = "head_of ns"
  let ?m1 = "st32 (l + 4) ?q (kmem s)"
  let ?m2 = "st32 (?q + 8) 0 ?m1"
  have lk: "linked (kmem s) (n # ns) (x # xs)" and sz: "rd s l = of_nat (length xs) + 1" and hd: "rd s (l + 4) = n"
    using l by (simp_all add: list_at_def)
  have "(of_nat (length xs) + 1 :: u32) \<noteq> 0"
  proof -
    have "unat (of_nat (length (x # xs)) :: u32) = length (x # xs)"
      using list_length_bound [OF bo l] by (simp only: unat_of_nat) simp
    then have "unat (of_nat (length xs) + 1 :: u32) \<noteq> 0" by (simp add: add.commute)
    then show ?thesis by (metis unat_0)
  qed
  moreover have "ld32 ?m1 (l + 4) = ?q" by simp
  moreover have "ld32 ?m2 n = x" using seps(2) [OF seps(9)] seps(4,11) linked_first(1) [OF lk] by simp
  moreover have "ld32 ?m2 l = of_nat (length xs) + 1" using seps(3,5,7) sz by simp
  ultimately show ?thesis
    using linked_first(2) [OF lk] hd sz by (simp add: pop_def is_empty_def Let_def popped_def del: if_split)
qed

lemma popped_kept:
  assumes bo: "blocks_ok zs" and l: "list_at m zs l (n # ns) xs"
  shows "kept zs (set (l # n # ns)) m (popped m l ns k)"
  unfolding kept_def
proof (intro allI impI, elim conjE)
  fix a j assume a: "node zs a" "a \<notin> set (l # n # ns)" "unat j < 16" "aligned j"
  have "a \<noteq> head_of ns" using a(1,2) node_nonzero by (cases ns) auto
  then have "sep l a" "sep (head_of ns) a" using pop_seps(1,2) [OF bo l a(1)] a(2) by auto
  then show "ld32 (popped m l ns k) (a + j) = ld32 m (a + j)" using a(3,4) by (simp add: popped_def del: if_split)
qed

lemma popped_low:
  assumes bo: "blocks_ok zs" and l: "list_at m zs l (n # ns) xs" and y: "heap_end zs \<le> unat y"
  shows "popped m l ns k y = m y"
proof -
  note seps = pop_seps [OF bo l]
  have st: "st32 (a + j) v m' y = m' y" if "node zs a" "unat j \<le> 12" for a j v m'
    by (rule st32_low [OF node_end [OF that(1)] _ that(2) y]) (use bo in \<open>simp add: blocks_ok_def\<close>)
  have st0: "st32 a v m' y = m' y" if "node zs a" for a v m'
    using st [OF that, of 0] by simp
  have "st32 (head_of ns + 8) 0 m' y = m' y" for m'
  proof (cases "ns = []")
    case True
    then show ?thesis using node_end [OF seps(8)] y by (simp add: st32_frame)
  next
    case False
    then show ?thesis using seps(10) [of "hd ns"] st [of "hd ns" 8] by simp
  qed
  then show ?thesis using seps(8) st st0 by (simp add: popped_def del: if_split)
qed

lemma popped_list:
  assumes bo: "blocks_ok zs" and l: "list_at m zs l (n # ns) (x # xs)"
  shows "list_at (popped m l ns (length xs)) zs l ns xs"
proof -
  note seps = pop_seps [OF bo l]
  let ?m = "popped m l ns (length xs)"
  have "linked ?m ns xs"
  proof (rule linked_tail)
    show "linked m (n # ns) (x # xs)" using l by (simp add: list_at_def)
    fix a assume a: "a \<in> set ns"
    then have q: "head_of ns = hd ns" by auto
    note n = seps(10) [OF a]
    have "sep l a" using seps(2) [OF n] a seps(12) by auto
    then show "ld32 ?m a = ld32 m a \<and> ld32 ?m (a + 4) = ld32 m (a + 4) \<and>
        ld32 ?m (a + 8) = (if a = hd ns then 0 else ld32 m (a + 8))"
      using seps(1) [OF n] node_aligned [OF bo n] unfolding popped_def q by (cases "a = hd ns") simp_all
  qed (use seps in simp)
  moreover have "ld32 ?m l = of_nat (length xs)" "ld32 ?m (l + 4) = head_of ns"
    using seps(3,5) by (simp_all add: popped_def del: if_split)
  moreover have "ns \<noteq> [] \<longrightarrow> ld32 ?m (l + 8) = last ns"
    using seps(3,5) l by (auto simp: popped_def list_at_def simp del: if_split)
  ultimately show ?thesis using seps(8,10,12,14) by (auto simp: list_at_def)
qed

lemma pop_result:
  assumes h: "heap_ok s zs lim" and l: "list_at (kmem s) zs l (n # ns) (x # xs)"
  obtains m where "pop l s = (x, s\<lparr>kmem := m\<rparr>)" and "heap_ok (s\<lparr>kmem := m\<rparr>) zs lim"
    and "list_at m zs l ns xs" and "kept zs (set (l # n # ns)) (kmem s) m"
    and "\<And>x. lim \<le> unat x \<Longrightarrow> m x = kmem s x"
proof -
  note bo = heap_ok_blocks_ok [OF h]
  let ?m = "popped (kmem s) l ns (length xs)"
  have low: "?m y = kmem s y" if "heap_end zs \<le> unat y" for y by (rule popped_low [OF bo l that])
  have "?m y = kmem s y" if "lim \<le> unat y" for y
    using h that by (intro low) (simp add: heap_ok_def)
  with that pop_stores [OF bo l] heap_ok_same_end [OF h low] popped_list [OF bo l] popped_kept [OF bo l]
  show ?thesis by blast
qed

lemma pop_empty: "list_at (kmem s) zs l ns [] \<Longrightarrow> pop l s = (0, s)"
  by (simp add: pop_def is_empty_def list_at_def)

lemma list_init_result:
  assumes h: "heap_ok s zs lim" and r: "room lim s"
  obtains m l where "list_init vp s = ret l (s\<lparr>kmem := m, firstFreeSegment := firstFreeSegment s + 40\<rparr>)"
    and "heap_ok (s\<lparr>kmem := m, firstFreeSegment := firstFreeSegment s + 40\<rparr>) (zs @ [16]) lim"
    and "list_at m (zs @ [16]) l [] []" and "kept zs {} (kmem s) m" and "\<not> node zs l"
    and "\<And>x. lim \<le> unat x \<Longrightarrow> m x = kmem s x"
proof -
  obtain m1 e where m1: "malloc vp 12 s = ret e (s\<lparr>kmem := m1, firstFreeSegment := firstFreeSegment s + 40\<rparr>)"
    and h1: "heap_ok (s\<lparr>kmem := m1, firstFreeSegment := firstFreeSegment s + 40\<rparr>) (zs @ [16]) lim"
    and ne: "node (zs @ [16]) e" "\<not> node zs e" and k1: "kept zs {} (kmem s) m1"
    and z: "ld32 m1 e = 0" "ld32 m1 (e + 4) = 0" "ld32 m1 (e + 8) = 0"
    and o1: "\<And>x. lim \<le> unat x \<Longrightarrow> m1 x = kmem s x"
    by (rule malloc_node [OF h r, where vp = vp]) (rule that)
  have al: "aligned e" using node_aligned [OF heap_ok_blocks_ok [OF h1] ne(1)] .
  have same: "st32 (e + 4) 0 (st32 (e + 8) 0 (st32 e 0 m1)) = m1"
    using z by (simp add: st32_same_value)
  have "list_init vp s = ret e (s\<lparr>kmem := m1, firstFreeSegment := firstFreeSegment s + 40\<rparr>)"
    using m1 same by (simp add: list_init_def sizeof_list_def Let_def)
  moreover have "list_at m1 (zs @ [16]) e [] []" using z ne by (simp add: list_at_def linked_def)
  ultimately show ?thesis using that h1 k1 ne(2) o1 by blast
qed

section \<open>Queues\<close>

text \<open>
  The interface of a queue of bounded capacity, by what its operations do to the sequence it
  stands for, and its client's view: any script of operations gives the answers of a sequence.
\<close>

datatype 'a qop = Enq 'a | Deq

fun seq_queue :: "'a qop list \<Rightarrow> 'a list \<Rightarrow> 'a option list \<times> 'a list" where
  "seq_queue [] xs = ([], xs)"
| "seq_queue (Enq a # ops) xs = seq_queue ops (xs @ [a])"
| "seq_queue (Deq # ops) [] = (let (r, ys) = seq_queue ops [] in (None # r, ys))"
| "seq_queue (Deq # ops) (x # xs) = (let (r, ys) = seq_queue ops xs in (Some x # r, ys))"

fun run_queue ::
  "('a \<Rightarrow> 's \<Rightarrow> 's option) \<Rightarrow> ('s \<Rightarrow> 'a option \<times> 's) \<Rightarrow> 'a qop list \<Rightarrow> 's \<Rightarrow> ('a option list \<times> 's) option" where
  "run_queue enq deq [] s = Some ([], s)"
| "run_queue enq deq (Enq a # ops) s =
     (case enq a s of None \<Rightarrow> None | Some s \<Rightarrow> run_queue enq deq ops s)"
| "run_queue enq deq (Deq # ops) s =
     (let (x, s) = deq s in map_option (\<lambda>(r, s). (x # r, s)) (run_queue enq deq ops s))"

fun count_enq :: "'a qop list \<Rightarrow> nat" where
  "count_enq [] = 0"
| "count_enq (Enq a # ops) = Suc (count_enq ops)"
| "count_enq (Deq # ops) = count_enq ops"

locale queue =
  fixes enq :: "'a \<Rightarrow> 's \<Rightarrow> 's option"
    and deq :: "'s \<Rightarrow> 'a option \<times> 's"
    and rep :: "'s \<Rightarrow> 'a list \<Rightarrow> bool"
    and capacity :: "'s \<Rightarrow> nat"
  assumes enq_back: "rep s xs \<Longrightarrow> 0 < capacity s \<Longrightarrow>
      \<exists>s'. enq a s = Some s' \<and> rep s' (xs @ [a]) \<and> capacity s \<le> Suc (capacity s')"
    and deq_front: "rep s (x # xs) \<Longrightarrow> \<exists>s'. deq s = (Some x, s') \<and> rep s' xs \<and> capacity s \<le> capacity s'"
    and deq_empty: "rep s [] \<Longrightarrow> deq s = (None, s)"
begin

lemma script:
  "rep s xs \<Longrightarrow> count_enq ops \<le> capacity s \<Longrightarrow>
    \<exists>s'. run_queue enq deq ops s = Some (fst (seq_queue ops xs), s') \<and> rep s' (snd (seq_queue ops xs))"
proof (induction ops xs arbitrary: s rule: seq_queue.induct)
  case (2 a ops xs)
  then obtain s1 where "enq a s = Some s1" "rep s1 (xs @ [a])" "capacity s \<le> Suc (capacity s1)"
    using enq_back [of s xs a] by auto
  with 2 show ?case by (auto intro!: 2(1))
next
  case (3 ops)
  from 3(1) [OF 3(2)] 3(3) deq_empty [OF 3(2)] show ?case by (fastforce split: prod.splits)
next
  case (4 ops x xs)
  obtain s1 where s1: "deq s = (Some x, s1)" "rep s1 xs" "capacity s \<le> capacity s1"
    using deq_front [OF 4(2)] by blast
  from 4(1) [OF s1(2)] 4(3) s1 show ?case by (fastforce split: prod.splits)
qed simp

end

text \<open>A list of \<^verbatim>\<open>list.c\<close> at \<open>l\<close>, on the heap up to \<open>lim\<close>, as such a queue.\<close>

definition list_enq :: "nat \<Rightarrow> ptr \<Rightarrow> ptr \<Rightarrow> u32 \<Rightarrow> kstate \<Rightarrow> kstate option" where
  "list_enq lim vp l a s =
     (if room lim s then case append vp l a s of Inl _ \<Rightarrow> None | Inr (_, s') \<Rightarrow> Some s' else None)"

definition list_deq :: "ptr \<Rightarrow> kstate \<Rightarrow> u32 option \<times> kstate" where
  "list_deq l s = (if is_empty l s then (None, snd (pop l s)) else (Some (fst (pop l s)), snd (pop l s)))"

definition list_rep :: "nat \<Rightarrow> ptr \<Rightarrow> kstate \<Rightarrow> u32 list \<Rightarrow> bool" where
  "list_rep lim l s xs \<longleftrightarrow> (\<exists>zs ns. heap_ok s zs lim \<and> list_at (kmem s) zs l ns xs)"

definition list_capacity :: "nat \<Rightarrow> kstate \<Rightarrow> nat" where
  "list_capacity lim s = (lim - 24 - unat (firstFreeSegment s)) div 40"

lemma first_free_end: "heap_ok s zs lim \<Longrightarrow> unat (firstFreeSegment s) = heap_end zs"
  by (auto simp: heap_ok_def unat_of_nat)

lemma capacity_room: "0 < list_capacity lim s \<Longrightarrow> room lim s"
  by (auto simp: list_capacity_def room_def div_greater_zero_iff)

lemma capacity_step:
  assumes "heap_ok s zs lim" and "heap_ok s' (zs @ [16]) lim"
  shows "list_capacity lim s \<le> Suc (list_capacity lim s')"
proof -
  have "unat (firstFreeSegment s') = unat (firstFreeSegment s) + 40"
    using first_free_end [OF assms(1)] first_free_end [OF assms(2)] by simp
  moreover have "k div 40 \<le> Suc ((k - 40) div 40)" for k :: nat by (cases "k < 40") (simp_all add: le_div_geq)
  ultimately show ?thesis by (simp only: list_capacity_def diff_diff_left)
qed

interpretation lq: queue "list_enq lim vp l" "list_deq l" "list_rep lim l" "list_capacity lim" for lim vp l
proof unfold_locales
  fix s xs a
  assume "list_rep lim l s xs" and c: "0 < list_capacity lim s"
  then obtain zs ns where h: "heap_ok s zs lim" "list_at (kmem s) zs l ns xs"
    by (auto simp: list_rep_def)
  note r = capacity_room [OF c]
  obtain m e where m: "append vp l a s = ret () (s\<lparr>kmem := m, firstFreeSegment := firstFreeSegment s + 40\<rparr>)"
    "heap_ok (s\<lparr>kmem := m, firstFreeSegment := firstFreeSegment s + 40\<rparr>) (zs @ [16]) lim"
    "list_at m (zs @ [16]) l (ns @ [e]) (xs @ [a])"
    by (rule append_result [OF h(1) r h(2), where vp = vp and d = a]) (rule that)
  let ?s = "s\<lparr>kmem := m, firstFreeSegment := firstFreeSegment s + 40\<rparr>"
  have "list_rep lim l ?s (xs @ [a])" using m(2,3) by (auto simp: list_rep_def)
  moreover have "list_capacity lim s \<le> Suc (list_capacity lim ?s)" by (rule capacity_step [OF h(1) m(2)])
  ultimately show "\<exists>s'. list_enq lim vp l a s = Some s' \<and> list_rep lim l s' (xs @ [a]) \<and>
      list_capacity lim s \<le> Suc (list_capacity lim s')"
    using r m(1) by (auto simp: list_enq_def)
next
  fix s x xs
  assume "list_rep lim l s (x # xs)"
  then obtain zs ns where h: "heap_ok s zs lim" "list_at (kmem s) zs l ns (x # xs)"
    by (auto simp: list_rep_def)
  then obtain n ns' where ns: "ns = n # ns'" by (cases ns) (auto simp: list_at_def linked_def)
  obtain m where m: "pop l s = (x, s\<lparr>kmem := m\<rparr>)" "heap_ok (s\<lparr>kmem := m\<rparr>) zs lim" "list_at m zs l ns' xs"
    by (rule pop_result [OF h(1) h(2) [unfolded ns]]) (rule that)
  have "\<not> is_empty l s"
  proof -
    have "unat (of_nat (length (x # xs)) :: u32) = length (x # xs)"
      using list_length_bound [OF heap_ok_blocks_ok [OF h(1)] h(2)] by (simp only: unat_of_nat) simp
    then show ?thesis using h(2) by (auto simp: is_empty_def list_at_def)
  qed
  then show "\<exists>s'. list_deq l s = (Some x, s') \<and> list_rep lim l s' xs \<and> list_capacity lim s \<le> list_capacity lim s'"
    using m by (auto simp: list_deq_def list_rep_def list_capacity_def)
next
  fix s assume "list_rep lim l s []"
  then obtain zs ns where l: "list_at (kmem s) zs l ns []" by (auto simp: list_rep_def)
  then have "is_empty l s" by (simp add: is_empty_def list_at_def)
  then show "list_deq l s = (None, s)" by (simp add: list_deq_def pop_empty [OF l])
qed

text \<open>
  a list of \<^verbatim>\<open>list.c\<close> used through \<^verbatim>\<open>append\<close> and \<^verbatim>\<open>pop\<close> is a FIFO queue: every script of
  these operations for which the heap has room ends, gives the answers that a sequence gives, and
  leaves the list of what the sequence holds.
\<close>

theorem list_is_fifo:
  assumes "list_rep lim l s xs" and "count_enq ops \<le> list_capacity lim s"
  shows "\<exists>s'. run_queue (list_enq lim vp l) (list_deq l) ops s = Some (fst (seq_queue ops xs), s') \<and>
    list_rep lim l s' (snd (seq_queue ops xs))"
  by (rule lq.script [OF assms])

theorem list_is_fifo_witness:
  "\<exists>l s s'. list_init 0 heap_state = ret l s \<and>
     run_queue (list_enq 4096 0 l) (list_deq l) [Enq 7, Enq 9, Deq, Enq 11, Deq, Deq, Deq] s
       = Some ([Some 7, Some 9, Some 11, None], s')"
proof -
  have f: "firstFreeSegment heap_state = 0"
    by (simp add: heap_state_def initialiseHeap_def Let_def)
  then have "room 4096 heap_state" by (simp add: room_def)
  from list_init_result [OF heap_state_ok this, of 0] obtain m l where
    l: "list_init 0 heap_state = ret l (heap_state\<lparr>kmem := m, firstFreeSegment := firstFreeSegment heap_state + 40\<rparr>)"
    "heap_ok (heap_state\<lparr>kmem := m, firstFreeSegment := firstFreeSegment heap_state + 40\<rparr>) ([] @ [16]) 4096"
    "list_at m ([] @ [16]) l [] []" by blast
  let ?s = "heap_state\<lparr>kmem := m, firstFreeSegment := firstFreeSegment heap_state + 40\<rparr>"
  let ?ops = "[Enq 7, Enq 9, Deq, Enq 11, Deq, Deq, Deq]"
  have "list_rep 4096 l ?s []" unfolding list_rep_def using l(2,3) by (intro exI conjI) simp_all
  moreover have "count_enq ?ops \<le> list_capacity 4096 ?s" by (simp add: list_capacity_def f)
  ultimately have "\<exists>s'. run_queue (list_enq 4096 0 l) (list_deq l) ?ops ?s = Some (fst (seq_queue ?ops []), s') \<and>
      list_rep 4096 l s' (snd (seq_queue ?ops []))"
    by (rule list_is_fifo)
  then show ?thesis using l(1) by auto
qed

end
