(* ===== verification/Chains.thy ===== *)
theory Chains
  imports Lists
begin

text \<open>
  Removal from a doubly linked list, for the two layouts of the kernel: \<^verbatim>\<open>next\<close> is at the offset
  \<open>nx\<close> of an element and \<^verbatim>\<open>prev\<close> behind it (\<open>nx = 4\<close> in \<^verbatim>\<open>list.c\<close>, \<open>nx = 8\<close> in \<^verbatim>\<open>kv.c\<close>). The chain
  predicate, the removal of an element as the code writes it, and what it leaves; then \<^verbatim>\<open>remove\<close> of
  \<^verbatim>\<open>list.c\<close> as the removal of the first occurrence.
\<close>

section \<open>Chains\<close>

text \<open>The elements \<open>ns\<close> between the previous element \<open>p\<close> and the next one \<open>q\<close>.\<close>

fun chained :: "mem \<Rightarrow> u32 \<Rightarrow> ptr \<Rightarrow> ptr list \<Rightarrow> ptr \<Rightarrow> bool" where
  "chained m nx p [] q \<longleftrightarrow> True"
| "chained m nx p (a # ns) q \<longleftrightarrow>
     ld32 m (a + (nx + 4)) = p \<and> ld32 m (a + nx) = hd (ns @ [q]) \<and> chained m nx a ns q"

lemma chained_append:
  "chained m nx p (as @ bs) q \<longleftrightarrow> chained m nx p as (hd (bs @ [q])) \<and> chained m nx (last (p # as)) bs q"
  by (induction as arbitrary: p) auto

lemma chained_cong:
  assumes "chained m nx p ns q"
    and "\<And>a. a \<in> set ns \<Longrightarrow> ld32 m' (a + nx) = ld32 m (a + nx) \<and> ld32 m' (a + (nx + 4)) = ld32 m (a + (nx + 4))"
  shows "chained m' nx p ns q"
  using assms by (induction ns arbitrary: p) auto

lemma chained_nth:
  "chained m nx p ns q \<longleftrightarrow> (\<forall>i < length ns.
     ld32 m (ns ! i + nx) = (if i + 1 < length ns then ns ! (i + 1) else q) \<and>
     ld32 m (ns ! i + (nx + 4)) = (if i = 0 then p else ns ! (i - 1)))"
proof (induction ns arbitrary: p)
  case (Cons a ns)
  have "hd (ns @ [q]) = (if 0 < length ns then ns ! 0 else q)" by (cases ns) simp_all
  moreover have "(\<forall>i < length (a # ns). P i) \<longleftrightarrow> P 0 \<and> (\<forall>i < length ns. P (Suc i))" for P
    by (auto simp: less_Suc_eq_0_disj)
  moreover have "(if i = 0 then a else ns ! (i - 1)) = (a # ns) ! i" for i by (cases i) simp_all
  ultimately show ?case using Cons [of a] by (auto simp del: length_greater_0_conv)
qed simp

lemma linked_chained:
  "linked m ns xs \<longleftrightarrow> list_all2 (\<lambda>a x. ld32 m a = x) ns xs \<and> chained m 4 0 ns 0"
proof -
  have e: "(4 :: u32) + 4 = 8" by simp
  show ?thesis
    unfolding linked_def chained_nth list_all2_conv_all_nth e all_conj_distrib imp_conjR by (simp only: conj_assoc)
qed

section \<open>Removing an element\<close>

text \<open>
  The list struct has its size at 0, the head at 4 and the tail at 8. A missing neighbour is the
  null pointer, through which the code writes too.
\<close>

definition unchain :: "u32 \<Rightarrow> ptr \<Rightarrow> ptr \<Rightarrow> mem \<Rightarrow> mem" where
  "unchain nx l elem m =
     (let m = (if elem = ld32 m (l + 4)
            then let m = st32 (l + 4) (ld32 m (elem + nx)) m in st32 (ld32 m (l + 4) + (nx + 4)) 0 m
            else st32 (ld32 m (elem + (nx + 4)) + nx) (ld32 m (elem + nx)) m);
          m = (if elem = ld32 m (l + 8) then st32 (l + 8) (ld32 m (elem + (nx + 4))) m
               else st32 (ld32 m (elem + nx) + (nx + 4)) (ld32 m (elem + (nx + 4))) m)
      in st32 l (ld32 m l - 1) m)"

lemma unlink_unchain: "unlink l elem s = s\<lparr>kmem := unchain 4 l elem (kmem s)\<rparr>"
proof -
  have e: "(4 :: u32) + 4 = 8" by simp
  have k: "wr a v (s\<lparr>kmem := m\<rparr>) = s\<lparr>kmem := st32 a v m\<rparr>" for a v m
    by (cases s) simp
  have i: "(if b then s\<lparr>kmem := m\<rparr> else s\<lparr>kmem := m'\<rparr>) = s\<lparr>kmem := if b then m else m'\<rparr>" for b m m'
    by simp
  have s: "s = s\<lparr>kmem := kmem s\<rparr>" and m: "kmem (s\<lparr>kmem := m\<rparr>) = m" for m by simp_all
  show ?thesis
    by (subst s) (simp only: unlink_def unchain_def Let_def k i e m)
qed

definition holds_chain :: "mem \<Rightarrow> u32 \<Rightarrow> nat list \<Rightarrow> ptr \<Rightarrow> ptr list \<Rightarrow> bool" where
  "holds_chain m nx zs l ns \<longleftrightarrow> (\<forall>a \<in> set (l # ns). node zs a) \<and> distinct (l # ns) \<and>
     ld32 m l = of_nat (length ns) \<and> ld32 m (l + 4) = hd (ns @ [0]) \<and>
     (ns \<noteq> [] \<longrightarrow> ld32 m (l + 8) = last ns) \<and> chained m nx 0 ns 0"

lemma list_at_chain:
  "list_at m zs l ns xs \<longleftrightarrow> holds_chain m 4 zs l ns \<and> list_all2 (\<lambda>a x. ld32 m a = x) ns xs"
proof -
  have "(if ns = [] then 0 else hd ns) = hd (ns @ [0])" by (cases ns) simp_all
  moreover have "list_all2 (\<lambda>a x. ld32 m a = x) ns xs \<Longrightarrow> length xs = length ns"
    by (rule list_all2_lengthD [symmetric])
  ultimately show ?thesis by (auto simp: list_at_def holds_chain_def linked_chained)
qed

lemma holds_chain_kept:
  assumes "kept zs as m m'" and "holds_chain m nx zs l ns" and "set (l # ns) \<inter> as = {}" and "nx = 4 \<or> nx = 8"
  shows "holds_chain m' nx zs l ns"
proof -
  have n: "node zs a \<and> a \<notin> as" if "a \<in> set (l # ns)" for a
    using assms(2,3) that by (auto simp: holds_chain_def)
  have o: "unat nx < 16" "unat (nx + 4) < 16" "aligned nx" "aligned (nx + 4)" using assms(4) by auto
  have "chained m' nx 0 ns 0"
  proof (rule chained_cong)
    show "chained m nx 0 ns 0" using assms(2) by (simp add: holds_chain_def)
    fix a assume "a \<in> set ns"
    then have "node zs a" "a \<notin> as" using n by auto
    then show "ld32 m' (a + nx) = ld32 m (a + nx) \<and> ld32 m' (a + (nx + 4)) = ld32 m (a + (nx + 4))"
      using assms(1) o unfolding kept_def by blast
  qed
  then show ?thesis
    using n [of l] assms(2) kept_read [OF assms(1), of l] by (auto simp: holds_chain_def)
qed

lemma holds_chain_length:
  assumes "blocks_ok zs" and "holds_chain m nx zs l ns"
  shows "unat (ld32 m l) = length ns"
proof -
  have "length ns < 4294967296"
    by (rule nodes_length_bound [OF assms(1)]) (use assms(2) in \<open>auto simp: holds_chain_def\<close>)
  then have "unat (of_nat (length ns) :: u32) = length ns" by (simp only: unat_of_nat) simp
  then show ?thesis using assms(2) by (simp add: holds_chain_def)
qed

text \<open>The two words that the removal of \<open>e\<close> between \<open>p\<close> and \<open>q\<close> writes, besides the size.\<close>

lemma unchain_writes:
  assumes "holds_chain m nx zs l (as @ e # bs)" and "blocks_ok zs" and "nx = 4 \<or> nx = 8"
  defines "p \<equiv> last (0 # as)" and "q \<equiv> hd (bs @ [0])"
  shows "unchain nx l e m = st32 l (ld32 m l - 1)
    ((if bs = [] then st32 (l + 8) p else st32 (q + (nx + 4)) p)
    ((if as = [] then st32 (q + (nx + 4)) 0 \<circ> st32 (l + 4) q else st32 (p + nx) q) m))"
proof -
  have nn: "node zs l" "node zs e" "\<And>a. a \<in> set as \<union> set bs \<Longrightarrow> node zs a"
    and dd: "distinct (l # as @ e # bs)"
    and hl: "ld32 m (l + 4) = hd (as @ [e])" "ld32 m (l + 8) = last (e # bs)"
    and e: "ld32 m (e + nx) = q" "ld32 m (e + (nx + 4)) = p"
    using assms(1) unfolding p_def q_def
    by (auto simp: holds_chain_def chained_append hd_append)
  have sep: "sep a b" if "a \<in> {0, l, e} \<union> set as \<union> set bs" "b \<in> {l, e}" "a \<noteq> b" for a b
    using that nn node_sep [OF assms(2), of a b] node_sep_null [OF assms(2), of b] by auto
  have p: "p \<in> {0, l, e} \<union> set as \<union> set bs" "p \<noteq> e" "p \<noteq> l" if "as \<noteq> []"
    using that dd last_in_set [OF that] by (auto simp: p_def)
  have q: "q \<in> {0, l, e} \<union> set as \<union> set bs" "q \<noteq> e" "q \<noteq> l"
    using dd node_nonzero nn by (cases bs; auto simp: q_def)+
  have sq: "sep q e" "sep q l" using sep [OF q(1)] q(2,3) by auto
  have sp: "sep p e" "sep p l" if "as \<noteq> []" using sep [OF p(1) [OF that]] p(2,3) [OF that] by auto
  have sl: "sep l e" using sep [of l e] dd by auto
  have al: "aligned l" "aligned e" using sl by (auto simp: sep_def)
  have n: "unat nx < 16" "unat (nx + 4) < 16" "aligned nx" "aligned (nx + 4)" using assms(3) by auto
  have he: "hd as \<noteq> e" if "as \<noteq> []" using that dd by (cases as) auto
  have te: "last bs \<noteq> e" if "bs \<noteq> []" using that dd last_in_set [OF that] by auto
  consider "as = []" "bs = []" | "as = []" "bs \<noteq> []" | "as \<noteq> []" "bs = []" | "as \<noteq> []" "bs \<noteq> []" by blast
  then show ?thesis
  proof cases
    case 1
    then show ?thesis using sq sl al n hl e by (simp add: unchain_def)
  next
    case 2
    then show ?thesis using sq sl al n hl te [OF 2(2)] e by (simp add: unchain_def)
  next
    case 3
    then show ?thesis using sq sl al n hl he [OF 3(1)] e sp [OF 3(1)] by (simp add: unchain_def)
  next
    case 4
    then show ?thesis using sq sl al n hl he [OF 4(1)] te [OF 4(2)] e sp [OF 4(1)] by (simp add: unchain_def)
  qed
qed

text \<open>What the removal leaves: the chain without the element, and all else that the nodes hold.\<close>

lemma ld32_node_other:
  assumes "blocks_ok zs" and "node zs b \<or> b = 0" and "node zs a" and "unat j < 16" and "unat k < 16"
    and "aligned j" and "aligned k" and "b \<noteq> a \<or> j \<noteq> k"
  shows "ld32 (st32 (b + j) v m) (a + k) = ld32 m (a + k)"
proof (cases "b = a")
  case True
  then show ?thesis using assms node_aligned [OF assms(1,3)] by (simp add: aligned_plus)
next
  case False
  then have "sep b a" using assms(1-3) node_sep node_sep_null by blast
  then show ?thesis using assms by simp
qed

lemma chained_new_next:
  assumes "chained m nx p ns e" and "distinct ns"
    and "\<And>a. a \<in> set ns \<Longrightarrow> ld32 m' (a + (nx + 4)) = ld32 m (a + (nx + 4)) \<and>
      ld32 m' (a + nx) = (if a = last ns then q else ld32 m (a + nx))"
  shows "chained m' nx p ns q"
proof (cases ns rule: rev_cases)
  case (snoc as a)
  have "chained m' nx p as a"
    by (rule chained_cong [of m]) (use assms snoc in \<open>auto simp: chained_append\<close>)
  then show ?thesis using assms snoc by (auto simp: chained_append)
qed simp

lemma chained_new_prev:
  assumes "chained m nx e ns q" and "distinct ns"
    and "\<And>a. a \<in> set ns \<Longrightarrow> ld32 m' (a + nx) = ld32 m (a + nx) \<and>
      ld32 m' (a + (nx + 4)) = (if a = hd ns then p else ld32 m (a + (nx + 4)))"
  shows "chained m' nx p ns q"
proof (cases ns)
  case (Cons b bs)
  have "chained m' nx b bs q"
    by (rule chained_cong [of m]) (use assms Cons in \<open>auto\<close>)
  then show ?thesis using assms Cons by auto
qed simp

text \<open>The neighbours \<open>p\<close> and \<open>q\<close> of the element that goes, null where there is none.\<close>

lemma unchain_ends:
  assumes "holds_chain m nx zs l (as @ e # bs)" and "blocks_ok zs" and "p = last (0 # as)" and "q = hd (bs @ [0])"
  shows "p \<in> {0} \<union> set as" "as \<noteq> [] \<Longrightarrow> p \<in> set as" and "q \<in> {0} \<union> set bs" "bs \<noteq> [] \<Longrightarrow> q \<in> set bs"
    and "node zs p \<or> p = 0" "node zs q \<or> q = 0"
    and "p \<noteq> l" "q \<noteq> l" "a \<in> set as \<Longrightarrow> a \<noteq> q" "a \<in> set bs \<Longrightarrow> a \<noteq> p"
    and "sep p l" "sep q l" "as \<noteq> [] \<Longrightarrow> sep l p \<and> sep q p" "bs \<noteq> [] \<Longrightarrow> sep l q"
proof -
  have nn: "node zs l" "\<And>a. a \<in> set (as @ e # bs) \<Longrightarrow> node zs a" and dd: "distinct (l # as @ e # bs)"
    using assms(1) by (auto simp: holds_chain_def)
  show p: "p \<in> {0} \<union> set as" "as \<noteq> [] \<Longrightarrow> p \<in> set as" by (cases as rule: rev_cases; auto simp: assms(3))+
  show q: "q \<in> {0} \<union> set bs" "bs \<noteq> [] \<Longrightarrow> q \<in> set bs" by (cases bs; auto simp: assms(4))+
  show pq: "node zs p \<or> p = 0" "node zs q \<or> q = 0" using p q nn by auto
  show ap: "p \<noteq> l" "q \<noteq> l" "\<And>a. a \<in> set as \<Longrightarrow> a \<noteq> q" "\<And>a. a \<in> set bs \<Longrightarrow> a \<noteq> p"
    using p(1) q(1) dd nn node_nonzero by auto
  have sep: "sep b a" if "node zs b \<or> b = 0" "node zs a" "b \<noteq> a" for a b
    using that node_sep [OF assms(2)] node_sep_null [OF assms(2)] by auto
  show "sep p l" "sep q l" using sep pq nn(1) ap by auto
  show "as \<noteq> [] \<Longrightarrow> sep l p \<and> sep q p"
    using p(2) nn ap sep [of l p] sep [OF pq(2), of p] by auto
  show "bs \<noteq> [] \<Longrightarrow> sep l q" using q(2) nn ap(2) sep [of l q] by auto
qed

text \<open>All words but the header's and the two links that close the gap are kept.\<close>

lemma unchain_other:
  assumes c: "holds_chain m nx zs l (as @ e # bs)" and bo: "blocks_ok zs" and nx: "nx = 4 \<or> nx = 8"
    and p: "p = last (0 # as)" and q: "q = hd (bs @ [0])"
    and a: "node zs a" "unat k < 16" "aligned k" "a \<noteq> l" "a = p \<longrightarrow> k \<noteq> nx" "a = q \<longrightarrow> k \<noteq> nx + 4"
  shows "ld32 (unchain nx l e m) (a + k) = ld32 m (a + k)"
proof -
  note other = ld32_node_other [OF bo] and ends = unchain_ends [OF c bo p q]
  have n: "unat nx < 16" "unat (nx + 4) < 16" "aligned nx" "aligned (nx + 4)" "nx \<noteq> nx + 4" using nx by auto
  have "ld32 (st32 (l + j) v m') (a + k) = ld32 m' (a + k)" if "unat j < 16" "aligned j" for j v m'
    by (rule other) (use that a c in \<open>auto simp: holds_chain_def\<close>)
  from this [of 0] this [of 4] this [of 8]
  have "ld32 (st32 l v m') (a + k) = ld32 m' (a + k)" "ld32 (st32 (l + 4) v m') (a + k) = ld32 m' (a + k)"
    "ld32 (st32 (l + 8) v m') (a + k) = ld32 m' (a + k)" for v m' by simp_all
  moreover have "ld32 (st32 (p + nx) v m') (a + k) = ld32 m' (a + k)" for v m'
    by (rule other [OF ends(5) a(1)]) (use a n in auto)
  moreover have "ld32 (st32 (q + (nx + 4)) v m') (a + k) = ld32 m' (a + k)" for v m'
    by (rule other [OF ends(6) a(1)]) (use a n in auto)
  ultimately show ?thesis
    unfolding unchain_writes [OF c bo nx] p [symmetric] q [symmetric] by simp
qed

text \<open>The header and the closed gap.\<close>

lemma unchain_words:
  assumes c: "holds_chain m nx zs l (as @ e # bs)" and bo: "blocks_ok zs" and nx: "nx = 4 \<or> nx = 8"
    and p: "p = last (0 # as)" and q: "q = hd (bs @ [0])"
  shows "ld32 (unchain nx l e m) l = of_nat (length (as @ bs))"
    and "ld32 (unchain nx l e m) (l + 4) = hd ((as @ bs) @ [0])"
    and "as @ bs \<noteq> [] \<Longrightarrow> ld32 (unchain nx l e m) (l + 8) = last (as @ bs)"
    and "as \<noteq> [] \<Longrightarrow> ld32 (unchain nx l e m) (p + nx) = q"
    and "bs \<noteq> [] \<Longrightarrow> ld32 (unchain nx l e m) (q + (nx + 4)) = p"
proof -
  note ends = unchain_ends [OF c bo p q]
  note m = unchain_writes [OF c bo nx, folded p q]
  let ?m = "unchain nx l e m"
  have n: "unat nx < 16" "unat (nx + 4) < 16" "aligned nx" "aligned (nx + 4)" "nx \<noteq> nx + 4" using nx by auto
  have "node zs l" and h: "ld32 m l = of_nat (length (as @ e # bs))" "ld32 m (l + 4) = hd (as @ [e])" "ld32 m (l + 8) = last (e # bs)"
    using c by (auto simp: holds_chain_def hd_append)
  then have al: "aligned l" using node_aligned [OF bo] by simp
  show "ld32 ?m l = of_nat (length (as @ bs))" using h(1) unfolding m by simp
  show "as \<noteq> [] \<Longrightarrow> ld32 ?m (p + nx) = q" using ends(13) n unfolding m by auto
  show "bs \<noteq> [] \<Longrightarrow> ld32 ?m (q + (nx + 4)) = p" using ends(14) n unfolding m by auto
  show "ld32 ?m (l + 4) = hd ((as @ bs) @ [0])"
  proof (cases "as = []")
    case True
    then have "ld32 ?m (l + 4) = q" using ends(11,12) n al unfolding m by simp
    then show ?thesis using True by (simp add: q)
  next
    case False
    then show ?thesis using h(2) ends(11,12) n al unfolding m by auto
  qed
  show "ld32 ?m (l + 8) = last (as @ bs)" if ne: "as @ bs \<noteq> []"
  proof (cases "bs = []")
    case True
    then have "ld32 ?m (l + 8) = p" using ends(11,12) n al unfolding m by simp
    then show ?thesis using True ne by (auto simp: p)
  next
    case False
    then show ?thesis using h(3) ends(11,12) n al unfolding m by auto
  qed
qed

lemma unchain_chained:
  assumes c: "holds_chain m nx zs l (as @ e # bs)" and bo: "blocks_ok zs" and nx: "nx = 4 \<or> nx = 8"
    and p: "p = last (0 # as)" and q: "q = hd (bs @ [0])"
  shows "chained (unchain nx l e m) nx 0 as q" and "chained (unchain nx l e m) nx p bs 0"
proof -
  note ends = unchain_ends [OF c bo p q] and words = unchain_words [OF c bo nx p q]
  have nn: "\<And>a. a \<in> set (as @ e # bs) \<Longrightarrow> node zs a" and dd: "distinct (l # as @ e # bs)"
    and ch: "chained m nx 0 (as @ e # bs) 0" using c by (auto simp: holds_chain_def)
  have n: "unat nx < 16" "unat (nx + 4) < 16" "aligned nx" "aligned (nx + 4)" "nx \<noteq> nx + 4" using nx by auto
  let ?m = "unchain nx l e m"
  show "chained ?m nx 0 as q"
  proof (rule chained_new_next)
    show "chained m nx 0 as e" using ch by (simp add: chained_append)
    fix a assume a: "a \<in> set as"
    then have ne: "as \<noteq> []" by auto
    then have "last as = p" by (simp add: p)
    moreover have "node zs a" "a \<noteq> l" "a \<noteq> q" using a nn dd ends(9) by auto
    ultimately show "ld32 ?m (a + (nx + 4)) = ld32 m (a + (nx + 4)) \<and> ld32 ?m (a + nx) = (if a = last as then q else ld32 m (a + nx))"
      using n words(4) [OF ne] unchain_other [OF c bo nx p q, of a] by simp
  qed (use dd in simp)
  show "chained ?m nx p bs 0"
  proof (rule chained_new_prev)
    show "chained m nx e bs 0" using ch by (simp add: chained_append)
    fix a assume a: "a \<in> set bs"
    then have ne: "bs \<noteq> []" by auto
    then have "hd bs = q" by (simp add: q)
    moreover have "node zs a" "a \<noteq> l" "a \<noteq> p" using a nn dd ends(10) by auto
    ultimately show "ld32 ?m (a + nx) = ld32 m (a + nx) \<and> ld32 ?m (a + (nx + 4)) = (if a = hd bs then p else ld32 m (a + (nx + 4)))"
      using n words(5) [OF ne] unchain_other [OF c bo nx p q, of a] by simp
  qed (use dd in simp)
qed

lemma unchain_low:
  assumes c: "holds_chain m nx zs l (as @ e # bs)" and bo: "blocks_ok zs" and nx: "nx = 4 \<or> nx = 8" and x: "heap_end zs \<le> unat x"
  shows "unchain nx l e m x = m x"
proof -
  define p where "p = last (0 # as)"
  define q where "q = hd (bs @ [0])"
  note ends = unchain_ends [OF c bo p_def q_def] and m = unchain_writes [OF c bo nx, folded p_def q_def]
  have l: "node zs l" using c by (simp add: holds_chain_def)
  have st: "st32 (a + j) v m' x = m' x" if "node zs a \<or> a = 0" "unat j \<le> 12" for a j v m'
    by (rule st32_low [OF _ _ that(2) x]) (use that node_end node_end [OF l] bo in \<open>auto simp: blocks_ok_def\<close>)
  have "unat nx \<le> 12" "unat (nx + 4) \<le> 12" using nx by auto
  moreover have "st32 l v m' x = m' x" for v m' using st [of l 0] l by simp
  ultimately show ?thesis
    using st [OF disjI1 [OF l]] st [OF ends(5)] st [OF ends(6)] unfolding m by simp
qed

lemma unchain_result:
  assumes c: "holds_chain m nx zs l (as @ e # bs)" and bo: "blocks_ok zs" and nx: "nx = 4 \<or> nx = 8"
  shows "holds_chain (unchain nx l e m) nx zs l (as @ bs)"
    and "kept zs (set (l # as @ e # bs)) m (unchain nx l e m)"
    and "a \<in> set (as @ e # bs) \<Longrightarrow> unat k < unat nx \<Longrightarrow> aligned k \<Longrightarrow> ld32 (unchain nx l e m) (a + k) = ld32 m (a + k)"
    and "heap_end zs \<le> unat x \<Longrightarrow> unchain nx l e m x = m x"
proof -
  note other = unchain_other [OF c bo nx refl refl] and ends = unchain_ends [OF c bo refl refl]
    and words = unchain_words [OF c bo nx refl refl] and chained = unchain_chained [OF c bo nx refl refl]
  have nn: "node zs l" "\<And>a. a \<in> set (as @ e # bs) \<Longrightarrow> node zs a" and dd: "distinct (l # as @ e # bs)"
    using c by (auto simp: holds_chain_def)
  show "holds_chain (unchain nx l e m) nx zs l (as @ bs)"
    using chained words(1-3) nn dd by (auto simp: holds_chain_def chained_append)
  show "kept zs (set (l # as @ e # bs)) m (unchain nx l e m)"
    unfolding kept_def
  proof (intro allI impI, elim conjE)
    fix a k assume a: "node zs a" "a \<notin> set (l # as @ e # bs)" "unat k < 16" "aligned k"
    have "a \<noteq> last (0 # as)" "a \<noteq> hd (bs @ [0])" using ends(1,3) a(2) node_nonzero [OF a(1)] by (auto split: if_splits)
    then show "ld32 (unchain nx l e m) (a + k) = ld32 m (a + k)" using a by (intro other) simp_all
  qed
  show "ld32 (unchain nx l e m) (a + k) = ld32 m (a + k)" if a: "a \<in> set (as @ e # bs)" "unat k < unat nx" "aligned k"
    using a nn(2) [OF a(1)] nx dd by (intro other) auto
  show "heap_end zs \<le> unat x \<Longrightarrow> unchain nx l e m x = m x" by (rule unchain_low [OF c bo nx])
qed

section \<open>Appending an element\<close>

text \<open>The pointers that the two append functions write for a new element \<open>e\<close>.\<close>

definition enchain :: "u32 \<Rightarrow> ptr \<Rightarrow> ptr list \<Rightarrow> ptr \<Rightarrow> mem \<Rightarrow> mem" where
  "enchain nx l ns e m = st32 l (ld32 m l + 1)
     (if ns = [] then st32 (e + nx) 0 (st32 (e + (nx + 4)) 0 (st32 (l + 8) e (st32 (l + 4) e m)))
      else st32 (last ns + nx) e (st32 (l + 8) e (st32 (e + (nx + 4)) (last ns) m)))"

lemma enchain_seps:
  assumes c: "holds_chain m nx zs l ns" and bo: "blocks_ok (zs @ [16])" and e: "node (zs @ [16]) e" "\<not> node zs e"
  shows "a \<in> set (l # ns @ [e]) \<Longrightarrow> node (zs @ [16]) a" and "distinct (l # ns @ [e])"
    and "sep e l" "sep l e" "aligned l" "aligned e"
    and "ns \<noteq> [] \<Longrightarrow> sep (last ns) l \<and> sep (last ns) e \<and> sep l (last ns) \<and> aligned (last ns)"
proof -
  have nn: "\<And>a. a \<in> set (l # ns @ [e]) \<Longrightarrow> node (zs @ [16]) a" and dd: "distinct (l # ns @ [e])"
    using c e node_snoc by (auto simp: holds_chain_def)
  then show "a \<in> set (l # ns @ [e]) \<Longrightarrow> node (zs @ [16]) a" "distinct (l # ns @ [e])" by blast+
  have sep: "sep a b" if "a \<in> set (l # ns @ [e])" "b \<in> set (l # ns @ [e])" "a \<noteq> b" for a b
    using that nn node_sep [OF bo] by auto
  have al: "aligned a" if "a \<in> set (l # ns @ [e])" for a by (rule node_aligned [OF bo nn [OF that]])
  show "sep e l" "sep l e" "aligned l" "aligned e" using sep [of e l] sep [of l e] dd al by auto
  show "sep (last ns) l \<and> sep (last ns) e \<and> sep l (last ns) \<and> aligned (last ns)" if "ns \<noteq> []"
  proof -
    have p: "last ns \<in> set ns" using that by simp
    then have "last ns \<noteq> l" "last ns \<noteq> e" using dd by auto
    then show ?thesis using sep [of "last ns" l] sep [of "last ns" e] sep [of l "last ns"] p al by auto
  qed
qed

lemma enchain_other:
  assumes c: "holds_chain m nx zs l ns" and bo: "blocks_ok (zs @ [16])" and nx: "nx = 4 \<or> nx = 8"
    and e: "node (zs @ [16]) e" "\<not> node zs e"
    and a: "node (zs @ [16]) a" "unat k < 16" "aligned k" "a \<noteq> l" "a = e \<longrightarrow> k \<noteq> nx \<and> k \<noteq> nx + 4"
      "a = last ns \<longrightarrow> ns = [] \<or> k \<noteq> nx"
  shows "ld32 (enchain nx l ns e m) (a + k) = ld32 m (a + k)"
proof -
  have n: "unat nx < 16" "unat (nx + 4) < 16" "aligned nx" "aligned (nx + 4)" using nx by auto
  have w: "ld32 (st32 (b + j) v m') (a + k) = ld32 m' (a + k)"
    if "b \<in> set (l # ns @ [e])" "unat j < 16" "aligned j" "b \<noteq> a \<or> j \<noteq> k" for b j v m'
    by (rule ld32_node_other [OF bo]) (use that a enchain_seps(1) [OF c bo e] in auto)
  have "ld32 (st32 l v m') (a + k) = ld32 m' (a + k)" "ld32 (st32 (l + 4) v m') (a + k) = ld32 m' (a + k)"
    "ld32 (st32 (l + 8) v m') (a + k) = ld32 m' (a + k)" for v m'
    using w [of l 0] w [of l 4] w [of l 8] a(4) by simp_all
  moreover have "ld32 (st32 (e + nx) v m') (a + k) = ld32 m' (a + k)" "ld32 (st32 (e + (nx + 4)) v m') (a + k) = ld32 m' (a + k)" for v m'
    by (rule w; use a(5) n in auto)+
  moreover have "ld32 (st32 (last ns + nx) v m') (a + k) = ld32 m' (a + k)" if "ns \<noteq> []" for v m'
    by (rule w; use a(6) n that in auto)
  ultimately show ?thesis unfolding enchain_def by simp
qed

lemma enchain_low:
  assumes c: "holds_chain m nx zs l ns" and bo: "blocks_ok (zs @ [16])" and nx: "nx = 4 \<or> nx = 8"
    and e: "node (zs @ [16]) e" "\<not> node zs e"
    and x: "heap_end (zs @ [16]) \<le> unat x"
  shows "enchain nx l ns e m x = m x"
proof -
  note nn = enchain_seps(1) [OF c bo e]
  have st: "st32 (a + j) v m' x = m' x" if "a \<in> set (l # ns @ [e])" "unat j \<le> 12" for a j v m'
    by (rule st32_low [OF node_end [OF nn [OF that(1)]] _ that(2) x]) (use bo in \<open>simp add: blocks_ok_def\<close>)
  have "unat nx \<le> 12" "unat (nx + 4) \<le> 12" using nx by auto
  moreover have "st32 l v m' x = m' x" for v m' using st [of l 0] by simp
  ultimately show ?thesis using st [of l] st [of e] st [of "last ns"] unfolding enchain_def by simp
qed

lemma enchain_result:
  assumes c: "holds_chain m nx zs l ns" and bo: "blocks_ok (zs @ [16])" and nx: "nx = 4 \<or> nx = 8"
    and e: "node (zs @ [16]) e" "\<not> node zs e" "ld32 m (e + nx) = 0"
  shows "holds_chain (enchain nx l ns e m) nx (zs @ [16]) l (ns @ [e])"
    and "kept zs (set (l # ns)) m (enchain nx l ns e m)"
    and "a \<in> set (ns @ [e]) \<Longrightarrow> unat k < unat nx \<Longrightarrow> aligned k \<Longrightarrow> ld32 (enchain nx l ns e m) (a + k) = ld32 m (a + k)"
    and "heap_end (zs @ [16]) \<le> unat x \<Longrightarrow> enchain nx l ns e m x = m x"
proof -
  let ?m = "enchain nx l ns e m" and ?p = "last ns"
  note seps = enchain_seps [OF c bo e(1,2)] and rd = enchain_other [OF c bo nx e(1,2)]
  have n: "unat nx < 16" "unat (nx + 4) < 16" "aligned nx" "aligned (nx + 4)" "nx \<noteq> nx + 4" using nx by auto
  have pnx: "ld32 ?m (?p + nx) = e" if "ns \<noteq> []" using that n seps(7) [OF that] by (simp add: enchain_def)
  have en: "ld32 ?m (e + nx) = 0" "ld32 ?m (e + (nx + 4)) = (if ns = [] then 0 else ?p)"
    using seps(3-7) n e(3) by (auto simp: enchain_def)
  have words: "ld32 ?m l = of_nat (length (ns @ [e]))" "ld32 ?m (l + 8) = e" "ld32 ?m (l + 4) = hd (ns @ [e])"
    using c seps(3-7) n by (auto simp: enchain_def holds_chain_def)
  have "chained ?m nx 0 ns e"
  proof (rule chained_new_next)
    show "chained m nx 0 ns 0" using c by (simp add: holds_chain_def)
    fix a assume a: "a \<in> set ns"
    then have "ns \<noteq> []" "node (zs @ [16]) a" "a \<noteq> l" "a \<noteq> e" using seps(1,2) by auto
    then show "ld32 ?m (a + (nx + 4)) = ld32 m (a + (nx + 4)) \<and> ld32 ?m (a + nx) = (if a = ?p then e else ld32 m (a + nx))"
      using n pnx rd [of a] by simp
  qed (use seps(2) in simp)
  then show "holds_chain ?m nx (zs @ [16]) l (ns @ [e])"
    using words en seps(1,2) by (auto simp: holds_chain_def chained_append hd_append)
  show "kept zs (set (l # ns)) m ?m"
    unfolding kept_def
  proof (intro allI impI, elim conjE)
    fix a k assume a: "node zs a" "a \<notin> set (l # ns)" "unat k < 16" "aligned k"
    then have "node (zs @ [16]) a" "a \<noteq> l" "a \<noteq> e" "ns = [] \<or> a \<noteq> ?p" using node_snoc e(2) by auto
    then show "ld32 ?m (a + k) = ld32 m (a + k)" using a by (intro rd) auto
  qed
  show "ld32 ?m (a + k) = ld32 m (a + k)" if a: "a \<in> set (ns @ [e])" "unat k < unat nx" "aligned k"
    using a seps(1,2) n nx by (intro rd) auto
  show "heap_end (zs @ [16]) \<le> unat x \<Longrightarrow> ?m x = m x" by (rule enchain_low [OF c bo nx e(1,2)])
qed

section \<open>Finding an element\<close>

text \<open>
  The first element whose first word is \<open>k\<close>, or the last one, as the loops of both \<^verbatim>\<open>remove\<close>
  functions find it.
\<close>

fun first_at :: "('a \<Rightarrow> bool) \<Rightarrow> 'a list \<Rightarrow> nat" where
  "first_at P [] = 0"
| "first_at P [x] = 0"
| "first_at P (x # y # ys) = (if P x then 0 else Suc (first_at P (y # ys)))"

lemma first_at_less: "xs \<noteq> [] \<Longrightarrow> first_at P xs < length xs"
  by (induction P xs rule: first_at.induct) auto

lemma first_at_found: "xs \<noteq> [] \<Longrightarrow> P (xs ! first_at P xs) \<longleftrightarrow> (\<exists>x \<in> set xs. P x)"
  by (induction P xs rule: first_at.induct) auto

text \<open>The list without its first element that satisfies \<open>P\<close>.\<close>

fun del_first :: "('a \<Rightarrow> bool) \<Rightarrow> 'a list \<Rightarrow> 'a list" where
  "del_first P [] = []"
| "del_first P (x # xs) = (if P x then xs else x # del_first P xs)"

lemma del_first_at:
  assumes "\<exists>x \<in> set xs. P x"
  shows "del_first P xs = take (first_at P xs) xs @ drop (Suc (first_at P xs)) xs"
  using assms
proof (induction P xs rule: first_at.induct)
  case (3 P x y ys)
  show ?case
  proof (cases "P x")
    case False
    with 3(2) have "\<exists>z \<in> set (y # ys). P z" by auto
    with 3(1) [OF False] False show ?thesis by simp
  qed simp
qed auto

lemma del_first_none: "\<forall>x \<in> set xs. \<not> P x \<Longrightarrow> del_first P xs = xs"
  by (induction xs) auto

lemma del_first_remove1: "del_first (\<lambda>x. x = k) xs = remove1 k xs"
  by (induction xs) auto

text \<open>A loop \<open>f\<close> that follows the \<^verbatim>\<open>next\<close> pointers until the element satisfies its test.\<close>

lemma find_in_chain:
  assumes "\<And>e. f e = (if ld32 m e \<noteq> k \<and> ld32 m (e + nx) \<noteq> 0 then f (ld32 m (e + nx)) else Some e)"
    and "chained m nx p ns 0" and "ns \<noteq> []" and "\<forall>a \<in> set ns. a \<noteq> 0"
  shows "f (hd ns) = Some (ns ! first_at (\<lambda>a. ld32 m a = k) ns)"
  using assms(2-4)
proof (induction "\<lambda>a. ld32 m a = k" ns arbitrary: p rule: first_at.induct)
  case (2 x)
  then show ?case by (subst assms(1)) simp
next
  case (3 x y ys)
  show ?case
  proof (cases "ld32 m x = k")
    case True
    then show ?thesis by (subst assms(1)) simp
  next
    case False
    have "f x = f y" using False 3(2,4) by (subst assms(1)) simp
    moreover have "f y = Some ((y # ys) ! first_at (\<lambda>a. ld32 m a = k) (y # ys))"
      using 3(1) [OF False, of x] 3(2,4) by simp
    ultimately show ?thesis using False by simp
  qed
qed simp

lemma first_at_map:
  "list_all2 (\<lambda>a x. P a \<longleftrightarrow> Q x) ns xs \<Longrightarrow> first_at P ns = first_at Q xs"
proof (induction P ns arbitrary: xs rule: first_at.induct)
  case (3 P x y ys)
  then obtain u v us where "xs = u # v # us" by (auto simp: list_all2_Cons1)
  with 3 show ?case by auto
qed (auto simp: list_all2_Cons1)

section \<open>The removal of the first element with a key\<close>

text \<open>
  \<open>R m a x\<close> says that the element at \<open>a\<close> holds \<open>x\<close>; it reads only the words before the pointers,
  the first of which is the key \<open>key x\<close>.
\<close>

definition reads_below :: "u32 \<Rightarrow> (mem \<Rightarrow> ptr \<Rightarrow> 'a \<Rightarrow> bool) \<Rightarrow> bool" where
  "reads_below nx R \<longleftrightarrow> (\<forall>m m' a x.
     (\<forall>k. unat k < unat nx \<and> aligned k \<longrightarrow> ld32 m' (a + k) = ld32 m (a + k)) \<and> R m a x \<longrightarrow> R m' a x)"

lemma remove_first:
  assumes c: "holds_chain m nx zs l ns" "list_all2 (R m) ns xs" "xs \<noteq> []" and bo: "blocks_ok zs" and nx: "nx = 4 \<or> nx = 8"
    and R: "reads_below nx R" "\<And>m a x. R m a x \<Longrightarrow> ld32 m a = key x"
    and f: "\<And>e. f e = (if ld32 m e \<noteq> k \<and> ld32 m (e + nx) \<noteq> 0 then f (ld32 m (e + nx)) else Some e)"
  obtains e where "f (ld32 m (l + 4)) = Some e" and "ld32 m e = k \<longleftrightarrow> (\<exists>x \<in> set xs. key x = k)"
    and "ld32 m e = k \<Longrightarrow> \<exists>ns'. holds_chain (unchain nx l e m) nx zs l ns' \<and>
      list_all2 (R (unchain nx l e m)) ns' (del_first (\<lambda>x. key x = k) xs) \<and> set ns' \<subseteq> set ns \<and>
      kept zs (set (l # ns)) m (unchain nx l e m) \<and> (\<forall>x. heap_end zs \<le> unat x \<longrightarrow> unchain nx l e m x = m x)"
proof -
  let ?i = "first_at (\<lambda>x. key x = k) xs"
  have len: "length ns = length xs" using c(2) by (rule list_all2_lengthD)
  have ne: "ns \<noteq> []" using len c(3) by auto
  have keys: "list_all2 (\<lambda>a x. ld32 m a = k \<longleftrightarrow> key x = k) ns xs"
    by (rule list_all2_mono [OF c(2)]) (use R(2) in auto)
  have i: "first_at (\<lambda>a. ld32 m a = k) ns = ?i" by (rule first_at_map [OF keys])
  have il: "?i < length ns" using first_at_less [OF c(3)] len by simp
  let ?e = "ns ! ?i" and ?as = "take ?i ns" and ?bs = "drop (Suc ?i) ns"
  let ?m = "unchain nx l ?e m"
  have split: "?as @ ?e # ?bs = ns" using il by (simp add: id_take_nth_drop [symmetric])
  have "hd (ns @ [0]) = hd ns" using ne by simp
  moreover have "f (hd ns) = Some ?e"
    using find_in_chain [OF f _ ne, of 0] c(1) node_nonzero unfolding i by (auto simp: holds_chain_def)
  ultimately have fe: "f (ld32 m (l + 4)) = Some ?e" using c(1) by (simp add: holds_chain_def)
  have "ld32 m ?e = k \<longleftrightarrow> key (xs ! ?i) = k" using list_all2_nthD [OF keys il] .
  also have "\<dots> \<longleftrightarrow> (\<exists>x \<in> set xs. key x = k)" by (rule first_at_found [OF c(3)])
  finally have found: "ld32 m ?e = k \<longleftrightarrow> (\<exists>x \<in> set xs. key x = k)" .
  have "holds_chain m nx zs l (?as @ ?e # ?bs)" unfolding split by (rule c(1))
  note u = unchain_result [OF this bo nx, unfolded split]
  have "list_all2 (R ?m) ns xs"
    by (rule list_all2_all_nthI [OF len])
      (use u(3) R(1) list_all2_nthD [OF c(2)] in \<open>unfold reads_below_def, blast intro: nth_mem\<close>)
  then have "list_all2 (R ?m) (?as @ ?bs) (take ?i xs @ drop (Suc ?i) xs)"
    by (intro list_all2_appendI list_all2_takeI list_all2_dropI)
  moreover have "set (?as @ ?bs) \<subseteq> set ns" using set_take_subset [of ?i ns] set_drop_subset [of "Suc ?i" ns] by auto
  ultimately have "\<exists>ns'. holds_chain ?m nx zs l ns' \<and> list_all2 (R ?m) ns' (del_first (\<lambda>x. key x = k) xs) \<and>
      set ns' \<subseteq> set ns \<and> kept zs (set (l # ns)) m ?m \<and> (\<forall>x. heap_end zs \<le> unat x \<longrightarrow> ?m x = m x)"
    if "ld32 m ?e = k"
    using u(1,2,4) del_first_at [of xs "\<lambda>x. key x = k"] that found by (intro exI [of _ "?as @ ?bs"]) simp
  then show ?thesis using that fe found by blast
qed

lemma reads_below_data: "reads_below 4 (\<lambda>m a x. ld32 m a = x)"
  unfolding reads_below_def
proof (intro allI impI, elim conjE)
  fix m m' :: mem and a :: ptr and x
  assume "\<forall>k. unat k < unat (4 :: u32) \<and> aligned k \<longrightarrow> ld32 m' (a + k) = ld32 m (a + k)" and x: "ld32 m a = x"
  from this(1) [rule_format, of 0] x show "ld32 m' a = x" by simp
qed

text \<open>\<^verbatim>\<open>remove\<close> of \<^verbatim>\<open>list.c\<close> on a list that is not empty.\<close>

lemma remove_result:
  assumes h: "heap_ok s zs lim" and l: "list_at (kmem s) zs l ns xs" and ne: "xs \<noteq> []"
  obtains m ns' where "remove l d s = ret (d \<in> set xs) (s\<lparr>kmem := m\<rparr>)" and "heap_ok (s\<lparr>kmem := m\<rparr>) zs lim"
    and "list_at m zs l ns' (remove1 d xs)" and "set ns' \<subseteq> set ns" and "kept zs (set (l # ns)) (kmem s) m"
    and "\<And>x. lim \<le> unat x \<Longrightarrow> m x = kmem s x"
proof -
  note c = l [unfolded list_at_chain]
  obtain e where e: "find_elem (kmem s) d (ld32 (kmem s) (l + 4)) = Some e" "ld32 (kmem s) e = d \<longleftrightarrow> (\<exists>x \<in> set xs. x = d)"
    and u: "ld32 (kmem s) e = d \<Longrightarrow> \<exists>ns'. holds_chain (unchain 4 l e (kmem s)) 4 zs l ns' \<and>
      list_all2 (\<lambda>a x. ld32 (unchain 4 l e (kmem s)) a = x) ns' (del_first (\<lambda>x. x = d) xs) \<and> set ns' \<subseteq> set ns \<and>
      kept zs (set (l # ns)) (kmem s) (unchain 4 l e (kmem s)) \<and>
      (\<forall>x. heap_end zs \<le> unat x \<longrightarrow> unchain 4 l e (kmem s) x = kmem s x)"
    by (rule remove_first [OF conjunct1 [OF c] conjunct2 [OF c] ne heap_ok_blocks_ok [OF h] _ reads_below_data,
        where key = "\<lambda>x. x" and k = d and f = "find_elem (kmem s) d"])
      (simp, simp, subst find_elem.simps, simp, rule that)
  have lim: "heap_end zs \<le> lim" using h by (simp add: heap_ok_def)
  show ?thesis
  proof (cases "d \<in> set xs")
    case True
    then have "ld32 (kmem s) e = d" using e(2) by simp
    from u [OF this] obtain ns' where ns': "holds_chain (unchain 4 l e (kmem s)) 4 zs l ns'"
      "list_all2 (\<lambda>a x. ld32 (unchain 4 l e (kmem s)) a = x) ns' (remove1 d xs)" "set ns' \<subseteq> set ns"
      "kept zs (set (l # ns)) (kmem s) (unchain 4 l e (kmem s))"
      "\<And>x. heap_end zs \<le> unat x \<Longrightarrow> unchain 4 l e (kmem s) x = kmem s x"
      unfolding del_first_remove1 by blast
    show ?thesis
    proof (rule that [of "unchain 4 l e (kmem s)" ns'])
      show "remove l d s = ret (d \<in> set xs) (s\<lparr>kmem := unchain 4 l e (kmem s)\<rparr>)"
        using e(1) \<open>ld32 (kmem s) e = d\<close> True by (simp add: remove_def unlink_unchain)
      show "heap_ok (s\<lparr>kmem := unchain 4 l e (kmem s)\<rparr>) zs lim"
        by (rule heap_ok_same_end [OF h]) (rule ns'(5))
    qed (use ns' lim in \<open>simp_all add: list_at_chain\<close>)
  next
    case False
    then have "remove l d s = ret (d \<in> set xs) (s\<lparr>kmem := kmem s\<rparr>)" "remove1 d xs = xs"
      using e by (simp_all add: remove_def remove1_idem)
    then show ?thesis using h l that [of "kmem s" ns] kept_refl by simp
  qed
qed

text \<open>A walk of \<open>i\<close> steps along the \<^verbatim>\<open>next\<close> pointers.\<close>

lemma walk_chain:
  assumes "\<And>e. g 0 e = e" and "\<And>n e. g (Suc n) e = g n (ld32 m (e + nx))"
    and "chained m nx p ns q" and "i < length ns"
  shows "g i (hd ns) = ns ! i"
  using assms(3,4)
proof (induction ns arbitrary: p i)
  case (Cons a ns)
  show ?case
  proof (cases i)
    case (Suc j)
    then have "ns \<noteq> []" "j < length ns" using Cons.prems by auto
    then show ?thesis using Cons Suc assms(2) by auto
  qed (use assms(1) in simp)
qed simp

lemma list_get_result:
  assumes h: "heap_ok s zs lim" and l: "list_at (kmem s) zs l ns xs"
  shows "list_get l i s =
    (if unat i < length xs then ret (xs ! unat i) s else PANIC ''LIST OUT OF BOUNDS EXCEPTION'' s)"
proof -
  have len: "length ns = length xs" and c: "chained (kmem s) 4 0 ns 0" and d: "list_all2 (\<lambda>a x. ld32 (kmem s) a = x) ns xs"
    using l by (auto simp: list_at_def linked_chained dest: list_all2_lengthD)
  have "unat (list_size s l) = length xs"
    using l list_length_bound [OF heap_ok_blocks_ok [OF h] l] by (simp add: list_at_def unat_of_nat)
  then have b: "list_size s l \<le> i \<longleftrightarrow> \<not> unat i < length xs" by (simp add: word_le_nat_alt not_less)
  have w: "walk (kmem s) (unat i) (list_head s l) = ns ! unat i" if "unat i < length xs"
  proof -
    have "ns \<noteq> []" using that len by auto
    then have "list_head s l = hd ns" using l by (simp add: list_at_def)
    then show ?thesis using walk_chain [of "walk (kmem s)", OF _ _ c] that len by simp
  qed
  show ?thesis using b w list_all2_nthD [OF d, of "unat i"] len by (auto simp: list_get_def)
qed

section \<open>Sequences with removal and access by index\<close>

text \<open>
  The interface that \<^verbatim>\<open>list.c\<close> and \<^verbatim>\<open>kv.c\<close> share: elements are added at the end, removed by their
  key, and read by their index, which panics out of bounds. The removal from an empty sequence is
  not specified: both C functions follow a null pointer there.
\<close>

datatype ('a, 'k) sop = Add 'a | Del 'k | Get u32

datatype 'v answer = Added | Deleted bool | Got 'v | Panicked

fun seq_script :: "('a \<Rightarrow> 'k) \<Rightarrow> ('a \<Rightarrow> 'v) \<Rightarrow> ('a, 'k) sop list \<Rightarrow> 'a list \<Rightarrow> 'v answer list \<times> 'a list" where
  "seq_script key val [] xs = ([], xs)"
| "seq_script key val (Add a # ops) xs = apfst ((#) Added) (seq_script key val ops (xs @ [a]))"
| "seq_script key val (Del k # ops) xs =
     apfst ((#) (Deleted (\<exists>x \<in> set xs. key x = k))) (seq_script key val ops (del_first (\<lambda>x. key x = k) xs))"
| "seq_script key val (Get i # ops) xs =
     (if unat i < length xs then apfst ((#) (Got (val (xs ! unat i)))) (seq_script key val ops xs)
      else ([Panicked], xs))"

fun run_script :: "('a \<Rightarrow> 's \<Rightarrow> 's option) \<Rightarrow> ('k \<Rightarrow> 's \<Rightarrow> (bool \<times> 's) option) \<Rightarrow> (u32 \<Rightarrow> 's \<Rightarrow> 'v option) \<Rightarrow>
    ('a, 'k) sop list \<Rightarrow> 's \<Rightarrow> ('v answer list \<times> 's) option" where
  "run_script add del get [] s = Some ([], s)"
| "run_script add del get (Add a # ops) s =
     (case add a s of None \<Rightarrow> None | Some s \<Rightarrow> map_option (apfst ((#) Added)) (run_script add del get ops s))"
| "run_script add del get (Del k # ops) s =
     (case del k s of None \<Rightarrow> None
      | Some (b, s) \<Rightarrow> map_option (apfst ((#) (Deleted b))) (run_script add del get ops s))"
| "run_script add del get (Get i # ops) s =
     (case get i s of None \<Rightarrow> Some ([Panicked], s)
      | Some v \<Rightarrow> map_option (apfst ((#) (Got v))) (run_script add del get ops s))"

fun never_empty :: "('a \<Rightarrow> 'k) \<Rightarrow> ('a, 'k) sop list \<Rightarrow> 'a list \<Rightarrow> bool" where
  "never_empty key [] xs \<longleftrightarrow> True"
| "never_empty key (Add a # ops) xs \<longleftrightarrow> never_empty key ops (xs @ [a])"
| "never_empty key (Del k # ops) xs \<longleftrightarrow> xs \<noteq> [] \<and> never_empty key ops (del_first (\<lambda>x. key x = k) xs)"
| "never_empty key (Get i # ops) xs \<longleftrightarrow> never_empty key ops xs"

fun count_add :: "('a, 'k) sop list \<Rightarrow> nat" where
  "count_add [] = 0"
| "count_add (Add a # ops) = Suc (count_add ops)"
| "count_add (Del k # ops) = count_add ops"
| "count_add (Get i # ops) = count_add ops"

locale keyed_sequence =
  fixes add :: "'a \<Rightarrow> 's \<Rightarrow> 's option"
    and del :: "'k \<Rightarrow> 's \<Rightarrow> (bool \<times> 's) option"
    and get :: "u32 \<Rightarrow> 's \<Rightarrow> 'v option"
    and rep :: "'s \<Rightarrow> 'a list \<Rightarrow> bool"
    and capacity :: "'s \<Rightarrow> nat"
    and key :: "'a \<Rightarrow> 'k"
    and val :: "'a \<Rightarrow> 'v"
  assumes add_back: "rep s xs \<Longrightarrow> 0 < capacity s \<Longrightarrow>
      \<exists>s'. add a s = Some s' \<and> rep s' (xs @ [a]) \<and> capacity s \<le> Suc (capacity s')"
    and del_key: "rep s xs \<Longrightarrow> xs \<noteq> [] \<Longrightarrow> \<exists>s'. del k s = Some (\<exists>x \<in> set xs. key x = k, s') \<and>
      rep s' (del_first (\<lambda>x. key x = k) xs) \<and> capacity s \<le> capacity s'"
    and get_index: "rep s xs \<Longrightarrow> get i s = (if unat i < length xs then Some (val (xs ! unat i)) else None)"
begin

lemma script:
  "rep s xs \<Longrightarrow> count_add ops \<le> capacity s \<Longrightarrow> never_empty key ops xs \<Longrightarrow>
    \<exists>s'. run_script add del get ops s = Some (fst (seq_script key val ops xs), s') \<and>
      rep s' (snd (seq_script key val ops xs))"
proof (induction ops arbitrary: s xs)
  case (Cons op ops)
  show ?case
  proof (cases op)
    case (Add a)
    obtain s1 where "add a s = Some s1" "rep s1 (xs @ [a])" "capacity s \<le> Suc (capacity s1)"
      using add_back [OF Cons.prems(1), of a] Cons.prems(2) Add by auto
    then show ?thesis using Cons.IH [of s1 "xs @ [a]"] Cons.prems Add by auto
  next
    case (Del k)
    let ?ys = "del_first (\<lambda>x. key x = k) xs"
    obtain s1 where "del k s = Some (\<exists>x \<in> set xs. key x = k, s1)" "rep s1 ?ys" "capacity s \<le> capacity s1"
      using del_key [OF Cons.prems(1), of k] Cons.prems(3) Del by auto
    then show ?thesis using Cons.IH [of s1 ?ys] Cons.prems Del by auto
  next
    case (Get i)
    then show ?thesis using Cons.IH [OF Cons.prems(1)] Cons.prems get_index [OF Cons.prems(1), of i] by auto
  qed
qed simp

end

text \<open>\<^verbatim>\<open>list.c\<close>, whose elements are their own keys.\<close>

definition list_del :: "ptr \<Rightarrow> u32 \<Rightarrow> kstate \<Rightarrow> (bool \<times> kstate) option" where
  "list_del l d s = (case remove l d s of Inl _ \<Rightarrow> None | Inr r \<Rightarrow> Some r)"

definition list_item :: "ptr \<Rightarrow> u32 \<Rightarrow> kstate \<Rightarrow> u32 option" where
  "list_item l i s = (case list_get l i s of Inl _ \<Rightarrow> None | Inr (d, _) \<Rightarrow> Some d)"

interpretation ls: keyed_sequence "list_enq lim vp l" "list_del l" "list_item l" "list_rep lim l" "list_capacity lim"
  "\<lambda>x. x" "\<lambda>x. x" for lim vp l
proof unfold_locales
  fix s xs a
  assume "list_rep lim l s xs" and "0 < list_capacity lim s"
  then show "\<exists>s'. list_enq lim vp l a s = Some s' \<and> list_rep lim l s' (xs @ [a]) \<and>
      list_capacity lim s \<le> Suc (list_capacity lim s')" by (rule lq.enq_back)
next
  fix s xs k
  assume "list_rep lim l s xs" and ne: "xs \<noteq> []"
  then obtain zs ns where h: "heap_ok s zs lim" "list_at (kmem s) zs l ns xs" by (auto simp: list_rep_def)
  obtain m ns' where m: "remove l k s = ret (k \<in> set xs) (s\<lparr>kmem := m\<rparr>)" "heap_ok (s\<lparr>kmem := m\<rparr>) zs lim"
    "list_at m zs l ns' (remove1 k xs)"
    by (rule remove_result [OF h ne, where d = k]) (rule that)
  then show "\<exists>s'. list_del l k s = Some (\<exists>x \<in> set xs. x = k, s') \<and>
      list_rep lim l s' (del_first (\<lambda>x. x = k) xs) \<and> list_capacity lim s \<le> list_capacity lim s'"
    by (intro exI [of _ "s\<lparr>kmem := m\<rparr>"]) (auto simp: list_del_def list_rep_def list_capacity_def del_first_remove1)
next
  fix s xs i
  assume "list_rep lim l s xs"
  then obtain zs ns where h: "heap_ok s zs lim" "list_at (kmem s) zs l ns xs" by (auto simp: list_rep_def)
  show "list_item l i s = (if unat i < length xs then Some (xs ! unat i) else None)"
    using list_get_result [OF h, of i] by (simp add: list_item_def PANIC_def)
qed


lemma example_list:
  obtains l s where "list_init 0 heap_state = ret l s" and "list_rep 4096 l s []" and "list_capacity 4096 s = 100"
proof -
  have f: "firstFreeSegment heap_state = 0"
    by (simp add: heap_state_def initialiseHeap_def Let_def)
  then have "room 4096 heap_state" by (simp add: room_def)
  from list_init_result [OF heap_state_ok this, of 0] obtain m l where
    l: "list_init 0 heap_state = ret l (heap_state\<lparr>kmem := m, firstFreeSegment := firstFreeSegment heap_state + 40\<rparr>)"
    "heap_ok (heap_state\<lparr>kmem := m, firstFreeSegment := firstFreeSegment heap_state + 40\<rparr>) ([] @ [16]) 4096"
    "list_at m ([] @ [16]) l [] []" by blast
  let ?s = "heap_state\<lparr>kmem := m, firstFreeSegment := firstFreeSegment heap_state + 40\<rparr>"
  have "list_rep 4096 l ?s []" unfolding list_rep_def using l(2,3) by (intro exI conjI) simp_all
  moreover have "list_capacity 4096 ?s = 100" by (simp add: list_capacity_def f)
  ultimately show ?thesis using that l(1) by blast
qed


end
