(* ===== verification/Queues.thy ===== *)
theory Queues
  imports Chains
begin

text \<open>
  Several lists of \<^verbatim>\<open>list.c\<close> on one heap: \<open>queues lim s Q\<close> says that each list address in the domain
  of \<open>Q\<close> holds its contents and that no two lists share memory. Each operation changes the
  contents of its own list and of no other, and writing memory behind the heap changes none.
\<close>

definition queues :: "nat \<Rightarrow> kstate \<Rightarrow> (ptr \<Rightarrow> u32 list option) \<Rightarrow> bool" where
  "queues lim s Q \<longleftrightarrow> (\<exists>zs N. heap_ok s zs lim \<and>
     (\<forall>l xs. Q l = Some xs \<longrightarrow> list_at (kmem s) zs l (N l) xs) \<and>
     (\<forall>l \<in> dom Q. \<forall>k \<in> dom Q. l \<noteq> k \<longrightarrow> set (l # N l) \<inter> set (k # N k) = {}))"

lemma queues_obtain:
  assumes "queues lim s Q"
  obtains zs N where "heap_ok s zs lim" and "\<And>l xs. Q l = Some xs \<Longrightarrow> list_at (kmem s) zs l (N l) xs"
    and "\<And>l k. l \<in> dom Q \<Longrightarrow> k \<in> dom Q \<Longrightarrow> l \<noteq> k \<Longrightarrow> set (l # N l) \<inter> set (k # N k) = {}"
  using assms unfolding queues_def by blast

lemma queues_intro:
  assumes "heap_ok s zs lim" and "\<And>l xs. Q l = Some xs \<Longrightarrow> list_at (kmem s) zs l (N l) xs"
    and "\<And>l k. l \<in> dom Q \<Longrightarrow> k \<in> dom Q \<Longrightarrow> l \<noteq> k \<Longrightarrow> set (l # N l) \<inter> set (k # N k) = {}"
  shows "queues lim s Q"
  unfolding queues_def using assms by blast

lemma queues_lim: "queues lim s Q \<Longrightarrow> lim \<le> 0x80000000"
  by (auto simp: queues_def heap_ok_def)

lemma queues_empty:
  assumes "queues lim s Q" and "Q l = Some xs"
  shows "is_empty l s \<longleftrightarrow> xs = []"
proof -
  obtain zs ns where h: "heap_ok s zs lim" "list_at (kmem s) zs l ns xs"
    using assms by (auto simp: queues_def)
  have "unat (of_nat (length xs) :: u32) = length xs"
    using list_length_bound [OF heap_ok_blocks_ok [OF h(1)] h(2)] by (simp only: unat_of_nat) simp
  then have "of_nat (length xs) = (0 :: u32) \<longleftrightarrow> xs = []"
    by (metis length_0_conv unat_eq_zero)
  then show ?thesis using h(2) by (simp add: is_empty_def list_at_def)
qed

lemma queues_nonzero: "queues lim s Q \<Longrightarrow> Q l = Some xs \<Longrightarrow> l \<noteq> 0"
  by (auto simp: queues_def list_at_def dest!: node_nonzero)

text \<open>The list structs lie below the end of the heap.\<close>

lemma queues_below:
  assumes "queues lim s Q" and "Q l = Some xs"
  shows "unat l + 16 \<le> lim" and "aligned l"
proof -
  obtain zs N where h: "heap_ok s zs lim" "list_at (kmem s) zs l (N l) xs"
    using assms by (auto simp: queues_def)
  then have n: "node zs l" by (simp add: list_at_def)
  show "unat l + 16 \<le> lim" using node_end [OF n] h(1) by (simp add: heap_ok_def)
  show "aligned l" using node_aligned [OF heap_ok_blocks_ok [OF h(1)] n] .
qed

section \<open>Memory behind the heap\<close>

lemma heap_ok_cong:
  assumes "heap_ok s zs lim" and "\<And>x. unat x < lim \<Longrightarrow> kmem s' x = kmem s x"
    and "firstFreeSegment s' = firstFreeSegment s"
  shows "heap_ok s' zs lim"
proof -
  let ?e = "of_nat (heap_end zs) :: ptr"
  have e: "unat ?e = heap_end zs" "heap_end zs + 24 \<le> lim" "lim \<le> 0x80000000"
    using assms(1) by (auto simp: heap_ok_def unat_of_nat)
  have "ld32 (kmem s') (?e + k) = ld32 (kmem s) (?e + k)" if "unat k \<le> 20" for k
  proof (rule ld32_cong)
    fix j :: u32 assume "unat j < 4"
    with that e have "unat (?e + k + j) = heap_end zs + unat k + unat j"
      by (simp add: unat_plus_small)
    with that e \<open>unat j < 4\<close> show "kmem s' (?e + k + j) = kmem s (?e + k + j)"
      by (intro assms(2)) simp
  qed
  from this [of 0] this [of 4] this [of 8] this [of 12] this [of 16] this [of 20]
  have "header (kmem s') ?e l nx pv nf pf fr = header (kmem s) ?e l nx pv nf pf fr" for l nx pv nf pf fr
    by (simp add: header_def)
  then show ?thesis
    using assms by (simp add: heap_ok_def inside_def del: of_nat_diff of_nat_add)
qed

lemma kept_cong:
  assumes "blocks_ok zs" and "heap_end zs \<le> lim" and "\<And>x. unat x < lim \<Longrightarrow> m' x = m x"
  shows "kept zs {} m m'"
  unfolding kept_def
proof (intro allI impI)
  fix a k :: u32 assume a: "node zs a \<and> a \<notin> {} \<and> unat k < 16 \<and> aligned k"
  then have "4 dvd unat k" "unat k < 16" by (simp_all add: aligned_def)
  then have k: "unat k \<le> 12" by presburger
  have n: "unat a + 16 \<le> heap_end zs" "heap_end zs \<le> 0x80000000"
    using a node_end assms(1) by (auto simp: blocks_ok_def)
  show "ld32 m' (a + k) = ld32 m (a + k)"
  proof (rule ld32_cong)
    fix j :: u32 assume j: "unat j < 4"
    have "unat (a + k + j) = unat a + unat k + unat j"
      using n k j by (simp add: unat_plus_small)
    then show "m' (a + k + j) = m (a + k + j)" using n k j assms(2) by (intro assms(3)) simp
  qed
qed

lemma queues_cong:
  assumes "queues lim s Q" and "\<And>x. unat x < lim \<Longrightarrow> kmem s' x = kmem s x"
    and "firstFreeSegment s' = firstFreeSegment s"
  shows "queues lim s' Q"
proof -
  obtain zs N where h: "heap_ok s zs lim" "\<And>l xs. Q l = Some xs \<Longrightarrow> list_at (kmem s) zs l (N l) xs"
    "\<And>l k. l \<in> dom Q \<Longrightarrow> k \<in> dom Q \<Longrightarrow> l \<noteq> k \<Longrightarrow> set (l # N l) \<inter> set (k # N k) = {}"
    by (rule queues_obtain [OF assms(1)]) (rule that)
  have h': "heap_ok s' zs lim" by (rule heap_ok_cong [OF h(1) assms(2,3)])
  have "kept zs {} (kmem s) (kmem s')"
    using h(1) by (intro kept_cong [OF heap_ok_blocks_ok [OF h(1)], of lim] assms(2)) (simp add: heap_ok_def)
  then show ?thesis
    by (intro queues_intro [OF h' _ h(3)] list_at_kept [OF _ h(2)]) (assumption | simp)+
qed

lemma queues_wr:
  assumes "queues lim s Q" and "0x80000000 \<le> unat a" and "unat a + 4 \<le> 4294967296"
  shows "queues lim (wr a v s) Q"
proof (rule queues_cong [OF assms(1)])
  fix x :: ptr assume "unat x < lim"
  then show "kmem (wr a v s) x = kmem s x"
    using queues_lim [OF assms(1)] assms(2,3) by (simp add: st32_frame)
qed simp

section \<open>The operations\<close>

lemma queues_append:
  assumes q: "queues lim s Q" and l: "Q l = Some xs" and r: "room lim s"
  obtains m where "append vp l d s = ret () (s\<lparr>kmem := m, firstFreeSegment := firstFreeSegment s + 40\<rparr>)"
    and "queues lim (s\<lparr>kmem := m, firstFreeSegment := firstFreeSegment s + 40\<rparr>) (Q(l \<mapsto> xs @ [d]))"
    and "\<And>x. lim \<le> unat x \<Longrightarrow> m x = kmem s x"
proof -
  obtain zs N where h: "heap_ok s zs lim" and at: "\<And>l xs. Q l = Some xs \<Longrightarrow> list_at (kmem s) zs l (N l) xs"
    and dj: "\<And>l k. l \<in> dom Q \<Longrightarrow> k \<in> dom Q \<Longrightarrow> l \<noteq> k \<Longrightarrow> set (l # N l) \<inter> set (k # N k) = {}"
    by (rule queues_obtain [OF q]) (rule that)
  obtain m e where run: "append vp l d s = ret () (s\<lparr>kmem := m, firstFreeSegment := firstFreeSegment s + 40\<rparr>)"
    and h': "heap_ok (s\<lparr>kmem := m, firstFreeSegment := firstFreeSegment s + 40\<rparr>) (zs @ [16]) lim"
    and l': "list_at m (zs @ [16]) l (N l @ [e]) (xs @ [d])"
    and k: "kept zs (set (l # N l)) (kmem s) m" and o: "\<And>x. lim \<le> unat x \<Longrightarrow> m x = kmem s x" and e: "\<not> node zs e"
    by (rule append_result [OF h r at [OF l], where vp = vp and d = d]) (rule that)
  let ?N = "N(l := N l @ [e])"
  have ne: "e \<notin> set (j # N j)" if "j \<in> dom Q" for j
    using that at e by (fastforce simp: list_at_def)
  have "queues lim (s\<lparr>kmem := m, firstFreeSegment := firstFreeSegment s + 40\<rparr>) (Q(l \<mapsto> xs @ [d]))"
  proof (rule queues_intro [OF h', where N = ?N])
    fix j ys assume j: "(Q(l \<mapsto> xs @ [d])) j = Some ys"
    show "list_at (kmem (s\<lparr>kmem := m, firstFreeSegment := firstFreeSegment s + 40\<rparr>)) (zs @ [16]) j (?N j) ys"
    proof (cases "j = l")
      case True
      then show ?thesis using j l' by simp
    next
      case False
      then have "Q j = Some ys" "set (j # N j) \<inter> set (l # N l) = {}"
        using j dj [of j l] l by (auto simp: domI)
      then show ?thesis using list_at_snoc [OF list_at_kept [OF k at]] False by simp
    qed
  next
    fix i j assume ij: "i \<in> dom (Q(l \<mapsto> xs @ [d]))" "j \<in> dom (Q(l \<mapsto> xs @ [d]))" "i \<noteq> j"
    then have "i \<in> dom Q" "j \<in> dom Q" using l by (auto split: if_splits)
    then show "set (i # ?N i) \<inter> set (j # ?N j) = {}"
      using dj [OF _ _ ij(3)] ne [of i] ne [of j] ij(3) by (auto simp: fun_upd_apply)
  qed
  with run o show ?thesis using that by blast
qed

lemma queues_pop:
  assumes q: "queues lim s Q" and l: "Q l = Some (x # xs)"
  obtains m where "pop l s = (x, s\<lparr>kmem := m\<rparr>)" and "queues lim (s\<lparr>kmem := m\<rparr>) (Q(l \<mapsto> xs))"
    and "\<And>x. lim \<le> unat x \<Longrightarrow> m x = kmem s x"
proof -
  obtain zs N where h: "heap_ok s zs lim" and at: "\<And>l xs. Q l = Some xs \<Longrightarrow> list_at (kmem s) zs l (N l) xs"
    and dj: "\<And>l k. l \<in> dom Q \<Longrightarrow> k \<in> dom Q \<Longrightarrow> l \<noteq> k \<Longrightarrow> set (l # N l) \<inter> set (k # N k) = {}"
    by (rule queues_obtain [OF q]) (rule that)
  obtain n ns where N: "N l = n # ns"
    using at [OF l] by (cases "N l") (auto simp: list_at_def linked_def)
  obtain m where run: "pop l s = (x, s\<lparr>kmem := m\<rparr>)" and h': "heap_ok (s\<lparr>kmem := m\<rparr>) zs lim"
    and l': "list_at m zs l ns xs" and k: "kept zs (set (l # n # ns)) (kmem s) m"
    and o: "\<And>x. lim \<le> unat x \<Longrightarrow> m x = kmem s x"
    by (rule pop_result [OF h at [OF l, unfolded N]]) (rule that)
  have "queues lim (s\<lparr>kmem := m\<rparr>) (Q(l \<mapsto> xs))"
  proof (rule queues_intro [OF h', where N = "N(l := ns)"])
    fix j ys assume j: "(Q(l \<mapsto> xs)) j = Some ys"
    show "list_at (kmem (s\<lparr>kmem := m\<rparr>)) zs j ((N(l := ns)) j) ys"
    proof (cases "j = l")
      case True
      then show ?thesis using j l' by simp
    next
      case False
      then have "Q j = Some ys" "set (j # N j) \<inter> set (l # n # ns) = {}"
        using j dj [of j l] l N by (auto simp: domI)
      then show ?thesis using list_at_kept [OF k at] False by simp
    qed
  next
    fix i j assume ij: "i \<in> dom (Q(l \<mapsto> xs))" "j \<in> dom (Q(l \<mapsto> xs))" "i \<noteq> j"
    then have "i \<in> dom Q" "j \<in> dom Q" using l by (auto split: if_splits)
    then show "set (i # (N(l := ns)) i) \<inter> set (j # (N(l := ns)) j) = {}"
      using dj [OF _ _ ij(3)] ij(3) N by (auto simp: fun_upd_apply)
  qed
  with run o show ?thesis using that by blast
qed

lemma queues_remove:
  assumes q: "queues lim s Q" and l: "Q l = Some xs" and ne: "xs \<noteq> []"
  obtains m where "remove l d s = ret (d \<in> set xs) (s\<lparr>kmem := m\<rparr>)"
    and "queues lim (s\<lparr>kmem := m\<rparr>) (Q(l \<mapsto> remove1 d xs))" and "\<And>x. lim \<le> unat x \<Longrightarrow> m x = kmem s x"
proof -
  obtain zs N where h: "heap_ok s zs lim" and at: "\<And>l xs. Q l = Some xs \<Longrightarrow> list_at (kmem s) zs l (N l) xs"
    and dj: "\<And>l k. l \<in> dom Q \<Longrightarrow> k \<in> dom Q \<Longrightarrow> l \<noteq> k \<Longrightarrow> set (l # N l) \<inter> set (k # N k) = {}"
    by (rule queues_obtain [OF q]) (rule that)
  obtain m ns where run: "remove l d s = ret (d \<in> set xs) (s\<lparr>kmem := m\<rparr>)" and h': "heap_ok (s\<lparr>kmem := m\<rparr>) zs lim"
    and l': "list_at m zs l ns (remove1 d xs)" and sub: "set ns \<subseteq> set (N l)" and k: "kept zs (set (l # N l)) (kmem s) m"
    and o: "\<And>x. lim \<le> unat x \<Longrightarrow> m x = kmem s x"
    by (rule remove_result [OF h at [OF l] ne, where d = d]) (rule that)
  have "queues lim (s\<lparr>kmem := m\<rparr>) (Q(l \<mapsto> remove1 d xs))"
  proof (rule queues_intro [OF h', where N = "N(l := ns)"])
    fix j ys assume j: "(Q(l \<mapsto> remove1 d xs)) j = Some ys"
    show "list_at (kmem (s\<lparr>kmem := m\<rparr>)) zs j ((N(l := ns)) j) ys"
    proof (cases "j = l")
      case True
      then show ?thesis using j l' by simp
    next
      case False
      then have "Q j = Some ys" "set (j # N j) \<inter> set (l # N l) = {}"
        using j dj [of j l] l by (auto simp: domI)
      then show ?thesis using list_at_kept [OF k at] False by simp
    qed
  next
    fix i j assume ij: "i \<in> dom (Q(l \<mapsto> remove1 d xs))" "j \<in> dom (Q(l \<mapsto> remove1 d xs))" "i \<noteq> j"
    then have "i \<in> dom Q" "j \<in> dom Q" using l by (auto split: if_splits)
    then show "set (i # (N(l := ns)) i) \<inter> set (j # (N(l := ns)) j) = {}"
      using dj [OF _ _ ij(3)] sub ij(3) by (auto simp: fun_upd_apply)
  qed
  with run o show ?thesis using that by blast
qed

lemma queues_init:
  assumes q: "queues lim s Q" and r: "room lim s"
  obtains m l where "list_init vp s = ret l (s\<lparr>kmem := m, firstFreeSegment := firstFreeSegment s + 40\<rparr>)"
    and "queues lim (s\<lparr>kmem := m, firstFreeSegment := firstFreeSegment s + 40\<rparr>) (Q(l \<mapsto> []))"
    and "Q l = None" and "\<And>x. lim \<le> unat x \<Longrightarrow> m x = kmem s x"
proof -
  obtain zs N where h: "heap_ok s zs lim" and at: "\<And>l xs. Q l = Some xs \<Longrightarrow> list_at (kmem s) zs l (N l) xs"
    and dj: "\<And>l k. l \<in> dom Q \<Longrightarrow> k \<in> dom Q \<Longrightarrow> l \<noteq> k \<Longrightarrow> set (l # N l) \<inter> set (k # N k) = {}"
    by (rule queues_obtain [OF q]) (rule that)
  obtain m l where run: "list_init vp s = ret l (s\<lparr>kmem := m, firstFreeSegment := firstFreeSegment s + 40\<rparr>)"
    and h': "heap_ok (s\<lparr>kmem := m, firstFreeSegment := firstFreeSegment s + 40\<rparr>) (zs @ [16]) lim"
    and l': "list_at m (zs @ [16]) l [] []" and k: "kept zs {} (kmem s) m" and e: "\<not> node zs l"
    and o: "\<And>x. lim \<le> unat x \<Longrightarrow> m x = kmem s x"
    by (rule list_init_result [OF h r, where vp = vp]) (rule that)
  have ne: "l \<notin> set (j # N j)" if "j \<in> dom Q" for j
    using that at e by (fastforce simp: list_at_def)
  then have n: "Q l = None" by (metis domIff list.set_intros(1))
  have "queues lim (s\<lparr>kmem := m, firstFreeSegment := firstFreeSegment s + 40\<rparr>) (Q(l \<mapsto> []))"
  proof (rule queues_intro [OF h', where N = "N(l := [])"])
    fix j ys assume j: "(Q(l \<mapsto> [])) j = Some ys"
    show "list_at (kmem (s\<lparr>kmem := m, firstFreeSegment := firstFreeSegment s + 40\<rparr>)) (zs @ [16]) j ((N(l := [])) j) ys"
      using j l' list_at_snoc [OF list_at_kept [OF k at]] by (cases "j = l") simp_all
  next
    fix i j assume ij: "i \<in> dom (Q(l \<mapsto> []))" "j \<in> dom (Q(l \<mapsto> []))" "i \<noteq> j"
    then show "set (i # (N(l := [])) i) \<inter> set (j # (N(l := [])) j) = {}"
      using dj [of i j] ne [of i] ne [of j] by (auto simp: domI split: if_splits)
  qed
  with run n o show ?thesis using that by blast
qed

lemma list_init_with_result:
  assumes h: "heap_ok s zs lim" and r: "unat (firstFreeSegment s) + 104 \<le> lim"
  obtains m l e where "list_init_with vp d s = ret l (s\<lparr>kmem := m, firstFreeSegment := firstFreeSegment s + 40 + 40\<rparr>)"
    and "heap_ok (s\<lparr>kmem := m, firstFreeSegment := firstFreeSegment s + 40 + 40\<rparr>) ((zs @ [16]) @ [16]) lim"
    and "list_at m ((zs @ [16]) @ [16]) l [e] [d]" and "kept zs {} (kmem s) m" and "\<not> node zs l" and "\<not> node zs e"
    and "\<And>x. lim \<le> unat x \<Longrightarrow> m x = kmem s x"
proof -
  let ?z1 = "zs @ [16]"
  let ?z2 = "?z1 @ [16]"
  have b: "lim \<le> 0x80000000" using h by (simp add: heap_ok_def)
  have "room lim s" using r by (simp add: room_def)
  from h this obtain m1 l where m1: "malloc vp 12 s = ret l (s\<lparr>kmem := m1, firstFreeSegment := firstFreeSegment s + 40\<rparr>)"
    and h1: "heap_ok (s\<lparr>kmem := m1, firstFreeSegment := firstFreeSegment s + 40\<rparr>) ?z1 lim"
    and l: "node ?z1 l" "\<not> node zs l" and k1: "kept zs {} (kmem s) m1" and o1: "\<And>x. lim \<le> unat x \<Longrightarrow> m1 x = kmem s x"
    by (rule malloc_node [where vp = vp]) (rule that)
  let ?s1 = "s\<lparr>kmem := m1, firstFreeSegment := firstFreeSegment s + 40\<rparr>"
  let ?w1 = "wr l 1 ?s1"
  have bo1: "blocks_ok ?z1" using heap_ok_blocks_ok [OF h1] .
  have low: "st32 (a + j) v m x = m x" if "blocks_ok zs'" "node zs' a" "unat j \<le> 12" "heap_end zs' \<le> unat x" for zs' a j v m x
    by (rule st32_low [OF node_end [OF that(2)] _ that(3,4)]) (use that(1) in \<open>simp add: blocks_ok_def\<close>)
  note low0 = low [where j = 0, simplified]
  have hw: "heap_ok ?w1 ?z1 lim"
    by (rule heap_ok_low [OF h1]) (simp_all add: low0 [OF bo1 l(1)] del: heap_end_simps)
  have "unat (firstFreeSegment ?w1) = unat (firstFreeSegment s) + 40" using r b by (simp add: unat_plus_small)
  then have "room lim ?w1" using r by (simp add: room_def)
  from hw this obtain m2 e where m2: "malloc vp 12 ?w1 = ret e (?w1\<lparr>kmem := m2, firstFreeSegment := firstFreeSegment ?w1 + 40\<rparr>)"
    and h2: "heap_ok (?w1\<lparr>kmem := m2, firstFreeSegment := firstFreeSegment ?w1 + 40\<rparr>) ?z2 lim"
    and e: "node ?z2 e" "\<not> node ?z1 e" and k2: "kept ?z1 {} (kmem ?w1) m2"
    and z: "ld32 m2 e = 0" "ld32 m2 (e + 4) = 0" "ld32 m2 (e + 8) = 0"
    and o2: "\<And>x. lim \<le> unat x \<Longrightarrow> m2 x = kmem ?w1 x"
    by (rule malloc_node [where vp = vp]) (rule that)
  have bo2: "blocks_ok ?z2" using heap_ok_blocks_ok [OF h2] .
  have l2: "node ?z2 l" and ne: "l \<noteq> e" using l e node_snoc by blast+
  have se: "sep l e" "sep e l" using node_sep [OF bo2 l2 e(1) ne] sep_sym by blast+
  have al: "aligned l" "aligned e" using node_aligned [OF bo2] l2 e(1) by auto
  define m where "m = st32 l 1 (st32 e d (st32 (l + 8) e (st32 (l + 4) e m2)))"
  have st: "?w1\<lparr>kmem := m2, firstFreeSegment := firstFreeSegment ?w1 + 40\<rparr>\<lparr>kmem := m\<rparr> =
      s\<lparr>kmem := m, firstFreeSegment := firstFreeSegment s + 40 + 40\<rparr>" by simp
  have run: "list_init_with vp d s = ret l (s\<lparr>kmem := m, firstFreeSegment := firstFreeSegment s + 40 + 40\<rparr>)"
    using m1 m2 se al by (simp add: list_init_with_def sizeof_list_def sizeof_list_elem_def Let_def m_def)
  have lowm: "m x = m2 x" if "heap_end ?z2 \<le> unat x" for x
    using low [OF bo2 l2 _ that] low [OF bo2 e(1) _ that] low0 [OF bo2 l2 that] low0 [OF bo2 e(1) that] by (simp add: m_def)
  have hm: "heap_ok (s\<lparr>kmem := m, firstFreeSegment := firstFreeSegment s + 40 + 40\<rparr>) ?z2 lim"
    unfolding st [symmetric] by (rule heap_ok_low [OF h2]) (simp_all add: lowm del: heap_end_simps)
  have "kept zs {} (kmem s) m"
    unfolding kept_def
  proof (intro allI impI, elim conjE)
    fix a k assume a: "node zs a" "unat k < 16" "aligned k"
    have n: "node ?z1 a" "node ?z2 a" "a \<noteq> l" "a \<noteq> e" using a(1) l e node_snoc by blast+
    have "sep l a" "sep e a" by (rule node_sep [OF bo2]; use n l2 e in auto)+
    then have "ld32 m (a + k) = ld32 m2 (a + k)" using a by (simp add: m_def)
    also have "\<dots> = ld32 (st32 l 1 m1) (a + k)" using k2 n(1) a(2,3) by (simp add: kept_def)
    also have "\<dots> = ld32 (kmem s) (a + k)" using \<open>sep l a\<close> k1 a by (simp add: kept_def)
    finally show "ld32 m (a + k) = ld32 (kmem s) (a + k)" .
  qed
  moreover have "list_at m ?z2 l [e] [d]"
    using se al l2 e(1) ne z by (simp add: list_at_def linked_def m_def)
  moreover have "m x = kmem s x" if "lim \<le> unat x" for x
  proof -
    have x: "heap_end ?z2 \<le> unat x" "heap_end ?z1 \<le> unat x"
      using h1 h2 that by (simp_all add: heap_ok_def del: heap_end_simps)
    then show ?thesis using lowm [OF x(1)] o1 [OF that] o2 [OF that] low0 [OF bo1 l(1) x(2)] by simp
  qed
  moreover have "\<not> node zs e" using e(2) node_snoc by blast
  ultimately show ?thesis using run hm l(2) that by blast
qed

lemma queues_init_with:
  assumes q: "queues lim s Q" and r: "unat (firstFreeSegment s) + 104 \<le> lim"
  obtains m l where "list_init_with vp d s = ret l (s\<lparr>kmem := m, firstFreeSegment := firstFreeSegment s + 40 + 40\<rparr>)"
    and "queues lim (s\<lparr>kmem := m, firstFreeSegment := firstFreeSegment s + 40 + 40\<rparr>) (Q(l \<mapsto> [d]))"
    and "Q l = None" and "\<And>x. lim \<le> unat x \<Longrightarrow> m x = kmem s x"
proof -
  obtain zs N where h: "heap_ok s zs lim" and at: "\<And>l xs. Q l = Some xs \<Longrightarrow> list_at (kmem s) zs l (N l) xs"
    and dj: "\<And>l k. l \<in> dom Q \<Longrightarrow> k \<in> dom Q \<Longrightarrow> l \<noteq> k \<Longrightarrow> set (l # N l) \<inter> set (k # N k) = {}"
    by (rule queues_obtain [OF q]) (rule that)
  obtain m l e where run: "list_init_with vp d s = ret l (s\<lparr>kmem := m, firstFreeSegment := firstFreeSegment s + 40 + 40\<rparr>)"
    and h': "heap_ok (s\<lparr>kmem := m, firstFreeSegment := firstFreeSegment s + 40 + 40\<rparr>) ((zs @ [16]) @ [16]) lim"
    and l': "list_at m ((zs @ [16]) @ [16]) l [e] [d]" and k: "kept zs {} (kmem s) m" and e: "\<not> node zs l" "\<not> node zs e"
    and o: "\<And>x. lim \<le> unat x \<Longrightarrow> m x = kmem s x"
    by (rule list_init_with_result [OF h r, where vp = vp and d = d]) (rule that)
  have ne: "l \<notin> set (j # N j)" "e \<notin> set (j # N j)" if "j \<in> dom Q" for j
    using that at e by (fastforce simp: list_at_def)+
  then have n: "Q l = None" by (metis domIff list.set_intros(1))
  have "queues lim (s\<lparr>kmem := m, firstFreeSegment := firstFreeSegment s + 40 + 40\<rparr>) (Q(l \<mapsto> [d]))"
  proof (rule queues_intro [OF h', where N = "N(l := [e])"])
    fix j ys assume j: "(Q(l \<mapsto> [d])) j = Some ys"
    show "list_at (kmem (s\<lparr>kmem := m, firstFreeSegment := firstFreeSegment s + 40 + 40\<rparr>)) ((zs @ [16]) @ [16]) j ((N(l := [e])) j) ys"
      using j l' list_at_snoc [OF list_at_snoc [OF list_at_kept [OF k at]]] by (cases "j = l") simp_all
  next
    fix i j assume ij: "i \<in> dom (Q(l \<mapsto> [d]))" "j \<in> dom (Q(l \<mapsto> [d]))" "i \<noteq> j"
    then show "set (i # (N(l := [e])) i) \<inter> set (j # (N(l := [e])) j) = {}"
      using dj [of i j] ne [of i] ne [of j] by (auto simp: domI split: if_splits)
  qed
  with run n o show ?thesis using that by blast
qed

end
