(* ===== verification/Switch.thy ===== *)
theory Switch
  imports Lists
begin

text \<open>
  The thread struct, the stacks that \<^verbatim>\<open>thread_create\<close> prepares and the assembly of
  \<^verbatim>\<open>src/thread/tswitch.asm\<close>, register by register: \<^verbatim>\<open>context_switch\<close> and \<^verbatim>\<open>first_switch\<close>. The theorems
  say that switching to a thread that was switched from returns to where it was, and that
  switching to a new thread arrives at \<^verbatim>\<open>run\<close> with the thread's function and argument.
\<close>

section \<open>The thread struct (\<^verbatim>\<open>src/thread/thread.h\<close>)\<close>

abbreviation thr_stack :: "kstate \<Rightarrow> ptr \<Rightarrow> ptr" where "thr_stack s t \<equiv> rd s t"
abbreviation thr_id :: "kstate \<Rightarrow> ptr \<Rightarrow> u32" where "thr_id s t \<equiv> rd s (t + 4)"
abbreviation thr_status :: "kstate \<Rightarrow> ptr \<Rightarrow> u32" where "thr_status s t \<equiv> rd s (t + 24)"
abbreviation thr_page_directory :: "kstate \<Rightarrow> ptr \<Rightarrow> ptr" where "thr_page_directory s t \<equiv> rd s (t + 28)"
abbreviation thr_pool :: "kstate \<Rightarrow> ptr \<Rightarrow> ptr" where "thr_pool s t \<equiv> rd s (t + 32)"
abbreviation thr_priority :: "kstate \<Rightarrow> ptr \<Rightarrow> u32" where "thr_priority s t \<equiv> rd s (t + 36)"
abbreviation thr_magic :: "kstate \<Rightarrow> ptr \<Rightarrow> u32" where "thr_magic s t \<equiv> rd s (t + 40)"

record thread =
  td_stack :: ptr
  td_id :: u32
  td_name :: "u8 list"
  td_status :: u32
  td_page_directory :: ptr
  td_pool :: ptr
  td_priority :: u32
  td_magic :: u32

definition thread_at :: "mem \<Rightarrow> ptr \<Rightarrow> thread" where
  "thread_at m t = \<lparr>td_stack = ld32 m t, td_id = ld32 m (t + 4),
     td_name = map (\<lambda>i. m (t + 8 + of_nat i)) [0..<16], td_status = ld32 m (t + 24),
     td_page_directory = ld32 m (t + 28), td_pool = ld32 m (t + 32), td_priority = ld32 m (t + 36),
     td_magic = ld32 m (t + 40)\<rparr>"

definition TS_READY :: u32 where "TS_READY = 0"
definition TS_RUNNING :: u32 where "TS_RUNNING = 1"
definition TS_BLOCKED :: u32 where "TS_BLOCKED = 2"
definition TS_DYING :: u32 where "TS_DYING = 3"

lemmas thread_statuses = TS_READY_def TS_RUNNING_def TS_BLOCKED_def TS_DYING_def

definition T_MAGIC :: u32 where "T_MAGIC = 0x69696969"
definition K_THREAD_BASE :: ptr where "K_THREAD_BASE = 0xC0007000"
definition TIME_SLICE :: int where "TIME_SLICE = 4"

definition is_thread :: "ptr \<Rightarrow> kstate \<Rightarrow> bool" where
  "is_thread t s \<longleftrightarrow> thr_magic s t = T_MAGIC"

definition get_esp :: "kstate \<Rightarrow> u32" where "get_esp s = esp s"
definition get_pd :: "kstate \<Rightarrow> ptr" where "get_pd s = cr3 s"

definition get_base_page :: "ptr \<Rightarrow> ptr" where
  "get_base_page addr = (let remainder = addr mod PGSIZE; base = addr in base - remainder)"

definition current_thread :: "kstate \<Rightarrow> ptr kres" where
  "current_thread s =
     (let t = get_base_page (get_esp s)
      in if thr_magic s t \<noteq> T_MAGIC then PANIC ''TRIED TO RETRIEVE NON-THREAD PAGE'' s else ret t s)"

definition create_id :: "kstate \<Rightarrow> u32 \<times> kstate" where
  "create_id s = (let s = s\<lparr>num_threads := num_threads s + 1\<rparr> in (num_threads s, s))"

definition push_stack :: "ptr \<Rightarrow> u32 \<Rightarrow> kstate \<Rightarrow> ptr kres" where
  "push_stack t n s =
     (if \<not> is_thread t s then PANIC ''pushing stack to non-thread'' s
      else let s = wr t (thr_stack s t - n) s in ret (thr_stack s t) s)"

section \<open>A new thread's struct and stack (\<^verbatim>\<open>thread_create\<close>)\<close>

text \<open>The addresses that the linker gives to the functions whose addresses the code takes.\<close>

record symbols =
  sym_run :: ptr
  sym_first_switch :: ptr
  sym_idle :: ptr
  sym_thread_echo :: ptr

definition sizeof_runframe :: u32 where "sizeof_runframe = 12"
definition sizeof_switch_entry_stack :: u32 where "sizeof_switch_entry_stack = 4"
definition sizeof_context_switch_stack :: u32 where "sizeof_context_switch_stack = 28"

definition thread_fields :: "ptr \<Rightarrow> kstate \<Rightarrow> kstate" where
  "thread_fields new s =
     (let (i, s) = create_id s;
          s = wr (new + 4) i s;
          s = wr (new + 40) T_MAGIC s;
          s = wr (new + 28) (get_pd s) s;
          s = wr (new + 32) (kernel_pool s) s;
          s = wr (new + 36) 1 s;
          s = wr new (new + PGSIZE) s
      in wr (new + 24) TS_BLOCKED s)"

definition thread_stack :: "symbols \<Rightarrow> ptr \<Rightarrow> ptr \<Rightarrow> u32 \<Rightarrow> kstate \<Rightarrow> unit kres" where
  "thread_stack sy new func aux s =
     seq (push_stack new sizeof_runframe s) (\<lambda>run_stack s.
     let s = wr run_stack 0 s;
         s = wr (run_stack + 4) func s;
         s = wr (run_stack + 8) aux s in
     seq (push_stack new sizeof_switch_entry_stack s) (\<lambda>switch_stack s.
     let s = wr switch_stack (sym_run sy) s in
     seq (push_stack new sizeof_context_switch_stack s) (\<lambda>context_stack s.
     let s = wr (context_stack + 16) (sym_first_switch sy) s
     in ret () (wr (context_stack + 8) 0 s))))"

section \<open>The assembly (\<^verbatim>\<open>src/thread/tswitch.asm\<close>)\<close>

record regs =
  eax :: u32
  ebx :: u32
  ecx :: u32
  edx :: u32
  esi :: u32
  edi :: u32
  ebp :: u32

text \<open>\<^verbatim>\<open>push\<close>, \<^verbatim>\<open>pop\<close>, and \<^verbatim>\<open>call\<close> with the return address the assembler gives.\<close>

definition push_reg :: "u32 \<Rightarrow> kstate \<Rightarrow> kstate" where
  "push_reg v s = wr (esp s - 4) v (s\<lparr>esp := esp s - 4\<rparr>)"

definition pop_reg :: "kstate \<Rightarrow> u32 \<times> kstate" where
  "pop_reg s = (rd s (esp s), s\<lparr>esp := esp s + 4\<rparr>)"

definition save_regs :: "regs \<Rightarrow> kstate \<Rightarrow> kstate" where
  "save_regs r s = push_reg (edi r) (push_reg (esi r) (push_reg (ebx r) (push_reg (ebp r) s)))"

definition swap_stacks :: "regs \<Rightarrow> kstate \<Rightarrow> regs \<times> kstate" where
  "swap_stacks r s =
     (let r = r\<lparr>edx := 0\<rparr>;
          r = r\<lparr>eax := rd s (20 + esp s)\<rparr>;
          s = wr (eax r + edx r) (esp s) s;
          r = r\<lparr>ecx := rd s (24 + esp s)\<rparr>;
          s = s\<lparr>esp := rd s (ecx r + edx r)\<rparr>
      in (r, s))"

definition load_regs :: "regs \<Rightarrow> kstate \<Rightarrow> regs \<times> kstate" where
  "load_regs r s =
     (let (v, s) = pop_reg s; r = r\<lparr>edi := v\<rparr>;
          (v, s) = pop_reg s; r = r\<lparr>esi := v\<rparr>;
          (v, s) = pop_reg s; r = r\<lparr>ebx := v\<rparr>;
          (v, s) = pop_reg s; r = r\<lparr>ebp := v\<rparr>
      in (r, s))"

text \<open>The result is the address that \<^verbatim>\<open>ret\<close> jumps to, the registers and the state there.\<close>

definition context_switch :: "regs \<Rightarrow> kstate \<Rightarrow> u32 \<times> regs \<times> kstate" where
  "context_switch r s =
     (let s = save_regs r s;
          (r, s) = swap_stacks r s;
          (r, s) = load_regs r s;
          (eip, s) = pop_reg s
      in (eip, r, s))"

text \<open>\<^verbatim>\<open>first_switch\<close> up to its call of \<^verbatim>\<open>switch_complete\<close>, and from there to its \<^verbatim>\<open>ret\<close>.\<close>

definition first_switch_call :: "u32 \<Rightarrow> regs \<Rightarrow> kstate \<Rightarrow> kstate" where
  "first_switch_call return_addr r s =
     (let s = s\<lparr>esp := esp s + 8\<rparr>;
          s = push_reg (eax r) s
      in push_reg return_addr s)"

definition first_switch_ret :: "kstate \<Rightarrow> u32 \<times> kstate" where
  "first_switch_ret s = (let s = s\<lparr>esp := esp s + 4\<rparr> in pop_reg s)"

section \<open>Switching\<close>

text \<open>
  \<open>on_stack t e\<close>: \<open>e\<close> is a stack address in the page of the thread \<open>t\<close>, with room for the registers
  above the struct and for a return address and two arguments below the page's end.
\<close>

definition on_stack :: "ptr \<Rightarrow> ptr \<Rightarrow> bool" where
  "on_stack t e \<longleftrightarrow> page_aligned t \<and> aligned e \<and> 60 \<le> unat (e - t) \<and> unat (e - t) \<le> 4084"

lemma on_stack_aligned: "on_stack t e \<Longrightarrow> aligned e" "on_stack t e \<Longrightarrow> aligned t"
  by (simp_all add: on_stack_def page_aligned_imp_aligned)

text \<open>A cell near the top of a stack, as an offset in the thread's page.\<close>

lemma minus_eq_offset: "e - d = t + j \<longleftrightarrow> e - t - d = j" for e t d j :: u32
  by (auto simp: diff_eq_eq add.commute add.left_commute)

lemma plus_eq_offset: "e + d = t + j \<longleftrightarrow> e - t + d = j" for e t d j :: u32
  unfolding diff_add_eq diff_eq_eq by (simp only: add.commute)

lemma on_stack_below:
  assumes "on_stack t e" and "unat d \<le> 16"
  shows "e - d = t + (e - t - d)" and "unat (e - t - d) = unat (e - t) - unat d"
  using assms by (simp_all only: minus_eq_offset) (simp add: on_stack_def unat_sub word_le_nat_alt)

lemma on_stack_above:
  assumes "on_stack t e" and "unat d \<le> 8"
  shows "e + d = t + (e - t + d)" and "unat (e - t + d) = unat (e - t) + unat d"
proof -
  show "e + d = t + (e - t + d)" by simp
  show "unat (e - t + d) = unat (e - t) + unat d"
    using assms by (intro unat_plus_small) (simp add: on_stack_def)
qed

lemma on_stack_other_page:
  assumes "on_stack t e" and "page_aligned u" and "u \<noteq> t" and "unat j < 4096"
  shows "unat d \<le> 16 \<Longrightarrow> e - d \<noteq> u + j" and "unat d \<le> 8 \<Longrightarrow> e + d \<noteq> u + j" and "t \<noteq> u + j"
proof -
  have t: "page_aligned t" "unat (e - t) \<le> 4084" using assms(1) by (simp_all add: on_stack_def)
  show "e - d \<noteq> u + j" if "unat d \<le> 16"
    using page_offset_inj [OF t(1) assms(2), of "e - t - d" j] on_stack_below(2) [OF assms(1) that] t(2) assms(3,4)
    by (subst on_stack_below(1) [OF assms(1) that]) simp
  show "e + d \<noteq> u + j" if "unat d \<le> 8"
    using page_offset_inj [OF t(1) assms(2), of "e - t + d" j] on_stack_above(2) [OF assms(1) that] t(2) assms(3,4) that
    by (subst on_stack_above(1) [OF assms(1) that]) simp
  show "t \<noteq> u + j"
    using page_offset_inj [OF t(1) assms(2), of 0 j] assms(3,4) by simp
qed

lemma on_stack_not_struct:
  assumes "on_stack t e" and "unat j < 44"
  shows "unat d \<le> 16 \<Longrightarrow> e - d \<noteq> t + j" and "unat d \<le> 8 \<Longrightarrow> e + d \<noteq> t + j"
proof -
  have k: "60 \<le> unat (e - t)" using assms(1) by (simp add: on_stack_def)
  show "e - d \<noteq> t + j" if "unat d \<le> 16"
    using on_stack_below(2) [OF assms(1) that] k that assms(2) by (auto simp only: minus_eq_offset)
  show "e + d \<noteq> t + j" if "unat d \<le> 8"
    using on_stack_above(2) [OF assms(1) that] k that assms(2) by (auto simp only: plus_eq_offset)
qed

text \<open>The memory in which \<^verbatim>\<open>context_switch\<close> leaves its caller.\<close>

definition saved :: "regs \<Rightarrow> ptr \<Rightarrow> mem \<Rightarrow> mem" where
  "saved r e m = st32 (e - 16) (edi r) (st32 (e - 12) (esi r) (st32 (e - 8) (ebx r) (st32 (e - 4) (ebp r) m)))"

definition switched :: "regs \<Rightarrow> ptr \<Rightarrow> ptr \<Rightarrow> mem \<Rightarrow> mem" where
  "switched r t e m = st32 t (e - 16) (saved r e m)"

lemma save_regs_eq: "save_regs r s = s\<lparr>kmem := saved r (esp s) (kmem s), esp := esp s - 16\<rparr>"
  by (simp add: save_regs_def push_reg_def saved_def)

lemma aligned_minus: "aligned a \<Longrightarrow> aligned b \<Longrightarrow> aligned (a - b)"
  by (auto simp: aligned_def unat_sub_if_size word_size intro!: dvd_diff_nat dvd_add)

text \<open>Both switches of a thread, its saving and its loading of registers, in one step each.\<close>

lemma switched_above:
  assumes "on_stack t e" and "unat d \<le> 8" and "aligned d"
  shows "ld32 (switched r t e m) (e + d) = ld32 m (e + d)"
proof -
  have n: "e - c \<noteq> e + d" if "unat c \<le> 16" "c \<noteq> 0" for c
  proof
    assume "e - c = e + d"
    then have d: "- c = d" by simp
    have "e - t - c = e - t + d" by (simp add: d [symmetric])
    then have "unat (e - t - c) = unat (e - t + d)" by (rule arg_cong)
    moreover have "0 < unat c" "60 \<le> unat (e - t)"
      using that(2) assms(1) by (simp_all add: on_stack_def unat_gt_0)
    ultimately show False
      using on_stack_below(2) [OF assms(1) that(1)] on_stack_above(2) [OF assms(1,2)] that(1) by linarith
  qed
  have "t \<noteq> e + d" using on_stack_not_struct(2) [OF assms(1), of 0 d] assms(2) by auto
  then show ?thesis
    using n [of 4] n [of 8] n [of 12] n [of 16] on_stack_aligned [OF assms(1)] assms(3)
    by (simp add: switched_def saved_def aligned_minus)
qed

lemma context_switch_to:
  assumes on: "on_stack t (esp s)" and cur: "rd s (esp s + 4) = t" and nxt: "rd s (esp s + 8) = u"
    and m: "m = switched r t (esp s) (kmem s)" and p: "p = ld32 m u"
  shows "context_switch r s = (ld32 m (p + 16),
    \<lparr>eax = t, ebx = ld32 m (p + 8), ecx = u, edx = 0, esi = ld32 m (p + 4), edi = ld32 m p, ebp = ld32 m (p + 12)\<rparr>,
    s\<lparr>kmem := m, esp := p + 20\<rparr>)"
proof -
  let ?s = "s\<lparr>kmem := saved r (esp s) (kmem s), esp := esp s - 16\<rparr>"
  have tm: "switched r t (esp s) (kmem s) = st32 t (esp s - 16) (kmem ?s)" by (simp add: switched_def)
  have e: "t \<noteq> esp s + 4" "t \<noteq> esp s + 8"
    using on_stack_not_struct(2) [OF on, of 0 4] on_stack_not_struct(2) [OF on, of 0 8] by auto
  have "rd ?s (4 + esp s) = t"
    using switched_above [OF on, of 4 r "kmem s"] cur e on_stack_aligned [OF on]
    by (simp add: switched_def add.commute [of 4])
  moreover have "ld32 m (8 + esp s) = u"
    using switched_above [OF on, of 8 r "kmem s"] nxt by (simp add: m add.commute [of 8])
  ultimately have sw: "swap_stacks r ?s = (r\<lparr>edx := 0, eax := t, ecx := u\<rparr>, s\<lparr>kmem := m, esp := p\<rparr>)"
    by (simp add: swap_stacks_def m p tm)
  show ?thesis
    by (auto simp: context_switch_def save_regs_eq sw load_regs_def pop_reg_def add.commute [of p] intro!: regs.equality)
qed

text \<open>The page of the thread that is not running is left alone.\<close>

lemma switched_other_page:
  assumes "on_stack t e" and "page_aligned u" and "u \<noteq> t" and "unat j < 4096" and "aligned j"
  shows "ld32 (switched r t e m) (u + j) = ld32 m (u + j)"
  using on_stack_other_page [OF assms(1-4)] on_stack_aligned [OF assms(1)] assms(2,5)
  by (simp add: switched_def saved_def aligned_minus page_aligned_imp_aligned)

text \<open>What \<^verbatim>\<open>context_switch\<close> leaves on its caller's stack.\<close>

lemma switched_cells:
  assumes "on_stack t e"
  shows "ld32 (switched r t e m) t = e - 16" "ld32 (switched r t e m) (e - 16) = edi r"
    "ld32 (switched r t e m) (e - 12) = esi r" "ld32 (switched r t e m) (e - 8) = ebx r"
    "ld32 (switched r t e m) (e - 4) = ebp r"
proof -
  have "e - d \<noteq> t" "t \<noteq> e - d" if "unat d \<le> 16" for d
    using on_stack_not_struct(1) [OF assms, of 0 d] that by auto
  then show "ld32 (switched r t e m) t = e - 16" "ld32 (switched r t e m) (e - 16) = edi r"
    "ld32 (switched r t e m) (e - 12) = esi r" "ld32 (switched r t e m) (e - 8) = ebx r"
    "ld32 (switched r t e m) (e - 4) = ebp r"
    using on_stack_aligned [OF assms] by (simp_all add: switched_def saved_def aligned_minus)
qed

lemma page_kept_ld32:
  assumes "page_aligned t" and k: "\<And>k. unat k < 4096 \<Longrightarrow> m' (t + k) = m (t + k)"
    and "unat j \<le> 4092"
  shows "ld32 m' (t + j) = ld32 m (t + j)"
proof (rule ld32_cong)
  fix i :: u32 assume i: "unat i < 4"
  then have "unat (j + i) = unat j + unat i" using assms(3) by (intro unat_plus_small) simp
  then show "m' (t + j + i) = m (t + j + i)" using k [of "j + i"] i assms(3) by (simp add: add.assoc)
qed

text \<open>
  C5: a thread that \<^verbatim>\<open>context_switch\<close> left continues where it was: when any other thread switches
  to it, its saved stack pointer and its stack unchanged in between, the processor returns to the caller of the first switch
  with the stack pointer behind the return address, all four registers that C functions preserve
  as they were, and the previous thread as the result.
\<close>

theorem context_switch_returns:
  assumes "on_stack t (esp s)" and "rd s (esp s + 4) = t" and "rd s (esp s + 8) = u"
    and "context_switch r s = (eip1, r1, s1)"
    and "on_stack x (esp s2)" and "x \<noteq> t" and "rd s2 (esp s2 + 4) = x" and "rd s2 (esp s2 + 8) = t"
    and kept: "\<forall>j. aligned j \<and> (j = 0 \<or> 44 \<le> unat j) \<and> unat j < 4096 \<longrightarrow> rd s2 (t + j) = rd s1 (t + j)"
  shows "\<exists>r3 s3. context_switch r2 s2 = (rd s (esp s), r3, s3) \<and> esp s3 = esp s + 4 \<and>
    eax r3 = x \<and> ebx r3 = ebx r \<and> esi r3 = esi r \<and> edi r3 = edi r \<and> ebp r3 = ebp r"
proof -
  let ?e = "esp s" and ?m1 = "switched r t (esp s) (kmem s)" and ?m2 = "switched r2 x (esp s2) (kmem s2)"
  have t: "page_aligned t" using assms(1) by (simp add: on_stack_def)
  have m1: "kmem s1 = ?m1"
    using context_switch_to [OF assms(1-3) refl refl, of r] assms(4) by auto
  have page: "ld32 ?m2 (t + j) = ld32 ?m1 (t + j)" if "j = 0 \<or> 44 \<le> unat j" "unat j \<le> 4092" "aligned j" for j
  proof -
    have "ld32 ?m2 (t + j) = ld32 (kmem s2) (t + j)"
      using that assms(6) by (intro switched_other_page [OF assms(5) t]) simp_all
    then show ?thesis
      using kept m1 that by simp
  qed
  have cell: "ld32 ?m2 (?e - d) = ld32 ?m1 (?e - d)" if "unat d \<le> 16" "aligned d" for d
  proof -
    have "aligned (?e - t - d)"
      using that on_stack_aligned [OF assms(1)] by (intro aligned_minus)
    moreover have k: "44 \<le> unat (?e - t - d)" "unat (?e - t - d) \<le> 4092"
      using on_stack_below(2) [OF assms(1) that(1)] assms(1) that(1) unfolding on_stack_def by linarith+
    ultimately show ?thesis
      using page [of "?e - t - d"] k by simp
  qed
  have p: "ld32 ?m2 t = ?e - 16" using page [of 0] switched_cells(1) [OF assms(1)] by simp
  have "ld32 ?m2 (?e - 16) = edi r" "ld32 ?m2 (?e - 12) = esi r" "ld32 ?m2 (?e - 8) = ebx r"
    "ld32 ?m2 (?e - 4) = ebp r" "ld32 ?m2 ?e = rd s ?e"
    using cell [of 16] cell [of 12] cell [of 8] cell [of 4] cell [of 0] switched_cells [OF assms(1)]
      switched_above [OF assms(1), of 0] by simp_all
  then show ?thesis
    using context_switch_to [OF assms(5,7,8) refl p [symmetric]] by simp
qed

text \<open>Two stacks for the witnesses: a thread at \<^verbatim>\<open>0xC0008000\<close> about to switch to one at \<^verbatim>\<open>0xC0009000\<close>.\<close>

definition zero_regs :: regs where
  "zero_regs = \<lparr>eax = 0, ebx = 0, ecx = 0, edx = 0, esi = 0, edi = 0, ebp = 0\<rparr>"

definition calling_switch :: "ptr \<Rightarrow> ptr \<Rightarrow> ptr \<Rightarrow> kstate \<Rightarrow> kstate" where
  "calling_switch e t u s = (wr (e + 4) t (wr (e + 8) u s))\<lparr>esp := e\<rparr>"

lemma calling_switch_args:
  assumes "aligned e"
  shows "esp (calling_switch e t u s) = e" "rd (calling_switch e t u s) (e + 4) = t"
    "rd (calling_switch e t u s) (e + 8) = u"
  using assms by (simp_all add: calling_switch_def)

lemma calling_switch_page:
  assumes "page_aligned p" and "unat e \<ge> unat p + 4096" and "unat e + 12 \<le> 4294967296" and "unat k < 4096"
  shows "kmem (calling_switch e t u s) (p + k) = kmem s (p + k)"
proof -
  have "unat (e + 4) = unat e + 4" "unat (e + 8) = unat e + 8"
    using assms(3) by (simp_all add: unat_plus_small)
  then show ?thesis
    using assms page_plus_unat [OF assms(1,4)] by (simp add: calling_switch_def st32_frame)
qed

lemma calling_switch_words:
  assumes "page_aligned p" and "unat e \<ge> unat p + 4096" and "unat e + 12 \<le> 4294967296"
    and "aligned j" and "unat j < 4096"
  shows "rd (calling_switch e t u s) (p + j) = rd s (p + j)"
proof -
  have "4 dvd unat j" using assms(4) by (simp add: aligned_def)
  then have "unat j \<le> 4092" using assms(5) by presburger
  then show ?thesis
    by (intro page_kept_ld32 [OF assms(1)] calling_switch_page assms)
qed

theorem context_switch_returns_witness:
  "\<exists>s eip1 r1 s1 s2 r3 s3. context_switch (zero_regs\<lparr>ebx := 3, edi := 5\<rparr>) s = (eip1, r1, s1) \<and>
     esp s2 = 0xC0009F00 \<and> context_switch zero_regs s2 = (rd s (esp s), r3, s3) \<and>
     esp s3 = esp s + 4 \<and> ebx r3 = 3 \<and> edi r3 = 5 \<and> eax r3 = 0xC0009000"
proof -
  let ?s = "calling_switch 0xC0008F00 0xC0008000 0xC0009000 heap_state"
  have on: "on_stack 0xC0008000 0xC0008F00" "on_stack 0xC0009000 0xC0009F00"
    by (simp_all add: on_stack_def page_aligned_def)
  obtain eip1 r1 s1 where s1: "context_switch (zero_regs\<lparr>ebx := 3, edi := 5\<rparr>) ?s = (eip1, r1, s1)"
    by (metis surj_pair)
  let ?s2 = "calling_switch 0xC0009F00 0xC0009000 0xC0008000 s1"
  have k: "\<forall>j. aligned j \<and> (j = 0 \<or> 44 \<le> unat j) \<and> unat j < 4096 \<longrightarrow>
      rd ?s2 (0xC0008000 + j) = rd s1 (0xC0008000 + j)"
    by (intro allI impI calling_switch_words) (simp_all add: page_aligned_def)
  have a1: "rd ?s (esp ?s + 4) = 0xC0008000" "rd ?s (esp ?s + 8) = 0xC0009000" "on_stack 0xC0008000 (esp ?s)"
    using calling_switch_args [of "0xC0008F00"] on by simp_all
  have a2: "rd ?s2 (esp ?s2 + 4) = 0xC0009000" "rd ?s2 (esp ?s2 + 8) = 0xC0008000" "on_stack 0xC0009000 (esp ?s2)"
    using calling_switch_args [of "0xC0009F00"] on by simp_all
  have "esp ?s2 = 0xC0009F00" by (simp add: calling_switch_def)
  moreover have "\<exists>r3 s3. context_switch zero_regs ?s2 = (rd ?s (esp ?s), r3, s3) \<and> esp s3 = esp ?s + 4 \<and>
      eax r3 = 0xC0009000 \<and> ebx r3 = ebx (zero_regs\<lparr>ebx := 3, edi := 5\<rparr>) \<and>
      esi r3 = esi (zero_regs\<lparr>ebx := 3, edi := 5\<rparr>) \<and> edi r3 = edi (zero_regs\<lparr>ebx := 3, edi := 5\<rparr>) \<and>
      ebp r3 = ebp (zero_regs\<lparr>ebx := 3, edi := 5\<rparr>)"
    by (rule context_switch_returns [OF a1(3,1,2) s1 a2(3) _ a2(1,2) k]) simp
  ultimately show ?thesis using s1 by (auto 0 6)
qed

section \<open>The first switch to a new thread\<close>

text \<open>What \<^verbatim>\<open>thread_create\<close> leaves on the new thread's stack.\<close>

definition new_stack_at :: "symbols \<Rightarrow> ptr \<Rightarrow> u32 \<Rightarrow> u32 \<Rightarrow> mem \<Rightarrow> bool" where
  "new_stack_at sy t func aux m \<longleftrightarrow> page_aligned t \<and> ld32 m t = t + 4052 \<and>
     ld32 m (t + 4068) = sym_first_switch sy \<and> ld32 m (t + 4080) = sym_run sy \<and>
     ld32 m (t + 4084) = 0 \<and> ld32 m (t + 4088) = func \<and> ld32 m (t + 4092) = aux"

lemma push_stack_ret: "is_thread t s \<Longrightarrow> push_stack t n s = ret (thr_stack s t - n) (wr t (thr_stack s t - n) s)"
  by (simp add: push_stack_def)

lemma thread_stack_result:
  assumes "page_aligned t" and "thr_stack s t = t + PGSIZE" and "is_thread t s"
  obtains m where "thread_stack sy t func aux s = ret () (s\<lparr>kmem := m\<rparr>)" and "new_stack_at sy t func aux m"
    and "\<And>j. 4 \<le> unat j \<Longrightarrow> unat j < 44 \<Longrightarrow> aligned j \<Longrightarrow> ld32 m (t + j) = rd s (t + j)"
    and "\<And>x. unat x < unat t \<or> unat t + 4096 \<le> unat x \<Longrightarrow> m x = kmem s x"
proof -
  have a: "aligned t" using assms(1) by (rule page_aligned_imp_aligned)
  have top: "unat t + 4096 \<le> 4294967296"
    using page_plus_unat [OF assms(1), of 4095] unat_lt32 [of "t + 4095"] by simp
  define m1 where "m1 = st32 (t + 4092) aux (st32 (t + 4088) func (st32 (t + 4084) 0 (st32 t (t + 4084) (kmem s))))"
  define m2 where "m2 = st32 (t + 4080) (sym_run sy) (st32 t (t + 4080) m1)"
  define m3 where "m3 = st32 (t + 4060) 0 (st32 (t + 4068) (sym_first_switch sy) (st32 t (t + 4052) m2))"
  have 1: "ld32 m1 t = t + 4084" "ld32 m1 (t + 40) = T_MAGIC"
    using a assms(3) by (simp_all add: m1_def is_thread_def)
  have 2: "ld32 m2 t = t + 4080" "ld32 m2 (t + 40) = T_MAGIC"
    using a 1 by (simp_all add: m2_def)
  have "thread_stack sy t func aux s = ret () (s\<lparr>kmem := m3\<rparr>)"
    using assms(2,3) 1 2 a
    by (simp add: thread_stack_def push_stack_ret is_thread_def sizeof_runframe_def PGSIZE_def
        sizeof_switch_entry_stack_def sizeof_context_switch_stack_def m1_def m2_def m3_def)
      (rule kstate.equality; simp add: add.commute [of t])
  moreover have "new_stack_at sy t func aux m3"
    using assms a by (simp add: new_stack_at_def m3_def m2_def m1_def)
  moreover have "ld32 m3 (t + j) = rd s (t + j)" if "4 \<le> unat j" "unat j < 44" "aligned j" for j
  proof -
    have "t + k \<noteq> t + j" if "k = 0 \<or> 44 \<le> unat k" for k
      using that \<open>4 \<le> unat j\<close> \<open>unat j < 44\<close> by auto
    from this [of 0] this show ?thesis using that(3) a by (simp add: m3_def m2_def m1_def)
  qed
  moreover have "m3 x = kmem s x" if "unat x < unat t \<or> unat t + 4096 \<le> unat x" for x
  proof -
    have "st32 (t + k) v m x = m x" if "unat k \<le> 4092" for k v m
    proof (rule st32_frame)
      have "unat t + unat k = unat (t + k)" using that by (simp add: page_plus_unat [OF assms(1)])
      then show "unat (t + k) + 4 \<le> 4294967296" "unat x < unat (t + k) \<or> unat (t + k) + 4 \<le> unat x"
        using top that \<open>unat x < unat t \<or> unat t + 4096 \<le> unat x\<close> by linarith+
    qed
    from this [of 0] this show ?thesis by (simp add: m3_def m2_def m1_def)
  qed
  ultimately show ?thesis by (rule that)
qed

text \<open>The way from the switch to the first instruction of \<^verbatim>\<open>run\<close>.\<close>

lemma new_thread_first_switch:
  assumes "on_stack x (esp s)" and "rd s (esp s + 4) = x" and "rd s (esp s + 8) = t" and "x \<noteq> t"
    and n: "new_stack_at sy t func aux (kmem s)"
  obtains r1 s1 where "context_switch r s = (sym_first_switch sy, r1, s1)" and "eax r1 = x"
    and "esp s1 = t + 4072" and "\<And>j. unat j < 4096 \<Longrightarrow> aligned j \<Longrightarrow> rd s1 (t + j) = rd s (t + j)"
proof -
  have t: "page_aligned t" using n by (simp add: new_stack_at_def)
  have page: "ld32 (switched r x (esp s) (kmem s)) (t + j) = rd s (t + j)" if "unat j < 4096" "aligned j" for j
    using that assms(4) by (intro switched_other_page [OF assms(1) t]) simp_all
  have p: "t + 4052 = ld32 (switched r x (esp s) (kmem s)) t"
    using page [of 0] n by (simp add: new_stack_at_def)
  have e: "ld32 (switched r x (esp s) (kmem s)) (t + 4052 + 16) = sym_first_switch sy"
    using page [of 4068] n by (simp add: new_stack_at_def add.commute [of _ t])
  from context_switch_to [OF assms(1-3) refl p] show ?thesis
    unfolding e by (rule that) (use page in simp_all)
qed

lemma first_switch_to_run:
  assumes "new_stack_at sy t func aux (kmem s)" and "esp s1 = t + 4072" and "eax r1 = x"
    and "\<And>j. unat j < 4096 \<Longrightarrow> aligned j \<Longrightarrow> rd s1 (t + j) = rd s (t + j)"
    and s2: "s2 = first_switch_call ra r1 s1"
    and s3: "esp s3 = esp s2 + 4" "\<And>k. 4080 \<le> unat k \<Longrightarrow> unat k < 4096 \<Longrightarrow> kmem s3 (t + k) = kmem s2 (t + k)"
  shows "rd s2 (esp s2) = ra" and "rd s2 (esp s2 + 4) = x"
    and "\<exists>s4. first_switch_ret s3 = (sym_run sy, s4) \<and> esp s4 = t + 4084 \<and>
      rd s4 (esp s4) = 0 \<and> rd s4 (esp s4 + 4) = func \<and> rd s4 (esp s4 + 8) = aux"
proof -
  have t: "page_aligned t" "aligned t"
    using assms(1) by (simp_all add: new_stack_at_def page_aligned_imp_aligned)
  have e2: "s2 = s1\<lparr>esp := t + 4072, kmem := st32 (t + 4072) ra (st32 (t + 4076) x (kmem s1))\<rparr>"
    using assms(2,3) by (simp add: s2 first_switch_call_def push_reg_def) (rule kstate.equality; simp add: add.commute [of t])
  show "rd s2 (esp s2) = ra" and "rd s2 (esp s2 + 4) = x"
    using t by (simp_all add: e2 add.commute [of _ t])
  have "rd s3 (t + j) = rd s (t + j)" if "4080 \<le> unat j" "unat j \<le> 4092" "aligned j" for j
  proof -
    have "rd s3 (t + j) = rd s2 (t + j)"
    proof (rule ld32_cong)
      fix i :: u32 assume i: "unat i < 4"
      then have "unat (j + i) = unat j + unat i" using that by (intro unat_plus_small) simp
      then show "kmem s3 (t + j + i) = kmem s2 (t + j + i)"
        using s3(2) [of "j + i"] i that by (simp add: add.assoc)
    qed
    moreover have "j \<noteq> 4072" "j \<noteq> 4076" using that(1) by auto
    then have "rd s2 (t + j) = rd s1 (t + j)" using t that(3) by (simp add: e2)
    ultimately show ?thesis using assms(4) that by simp
  qed
  from this [of 4080] this [of 4084] this [of 4088] this [of 4092]
  show "\<exists>s4. first_switch_ret s3 = (sym_run sy, s4) \<and> esp s4 = t + 4084 \<and>
      rd s4 (esp s4) = 0 \<and> rd s4 (esp s4 + 4) = func \<and> rd s4 (esp s4 + 8) = aux"
    using assms(1) s3(1) by (simp add: e2 first_switch_ret_def pop_reg_def new_stack_at_def add.commute [of _ t])
qed

text \<open>
  C13: the first switch to a new thread starts its function: once \<^verbatim>\<open>thread_create\<close> has prepared
  the stack, switching to the thread goes through \<^verbatim>\<open>first_switch\<close>, which calls \<^verbatim>\<open>switch_complete\<close>
  with the thread that was running, and from there to \<^verbatim>\<open>run\<close>, on whose stack are a null return
  address, the thread's function and its argument. (\<open>ra\<close> is the return address of the call, \<open>s3\<close>
  the state after it.)
\<close>

theorem new_thread_starts:
  assumes "page_aligned t" and "thr_stack s0 t = t + PGSIZE" and "is_thread t s0"
    and create: "thread_stack sy t func aux s0 = ret () s'"
    and kept: "\<forall>j. aligned j \<and> (j = 0 \<or> 4052 \<le> unat j) \<and> unat j < 4096 \<longrightarrow> rd s (t + j) = rd s' (t + j)"
    and "on_stack x (esp s)" and "x \<noteq> t" and "rd s (esp s + 4) = x" and "rd s (esp s + 8) = t"
  shows "\<exists>r1 s1. context_switch r s = (sym_first_switch sy, r1, s1) \<and>
    (let s2 = first_switch_call ra r1 s1 in rd s2 (esp s2) = ra \<and> rd s2 (esp s2 + 4) = x \<and>
      (\<forall>s3. esp s3 = esp s2 + 4 \<and>
          (\<forall>k. 4080 \<le> unat k \<and> unat k < 4096 \<longrightarrow> kmem s3 (t + k) = kmem s2 (t + k)) \<longrightarrow>
        (\<exists>s4. first_switch_ret s3 = (sym_run sy, s4) \<and> rd s4 (esp s4) = 0 \<and>
          rd s4 (esp s4 + 4) = func \<and> rd s4 (esp s4 + 8) = aux)))"
proof -
  obtain m where "s' = s0\<lparr>kmem := m\<rparr>" "new_stack_at sy t func aux m"
    by (rule thread_stack_result [OF assms(1-3), of sy func aux]) (use create in auto)
  then have n: "new_stack_at sy t func aux (kmem s)"
    using kept spec [OF kept, of 0] by (simp add: new_stack_at_def)
  obtain r1 s1 where sw: "context_switch r s = (sym_first_switch sy, r1, s1)" "eax r1 = x"
    "esp s1 = t + 4072" "\<And>j. unat j < 4096 \<Longrightarrow> aligned j \<Longrightarrow> rd s1 (t + j) = rd s (t + j)"
    by (rule new_thread_first_switch [OF assms(6,8,9,7) n, of r]) (rule that)
  note run = first_switch_to_run [OF n sw(3,2,4) refl, where ra = ra]
  have "rd (first_switch_call ra r1 s1) (esp (first_switch_call ra r1 s1)) = ra"
    "rd (first_switch_call ra r1 s1) (esp (first_switch_call ra r1 s1) + 4) = x"
    by (rule run(1) [of "first_switch_call ra r1 s1\<lparr>esp := esp (first_switch_call ra r1 s1) + 4\<rparr>"]; simp)
      (rule run(2) [of "first_switch_call ra r1 s1\<lparr>esp := esp (first_switch_call ra r1 s1) + 4\<rparr>"]; simp)
  then show ?thesis
    using sw(1) run(3) by (fastforce simp: Let_def)
qed

theorem new_thread_starts_witness:
  "\<exists>s r1 s1 s4. context_switch zero_regs s = (7, r1, s1) \<and>
     (let s2 = first_switch_call 5 r1 s1 in rd s2 (esp s2 + 4) = 0xC0009000 \<and>
       first_switch_ret (s2\<lparr>esp := esp s2 + 4\<rparr>) = (9, s4) \<and>
       rd s4 (esp s4 + 4) = 11 \<and> rd s4 (esp s4 + 8) = 13)"
proof -
  let ?t = "0xC0008000 :: ptr" and ?sy = "\<lparr>sym_run = 9, sym_first_switch = 7, sym_idle = 0, sym_thread_echo = 0\<rparr>"
  let ?z = "heap_state\<lparr>kmem := st32 ?t (?t + PGSIZE) (st32 (?t + 40) T_MAGIC (\<lambda>_. 0))\<rparr>"
  have s0: "page_aligned ?t" "thr_stack ?z ?t = ?t + PGSIZE" "is_thread ?t ?z"
    by (simp_all add: page_aligned_def is_thread_def)
  obtain m where c: "thread_stack ?sy ?t 11 13 ?z = ret () (?z\<lparr>kmem := m\<rparr>)"
    by (rule thread_stack_result [OF s0, of ?sy 11 13]) (rule that)
  let ?s = "calling_switch 0xC0009F00 0xC0009000 ?t (?z\<lparr>kmem := m\<rparr>)"
  have k: "\<forall>j. aligned j \<and> (j = 0 \<or> 4052 \<le> unat j) \<and> unat j < 4096 \<longrightarrow>
      rd ?s (?t + j) = rd (?z\<lparr>kmem := m\<rparr>) (?t + j)"
    by (intro allI impI calling_switch_words) (simp_all add: s0(1))
  have a: "rd ?s (esp ?s + 4) = 0xC0009000" "rd ?s (esp ?s + 8) = ?t" "on_stack 0xC0009000 (esp ?s)"
    using calling_switch_args [of "0xC0009F00"] by (simp_all add: on_stack_def page_aligned_def)
  have n: "0xC0009000 \<noteq> ?t" by simp
  have "\<exists>r1 s1. context_switch zero_regs ?s = (sym_first_switch ?sy, r1, s1) \<and>
    (let s2 = first_switch_call 5 r1 s1 in rd s2 (esp s2) = 5 \<and> rd s2 (esp s2 + 4) = 0xC0009000 \<and>
      (\<forall>s3. esp s3 = esp s2 + 4 \<and>
          (\<forall>k. 4080 \<le> unat k \<and> unat k < 4096 \<longrightarrow> kmem s3 (?t + k) = kmem s2 (?t + k)) \<longrightarrow>
        (\<exists>s4. first_switch_ret s3 = (sym_run ?sy, s4) \<and> rd s4 (esp s4) = 0 \<and>
          rd s4 (esp s4 + 4) = 11 \<and> rd s4 (esp s4 + 8) = 13)))"
    using c k a n by (intro new_thread_starts [OF s0])
  then obtain r1 s1 where sw: "context_switch zero_regs ?s = (sym_first_switch ?sy, r1, s1)"
    and run: "let s2 = first_switch_call 5 r1 s1 in rd s2 (esp s2) = 5 \<and> rd s2 (esp s2 + 4) = 0xC0009000 \<and>
      (\<forall>s3. esp s3 = esp s2 + 4 \<and>
          (\<forall>k. 4080 \<le> unat k \<and> unat k < 4096 \<longrightarrow> kmem s3 (?t + k) = kmem s2 (?t + k)) \<longrightarrow>
        (\<exists>s4. first_switch_ret s3 = (sym_run ?sy, s4) \<and> rd s4 (esp s4) = 0 \<and>
          rd s4 (esp s4 + 4) = 11 \<and> rd s4 (esp s4 + 8) = 13))"
    by blast
  let ?s2 = "first_switch_call 5 r1 s1"
  have "rd ?s2 (esp ?s2 + 4) = 0xC0009000" using run by (simp add: Let_def)
  moreover have "\<exists>s4. first_switch_ret (?s2\<lparr>esp := esp ?s2 + 4\<rparr>) = (sym_run ?sy, s4) \<and> rd s4 (esp s4) = 0 \<and>
      rd s4 (esp s4 + 4) = 11 \<and> rd s4 (esp s4 + 8) = 13"
    using run by (simp add: Let_def)
  moreover have "context_switch zero_regs ?s = (7, r1, s1)" using sw by simp
  ultimately show ?thesis by (simp add: Let_def) blast
qed

end
