(* ===== verification/Threads.thy ===== *)
theory Threads
  imports Switch
begin

text \<open>
  Threads and semaphores (\<^verbatim>\<open>src/thread/thread.c\<close>, \<^verbatim>\<open>src/thread/synch.c\<close>) and their callers from the
  interrupt code. A function that gives up the processor does not return to its caller until
  another thread switches back, so such functions have the result \<open>go\<close>: they are \<open>Done\<close>, or they
  reached \<^verbatim>\<open>context_switch\<close> of two threads, with the calls still open on the stack of the first one
  as a list of frames, innermost first. \<open>resume\<close> continues a thread from its frames.
\<close>

datatype frame =
    In_yield bool
  | In_sema_down ptr bool
  | In_lock_accquire ptr
  | In_idle
  | In_run
  | In_int u32
  | In_iret bool
  | In_echo nat
  | In_boot

datatype go = Done | Switch ptr ptr "frame list"

definition andthen :: "go kres \<Rightarrow> frame \<Rightarrow> (kstate \<Rightarrow> go kres) \<Rightarrow> go kres" where
  "andthen r f k = seq r (\<lambda>g s. case g of Done \<Rightarrow> k s | Switch c n fs \<Rightarrow> ret (Switch c n (fs @ [f])) s)"

text \<open>What the machine and the linker determine: see \<open>malloc\<close>, \<open>ascii_at\<close> and \<open>symbols\<close>.\<close>

record env =
  env_vp :: ptr
  env_rodata :: "nat \<Rightarrow> u8"
  env_symbols :: symbols

section \<open>The scheduler (\<^verbatim>\<open>thread.c\<close>)\<close>

definition thread_kill :: "ptr \<Rightarrow> kstate \<Rightarrow> unit kres" where
  "thread_kill t s =
     seq (kprint_num (thr_id s t) BASE_DEC (kprintln ''KILLING THREAD: '' s)) (\<lambda>_ s.
     seq (remove (all_threads s) t s) (\<lambda>_ s.
     seq (remove (ready_threads s) t s) (\<lambda>_ s. ret () s)))"

definition switch_complete :: "ptr \<Rightarrow> kstate \<Rightarrow> unit kres" where
  "switch_complete prev s =
     seq (current_thread s) (\<lambda>curr s.
     let s = wr (curr + 24) TS_RUNNING s;
         s = s\<lparr>tick_count := 0\<rparr>
     in if thr_status s prev = TS_DYING then thread_kill prev s else ret () s)"

definition get_next_thread :: "kstate \<Rightarrow> ptr \<times> kstate" where
  "get_next_thread s = (if is_empty (ready_threads s) s then (idle_thread s, s) else pop (ready_threads s) s)"

definition schedule :: "kstate \<Rightarrow> go kres" where
  "schedule s =
     seq (current_thread s) (\<lambda>curr s.
     let (nxt, s) = get_next_thread s in
     if int_get_level s then PANIC ''SCHEDULING WITH INTERRUPTS ENABLED'' s
     else if thr_status s curr = TS_RUNNING then PANIC ''current process is still running'' s
     else if curr \<noteq> nxt
     then seq (kprint_num (thr_stack s curr) BASE_HEX (kprintln ''switching from: '' s)) (\<lambda>_ s.
          seq (kprint_num (thr_stack s nxt) BASE_HEX (kprint '' to '' s)) (\<lambda>_ s.
          ret (Switch curr nxt []) s))
     else seq (switch_complete 0 s) (\<lambda>_ s. ret Done s))"

definition thread_yield :: "env \<Rightarrow> kstate \<Rightarrow> go kres" where
  "thread_yield E s =
     seq (current_thread s) (\<lambda>t s.
     let (int_level, s) = int_disable s;
         s = wr (t + 24) TS_READY s in
     seq (if t \<noteq> idle_thread s then append (env_vp E) (ready_threads s) t s else ret () s) (\<lambda>_ s.
     andthen (schedule s) (In_yield int_level) (\<lambda>s. ret Done (int_set int_level s))))"

definition thread_block :: "kstate \<Rightarrow> go kres" where
  "thread_block s =
     (if int_get_level s then PANIC ''Cannot block without interrupts off'' s
      else seq (current_thread s) (\<lambda>t s. schedule (wr (t + 24) TS_BLOCKED s)))"

definition thread_unblock :: "env \<Rightarrow> ptr \<Rightarrow> kstate \<Rightarrow> unit kres" where
  "thread_unblock E t s =
     (if \<not> is_thread t s then PANIC ''NOT THREAD'' s
      else if thr_status s t \<noteq> TS_BLOCKED then PANIC ''UNBLOCKING NON-BLOCKED Thread'' s
      else let (level, s) = int_disable s in
        seq (append (env_vp E) (ready_threads s) t s) (\<lambda>_ s.
        ret () (int_set level (wr (t + 24) TS_READY s))))"

definition thread_create :: "env \<Rightarrow> u32 \<Rightarrow> u32 \<Rightarrow> kstate \<Rightarrow> ptr kres" where
  "thread_create E func aux s =
     seq (palloc_kern 1 (F_ASSERT OR F_KERN OR F_ZERO OR F_VERBOSE) s) (\<lambda>new s.
     let (int_level, s) = int_disable (thread_fields new s) in
     seq (thread_stack (env_symbols E) new func aux s) (\<lambda>_ s.
     seq (append (env_vp E) (all_threads s) new (int_set int_level s)) (\<lambda>_ s.
     seq (thread_unblock E new s) (\<lambda>_ s. ret new s))))"

text \<open>\<^verbatim>\<open>run\<close> up to the call of the thread's function, and from its return on.\<close>

definition run_start :: "u32 \<Rightarrow> kstate \<Rightarrow> unit kres" where
  "run_start function s = (if function = 0 then PANIC ''NULL FUNCTION'' s else ret () (snd (int_enable s)))"

definition run_end :: "kstate \<Rightarrow> go kres" where
  "run_end s =
     seq (current_thread s) (\<lambda>t s.
     andthen (schedule (snd (int_disable (wr (t + 24) TS_DYING s)))) In_run (\<lambda>s. Inl Undefined))"

section \<open>Time (\<^verbatim>\<open>src/lib/timer.c\<close>) and sleeping\<close>

definition time_tick :: "kstate \<Rightarrow> kstate" where
  "time_tick s =
     (let s = s\<lparr>ticks := ticks s + 1\<rparr>
      in if sint (ticks s) mod 18 = 0 then kprintln ''1 second'' s else s)"

definition timer_handler :: "kstate \<Rightarrow> kstate" where
  "timer_handler s =
     (let s = s\<lparr>ticks := ticks s + 1\<rparr>
      in if sint (ticks s) mod 18 = 0 then kprintln ''1 second'' s else s)"

definition thread_tick :: "env \<Rightarrow> kstate \<Rightarrow> go kres" where
  "thread_tick E s =
     (let s = time_tick s;
          s = s\<lparr>tick_count := tick_count s + 1\<rparr>
      in if sint (tick_count s) \<ge> TIME_SLICE then thread_yield E s else ret Done s)"

definition sizeof_sleeper :: u32 where "sizeof_sleeper = 12"
definition UNIT_TICK :: u8 where "UNIT_TICK = 0x1"
definition UNIT_SEC :: u8 where "UNIT_SEC = 0x2"

definition sleep_wake :: "env \<Rightarrow> ptr \<Rightarrow> kstate \<Rightarrow> unit kres" where
  "sleep_wake E sl s =
     (let (level, s) = int_disable s in
      seq (remove (sleeper_list s) sl s) (\<lambda>_ s.
      seq (thread_unblock E (rd s sl) s) (\<lambda>_ s. ret () (int_set level s))))"

definition sleep_one :: "env \<Rightarrow> u32 \<Rightarrow> kstate \<Rightarrow> unit kres" where
  "sleep_one E i s =
     seq (list_get (sleeper_list s) i s) (\<lambda>sl s.
     let s = wr (sl + 4) (rd s (sl + 4) - 1) s
     in if rd s (sl + 4) = 0 then sleep_wake E sl s else ret () s)"

lemma word_inc_less: "i < n \<Longrightarrow> unat i < unat (i + 1)" for i n :: u32
proof -
  assume "i < n"
  then have "unat i < unat n" by (simp add: word_less_nat_alt)
  moreover from this have "unat i + unat (1 :: u32) < 4294967296"
    using unat_lt32 [of n] by (simp del: unat_lt32)
  ultimately have "unat (i + 1) = unat i + 1" using unat_plus_small [of i 1] by simp
  then show ?thesis by simp
qed

function sleep_tick_loop :: "env \<Rightarrow> u32 \<Rightarrow> kstate \<Rightarrow> unit kres" where
  "sleep_tick_loop E i s =
     (if i < list_size s (sleeper_list s)
      then seq (sleep_one E i s) (\<lambda>_ s. sleep_tick_loop E (i + 1) s) else ret () s)"
  by pat_completeness auto

termination
  by (relation "measure (\<lambda>(E, i, s). 4294967296 - unat i)")
    (auto dest!: word_inc_less simp: diff_less_mono2)

declare sleep_tick_loop.simps [simp del]

definition sleep_tick :: "env \<Rightarrow> kstate \<Rightarrow> unit kres" where
  "sleep_tick E s = sleep_tick_loop E 0 s"

definition thread_sleep :: "env \<Rightarrow> ptr \<Rightarrow> u32 \<Rightarrow> u8 \<Rightarrow> kstate \<Rightarrow> unit kres" where
  "thread_sleep E t tcks flags s =
     (if tcks = 0 then ret () s
      else if \<not> is_thread t s then PANIC ''ATTEMPTED TO SLEEP NON-THREAD'' s
      else seq (malloc (env_vp E) sizeof_sleeper s) (\<lambda>sl s.
        let s = wr sl t s;
            s = (if flags AND UNIT_TICK \<noteq> 0 then wr (sl + 4) tcks s else s);
            s = (if flags AND UNIT_SEC \<noteq> 0 then wr (sl + 4) (tcks * 18) s else wr (sl + 4) tcks s);
            (level, s) = int_disable s in
        seq (append (env_vp E) (sleeper_list s) sl s) (\<lambda>_ s.
        seq (remove (ready_threads s) t (wr (t + 24) TS_BLOCKED s)) (\<lambda>_ s.
        ret () (int_set level s)))))"

section \<open>Semaphores, locks and conditions (\<^verbatim>\<open>synch.c\<close>)\<close>

text \<open>A semaphore is value 0, waiters 4; a lock is holder 0, semaphore 4.\<close>

abbreviation sema_value :: "kstate \<Rightarrow> ptr \<Rightarrow> u32" where "sema_value s sm \<equiv> rd s sm"
abbreviation sema_waiters :: "kstate \<Rightarrow> ptr \<Rightarrow> ptr" where "sema_waiters s sm \<equiv> rd s (sm + 4)"
abbreviation lock_holder :: "kstate \<Rightarrow> ptr \<Rightarrow> ptr" where "lock_holder s l \<equiv> rd s l"
abbreviation lock_semaphore :: "ptr \<Rightarrow> ptr" where "lock_semaphore l \<equiv> l + 4"

definition sema_init :: "env \<Rightarrow> ptr \<Rightarrow> u32 \<Rightarrow> kstate \<Rightarrow> unit kres" where
  "sema_init E sm v s =
     (if sm = 0 then PANIC ''Semaphore NULL'' s
      else let s = wr sm v s in
        seq (list_init (env_vp E) s) (\<lambda>l s. ret () (wr (sm + 4) l s)))"

definition sema_wait :: "env \<Rightarrow> ptr \<Rightarrow> kstate \<Rightarrow> go kres" where
  "sema_wait E sm s =
     seq (current_thread s) (\<lambda>t s.
     seq (append (env_vp E) (sema_waiters s sm) t s) (\<lambda>_ s. thread_block s))"

partial_function (option) sema_down_loop :: "env \<Rightarrow> ptr \<Rightarrow> bool \<Rightarrow> kstate \<Rightarrow> go kres option" where
  "sema_down_loop E sm itr_level s =
     (if sema_value s sm = 0
      then (case sema_wait E sm s of
          Inl e \<Rightarrow> Some (Inl e)
        | Inr (Switch c n fs, s) \<Rightarrow> Some (ret (Switch c n (fs @ [In_sema_down sm itr_level])) s)
        | Inr (Done, s) \<Rightarrow> sema_down_loop E sm itr_level s)
      else Some (ret Done (int_set itr_level (wr sm (sema_value s sm - 1) s))))"

definition sema_down_from :: "env \<Rightarrow> ptr \<Rightarrow> bool \<Rightarrow> kstate \<Rightarrow> go kres" where
  "sema_down_from E sm itr_level s =
     (case sema_down_loop E sm itr_level s of None \<Rightarrow> Inl Hang | Some r \<Rightarrow> r)"

definition sema_down :: "env \<Rightarrow> ptr \<Rightarrow> kstate \<Rightarrow> go kres" where
  "sema_down E sm s =
     (if sm = 0 then PANIC ''NULL semahore'' s
      else let (itr_level, s) = int_disable s in sema_down_from E sm itr_level s)"

definition sema_up :: "env \<Rightarrow> ptr \<Rightarrow> kstate \<Rightarrow> unit kres" where
  "sema_up E sm s =
     (if sm = 0 then PANIC ''NULL semaphore'' s
      else let (itr_level, s) = int_disable s in
        seq (if \<not> is_empty (sema_waiters s sm) s
             then let (t, s) = pop (sema_waiters s sm) s in thread_unblock E t s
             else ret () s) (\<lambda>_ s.
        ret () (int_set itr_level (wr sm (sema_value s sm + 1) s))))"

definition lock_init :: "env \<Rightarrow> ptr \<Rightarrow> kstate \<Rightarrow> unit kres" where
  "lock_init E l s =
     (if l = 0 then PANIC ''NULL lock'' s
      else sema_init E (lock_semaphore l) 1 (wr l 0 s))"

definition lock_taken :: "ptr \<Rightarrow> kstate \<Rightarrow> go kres" where
  "lock_taken l s = seq (current_thread s) (\<lambda>t s. ret Done (wr l t s))"

definition lock_accquire :: "env \<Rightarrow> ptr \<Rightarrow> kstate \<Rightarrow> go kres" where
  "lock_accquire E l s =
     (if l = 0 then PANIC ''NULL lock'' s
      else seq (current_thread s) (\<lambda>t s.
        if lock_holder s l = t then PANIC ''Lock already held by this thread'' s
        else andthen (sema_down E (lock_semaphore l) s) (In_lock_accquire l) (lock_taken l)))"

definition lock_release :: "env \<Rightarrow> ptr \<Rightarrow> kstate \<Rightarrow> unit kres" where
  "lock_release E l s =
     (if l = 0 then PANIC ''NULL lock'' s
      else seq (current_thread s) (\<lambda>t s.
        if lock_holder s l \<noteq> t then PANIC ''Attempted release of lock not held by current thread'' s
        else sema_up E (lock_semaphore l) (wr l 0 s)))"

definition cond_init :: "env \<Rightarrow> ptr \<Rightarrow> kstate \<Rightarrow> unit kres" where
  "cond_init E c s =
     (if c = 0 then PANIC ''NULL condition'' s
      else seq (list_init (env_vp E) s) (\<lambda>_ s. ret () s))"

definition cond_wait :: "ptr \<Rightarrow> ptr \<Rightarrow> kstate \<Rightarrow> kstate" where "cond_wait c l s = s"
definition cond_signal :: "ptr \<Rightarrow> ptr \<Rightarrow> kstate \<Rightarrow> kstate" where "cond_signal c l s = s"
definition cond_broadcast :: "ptr \<Rightarrow> ptr \<Rightarrow> kstate \<Rightarrow> kstate" where "cond_broadcast c l s = s"

section \<open>Interrupts, the idle thread and the echo thread\<close>

text \<open>
  \<^verbatim>\<open>idt_global_int_wrapper\<close> after its call of \<^verbatim>\<open>thread_tick\<close>, and the stub around it: the gate and
  \<^verbatim>\<open>cli\<close> clear the interrupt flag, \<^verbatim>\<open>iret\<close> restores it.
\<close>

definition int_rest :: "env \<Rightarrow> u32 \<Rightarrow> kstate \<Rightarrow> go kres" where
  "int_rest E n s =
     (let s = (if n = 33 then con_update (keyboard_handler (env_rodata E)) s else s);
          s = (if n \<ge> 40 then con_update (outportb PIC2_COMMAND PIC_EOI) s else s)
      in ret Done (con_update (outportb PIC1_COMMAND PIC_EOI) s))"

definition idt_global_int_wrapper :: "env \<Rightarrow> u32 \<Rightarrow> kstate \<Rightarrow> go kres" where
  "idt_global_int_wrapper E n s =
     (if n = 32 then andthen (thread_tick E s) (In_int n) (int_rest E n) else int_rest E n s)"

definition idt_int :: "env \<Rightarrow> u32 \<Rightarrow> kstate \<Rightarrow> go kres" where
  "idt_int E n s =
     andthen (idt_global_int_wrapper E n (s\<lparr>iflag := False\<rparr>)) (In_iret (iflag s))
       (\<lambda>s'. ret Done (s'\<lparr>iflag := iflag s\<rparr>))"

text \<open>
  The idle thread: its start, and a round of its loop up to the \<^verbatim>\<open>hlt\<close>, where it waits for an
  interrupt. A round of \<^verbatim>\<open>thread_echo\<close>, whose counting loop leaves \<^verbatim>\<open>a = 200000000\<close>.
\<close>

definition idle_start :: "env \<Rightarrow> ptr \<Rightarrow> kstate \<Rightarrow> unit kres" where
  "idle_start E idle_started s =
     seq (current_thread s) (\<lambda>t s. sema_up E idle_started (s\<lparr>idle_thread := t\<rparr>))"

definition idle_round :: "kstate \<Rightarrow> go kres" where
  "idle_round s =
     andthen (thread_block (snd (int_disable s))) In_idle (\<lambda>s. ret Done (s\<lparr>iflag := True\<rparr>))"

fun echo_ints :: "env \<Rightarrow> nat \<Rightarrow> kstate \<Rightarrow> go kres" where
  "echo_ints E 0 s = ret Done s"
| "echo_ints E (Suc k) s = andthen (idt_int E 32 s) (In_echo k) (echo_ints E k)"

definition echo_round :: "env \<Rightarrow> kstate \<Rightarrow> go kres" where
  "echo_round E s =
     (let a = 200000000 in
      seq (list_dump (ready_threads s) s) (\<lambda>_ s.
      seq (current_thread s) (\<lambda>t s.
      seq (kprintln_num t BASE_HEX s) (\<lambda>_ s.
      seq (kprintln_num a BASE_DEC s) (\<lambda>_ s. echo_ints E 5 s)))))"

section \<open>Continuing a thread\<close>

text \<open>
  The kernel thread from the return of \<^verbatim>\<open>thread_init\<close> on (\<^verbatim>\<open>boot\<close> and \<^verbatim>\<open>main\<close> of \<^verbatim>\<open>start.c\<close>): the end
  of \<^verbatim>\<open>boot\<close>, then the two threads that \<^verbatim>\<open>main\<close> creates before its endless loop.
\<close>

definition boot_end :: "kstate \<Rightarrow> kstate" where
  "boot_end s = kprintln ''BOOT COMPLETE'' (con_update print_ok s)"

definition main_end :: "env \<Rightarrow> kstate \<Rightarrow> go kres" where
  "main_end E s =
     seq (thread_create E (sym_thread_echo (env_symbols E)) 0 s) (\<lambda>A s.
     seq (thread_create E (sym_thread_echo (env_symbols E)) 0 s) (\<lambda>B s. ret Done s))"

fun after :: "env \<Rightarrow> frame \<Rightarrow> kstate \<Rightarrow> go kres" where
  "after E (In_yield int_level) s = ret Done (int_set int_level s)"
| "after E (In_sema_down sm itr_level) s = sema_down_from E sm itr_level s"
| "after E (In_lock_accquire l) s = lock_taken l s"
| "after E In_idle s = ret Done (s\<lparr>iflag := True\<rparr>)"
| "after E In_run s = Inl Undefined"
| "after E (In_int n) s = int_rest E n s"
| "after E (In_iret i) s = ret Done (s\<lparr>iflag := i\<rparr>)"
| "after E (In_echo k) s = echo_ints E k s"
| "after E In_boot s = main_end E (boot_end s)"

fun unwind :: "env \<Rightarrow> frame list \<Rightarrow> kstate \<Rightarrow> go kres" where
  "unwind E [] s = ret Done s"
| "unwind E (f # fs) s =
     seq (after E f s) (\<lambda>g s. case g of Done \<Rightarrow> unwind E fs s
       | Switch c n gs \<Rightarrow> ret (Switch c n (gs @ fs)) s)"

definition resume :: "env \<Rightarrow> ptr \<Rightarrow> frame list \<Rightarrow> kstate \<Rightarrow> go kres" where
  "resume E prev fs s = seq (switch_complete prev s) (\<lambda>_ s. unwind E fs s)"

section \<open>Starting threads (\<^verbatim>\<open>thread_init\<close>) and \<^verbatim>\<open>thread_dump\<close>\<close>

text \<open>\<open>init_started\<close> is the address of \<^verbatim>\<open>thread_init\<close>'s local semaphore.\<close>

definition kernel_thread_fields :: "kstate \<Rightarrow> kstate" where
  "kernel_thread_fields s =
     (let s = s\<lparr>kernel_thread := K_THREAD_BASE\<rparr>;
          s = wr (kernel_thread s + 40) T_MAGIC s;
          (i, s) = create_id s;
          s = wr (kernel_thread s + 4) i s;
          s = wr (kernel_thread s + 28) (get_pd s) s;
          s = wr (kernel_thread s + 32) (kernel_pool s) s;
          s = wr (kernel_thread s + 36) 1 s;
          s = wr (kernel_thread s + 24) TS_RUNNING s
      in wr (kernel_thread s) (get_esp s) s)"

definition thread_init :: "env \<Rightarrow> ptr \<Rightarrow> kstate \<Rightarrow> go kres" where
  "thread_init E init_started s =
     (let s = kernel_thread_fields (snd (int_disable s)) in
      seq (list_init_with (env_vp E) (kernel_thread s) s) (\<lambda>l s.
      seq (list_init (env_vp E) (s\<lparr>all_threads := l\<rparr>)) (\<lambda>l s.
      seq (list_init (env_vp E) (s\<lparr>ready_threads := l\<rparr>)) (\<lambda>l s.
      seq (kprintln_num (get_esp s) BASE_HEX (s\<lparr>sleeper_list := l\<rparr>)) (\<lambda>_ s.
      seq (sema_init E init_started 0 s) (\<lambda>_ s.
      seq (thread_create E (sym_idle (env_symbols E)) init_started s) (\<lambda>_ s.
      sema_down E init_started (snd (int_enable s)))))))))"

partial_function (option) mem_string :: "mem \<Rightarrow> ptr \<Rightarrow> u8 list option" where
  "mem_string m a = (if m a = 0 then Some [] else Option.bind (mem_string m (a + 1)) (\<lambda>cs. Some (m a # cs)))"

definition kprint_field :: "string \<Rightarrow> u32 \<Rightarrow> u32 \<Rightarrow> kstate \<Rightarrow> unit kres" where
  "kprint_field msg v base s = kprint_num v base (kprintln msg s)"

definition thread_dump :: "ptr \<Rightarrow> kstate \<Rightarrow> unit kres" where
  "thread_dump t s =
     (if t = 0 then PANIC ''NO CURRENT THREAD'' s
      else seq (kprint_field ''ID: '' (thr_id s t) BASE_DEC s) (\<lambda>_ s.
        case mem_string (kmem s) (t + 8) of None \<Rightarrow> Inl Hang | Some name \<Rightarrow>
        seq (kprint_field ''Status: '' (thr_status s t) BASE_DEC (con_update (print name) (kprintln ''Name: '' s))) (\<lambda>_ s.
        seq (kprint_field ''Stack: '' (thr_stack s t) BASE_HEX s) (\<lambda>_ s.
        seq (kprint_field ''PD: '' (thr_page_directory s t) BASE_HEX s) (\<lambda>_ s.
        seq (kprint_field ''Pool: '' (thr_pool s t) BASE_HEX s) (\<lambda>_ s.
        seq (kprint_field ''Priority: '' (thr_priority s t) BASE_HEX s) (\<lambda>_ s.
        kprint_field ''Magic: '' (thr_magic s t) BASE_HEX s)))))))"

end
