(* ===== verification/Sched.thy ===== *)
theory Sched
  imports Threads Queues
begin

text \<open>
  What the scheduler does: the current thread, switching to the head of the ready list (round
  robin), blocking and unblocking, preemption by the timer, and the ways in which these panic.
\<close>

section \<open>Threads in memory\<close>

text \<open>A thread is a page of kernel space, behind the heap, with the magic number.\<close>

definition thread_ok :: "kstate \<Rightarrow> ptr \<Rightarrow> bool" where
  "thread_ok s t \<longleftrightarrow> page_aligned t \<and> 0x80000000 \<le> unat t \<and> is_thread t s"

definition running :: "kstate \<Rightarrow> ptr \<Rightarrow> bool" where
  "running s t \<longleftrightarrow> get_base_page (esp s) = t \<and> thread_ok s t"

definition sched :: "nat \<Rightarrow> kstate \<Rightarrow> ptr \<Rightarrow> (ptr \<Rightarrow> u32 list option) \<Rightarrow> bool" where
  "sched lim s t Q \<longleftrightarrow> running s t \<and> queues lim s Q \<and> ready_threads s \<in> dom Q"

lemma current_thread_running [simp]: "running s t \<Longrightarrow> current_thread s = ret t s"
  by (auto simp: running_def thread_ok_def is_thread_def current_thread_def get_esp_def Let_def)

lemma thread_ok_aligned: "thread_ok s t \<Longrightarrow> aligned t"
  by (auto simp: thread_ok_def page_aligned_imp_aligned)

lemma thread_ok_field: "thread_ok s t \<Longrightarrow> unat j \<le> 4092 \<Longrightarrow> unat (t + j) = unat t + unat j \<and> unat (t + j) + 4 \<le> 4294967296"
proof -
  assume t: "thread_ok s t" and j: "unat j \<le> 4092"
  then have p: "page_aligned t" by (simp add: thread_ok_def)
  have "unat (t + j) = unat t + unat j" "unat t + 4095 < 4294967296"
    using page_plus_unat [OF p, of j] page_plus_unat [OF p, of 4095] unat_lt32 [of "t + 4095"] j
    by (simp_all del: unat_lt32)
  then show ?thesis using j by simp
qed

text \<open>Writing a word of a thread's page changes no list, and a field but the magic no thread.\<close>

lemma queues_thread_wr:
  assumes "queues lim s Q" and "thread_ok s' t" and "unat j \<le> 4092"
  shows "queues lim (wr (t + j) v s) Q"
  using thread_ok_field [OF assms(2,3)] assms(2)
  by (intro queues_wr [OF assms(1)]) (simp_all add: thread_ok_def)

lemma thread_ok_wr:
  assumes "thread_ok s t" and "thread_ok s' u" and "unat j < 40 \<or> 44 \<le> unat j \<and> unat j < 4096" and "aligned j"
  shows "thread_ok (wr (u + j) v s) t"
proof -
  have p: "page_aligned u" "page_aligned t" "aligned u" "aligned t"
    using assms by (simp_all add: thread_ok_def page_aligned_imp_aligned)
  have "u + j \<noteq> t + 40" using page_offset_inj [OF p(1,2), of j 40] assms(3) by auto
  then show ?thesis using assms p by (simp add: thread_ok_def is_thread_def)
qed

lemma rd_above:
  assumes "\<And>x. lim \<le> unat x \<Longrightarrow> m x = kmem s x" and "lim \<le> unat a" and "unat a + 4 \<le> 4294967296"
  shows "ld32 m a = rd s a"
proof (rule ld32_cong)
  fix k :: u32 assume "unat k < 4"
  then have "unat (a + k) = unat a + unat k" using assms(3) by (intro unat_plus_small) simp
  then show "m (a + k) = kmem s (a + k)" using assms(2) by (intro assms(1)) simp
qed

lemma thread_rd_above:
  assumes "queues lim s Q" and "\<And>x. lim \<le> unat x \<Longrightarrow> m x = kmem s x" and "thread_ok s t" and "unat j \<le> 4092"
  shows "ld32 m (t + j) = rd s (t + j)"
  using thread_ok_field [OF assms(3,4)] queues_lim [OF assms(1)] assms(3)
  by (intro rd_above [OF assms(2), of lim]) (simp_all add: thread_ok_def)

lemma thread_ok_above:
  assumes "queues lim s Q" and "\<And>x. lim \<le> unat x \<Longrightarrow> m x = kmem s x" and "thread_ok s t" and "kmem s' = m"
  shows "thread_ok s' t"
  using thread_rd_above [OF assms(1-3), of 40] assms(3,4) by (simp add: thread_ok_def is_thread_def)

text \<open>The words of kernel space, and the states that differ in the words \<open>A\<close> of it only.\<close>

definition kernel_word :: "ptr \<Rightarrow> bool" where
  "kernel_word a \<longleftrightarrow> aligned a \<and> 0x80000000 \<le> unat a \<and> unat a + 4 \<le> 4294967296"

definition kept_but :: "ptr set \<Rightarrow> kstate \<Rightarrow> kstate \<Rightarrow> bool" where
  "kept_but A s s' \<longleftrightarrow> (\<forall>a. kernel_word a \<and> a \<notin> A \<longrightarrow> rd s' a = rd s a)"

lemma kept_but_refl: "kmem s' = kmem s \<Longrightarrow> kept_but A s s'"
  by (simp add: kept_but_def)

lemma kept_but_trans: "kept_but A s s' \<Longrightarrow> kept_but B s' s'' \<Longrightarrow> A \<subseteq> C \<Longrightarrow> B \<subseteq> C \<Longrightarrow> kept_but C s s''"
  unfolding kept_but_def by (metis subsetD)

lemma kept_but_wr:
  assumes "kernel_word b" and "b \<in> A" and "kept_but A s s'" and "kmem s'' = st32 b v (kmem s')"
  shows "kept_but A s s''"
  unfolding kept_but_def
proof (intro allI impI)
  fix a assume a: "kernel_word a \<and> a \<notin> A"
  then have "aligned a" "aligned b" "b \<noteq> a" using assms(1,2) by (auto simp: kernel_word_def)
  then have "rd s'' a = rd s' a" unfolding assms(4) by simp
  then show "rd s'' a = rd s a" using a assms(3) by (simp add: kept_but_def)
qed

lemma kept_but_above:
  assumes "kept_but A s s'" and "lim \<le> 0x80000000" and "\<And>x. lim \<le> unat x \<Longrightarrow> kmem s'' x = kmem s' x"
  shows "kept_but A s s''"
  unfolding kept_but_def
proof (intro allI impI)
  fix a assume a: "kernel_word a \<and> a \<notin> A"
  then have "rd s'' a = rd s' a"
    using assms(2) by (intro rd_above [of lim] assms(3)) (simp_all add: kernel_word_def)
  then show "rd s'' a = rd s a" using a assms(1) by (simp add: kept_but_def)
qed

lemma thread_word: "thread_ok s t \<Longrightarrow> unat j \<le> 4092 \<Longrightarrow> aligned j \<Longrightarrow> kernel_word (t + j)"
  using thread_ok_field [of s t j] thread_ok_aligned [of s t] by (auto simp: kernel_word_def thread_ok_def)

lemma thread_ok_kept:
  assumes "kept_but A s s'" and "thread_ok s t" and "t + 40 \<notin> A"
  shows "thread_ok s' t"
  using assms thread_word [OF assms(2), of 40] by (simp add: kept_but_def thread_ok_def is_thread_def)

lemma queues_simps [simp]:
  "queues lim (s\<lparr>con := c\<rparr>) Q = queues lim s Q" "queues lim (con_update f s) Q = queues lim s Q"
  "queues lim (s\<lparr>iflag := i\<rparr>) Q = queues lim s Q" "queues lim (s\<lparr>tick_count := k\<rparr>) Q = queues lim s Q"
  by (auto simp: queues_def heap_ok_def)

lemma thread_ok_simps [simp]:
  "thread_ok (s\<lparr>con := c\<rparr>) t = thread_ok s t" "thread_ok (con_update f s) t = thread_ok s t"
  "thread_ok (s\<lparr>iflag := i\<rparr>) t = thread_ok s t" "thread_ok (s\<lparr>tick_count := k\<rparr>) t = thread_ok s t"
  by (simp_all add: thread_ok_def is_thread_def)

lemma running_simps [simp]:
  "running (s\<lparr>con := c\<rparr>) t = running s t" "running (con_update f s) t = running s t"
  "running (s\<lparr>iflag := i\<rparr>) t = running s t" "running (s\<lparr>tick_count := k\<rparr>) t = running s t"
  by (simp_all add: running_def)

section \<open>\<^verbatim>\<open>schedule\<close>\<close>

lemma print_hex:
  assumes "\<And>f. kprint_num v BASE_HEX s = ret () (con_update f s) \<Longrightarrow> thesis"
  shows thesis
  by (rule kprint_num_returns [of BASE_HEX v s]) (simp_all add: BASE_HEX_def assms [unfolded BASE_HEX_def])

lemma print_dec:
  assumes "\<And>f. kprint_num v BASE_DEC s = ret () (con_update f s) \<Longrightarrow> thesis"
  shows thesis
  by (rule kprint_num_returns [of BASE_DEC v s]) (simp_all add: BASE_DEC_def assms [unfolded BASE_DEC_def])

text \<open>The thread that \<^verbatim>\<open>get_next_thread\<close> takes, and the queue it leaves.\<close>

definition next_of :: "kstate \<Rightarrow> u32 list \<Rightarrow> ptr" where
  "next_of s xs = (if xs = [] then idle_thread s else hd xs)"

lemma get_next_thread_result:
  assumes "queues lim s Q" and "Q (ready_threads s) = Some xs"
  obtains m where "get_next_thread s = (next_of s xs, s\<lparr>kmem := m\<rparr>)"
    and "queues lim (s\<lparr>kmem := m\<rparr>) (Q(ready_threads s \<mapsto> tl xs))"
    and "\<And>x. lim \<le> unat x \<Longrightarrow> m x = kmem s x"
proof (cases xs)
  case Nil
  then have "get_next_thread s = (next_of s xs, s\<lparr>kmem := kmem s\<rparr>)"
    using queues_empty [OF assms] by (simp add: get_next_thread_def next_of_def)
  moreover have "Q(ready_threads s \<mapsto> tl xs) = Q" using Nil assms(2) by (auto simp: fun_eq_iff)
  ultimately show ?thesis using assms(1) by (intro that [of "kmem s"]) simp_all
next
  case (Cons y ys)
  obtain m where m: "pop (ready_threads s) s = (y, s\<lparr>kmem := m\<rparr>)"
    "queues lim (s\<lparr>kmem := m\<rparr>) (Q(ready_threads s \<mapsto> ys))" "\<And>x. lim \<le> unat x \<Longrightarrow> m x = kmem s x"
    by (rule queues_pop [OF assms(1), of "ready_threads s" y ys]) (use assms(2) Cons that in auto)
  have "get_next_thread s = (next_of s xs, s\<lparr>kmem := m\<rparr>)"
    using queues_empty [OF assms] Cons m(1) by (simp add: get_next_thread_def next_of_def)
  with m(2,3) show ?thesis using Cons by (intro that [of m]) simp_all
qed

lemma schedule_switches:
  assumes "sched lim s t Q" and "Q (ready_threads s) = Some xs" and "next_of s xs \<noteq> t"
    and "\<not> iflag s" and "thr_status s t \<noteq> TS_RUNNING"
  obtains m f where "schedule s = ret (Switch t (next_of s xs) []) (con_update f (s\<lparr>kmem := m\<rparr>))"
    and "sched lim (s\<lparr>kmem := m\<rparr>) t (Q(ready_threads s \<mapsto> tl xs))" and "\<And>x. lim \<le> unat x \<Longrightarrow> m x = kmem s x"
proof -
  have q: "queues lim s Q" and run: "running s t" and t: "thread_ok s t"
    using assms(1) by (simp_all add: sched_def running_def)
  obtain m where m: "get_next_thread s = (next_of s xs, s\<lparr>kmem := m\<rparr>)"
    "queues lim (s\<lparr>kmem := m\<rparr>) (Q(ready_threads s \<mapsto> tl xs))" "\<And>x. lim \<le> unat x \<Longrightarrow> m x = kmem s x"
    by (rule get_next_thread_result [OF q assms(2)]) (rule that)
  have st: "ld32 m (t + 24) = thr_status s t" using thread_rd_above [OF q m(3) t, of 24] by simp
  have "thread_ok (s\<lparr>kmem := m\<rparr>) t" by (rule thread_ok_above [OF q m(3) t]) simp_all
  then have sc: "sched lim (s\<lparr>kmem := m\<rparr>) t (Q(ready_threads s \<mapsto> tl xs))"
    using run m(2) by (simp add: sched_def running_def)
  obtain f where f: "kprint_num (ld32 m t) BASE_HEX (kprintln ''switching from: '' (s\<lparr>kmem := m\<rparr>)) =
      ret () (con_update f (kprintln ''switching from: '' (s\<lparr>kmem := m\<rparr>)))"
    by (rule print_hex)
  let ?s1 = "kprint '' to '' (con_update f (kprintln ''switching from: '' (s\<lparr>kmem := m\<rparr>)))"
  obtain g where g: "kprint_num (ld32 m (next_of s xs)) BASE_HEX ?s1 = ret () (con_update g ?s1)"
    by (rule print_hex)
  have "schedule s = ret (Switch t (next_of s xs) []) (con_update g ?s1)"
    using run m(1) assms(3-5) st f g by (simp add: schedule_def int_get_level_def)
  then have "\<exists>h. schedule s = ret (Switch t (next_of s xs) []) (con_update h (s\<lparr>kmem := m\<rparr>))"
    by (intro exI [of _ "g \<circ> print (lit '' to '') \<circ> f \<circ> println (lit ''switching from: '')"]) (simp add: comp_def)
  then show ?thesis using that sc m(3) by blast
qed

lemma sched_simps [simp]:
  "sched lim (s\<lparr>con := c\<rparr>) t Q = sched lim s t Q" "sched lim (con_update f s) t Q = sched lim s t Q"
  "sched lim (s\<lparr>iflag := i\<rparr>) t Q = sched lim s t Q" "sched lim (s\<lparr>tick_count := k\<rparr>) t Q = sched lim s t Q"
  by (simp_all add: sched_def)

lemma sched_int_set: "sched lim (int_set i s) t Q = sched lim s t Q"
  by (simp add: int_defs Let_def)

lemma schedD:
  assumes "sched lim s t Q"
  shows "queues lim s Q" "running s t" "thread_ok s t" "\<exists>xs. Q (ready_threads s) = Some xs"
  using assms by (auto simp: sched_def running_def)

lemma sched_wr:
  assumes "sched lim s t Q" and "thread_ok s u" and "unat j < 40 \<or> 44 \<le> unat j \<and> unat j \<le> 4092" and "aligned j"
  shows "sched lim (wr (u + j) v s) t Q"
  using assms thread_ok_wr [OF schedD(3) [OF assms(1)] assms(2)] queues_thread_wr [OF schedD(1) [OF assms(1)] assms(2), of j]
  by (auto simp: sched_def running_def)

lemma sched_above:
  assumes "sched lim s t Q" and "\<And>x. lim \<le> unat x \<Longrightarrow> m x = kmem s x" and "queues lim s' R"
    and "kmem s' = m" and "esp s' = esp s" and "ready_threads s' \<in> dom R"
  shows "sched lim s' t R"
  using assms thread_ok_above [OF schedD(1) [OF assms(1)] assms(2) schedD(3) [OF assms(1)] assms(4)]
  by (auto simp: sched_def running_def)

lemma sched_append:
  assumes "sched lim s t Q" and "Q l = Some xs" and "room lim s"
  obtains m where "append vp l d s = ret () (s\<lparr>kmem := m, firstFreeSegment := firstFreeSegment s + 40\<rparr>)"
    and "sched lim (s\<lparr>kmem := m, firstFreeSegment := firstFreeSegment s + 40\<rparr>) t (Q(l \<mapsto> xs @ [d]))"
    and "\<And>x. lim \<le> unat x \<Longrightarrow> m x = kmem s x"
proof -
  obtain m where m: "append vp l d s = ret () (s\<lparr>kmem := m, firstFreeSegment := firstFreeSegment s + 40\<rparr>)"
    "queues lim (s\<lparr>kmem := m, firstFreeSegment := firstFreeSegment s + 40\<rparr>) (Q(l \<mapsto> xs @ [d]))"
    "\<And>x. lim \<le> unat x \<Longrightarrow> m x = kmem s x"
    by (rule queues_append [OF schedD(1) [OF assms(1)] assms(2,3), where vp = vp and d = d]) (rule that)
  have "sched lim (s\<lparr>kmem := m, firstFreeSegment := firstFreeSegment s + 40\<rparr>) t (Q(l \<mapsto> xs @ [d]))"
    using assms(1) by (intro sched_above [OF assms(1) m(3,2)]) (auto simp: sched_def)
  with m show ?thesis using that by blast
qed

section \<open>\<^verbatim>\<open>thread_yield\<close>, \<^verbatim>\<open>thread_block\<close> and \<^verbatim>\<open>thread_unblock\<close>\<close>

text \<open>The states that the thread functions leave differ in these fields only.\<close>

definition restore :: "kstate \<Rightarrow> kstate \<Rightarrow> kstate" where
  "restore s s' = s'\<lparr>kmem := kmem s, con := con s, firstFreeSegment := firstFreeSegment s,
     tick_count := tick_count s, iflag := iflag s\<rparr>"

definition same_kernel :: "kstate \<Rightarrow> kstate \<Rightarrow> bool" where
  "same_kernel s s' \<longleftrightarrow> restore s s' = s"

lemma same_kernelI: "s' = s\<lparr>kmem := m, con := c, firstFreeSegment := f, tick_count := k, iflag := i\<rparr> \<Longrightarrow> same_kernel s s'"
  by (simp add: same_kernel_def restore_def)

lemma same_kernelD:
  assumes "same_kernel s s'"
  shows "ready_threads s' = ready_threads s" "idle_thread s' = idle_thread s" "all_threads s' = all_threads s"
    "esp s' = esp s" "cr3 s' = cr3 s" "ticks s' = ticks s"
    "physical_page_entries s' = physical_page_entries s" "num_threads s' = num_threads s"
proof -
  have e: "f (restore s s') = f s" for f :: "kstate \<Rightarrow> 'a"
    using assms by (simp add: same_kernel_def)
  show "ready_threads s' = ready_threads s" using e [of ready_threads] by (simp add: restore_def)
  show "idle_thread s' = idle_thread s" using e [of idle_thread] by (simp add: restore_def)
  show "all_threads s' = all_threads s" using e [of all_threads] by (simp add: restore_def)
  show "esp s' = esp s" using e [of esp] by (simp add: restore_def)
  show "cr3 s' = cr3 s" using e [of cr3] by (simp add: restore_def)
  show "ticks s' = ticks s" using e [of ticks] by (simp add: restore_def)
  show "physical_page_entries s' = physical_page_entries s"
    using e [of physical_page_entries] by (simp add: restore_def)
  show "num_threads s' = num_threads s" using e [of num_threads] by (simp add: restore_def)
qed

lemma same_kernel_trans:
  assumes "same_kernel s s'" and "same_kernel s' s''"
  shows "same_kernel s s''"
proof -
  have "restore s (restore s' s'') = restore s s''" by (simp add: restore_def)
  then show ?thesis using assms by (simp add: same_kernel_def)
qed

lemma same_kernel_simps [simp]:
  "same_kernel s s" "same_kernel s (s\<lparr>iflag := i\<rparr>)" "same_kernel s (wr a v s)" "same_kernel s (int_set j s)"
  "same_kernel s (s\<lparr>kmem := m\<rparr>)" "same_kernel s (s\<lparr>kmem := m, firstFreeSegment := f\<rparr>)"
  by (simp_all add: same_kernel_def restore_def int_defs Let_def)

text \<open>The ready queue in which \<^verbatim>\<open>thread_yield\<close> looks for the next thread.\<close>

definition yield_queue :: "kstate \<Rightarrow> ptr \<Rightarrow> u32 list \<Rightarrow> u32 list" where
  "yield_queue s t xs = (if t = idle_thread s then xs else xs @ [t])"

lemma yield_append:
  assumes "sched lim s t Q" and "Q (ready_threads s) = Some xs" and "room lim s"
  obtains m f where "(if t \<noteq> idle_thread s then append vp (ready_threads s) t s else ret () s) =
      ret () (s\<lparr>kmem := m, firstFreeSegment := f\<rparr>)"
    and "sched lim (s\<lparr>kmem := m, firstFreeSegment := f\<rparr>) t (Q(ready_threads s \<mapsto> yield_queue s t xs))"
    and "\<And>x. lim \<le> unat x \<Longrightarrow> m x = kmem s x" and "f = firstFreeSegment s + (if t = idle_thread s then 0 else 40)"
proof (cases "t = idle_thread s")
  case True
  have "Q(ready_threads s \<mapsto> yield_queue s t xs) = Q"
    using True assms(2) by (auto simp: yield_queue_def fun_eq_iff)
  then show ?thesis using True assms(1) by (intro that [where m = "kmem s" and f = "firstFreeSegment s"]) simp_all
next
  case False
  then have q: "yield_queue s t xs = xs @ [t]" by (simp add: yield_queue_def)
  show ?thesis
    by (rule sched_append [OF assms, where vp = vp and d = t], rule that, simp add: False, simp add: q, assumption, simp add: False)
qed

lemma yield_round_robin_step:
  assumes "sched lim s t Q" and "Q (ready_threads s) = Some xs" and "room lim s"
    and "next_of s (yield_queue s t xs) \<noteq> t"
  shows "\<exists>s'. thread_yield E s = ret (Switch t (next_of s (yield_queue s t xs)) [In_yield (iflag s)]) s' \<and>
    sched lim s' t (Q(ready_threads s \<mapsto> tl (yield_queue s t xs))) \<and> same_kernel s s' \<and>
    thr_status s' t = TS_READY \<and> \<not> iflag s' \<and> tick_count s' = tick_count s \<and> kept_but {t + 24} s s' \<and>
    firstFreeSegment s' = firstFreeSegment s + (if t = idle_thread s then 0 else 40)"
proof -
  let ?q = "yield_queue s t xs"
  have t: "thread_ok s t" "running s t" "aligned t" using schedD [OF assms(1)] thread_ok_aligned by auto
  let ?s1 = "wr (t + 24) TS_READY (s\<lparr>iflag := False\<rparr>)"
  have s1: "sched lim ?s1 t Q"
    using assms(1) t(1) by (intro sched_wr) simp_all
  have r: "Q (ready_threads ?s1) = Some xs" "room lim ?s1" "yield_queue ?s1 t xs = ?q"
    using assms(2,3) by (simp_all add: room_def yield_queue_def)
  obtain m f where a: "(if t \<noteq> idle_thread ?s1 then append (env_vp E) (ready_threads ?s1) t ?s1 else ret () ?s1) =
      ret () (?s1\<lparr>kmem := m, firstFreeSegment := f\<rparr>)"
    and s2: "sched lim (?s1\<lparr>kmem := m, firstFreeSegment := f\<rparr>) t (Q(ready_threads s \<mapsto> ?q))"
    and o: "\<And>x. lim \<le> unat x \<Longrightarrow> m x = kmem ?s1 x" and f: "f = firstFreeSegment s + (if t = idle_thread s then 0 else 40)"
    by (rule yield_append [OF s1 r(1,2), where vp = "env_vp E", unfolded r(3)], rule that, assumption, simp_all)
  let ?s2 = "?s1\<lparr>kmem := m, firstFreeSegment := f\<rparr>"
  have "ld32 m (t + 24) = rd ?s1 (t + 24)"
    using thread_rd_above [OF schedD(1) [OF s1] o schedD(3) [OF s1], of 24] by simp
  then have st: "thr_status ?s2 t = TS_READY" by simp
  have n: "next_of ?s2 ?q = next_of s ?q" by (simp add: next_of_def)
  obtain m' g where sw: "schedule ?s2 = ret (Switch t (next_of ?s2 ?q) []) (con_update g (?s2\<lparr>kmem := m'\<rparr>))"
    and s3: "sched lim (?s2\<lparr>kmem := m'\<rparr>) t ((Q(ready_threads s \<mapsto> ?q))(ready_threads ?s2 \<mapsto> tl ?q))"
    and o': "\<And>x. lim \<le> unat x \<Longrightarrow> m' x = kmem ?s2 x"
    by (rule schedule_switches [OF s2, of ?q]) (use n assms(4) st in \<open>simp_all add: thread_statuses that\<close>)
  have "ld32 m' (t + 24) = rd ?s2 (t + 24)"
    using thread_rd_above [OF schedD(1) [OF s2] o' schedD(3) [OF s2], of 24] by simp
  then have st': "ld32 m' (t + 24) = TS_READY" using st by simp
  have "thread_yield E s = ret (Switch t (next_of s ?q) [In_yield (iflag s)]) (con_update g (?s2\<lparr>kmem := m'\<rparr>))"
    using t(2) a sw by (simp add: thread_yield_def int_defs Let_def andthen_def next_of_def)
  moreover have "same_kernel s (con_update g (?s2\<lparr>kmem := m'\<rparr>))"
    by (rule same_kernelI [where m = m' and c = "g (con s)" and f = f and k = "tick_count s" and i = False]) (rule kstate.equality; simp)
  moreover have "kept_but {t + 24} s ?s1"
    using t by (intro kept_but_wr [OF thread_word [of s t 24] _ kept_but_refl [OF refl]]) simp_all
  then have "kept_but {t + 24} s (con_update g (?s2\<lparr>kmem := m'\<rparr>))"
    by (rule kept_but_above [OF _ queues_lim [OF schedD(1) [OF assms(1)]]]) (simp add: o o')
  ultimately show ?thesis using s3 st' f by auto
qed

text \<open>
  C4: \<^verbatim>\<open>thread_yield\<close> is round robin: the running thread becomes ready and goes to the end of the
  ready list (the idle thread does not), and the processor goes to the head of that list, or to
  the idle thread when it is empty, with interrupts off; the yielding thread will restore the
  interrupt flag when it is switched to again.
\<close>

theorem yield_round_robin:
  assumes "sched lim s t Q" and "Q (ready_threads s) = Some xs" and "room lim s"
    and "next_of s (yield_queue s t xs) \<noteq> t"
  shows "\<exists>s'. thread_yield E s = ret (Switch t (next_of s (yield_queue s t xs)) [In_yield (iflag s)]) s' \<and>
    sched lim s' t (Q(ready_threads s \<mapsto> tl (yield_queue s t xs))) \<and> same_kernel s s' \<and>
    thr_status s' t = TS_READY \<and> \<not> iflag s' \<and> tick_count s' = tick_count s"
  using yield_round_robin_step [OF assms, of E] by blast

text \<open>Continuing after the switch back.\<close>

lemma switch_complete_result:
  assumes "running s t" and "thr_status (wr (t + 24) TS_RUNNING s) prev \<noteq> TS_DYING"
  shows "switch_complete prev s = ret () (wr (t + 24) TS_RUNNING (s\<lparr>tick_count := 0\<rparr>))"
proof -
  have "(wr (t + 24) TS_RUNNING s)\<lparr>tick_count := 0\<rparr> = wr (t + 24) TS_RUNNING (s\<lparr>tick_count := 0\<rparr>)"
    by simp
  then show ?thesis using assms by (simp add: switch_complete_def Let_def)
qed

lemma status_other_thread:
  assumes "page_aligned t" and "page_aligned p" and "p \<noteq> t"
  shows "ld32 (st32 (t + 24) v m) (p + 24) = ld32 m (p + 24)"
  using assms page_offset_inj [OF assms(1,2), of 24 24] by (simp add: page_aligned_imp_aligned)

text \<open>
  a thread that is switched back to after it had yielded runs again: its status is running,
  its time slice starts anew, the interrupt flag is set if it was set when it yielded, and
  nothing else of the thread changes.
\<close>

theorem resume_after_yield:
  assumes "sched lim s t Q" and "thread_ok s prev" and "prev \<noteq> t" and "thr_status s prev \<noteq> TS_DYING"
  shows "\<exists>s'. resume E prev [In_yield i] s = ret Done s' \<and> sched lim s' t Q \<and> thr_status s' t = TS_RUNNING \<and>
    thr_status s' prev = thr_status s prev \<and> tick_count s' = 0 \<and> iflag s' = (i \<or> iflag s)"
proof -
  have p: "page_aligned t" "page_aligned prev" "aligned t"
    using schedD(3) [OF assms(1)] assms(2) by (simp_all add: thread_ok_def page_aligned_imp_aligned)
  let ?s = "wr (t + 24) TS_RUNNING (s\<lparr>tick_count := 0\<rparr>)"
  have "switch_complete prev s = ret () ?s"
    using status_other_thread [OF p(1,2) assms(3)] assms(4)
    by (intro switch_complete_result schedD(2) [OF assms(1)]) simp
  moreover have "sched lim ?s t Q" using assms(1) schedD(3) [OF assms(1)] by (intro sched_wr) simp_all
  ultimately show ?thesis
    using status_other_thread [OF p(1,2) assms(3)] p
    by (cases i) (simp_all add: resume_def int_defs Let_def)
qed

lemma block_step:
  assumes "sched lim s t Q" and "Q (ready_threads s) = Some xs" and "next_of s xs \<noteq> t"
  shows "if iflag s then thread_block s = PANIC ''Cannot block without interrupts off'' s
    else \<exists>s'. thread_block s = ret (Switch t (next_of s xs) []) s' \<and>
      sched lim s' t (Q(ready_threads s \<mapsto> tl xs)) \<and> same_kernel s s' \<and> thr_status s' t = TS_BLOCKED \<and>
      iflag s' = iflag s \<and> kept_but {t + 24} s s' \<and> firstFreeSegment s' = firstFreeSegment s"
proof (cases "iflag s")
  case True
  then show ?thesis by (simp add: thread_block_def int_get_level_def)
next
  case False
  have t: "thread_ok s t" "running s t" "aligned t" using schedD [OF assms(1)] thread_ok_aligned by auto
  let ?s1 = "wr (t + 24) TS_BLOCKED s"
  have s1: "sched lim ?s1 t Q" using assms(1) t(1) by (intro sched_wr) simp_all
  have n: "next_of ?s1 xs = next_of s xs" by (simp add: next_of_def)
  obtain m g where sw: "schedule ?s1 = ret (Switch t (next_of ?s1 xs) []) (con_update g (?s1\<lparr>kmem := m\<rparr>))"
    and s2: "sched lim (?s1\<lparr>kmem := m\<rparr>) t (Q(ready_threads ?s1 \<mapsto> tl xs))"
    and o: "\<And>x. lim \<le> unat x \<Longrightarrow> m x = kmem ?s1 x"
    by (rule schedule_switches [OF s1, of xs])
      (use n assms(2,3) False t in \<open>simp_all add: thread_statuses that\<close>)
  have "ld32 m (t + 24) = TS_BLOCKED"
    using thread_rd_above [OF schedD(1) [OF s1] o schedD(3) [OF s1], of 24] by simp
  moreover have "thread_block s = ret (Switch t (next_of s xs) []) (con_update g (?s1\<lparr>kmem := m\<rparr>))"
    using False t(2) sw n by (simp add: thread_block_def int_get_level_def)
  moreover have "same_kernel s (con_update g (?s1\<lparr>kmem := m\<rparr>))"
    by (rule same_kernelI [where m = m and c = "g (con s)" and f = "firstFreeSegment s" and k = "tick_count s"
          and i = "iflag s"]) (rule kstate.equality; simp)
  moreover have "kept_but {t + 24} s ?s1"
    using t by (intro kept_but_wr [OF thread_word [of s t 24] _ kept_but_refl [OF refl]]) simp_all
  then have "kept_but {t + 24} s (con_update g (?s1\<lparr>kmem := m\<rparr>))"
    by (rule kept_but_above [OF _ queues_lim [OF schedD(1) [OF assms(1)]]]) (simp add: o)
  ultimately show ?thesis using s2 False by auto
qed

text \<open>
  \<^verbatim>\<open>thread_block\<close> with interrupts off takes the running thread out of the scheduling: it is
  blocked and in no list it was not in before, and the processor goes to the next ready thread;
  with interrupts on it panics.
\<close>

theorem block_leaves_ready_list:
  assumes "sched lim s t Q" and "Q (ready_threads s) = Some xs" and "next_of s xs \<noteq> t"
  shows "if iflag s then thread_block s = PANIC ''Cannot block without interrupts off'' s
    else \<exists>s'. thread_block s = ret (Switch t (next_of s xs) []) s' \<and>
      sched lim s' t (Q(ready_threads s \<mapsto> tl xs)) \<and> same_kernel s s' \<and> thr_status s' t = TS_BLOCKED"
  using block_step [OF assms] by auto

lemma unblock_step:
  assumes "sched lim s t Q" and "Q (ready_threads s) = Some xs" and "room lim s"
    and "page_aligned u" and "0x80000000 \<le> unat u"
  shows "if \<not> is_thread u s then thread_unblock E u s = PANIC ''NOT THREAD'' s
    else if thr_status s u \<noteq> TS_BLOCKED then thread_unblock E u s = PANIC ''UNBLOCKING NON-BLOCKED Thread'' s
    else \<exists>s'. thread_unblock E u s = ret () s' \<and> sched lim s' t (Q(ready_threads s \<mapsto> xs @ [u])) \<and>
      same_kernel s s' \<and> iflag s' = iflag s \<and> thr_status s' u = TS_READY \<and> kept_but {u + 24} s s' \<and>
      unat (firstFreeSegment s') \<le> unat (firstFreeSegment s) + 40"
proof -
  consider "\<not> is_thread u s" | "is_thread u s" "thr_status s u \<noteq> TS_BLOCKED"
    | "is_thread u s" "thr_status s u = TS_BLOCKED" by blast
  then show ?thesis
  proof cases
    case 3
    then have u: "thread_ok s u" using assms(4,5) by (simp add: thread_ok_def)
    let ?s1 = "s\<lparr>iflag := False\<rparr>"
    have s1: "sched lim ?s1 t Q" "Q (ready_threads ?s1) = Some xs" "room lim ?s1"
      using assms(1-3) by (simp_all add: room_def)
    obtain m where a: "append (env_vp E) (ready_threads ?s1) u ?s1 =
        ret () (?s1\<lparr>kmem := m, firstFreeSegment := firstFreeSegment ?s1 + 40\<rparr>)"
      and s2: "sched lim (?s1\<lparr>kmem := m, firstFreeSegment := firstFreeSegment ?s1 + 40\<rparr>) t (Q(ready_threads ?s1 \<mapsto> xs @ [u]))"
      and o: "\<And>x. lim \<le> unat x \<Longrightarrow> m x = kmem ?s1 x"
      by (rule sched_append [OF s1, where vp = "env_vp E" and d = u]) (rule that)
    let ?s2 = "?s1\<lparr>kmem := m, firstFreeSegment := firstFreeSegment ?s1 + 40\<rparr>"
    let ?s3 = "int_set (iflag s) (wr (u + 24) TS_READY ?s2)"
    have u2: "thread_ok ?s2 u"
      by (rule thread_ok_above [OF schedD(1) [OF s1(1)] o]) (use u in simp_all)
    have "sched lim (wr (u + 24) TS_READY ?s2) t (Q(ready_threads s \<mapsto> xs @ [u]))"
      using s2 by (intro sched_wr [OF _ u2]) simp_all
    then have "sched lim ?s3 t (Q(ready_threads s \<mapsto> xs @ [u]))"
      unfolding sched_int_set .
    moreover have "thread_unblock E u s = ret () ?s3"
      using 3 a by (simp add: thread_unblock_def int_defs Let_def)
    moreover have "same_kernel s ?s3"
      by (rule same_kernelI [where m = "st32 (u + 24) TS_READY m" and c = "con s"
            and f = "firstFreeSegment s + 40" and k = "tick_count s" and i = "iflag s"])
        (rule kstate.equality; simp add: int_defs Let_def)
    moreover have "iflag ?s3 = iflag s" "thr_status ?s3 u = TS_READY"
      by (simp_all add: int_defs Let_def)
    moreover have "kept_but {u + 24} s ?s3"
    proof (rule kept_but_wr [OF thread_word [OF u, of 24]])
      show "kept_but {u + 24} s ?s2"
        by (rule kept_but_above [OF kept_but_refl [OF refl] queues_lim [OF schedD(1) [OF assms(1)]]]) (simp add: o)
    qed (simp_all add: int_defs Let_def)
    moreover have "unat (firstFreeSegment ?s3) \<le> unat (firstFreeSegment s) + 40"
      using unat_plus_small [of "firstFreeSegment s" 40] assms(3) queues_lim [OF schedD(1) [OF assms(1)]]
      by (simp add: int_defs Let_def room_def)
    ultimately show ?thesis using 3 by auto
  qed (simp_all add: thread_unblock_def)
qed

text \<open>
  \<^verbatim>\<open>thread_unblock\<close> panics for what is no thread and for a thread that is not blocked, and
  otherwise makes the thread ready and puts it at the end of the ready list, leaving the
  interrupt flag as it was.
\<close>

theorem unblock_result:
  assumes "sched lim s t Q" and "Q (ready_threads s) = Some xs" and "room lim s"
    and "page_aligned u" and "0x80000000 \<le> unat u"
  shows "if \<not> is_thread u s then thread_unblock E u s = PANIC ''NOT THREAD'' s
    else if thr_status s u \<noteq> TS_BLOCKED then thread_unblock E u s = PANIC ''UNBLOCKING NON-BLOCKED Thread'' s
    else \<exists>s'. thread_unblock E u s = ret () s' \<and> sched lim s' t (Q(ready_threads s \<mapsto> xs @ [u])) \<and>
      same_kernel s s' \<and> iflag s' = iflag s \<and> thr_status s' u = TS_READY"
  using unblock_step [OF assms, of E] by auto

section \<open>The timer\<close>

lemma uint_unat_less: "unat w < n \<longleftrightarrow> uint w < int n" "n \<le> unat w \<longleftrightarrow> int n \<le> uint w" for w :: u32
proof -
  have "uint w = int (unat w)" by simp
  then show "unat w < n \<longleftrightarrow> uint w < int n" "n \<le> unat w \<longleftrightarrow> int n \<le> uint w" by linarith+
qed

lemma sint_inc: "unat w < 2147483647 \<Longrightarrow> sint (w + 1) = uint w + 1" for w :: u32
proof -
  assume w: "unat w < 2147483647"
  then have "unat (w + 1) = unat w + 1" using unat_plus_small [of w 1] by simp
  then have "int (unat (w + 1)) = int (unat w) + 1" by linarith
  then have "uint (w + 1) = uint w + 1" by simp
  then show ?thesis using w by (simp add: sint_uint signed_take_bit_int_eq_self uint_unat_less)
qed

lemma tick_within_slice_step:
  assumes "unat (tick_count s) < 3"
  shows "\<exists>s'. idt_int E 32 s = ret Done s' \<and> tick_count s' = tick_count s + 1 \<and> ticks s' = ticks s + 1 \<and>
    iflag s' = iflag s \<and> kmem s' = kmem s \<and> esp s' = esp s \<and> hd (io (con s')) = Out 0x20 0x20"
proof -
  have "sint (tick_count s + 1) < TIME_SLICE"
    using assms sint_inc [of "tick_count s"] by (simp add: TIME_SLICE_def uint_unat_less)
  then have "\<not> TIME_SLICE \<le> sint (tick_count s + 1)" by simp
  then show ?thesis
    by (simp add: idt_int_def idt_global_int_wrapper_def thread_tick_def time_tick_def andthen_def int_rest_def Let_def
        outportb_def port_byte_out_def PIC1_COMMAND_def PIC_EOI_def)
qed

text \<open>
  the timer interrupt leaves a running thread alone until its time slice ends: with less than
  three ticks counted it only counts (and reports each second), acknowledges the interrupt to the
  controller and returns with the interrupt flag as before.
\<close>

theorem tick_within_slice:
  assumes "unat (tick_count s) < 3"
  shows "\<exists>s'. idt_int E 32 s = ret Done s' \<and> tick_count s' = tick_count s + 1 \<and> ticks s' = ticks s + 1 \<and>
    iflag s' = iflag s \<and> kmem s' = kmem s \<and> esp s' = esp s \<and> hd (io (con s')) = Out 0x20 0x20"
  using assms by (rule tick_within_slice_step)

lemma timer_preempts_step:
  assumes "sched lim s t Q" and "Q (ready_threads s) = Some xs" and "room lim s"
    and "next_of s (yield_queue s t xs) \<noteq> t" and "3 \<le> unat (tick_count s)" and "unat (tick_count s) < 2147483647"
  shows "\<exists>s'. idt_int E 32 s = ret (Switch t (next_of s (yield_queue s t xs)) [In_yield False, In_int 32, In_iret (iflag s)]) s' \<and>
    sched lim s' t (Q(ready_threads s \<mapsto> tl (yield_queue s t xs))) \<and> thr_status s' t = TS_READY \<and> \<not> iflag s' \<and>
    ready_threads s' = ready_threads s \<and> idle_thread s' = idle_thread s \<and> kept_but {t + 24} s s' \<and>
    firstFreeSegment s' = firstFreeSegment s + (if t = idle_thread s then 0 else 40)"
proof -
  let ?s = "s\<lparr>iflag := False\<rparr>"
  define s1 where "s1 = (time_tick ?s)\<lparr>tick_count := tick_count s + 1\<rparr>"
  have s1: "s1 = ?s\<lparr>con := con s1, ticks := ticks s1, tick_count := tick_count s + 1\<rparr>"
    by (simp add: s1_def time_tick_def Let_def)
  have q: "queues lim s1 Q"
    by (subst s1, rule queues_cong [OF schedD(1) [OF assms(1)]]) simp_all
  have "sched lim s1 t Q"
    by (rule sched_above [OF assms(1) refl q]) (use assms(2) s1 in \<open>auto simp: s1_def time_tick_def Let_def\<close>)
  moreover have f: "ready_threads s1 = ready_threads s" "idle_thread s1 = idle_thread s" "iflag s1 = False"
      "firstFreeSegment s1 = firstFreeSegment s"
    by (simp_all add: s1_def time_tick_def Let_def)
  then have e: "Q (ready_threads s1) = Some xs" "room lim s1" "yield_queue s1 t xs = yield_queue s t xs"
    "next_of s1 ys = next_of s ys" for ys
    using assms(2,3) by (simp_all add: room_def yield_queue_def next_of_def)
  ultimately obtain s' where y: "thread_yield E s1 = ret (Switch t (next_of s (yield_queue s t xs)) [In_yield False]) s'"
    "sched lim s' t (Q(ready_threads s \<mapsto> tl (yield_queue s t xs)))" "thr_status s' t = TS_READY" "\<not> iflag s'"
    and sk: "same_kernel s1 s'" and kb: "kept_but {t + 24} s1 s'"
    and ff: "firstFreeSegment s' = firstFreeSegment s + (if t = idle_thread s then 0 else 40)"
    using yield_round_robin_step [of lim s1 t Q xs E] assms(4) f by auto
  have k: "ready_threads s' = ready_threads s" "idle_thread s' = idle_thread s" "kept_but {t + 24} s s'"
    using same_kernelD(1,2) [OF sk] f kb s1 by (simp_all add: kept_but_def s1_def time_tick_def Let_def)
  have "TIME_SLICE \<le> sint (tick_count s + 1)"
    using assms(5) sint_inc [OF assms(6)] by (simp add: TIME_SLICE_def uint_unat_less)
  then have "thread_tick E ?s = thread_yield E s1"
    by (simp add: thread_tick_def s1_def Let_def time_tick_def)
  then have "idt_int E 32 s = ret (Switch t (next_of s (yield_queue s t xs)) [In_yield False, In_int 32, In_iret (iflag s)]) s'"
    using y(1) by (simp add: idt_int_def idt_global_int_wrapper_def andthen_def)
  with y k ff show ?thesis by blast
qed


section \<open>Safety and the switch to oneself\<close>

text \<open>
  \<^verbatim>\<open>schedule\<close> switches only from the thread whose page the stack pointer is in, to another
  thread, with interrupts off, and never away from a thread that is marked running; in any state.
\<close>

theorem schedule_safe:
  "case schedule s of Inr (Switch c n fs, s') \<Rightarrow>
      c = get_base_page (esp s) \<and> is_thread c s \<and> n \<noteq> c \<and> fs = [] \<and> \<not> iflag s' \<and> thr_status s' c \<noteq> TS_RUNNING
    | _ \<Rightarrow> True"
proof (cases "is_thread (get_base_page (esp s)) s")
  case False
  then show ?thesis
    by (simp add: schedule_def current_thread_def get_esp_def is_thread_def PANIC_def)
next
  case True
  let ?t = "get_base_page (esp s)"
  obtain n s1 where n: "get_next_thread s = (n, s1)" by (cases "get_next_thread s")
  obtain f where f: "kprint_num (thr_stack s1 ?t) BASE_HEX (kprintln ''switching from: '' s1) =
      ret () (con_update f (kprintln ''switching from: '' s1))"
    by (rule print_hex)
  let ?s2 = "kprint '' to '' (con_update f (kprintln ''switching from: '' s1))"
  obtain g where g: "kprint_num (thr_stack s1 n) BASE_HEX ?s2 = ret () (con_update g ?s2)"
    by (rule print_hex)
  have "current_thread s = ret ?t s"
    using True by (simp add: current_thread_def get_esp_def is_thread_def)
  then have "schedule s = (if iflag s1 then PANIC ''SCHEDULING WITH INTERRUPTS ENABLED'' s1
      else if thr_status s1 ?t = TS_RUNNING then PANIC ''current process is still running'' s1
      else if ?t \<noteq> n then ret (Switch ?t n []) (con_update g ?s2)
      else seq (switch_complete 0 s1) (\<lambda>_ s. ret Done s))"
    using n f g by (simp add: schedule_def int_get_level_def)
  then show ?thesis
    using True by (auto simp: PANIC_def seq_def split: sum.splits)
qed

lemma schedule_self:
  assumes "sched lim s t Q" and "Q (ready_threads s) = Some xs" and "next_of s xs = t"
    and "\<not> iflag s" and "thr_status s t \<noteq> TS_RUNNING"
  obtains m where "schedule s = seq (switch_complete 0 (s\<lparr>kmem := m\<rparr>)) (\<lambda>_ s. ret Done s)"
    and "sched lim (s\<lparr>kmem := m\<rparr>) t (Q(ready_threads s \<mapsto> tl xs))" and "\<And>x. lim \<le> unat x \<Longrightarrow> m x = kmem s x"
proof -
  note q = schedD(1) [OF assms(1)] and run = schedD(2) [OF assms(1)] and t = schedD(3) [OF assms(1)]
  obtain m where m: "get_next_thread s = (next_of s xs, s\<lparr>kmem := m\<rparr>)"
    "queues lim (s\<lparr>kmem := m\<rparr>) (Q(ready_threads s \<mapsto> tl xs))" "\<And>x. lim \<le> unat x \<Longrightarrow> m x = kmem s x"
    by (rule get_next_thread_result [OF q assms(2)]) (rule that)
  have st: "ld32 m (t + 24) = thr_status s t" using thread_rd_above [OF q m(3) t, of 24] by simp
  have "sched lim (s\<lparr>kmem := m\<rparr>) t (Q(ready_threads s \<mapsto> tl xs))"
    by (rule sched_above [OF assms(1) m(3,2)]) simp_all
  moreover have "schedule s = seq (switch_complete 0 (s\<lparr>kmem := m\<rparr>)) (\<lambda>_ s. ret Done s)"
    using run m(1) assms(3-5) st by (simp add: schedule_def int_get_level_def)
  ultimately show ?thesis using that m(3) by blast
qed

lemma lone_yield_step:
  assumes "sched lim s t Q" and "Q (ready_threads s) = Some xs" and "room lim s"
    and "next_of s (yield_queue s t xs) = t"
  shows "\<exists>s'. sched lim s' t (Q(ready_threads s \<mapsto> tl (yield_queue s t xs))) \<and> tick_count s' = 0 \<and>
    thr_status s' t = TS_RUNNING \<and>
    kept_but {t + 24} s s' \<and> same_kernel s s' \<and>
    firstFreeSegment s' = firstFreeSegment s + (if t = idle_thread s then 0 else 40) \<and>
    thread_yield E s =
      seq (if rd s' 24 = TS_DYING then thread_kill 0 s' else ret () s') (\<lambda>_ s''. ret Done (int_set (iflag s) s''))"
proof -
  let ?q = "yield_queue s t xs"
  have t: "thread_ok s t" "running s t" "aligned t" using schedD [OF assms(1)] thread_ok_aligned by auto
  let ?s1 = "wr (t + 24) TS_READY (s\<lparr>iflag := False\<rparr>)"
  have s1: "sched lim ?s1 t Q"
    using assms(1) t(1) by (intro sched_wr) simp_all
  have r: "Q (ready_threads ?s1) = Some xs" "room lim ?s1" "yield_queue ?s1 t xs = ?q"
    using assms(2,3) by (simp_all add: room_def yield_queue_def)
  obtain m f where a: "(if t \<noteq> idle_thread ?s1 then append (env_vp E) (ready_threads ?s1) t ?s1 else ret () ?s1) =
      ret () (?s1\<lparr>kmem := m, firstFreeSegment := f\<rparr>)"
    and s2: "sched lim (?s1\<lparr>kmem := m, firstFreeSegment := f\<rparr>) t (Q(ready_threads s \<mapsto> ?q))"
    and o: "\<And>x. lim \<le> unat x \<Longrightarrow> m x = kmem ?s1 x" and f: "f = firstFreeSegment s + (if t = idle_thread s then 0 else 40)"
    by (rule yield_append [OF s1 r(1,2), where vp = "env_vp E", unfolded r(3)], rule that, assumption, simp_all)
  let ?s2 = "?s1\<lparr>kmem := m, firstFreeSegment := f\<rparr>"
  have "ld32 m (t + 24) = rd ?s1 (t + 24)"
    using thread_rd_above [OF schedD(1) [OF s1] o schedD(3) [OF s1], of 24] by simp
  then have st: "thr_status ?s2 t = TS_READY" by simp
  have n: "next_of ?s2 ?q = next_of s ?q" by (simp add: next_of_def)
  obtain m' where sw: "schedule ?s2 = seq (switch_complete 0 (?s2\<lparr>kmem := m'\<rparr>)) (\<lambda>_ s. ret Done s)"
    and o': "\<And>x. lim \<le> unat x \<Longrightarrow> m' x = kmem ?s2 x"
    and s3: "sched lim (?s2\<lparr>kmem := m'\<rparr>) t (Q(ready_threads s \<mapsto> tl ?q))"
    by (rule schedule_self [OF s2, of ?q]) (use n assms(4) st in \<open>simp_all add: thread_statuses that\<close>)
  let ?s3 = "(wr (t + 24) TS_RUNNING (?s2\<lparr>kmem := m'\<rparr>))\<lparr>tick_count := 0\<rparr>"
  have "switch_complete 0 (?s2\<lparr>kmem := m'\<rparr>) = (if rd ?s3 24 = TS_DYING then thread_kill 0 ?s3 else ret () ?s3)"
    using schedD(2) [OF s3] by (simp add: switch_complete_def Let_def) 
  then have "thread_yield E s = seq (if rd ?s3 24 = TS_DYING then thread_kill 0 ?s3 else ret () ?s3)
      (\<lambda>_ s''. ret Done (int_set (iflag s) s''))"
    using t(2) a sw
    by (cases "switch_complete 0 (?s2\<lparr>kmem := m'\<rparr>)") (auto simp: thread_yield_def int_defs Let_def andthen_def)
  moreover have "sched lim ?s3 t (Q(ready_threads s \<mapsto> tl ?q))"
    unfolding sched_simps using s3 schedD(3) [OF s3] by (intro sched_wr) simp_all
  moreover have "kept_but {t + 24} s ?s3"
  proof (rule kept_but_wr [OF thread_word [OF t(1), of 24]])
    have "kept_but {t + 24} s ?s1"
      using t by (intro kept_but_wr [OF thread_word [of s t 24] _ kept_but_refl [OF refl]]) simp_all
    then show "kept_but {t + 24} s (?s2\<lparr>kmem := m'\<rparr>)"
      by (rule kept_but_above [OF _ queues_lim [OF schedD(1) [OF assms(1)]]]) (simp add: o o')
  qed simp_all
  moreover have "same_kernel s ?s3" by (simp add: same_kernel_def restore_def)
  ultimately show ?thesis
    using f by (intro exI [of _ ?s3]) simp
qed

text \<open>
  a thread that yields with no other thread ready is not switched, but \<^verbatim>\<open>switch_complete\<close> then
  takes address 0 for the previous thread: it reads the word at address 24, which lies in the
  heap, as that thread's status, and when it happens to be 3 it kills the thread 0.
\<close>

theorem lone_yield_reads_null:
  assumes "sched lim s t Q" and "Q (ready_threads s) = Some xs" and "room lim s"
    and "next_of s (yield_queue s t xs) = t"
  shows "\<exists>s'. sched lim s' t (Q(ready_threads s \<mapsto> tl (yield_queue s t xs))) \<and> tick_count s' = 0 \<and>
    thr_status s' t = TS_RUNNING \<and>
    thread_yield E s =
      seq (if rd s' 24 = TS_DYING then thread_kill 0 s' else ret () s') (\<lambda>_ s''. ret Done (int_set (iflag s) s''))"
  using lone_yield_step [OF assms, of E] by blast

section \<open>An example state\<close>

text \<open>
  A kernel with the thread at \<^verbatim>\<open>0xC0008000\<close> running at the end of its time slice, the one at
  \<^verbatim>\<open>0xC0009000\<close> in the ready list and the one at \<^verbatim>\<open>0xC000A000\<close> blocked, for the witnesses.
\<close>

definition example_env :: env where
  "example_env = \<lparr>env_vp = 0, env_rodata = (\<lambda>_. 0),
     env_symbols = \<lparr>sym_run = 0, sym_first_switch = 0, sym_idle = 0, sym_thread_echo = 0\<rparr>\<rparr>"

definition example_ready :: "kstate \<Rightarrow> ptr \<Rightarrow> bool" where
  "example_ready s l \<longleftrightarrow> sched 4096 s 0xC0008000 [l \<mapsto> [0xC0009000]] \<and> ready_threads s = l \<and>
     thread_ok s 0xC0009000 \<and> thread_ok s 0xC000A000 \<and> thr_status s 0xC0009000 = TS_READY \<and>
     thr_status s 0xC000A000 = TS_BLOCKED \<and> room 4096 s \<and> tick_count s = 3 \<and> iflag s \<and>
     idle_thread s = 0xC000B000 \<and> esp s = 0xC0008F00 \<and> unat (firstFreeSegment s) = 80"

lemma queues_start: "queues 4096 heap_state Map.empty"
  by (rule queues_intro [OF heap_state_ok]) simp_all

lemma example_ready_exists:
  obtains s l where "example_ready s l"
proof -
  have f0: "unat (firstFreeSegment heap_state) = 0"
    using first_free_end [OF heap_state_ok] by simp
  then have r: "room 4096 heap_state" by (simp add: room_def)
  obtain m l where q: "queues 4096 (heap_state\<lparr>kmem := m, firstFreeSegment := firstFreeSegment heap_state + 40\<rparr>) [l \<mapsto> []]"
    by (rule queues_init [OF queues_start r, where vp = 0]) (rule that)
  let ?s1 = "heap_state\<lparr>kmem := m, firstFreeSegment := firstFreeSegment heap_state + 40\<rparr>"
  have f1: "unat (firstFreeSegment ?s1) = 40"
    using f0 unat_plus_small [of "firstFreeSegment heap_state" 40] by simp
  have r1: "room 4096 ?s1" unfolding room_def f1 by simp
  obtain m' where q': "queues 4096 (?s1\<lparr>kmem := m', firstFreeSegment := firstFreeSegment ?s1 + 40\<rparr>) [l \<mapsto> [0xC0009000]]"
    by (rule queues_append [OF q _ r1, where vp = 0 and d = "0xC0009000" and l = l and xs = "[]"]) (simp, rule that, simp)
  let ?s2 = "?s1\<lparr>kmem := m', firstFreeSegment := firstFreeSegment ?s1 + 40\<rparr>"
  have f2: "unat (firstFreeSegment ?s2) = 80"
    using f1 unat_plus_small [of "firstFreeSegment ?s1" 40] by simp
  let ?s3 = "wr 0xC0008028 T_MAGIC (wr 0xC0009028 T_MAGIC (wr 0xC000A028 T_MAGIC
      (wr 0xC0009018 TS_READY (wr 0xC000A018 TS_BLOCKED ?s2))))"
  let ?s = "?s3\<lparr>esp := 0xC0008F00, iflag := True, idle_thread := 0xC000B000, ready_threads := l, tick_count := 3\<rparr>"
  have "queues 4096 ?s3 [l \<mapsto> [0xC0009000]]" by (intro queues_wr q') simp_all
  then have "queues 4096 ?s [l \<mapsto> [0xC0009000]]" by (rule queues_cong) simp_all
  then have "example_ready ?s l"
    using f2 by (simp add: example_ready_def sched_def running_def thread_ok_def is_thread_def page_aligned_def
        get_base_page_def Let_def PGSIZE_def room_def)
  then show ?thesis by (rule that)
qed

lemma example_readyD:
  assumes "example_ready s l"
  shows "sched 4096 s 0xC0008000 [l \<mapsto> [0xC0009000]]" "[l \<mapsto> [0xC0009000]] (ready_threads s) = Some [0xC0009000]"
    "room 4096 s" "next_of s [0xC0009000] = 0xC0009000" "yield_queue s 0xC0008000 [0xC0009000] = [0xC0009000, 0xC0008000]"
    "next_of s (yield_queue s 0xC0008000 [0xC0009000]) = 0xC0009000" "iflag s"
  using assms by (simp_all add: example_ready_def next_of_def yield_queue_def)

theorem yield_round_robin_witness:
  "\<exists>s s'. thread_yield example_env s = ret (Switch 0xC0008000 0xC0009000 [In_yield True]) s' \<and>
     thr_status s' 0xC0008000 = TS_READY"
proof -
  obtain s l where e: "example_ready s l" by (rule example_ready_exists)
  note d = example_readyD [OF e]
  have "next_of s (yield_queue s 0xC0008000 [0xC0009000]) \<noteq> 0xC0008000" by (simp add: d(6))
  from yield_round_robin [OF d(1-3) this, of example_env] show ?thesis
    unfolding d(6) using d(7) by auto
qed

theorem resume_after_yield_witness:
  "\<exists>s s'. resume example_env 0xC0009000 [In_yield True] s = ret Done s' \<and>
     thr_status s' 0xC0008000 = TS_RUNNING \<and> iflag s'"
proof -
  obtain s l where e: "example_ready s l" by (rule example_ready_exists)
  have "thread_ok s 0xC0009000" "(0xC0009000 :: ptr) \<noteq> 0xC0008000" "thr_status s 0xC0009000 \<noteq> TS_DYING"
    using e by (simp_all add: example_ready_def thread_statuses)
  from resume_after_yield [OF example_readyD(1) [OF e] this, of example_env True] show ?thesis by auto
qed

theorem block_leaves_ready_list_witness:
  "\<exists>s s'. \<not> iflag s \<and> thread_block s = ret (Switch 0xC0008000 0xC0009000 []) s' \<and>
     thr_status s' 0xC0008000 = TS_BLOCKED"
proof -
  obtain s l where e: "example_ready s l" by (rule example_ready_exists)
  note d = example_readyD [OF e]
  let ?s = "s\<lparr>iflag := False\<rparr>"
  have "sched 4096 ?s 0xC0008000 [l \<mapsto> [0xC0009000]]" "[l \<mapsto> [0xC0009000]] (ready_threads ?s) = Some [0xC0009000]"
    "next_of ?s [0xC0009000] \<noteq> 0xC0008000"
    using d by (simp_all add: next_of_def)
  from block_leaves_ready_list [OF this]
  have "\<exists>s'. thread_block ?s = ret (Switch 0xC0008000 0xC0009000 []) s' \<and> thr_status s' 0xC0008000 = TS_BLOCKED"
    by (auto simp: next_of_def)
  moreover have "\<not> iflag ?s" by simp
  ultimately show ?thesis by blast
qed

theorem unblock_result_witness:
  "\<exists>s s' l. is_thread 0xC000A000 s \<and> thr_status s 0xC000A000 = TS_BLOCKED \<and>
     thread_unblock example_env 0xC000A000 s = ret () s' \<and>
     sched 4096 s' 0xC0008000 [l \<mapsto> [0xC0009000, 0xC000A000]] \<and> thr_status s' 0xC000A000 = TS_READY"
proof -
  obtain s l where e: "example_ready s l" by (rule example_ready_exists)
  have u: "is_thread 0xC000A000 s" "thr_status s 0xC000A000 = TS_BLOCKED" "ready_threads s = l"
    using e by (simp_all add: example_ready_def thread_ok_def)
  have "page_aligned 0xC000A000" "0x80000000 \<le> unat (0xC000A000 :: ptr)" by (simp_all add: page_aligned_def)
  from unblock_result [OF example_readyD(1-3) [OF e] this, of example_env] u
  have "\<exists>s'. thread_unblock example_env 0xC000A000 s = ret () s' \<and>
      sched 4096 s' 0xC0008000 [l \<mapsto> [0xC0009000, 0xC000A000]] \<and> thr_status s' 0xC000A000 = TS_READY"
    by auto
  with u show ?thesis by blast
qed

theorem tick_within_slice_witness:
  "\<exists>s'. idt_int example_env 32 (heap_state\<lparr>tick_count := 2\<rparr>) = ret Done s' \<and> tick_count s' = 3"
  using tick_within_slice [of "heap_state\<lparr>tick_count := 2\<rparr>" example_env] by auto


lemma example_lone_exists:
  obtains s l where "sched 4096 s 0xC0008000 [l \<mapsto> []]" and "ready_threads s = l" and "room 4096 s"
    and "idle_thread s = 0xC0008000"
proof -
  obtain s l where e: "example_ready s l" by (rule example_ready_exists)
  note d = example_readyD [OF e]
  obtain m where m: "queues 4096 (s\<lparr>kmem := m\<rparr>) [l \<mapsto> []]" "\<And>x. 4096 \<le> unat x \<Longrightarrow> m x = kmem s x"
    by (rule queues_pop [OF schedD(1) [OF d(1)], of l "0xC0009000" "[]"]) (simp, rule that, simp)
  let ?s = "s\<lparr>kmem := m, idle_thread := 0xC0008000\<rparr>"
  have "queues 4096 ?s [l \<mapsto> []]" by (rule queues_cong [OF m(1)]) simp_all
  then have "sched 4096 ?s 0xC0008000 [l \<mapsto> []]"
    by (intro sched_above [OF d(1) m(2)]) (use e in \<open>simp_all add: example_ready_def\<close>)
  then show ?thesis
    using e by (intro that [of ?s l]) (simp_all add: example_ready_def room_def)
qed

theorem lone_yield_reads_null_witness:
  "\<exists>s s'. thread_yield example_env s =
     seq (if rd s' 24 = TS_DYING then thread_kill 0 s' else ret () s') (\<lambda>_ s''. ret Done (int_set (iflag s) s''))"
proof -
  obtain s l where e: "sched 4096 s 0xC0008000 [l \<mapsto> []]" "ready_threads s = l" "room 4096 s"
    "idle_thread s = 0xC0008000" by (rule example_lone_exists)
  have "[l \<mapsto> []] (ready_threads s) = Some []" "next_of s (yield_queue s 0xC0008000 []) = 0xC0008000"
    using e by (simp_all add: next_of_def yield_queue_def)
  from lone_yield_reads_null [OF e(1) this(1) e(3) this(2), of example_env] show ?thesis by blast
qed

end
