(* ===== verification/Synch.thy ===== *)
theory Synch
  imports Sched
begin

text \<open>
  What semaphores and locks do (\<^verbatim>\<open>src/thread/synch.c\<close>): taking a free semaphore, waiting in its
  list, waking the first waiter; then taking and releasing a lock.
\<close>

section \<open>Words outside the thread structs\<close>

text \<open>\<open>clear_of t a\<close>: the word \<open>a\<close> of kernel space is not in the struct of the thread \<open>t\<close>.\<close>

definition clear_of :: "ptr \<Rightarrow> ptr \<Rightarrow> bool" where
  "clear_of t a \<longleftrightarrow> kernel_word a \<and> (\<forall>j. unat j < 44 \<longrightarrow> a \<noteq> t + j)"

lemma clear_of_neq: "clear_of t a \<Longrightarrow> unat j < 44 \<Longrightarrow> a \<noteq> t + j \<and> t + j \<noteq> a"
  by (auto simp: clear_of_def)

lemma thread_ok_wr_clear: "thread_ok s t \<Longrightarrow> clear_of t a \<Longrightarrow> thread_ok (wr a v s) t"
  using clear_of_neq [of t a 40] thread_ok_aligned [of s t]
  by (simp add: thread_ok_def is_thread_def clear_of_def kernel_word_def)

lemma sched_wr_clear: "sched lim s t Q \<Longrightarrow> clear_of t a \<Longrightarrow> sched lim (wr a v s) t Q"
  using queues_wr [of lim s Q a v] thread_ok_wr_clear [of s t a v]
  by (auto simp: sched_def running_def clear_of_def kernel_word_def)

section \<open>Semaphores\<close>

lemma sema_down_from_free:
  "sema_value s sm \<noteq> 0 \<Longrightarrow> sema_down_from E sm i s = ret Done (int_set i (wr sm (sema_value s sm - 1) s))"
  by (simp add: sema_down_from_def sema_down_loop.simps)

text \<open>Waiting: the thread enters itself into the waiting list, then gives up the processor.\<close>

lemma sema_wait_steps:
  assumes "sched lim s t Q" and "Q (ready_threads s) = Some xs" and "Q (sema_waiters s sm) = Some ws"
    and "sema_waiters s sm \<noteq> ready_threads s" and "room lim s" and "next_of s xs \<noteq> t" and "\<not> iflag s"
  obtains s1 s' where "append (env_vp E) (sema_waiters s sm) t s = ret () s1"
    and "thread_block s1 = ret (Switch t (next_of s xs) []) s'"
    and "sched lim s' t (Q(sema_waiters s sm \<mapsto> ws @ [t], ready_threads s \<mapsto> tl xs))"
    and "same_kernel s s'" and "thr_status s' t = TS_BLOCKED" and "\<not> iflag s'" and "kept_but {t + 24} s s'"
    and "firstFreeSegment s' = firstFreeSegment s + 40"
proof -
  let ?w = "sema_waiters s sm"
  obtain m where a: "append (env_vp E) ?w t s = ret () (s\<lparr>kmem := m, firstFreeSegment := firstFreeSegment s + 40\<rparr>)"
    and s1: "sched lim (s\<lparr>kmem := m, firstFreeSegment := firstFreeSegment s + 40\<rparr>) t (Q(?w \<mapsto> ws @ [t]))"
    and o: "\<And>x. lim \<le> unat x \<Longrightarrow> m x = kmem s x"
    by (rule sched_append [OF assms(1,3,5), where vp = "env_vp E" and d = t]) (rule that)
  let ?s1 = "s\<lparr>kmem := m, firstFreeSegment := firstFreeSegment s + 40\<rparr>"
  have n: "next_of ?s1 xs = next_of s xs" by (simp add: next_of_def)
  have "(Q(?w \<mapsto> ws @ [t])) (ready_threads ?s1) = Some xs" "next_of ?s1 xs \<noteq> t"
    using assms(2,4,6) unfolding n by simp_all
  from block_step [OF s1 this] obtain s' where
    b: "thread_block ?s1 = ret (Switch t (next_of s xs) []) s'"
      "sched lim s' t (Q(?w \<mapsto> ws @ [t], ready_threads s \<mapsto> tl xs))" "same_kernel ?s1 s'"
      "thr_status s' t = TS_BLOCKED" "iflag s' = iflag ?s1" "kept_but {t + 24} ?s1 s'"
      "firstFreeSegment s' = firstFreeSegment ?s1"
    using assms(7) n by auto
  have "kept_but {t + 24} s ?s1"
    by (rule kept_but_above [OF kept_but_refl [OF refl] queues_lim [OF schedD(1) [OF assms(1)]]]) (simp add: o)
  then have "kept_but {t + 24} s s'" using b(6) by (rule kept_but_trans) simp_all
  moreover have "same_kernel s s'" by (rule same_kernel_trans [OF _ b(3)]) simp
  ultimately show ?thesis using that [OF a b(1,2) _ b(4)] b(5,7) assms(7) by simp
qed

lemma sema_down_from_wait:
  assumes "sched lim s t Q" and "Q (ready_threads s) = Some xs" and "Q (sema_waiters s sm) = Some ws"
    and "sema_waiters s sm \<noteq> ready_threads s" and "room lim s" and "next_of s xs \<noteq> t" and "\<not> iflag s"
    and "sema_value s sm = 0"
  obtains s' where "sema_down_from E sm i s = ret (Switch t (next_of s xs) [In_sema_down sm i]) s'"
    and "sched lim s' t (Q(sema_waiters s sm \<mapsto> ws @ [t], ready_threads s \<mapsto> tl xs))"
    and "same_kernel s s'" and "thr_status s' t = TS_BLOCKED" and "\<not> iflag s'" and "kept_but {t + 24} s s'"
    and "firstFreeSegment s' = firstFreeSegment s + 40"
proof -
  obtain s1 s' where s': "append (env_vp E) (sema_waiters s sm) t s = ret () s1"
    "thread_block s1 = ret (Switch t (next_of s xs) []) s'"
    "sched lim s' t (Q(sema_waiters s sm \<mapsto> ws @ [t], ready_threads s \<mapsto> tl xs))"
    "same_kernel s s'" "thr_status s' t = TS_BLOCKED" "\<not> iflag s'" "kept_but {t + 24} s s'"
    "firstFreeSegment s' = firstFreeSegment s + 40"
    by (rule sema_wait_steps [OF assms(1-7), where E = E]) (rule that)
  have "sema_down_from E sm i s = ret (Switch t (next_of s xs) [In_sema_down sm i]) s'"
    using assms(8) schedD(2) [OF assms(1)] s'(1,2)
    by (simp add: sema_down_from_def sema_down_loop.simps sema_wait_def)
  then show ?thesis using that s'(3-8) by blast
qed

text \<open>
  C14: taking a semaphore: with a positive value it is decremented and the caller goes on, its
  interrupt flag as before; with the value 0 the caller joins the end of the semaphore's waiting
  list, blocked, and the processor goes to the next ready thread.
\<close>

theorem sema_down_result:
  assumes "sched lim s t Q" and "sm \<noteq> 0" and "Q (ready_threads s) = Some xs" and "Q (sema_waiters s sm) = Some ws"
    and "sema_waiters s sm \<noteq> ready_threads s" and "room lim s" and "next_of s xs \<noteq> t"
  shows "if sema_value s sm \<noteq> 0 then sema_down E sm s = ret Done (wr sm (sema_value s sm - 1) s)
    else \<exists>s'. sema_down E sm s = ret (Switch t (next_of s xs) [In_sema_down sm (iflag s)]) s' \<and>
      sched lim s' t (Q(sema_waiters s sm \<mapsto> ws @ [t], ready_threads s \<mapsto> tl xs)) \<and>
      thr_status s' t = TS_BLOCKED \<and> kept_but {t + 24} s s'"
proof (cases "sema_value s sm = 0")
  case False
  then show ?thesis
    using assms(2) by (simp add: sema_down_def int_defs Let_def sema_down_from_free)
next
  case True
  let ?s = "s\<lparr>iflag := False\<rparr>"
  have n: "next_of ?s xs = next_of s xs" by (simp add: next_of_def)
  obtain s' where s': "sema_down_from E sm (iflag s) ?s = ret (Switch t (next_of ?s xs) [In_sema_down sm (iflag s)]) s'"
    "sched lim s' t (Q(sema_waiters ?s sm \<mapsto> ws @ [t], ready_threads ?s \<mapsto> tl xs))"
    "thr_status s' t = TS_BLOCKED" "kept_but {t + 24} ?s s'"
    by (rule sema_down_from_wait [of lim ?s t Q xs sm ws E "iflag s"])
      (use assms n True in \<open>simp_all add: room_def that\<close>)
  then show ?thesis
    using True assms(2) n by (auto simp: sema_down_def int_defs Let_def kept_but_def)
qed

text \<open>The parts of \<^verbatim>\<open>sema_up\<close>: taking the first waiting thread from its list, and making it ready.\<close>

lemma sema_up_pop:
  assumes s: "sched lim s t Q" and sm: "clear_of t sm" and w: "Q (sema_waiters s sm) = Some (u # us)" "sema_waiters s sm \<noteq> ready_threads s"
    and r: "Q (ready_threads s) = Some xs" and u: "thread_ok s u"
  obtains m1 where "pop (sema_waiters s sm) (s\<lparr>iflag := False\<rparr>) = (u, s\<lparr>iflag := False, kmem := m1\<rparr>)"
    and "sched lim (s\<lparr>iflag := False, kmem := m1\<rparr>) t (Q(sema_waiters s sm \<mapsto> us))" and "kept_but {} s (s\<lparr>iflag := False, kmem := m1\<rparr>)"
    and "sema_value (s\<lparr>iflag := False, kmem := m1\<rparr>) sm = sema_value s sm"
    and "thr_status (s\<lparr>iflag := False, kmem := m1\<rparr>) u = thr_status s u" and "is_thread u (s\<lparr>iflag := False, kmem := m1\<rparr>)"
proof -
  let ?w = "sema_waiters s sm" and ?s = "s\<lparr>iflag := False\<rparr>"
  have q: "queues lim ?s Q" "Q ?w = Some (u # us)" using schedD(1) [OF s] w(1) by simp_all
  obtain m1 where p: "pop ?w ?s = (u, ?s\<lparr>kmem := m1\<rparr>)" "queues lim (?s\<lparr>kmem := m1\<rparr>) (Q(?w \<mapsto> us))"
    and o: "\<And>x. lim \<le> unat x \<Longrightarrow> m1 x = kmem ?s x"
    by (rule queues_pop [OF q]) (rule that)
  let ?s1 = "?s\<lparr>kmem := m1\<rparr>"
  have s0: "sched lim ?s t Q" using s by simp
  have "sched lim ?s1 t (Q(?w \<mapsto> us))"
    by (rule sched_above [OF s0 o p(2)]) (use r w(2) in auto)
  moreover have k: "kept_but {} s ?s1"
    by (rule kept_but_above [OF kept_but_refl [OF refl] queues_lim [OF q(1)]]) (simp add: o)
  moreover have "sema_value ?s1 sm = sema_value s sm" "thr_status ?s1 u = thr_status s u"
    using k sm thread_word [OF u, of 24] by (simp_all add: kept_but_def clear_of_def)
  moreover have "is_thread u ?s1" using thread_ok_kept [OF k u] by (simp add: thread_ok_def)
  moreover have "?s1 = s\<lparr>iflag := False, kmem := m1\<rparr>" by simp
  ultimately show ?thesis using p(1) by (intro that [of m1]) simp_all
qed

lemma sema_up_wakes:
  assumes s: "sched lim s t Q" and sm: "sm \<noteq> 0" "clear_of t sm" and r: "Q (ready_threads s) = Some xs"
    and w: "Q (sema_waiters s sm) = Some (u # us)" "sema_waiters s sm \<noteq> ready_threads s" and m: "room lim s"
    and u: "thread_ok s u" "clear_of u sm"
  shows "if thr_status s u \<noteq> TS_BLOCKED then \<exists>e. sema_up E sm s = Inl e
    else \<exists>s'. sema_up E sm s = ret () s' \<and>
      sched lim s' t (Q(sema_waiters s sm \<mapsto> us, ready_threads s \<mapsto> xs @ [u])) \<and> same_kernel s s' \<and>
      sema_value s' sm = sema_value s sm + 1 \<and> thr_status s' u = TS_READY \<and> iflag s' = iflag s \<and>
      kept_but {sm, u + 24} s s' \<and> unat (firstFreeSegment s') \<le> unat (firstFreeSegment s) + 40"
proof -
  let ?w = "sema_waiters s sm"
  have ne: "\<not> is_empty ?w (s\<lparr>iflag := False\<rparr>)"
    using queues_empty [OF schedD(1) [OF s] w(1)] by (simp add: is_empty_def)
  obtain m1 where p: "pop ?w (s\<lparr>iflag := False\<rparr>) = (u, s\<lparr>iflag := False, kmem := m1\<rparr>)"
      "sched lim (s\<lparr>iflag := False, kmem := m1\<rparr>) t (Q(?w \<mapsto> us))" "kept_but {} s (s\<lparr>iflag := False, kmem := m1\<rparr>)"
      "sema_value (s\<lparr>iflag := False, kmem := m1\<rparr>) sm = sema_value s sm"
      "thr_status (s\<lparr>iflag := False, kmem := m1\<rparr>) u = thr_status s u" "is_thread u (s\<lparr>iflag := False, kmem := m1\<rparr>)"
    by (rule sema_up_pop [OF s sm(2) w r u(1)]) (rule that)
  let ?s1 = "s\<lparr>iflag := False, kmem := m1\<rparr>"
  have r1: "(Q(?w \<mapsto> us)) (ready_threads ?s1) = Some xs" "room lim ?s1"
    using r w(2) m by (simp_all add: room_def)
  have up: "page_aligned u" "0x80000000 \<le> unat u" using u(1) by (simp_all add: thread_ok_def)
  note step = unblock_step [OF p(2) r1 up, of E]
  show ?thesis
  proof (cases "thr_status s u = TS_BLOCKED")
    case False
    then have "thread_unblock E u ?s1 = PANIC ''UNBLOCKING NON-BLOCKED Thread'' ?s1"
      using step p(5,6) by simp
    then show ?thesis using False sm(1) ne p(1) by (simp add: sema_up_def int_defs Let_def PANIC_def)
  next
    case True
    then obtain s2 where s2: "thread_unblock E u ?s1 = ret () s2"
      "sched lim s2 t (Q(?w \<mapsto> us, ready_threads s \<mapsto> xs @ [u]))" "same_kernel ?s1 s2"
      "iflag s2 = False" "thr_status s2 u = TS_READY" "kept_but {u + 24} ?s1 s2"
      "unat (firstFreeSegment s2) \<le> unat (firstFreeSegment ?s1) + 40"
      using step p(5,6) by auto
    let ?s3 = "int_set (iflag s) (wr sm (sema_value s2 sm + 1) s2)"
    have v: "sema_value s2 sm = sema_value s sm"
      using s2(6) p(4) sm(2) clear_of_neq [OF u(2), of 24] by (simp add: kept_but_def clear_of_def)
    have "sema_up E sm s = ret () ?s3"
      using sm(1) ne p(1) s2(1) by (simp add: sema_up_def int_defs Let_def)
    moreover have "sched lim ?s3 t (Q(?w \<mapsto> us, ready_threads s \<mapsto> xs @ [u]))"
      unfolding sched_int_set by (rule sched_wr_clear [OF s2(2) sm(2)])
    moreover have "same_kernel s ?s3"
      by (rule same_kernel_trans [OF same_kernel_trans [OF _ s2(3)] same_kernel_trans [OF same_kernel_simps(3,4)]])
        (simp add: same_kernel_def restore_def)
    moreover have "kept_but {sm, u + 24} s ?s3"
    proof (rule kept_but_wr [of sm])
      show "kept_but {sm, u + 24} s s2" by (rule kept_but_trans [OF p(3) s2(6)]) auto
    qed (use sm(2) in \<open>simp_all add: clear_of_def int_defs Let_def\<close>)
    moreover have "unat (firstFreeSegment ?s3) \<le> unat (firstFreeSegment s) + 40"
      using s2(7) by (simp add: int_defs Let_def)
    moreover have "thr_status ?s3 u = TS_READY" "sema_value ?s3 sm = sema_value s sm + 1" "iflag ?s3 = iflag s"
      using s2(4,5) v clear_of_neq [OF u(2), of 24] sm(2) thread_ok_aligned [OF u(1)]
      by (simp_all add: int_defs Let_def clear_of_def kernel_word_def)
    ultimately show ?thesis using True by auto
  qed
qed

lemma sema_up_step:
  assumes s: "sched lim s t Q" and sm: "sm \<noteq> 0" "clear_of t sm" and r: "Q (ready_threads s) = Some xs"
    and w: "Q (sema_waiters s sm) = Some ws" "sema_waiters s sm \<noteq> ready_threads s" and m: "room lim s"
    and ok: "\<forall>u \<in> set ws. thread_ok s u \<and> clear_of u sm"
  shows "case ws of [] \<Rightarrow> sema_up E sm s = ret () (wr sm (sema_value s sm + 1) s)
    | u # us \<Rightarrow> if thr_status s u \<noteq> TS_BLOCKED then \<exists>e. sema_up E sm s = Inl e
      else \<exists>s'. sema_up E sm s = ret () s' \<and>
        sched lim s' t (Q(sema_waiters s sm \<mapsto> us, ready_threads s \<mapsto> xs @ [u])) \<and> same_kernel s s' \<and>
        sema_value s' sm = sema_value s sm + 1 \<and> thr_status s' u = TS_READY \<and> iflag s' = iflag s \<and>
        kept_but {sm, u + 24} s s' \<and> unat (firstFreeSegment s') \<le> unat (firstFreeSegment s) + 40"
proof (cases ws)
  case Nil
  have "is_empty (sema_waiters s sm) (s\<lparr>iflag := False\<rparr>)"
    using queues_empty [OF schedD(1) [OF s] w(1)] Nil by (simp add: is_empty_def)
  then show ?thesis
    using sm(1) Nil by (simp add: sema_up_def int_defs Let_def)
next
  case (Cons u us)
  have "thread_ok s u" "clear_of u sm" using ok Cons by simp_all
  from sema_up_wakes [OF s sm r w(1) [unfolded Cons] w(2) m this, of E] show ?thesis unfolding Cons list.case .
qed

end
