(* ===== verification/LockPoints.thy ===== *)
theory LockPoints
  imports Synch
begin

text \<open>
  The points between which an interrupt can arrive, or be kept away, while a thread takes or releases a
  lock (\<^verbatim>\<open>sema_down\<close>, \<^verbatim>\<open>sema_up\<close>, \<^verbatim>\<open>lock_accquire\<close> and \<^verbatim>\<open>lock_release\<close> of \<^verbatim>\<open>src/thread/synch.c\<close>): the
  functions cut into their statements, one point before each. Run without an interruption the points
  are the functions of the kernel model.
\<close>

section \<open>The statements\<close>

text \<open>
  A thread is \<open>Outside\<close> the lock, \<open>Holding\<close> it, or before a statement. The flag is \<^verbatim>\<open>itr_level\<close>, the
  thread of \<open>Up_wake\<close> is the one that \<^verbatim>\<open>pop\<close> returned.
\<close>

datatype point =
    Outside
  | Down_enter
  | Down_test bool
  | Down_append bool
  | Down_block bool
  | Down_take bool
  | Down_restore bool
  | Record
  | Holding
  | Clear
  | Up_enter
  | Up_pop bool
  | Up_wake bool ptr
  | Up_raise bool
  | Up_restore bool

text \<open>The checks with which \<^verbatim>\<open>lock_accquire\<close> and \<^verbatim>\<open>lock_release\<close> begin.\<close>

definition accquire_check :: "ptr \<Rightarrow> kstate \<Rightarrow> unit kres" where
  "accquire_check l s =
     (if l = 0 then PANIC ''NULL lock'' s
      else seq (current_thread s) (\<lambda>t s.
        if lock_holder s l = t then PANIC ''Lock already held by this thread'' s else ret () s))"

definition release_check :: "ptr \<Rightarrow> kstate \<Rightarrow> unit kres" where
  "release_check l s =
     (if l = 0 then PANIC ''NULL lock'' s
      else seq (current_thread s) (\<lambda>t s.
        if lock_holder s l \<noteq> t then PANIC ''Attempted release of lock not held by current thread'' s else ret () s))"

text \<open>One statement, with the point it leads to; outside the functions there is none to execute.\<close>

fun lock_point :: "env \<Rightarrow> ptr \<Rightarrow> point \<Rightarrow> kstate \<Rightarrow> (go \<times> point) kres" where
  "lock_point E l Outside s = ret (Done, Outside) s"
| "lock_point E l Down_enter s =
     (if lock_semaphore l = 0 then PANIC ''NULL semahore'' s
      else let (itr_level, s) = int_disable s in ret (Done, Down_test itr_level) s)"
| "lock_point E l (Down_test i) s =
     ret (Done, if sema_value s (lock_semaphore l) = 0 then Down_append i else Down_take i) s"
| "lock_point E l (Down_append i) s =
     seq (current_thread s) (\<lambda>t s.
     seq (append (env_vp E) (sema_waiters s (lock_semaphore l)) t s) (\<lambda>_ s. ret (Done, Down_block i) s))"
| "lock_point E l (Down_block i) s = seq (thread_block s) (\<lambda>g s. ret (g, Down_test i) s)"
| "lock_point E l (Down_take i) s =
     ret (Done, Down_restore i) (wr (lock_semaphore l) (sema_value s (lock_semaphore l) - 1) s)"
| "lock_point E l (Down_restore i) s = ret (Done, Record) (int_set i s)"
| "lock_point E l Record s = seq (current_thread s) (\<lambda>t s. ret (Done, Holding) (wr l t s))"
| "lock_point E l Holding s = ret (Done, Holding) s"
| "lock_point E l Clear s = ret (Done, Up_enter) (wr l 0 s)"
| "lock_point E l Up_enter s =
     (if lock_semaphore l = 0 then PANIC ''NULL semaphore'' s
      else let (itr_level, s) = int_disable s in ret (Done, Up_pop itr_level) s)"
| "lock_point E l (Up_pop i) s =
     (if \<not> is_empty (sema_waiters s (lock_semaphore l)) s
      then let (t, s) = pop (sema_waiters s (lock_semaphore l)) s in ret (Done, Up_wake i t) s
      else ret (Done, Up_raise i) s)"
| "lock_point E l (Up_wake i t) s = seq (thread_unblock E t s) (\<lambda>_ s. ret (Done, Up_raise i) s)"
| "lock_point E l (Up_raise i) s =
     ret (Done, Up_restore i) (wr (lock_semaphore l) (sema_value s (lock_semaphore l) + 1) s)"
| "lock_point E l (Up_restore i) s = ret (Done, Outside) (int_set i s)"

section \<open>Runs without interruption\<close>

text \<open>At most \<open>k\<close> statements, up to the one that gives up the processor.\<close>

fun points_run :: "nat \<Rightarrow> env \<Rightarrow> ptr \<Rightarrow> point \<Rightarrow> kstate \<Rightarrow> (go \<times> point) kres" where
  "points_run 0 E l p s = ret (Done, p) s"
| "points_run (Suc k) E l p s =
     seq (lock_point E l p s) (\<lambda>r s. case r of
         (Done, q) \<Rightarrow> points_run k E l q s
       | (Switch c n fs, q) \<Rightarrow> ret (Switch c n fs, q) s)"

text \<open>
  The result of a call of \<^verbatim>\<open>lock_accquire\<close> whose statements end in \<open>r\<close>: \<open>None\<close> as long as it is
  under way; a caller that gave up the processor has its two calls open.
\<close>

fun accquire_result :: "ptr \<Rightarrow> (go \<times> point) kres \<Rightarrow> go kres option" where
  "accquire_result l (Inl e) = Some (Inl e)"
| "accquire_result l (Inr ((Done, Holding), s)) = Some (ret Done s)"
| "accquire_result l (Inr ((Switch c n fs, Down_test i), s)) =
     Some (ret (Switch c n (fs @ [In_sema_down (lock_semaphore l) i, In_lock_accquire l])) s)"
| "accquire_result l (Inr ((g, p), s)) = None"

lemma points_run_done:
  "lock_point E l p s = ret (Done, q) s' \<Longrightarrow> points_run (Suc k) E l p s = points_run k E l q s'"
  by simp

lemma accquire_result_shift:
  assumes "lock_point E l p s = ret (Done, q) s'" and "\<exists>k. accquire_result l (points_run k E l q s') = Some r"
  shows "\<exists>k. accquire_result l (points_run k E l p s) = Some r"
  using assms points_run_done by metis

text \<open>The loop of \<^verbatim>\<open>sema_down\<close>, followed by the rest of \<^verbatim>\<open>lock_accquire\<close>.\<close>

definition down_rest :: "ptr \<Rightarrow> go kres \<Rightarrow> go kres" where
  "down_rest l r = andthen r (In_lock_accquire l) (lock_taken l)"

lemma down_rest_simps [simp]:
  "down_rest l (Inl e) = Inl e" "down_rest l (ret Done s) = lock_taken l s"
  "down_rest l (ret (Switch c n fs) s) = ret (Switch c n (fs @ [In_lock_accquire l])) s"
  by (simp_all add: down_rest_def andthen_def)

text \<open>One round of the loop that waits, on the points and in \<open>sema_wait\<close>.\<close>

lemma wait_points:
  assumes v: "sema_value s (l + 4) = 0"
  shows "points_run (Suc (Suc (Suc k))) E l (Down_test i) s =
    seq (sema_wait E (l + 4) s) (\<lambda>g s. case g of Done \<Rightarrow> points_run k E l (Down_test i) s
      | Switch c n fs \<Rightarrow> ret (g, Down_test i) s)"
proof -
  have "points_run (Suc (Suc (Suc k))) E l (Down_test i) s =
      seq (lock_point E l (Down_append i) s) (\<lambda>r s. case r of
         (Done, q) \<Rightarrow> points_run (Suc k) E l q s | (Switch c n fs, q) \<Rightarrow> ret (Switch c n fs, q) s)"
    using v by simp
  also have "\<dots> = seq (sema_wait E (l + 4) s) (\<lambda>g s. case g of Done \<Rightarrow> points_run k E l (Down_test i) s
      | Switch c n fs \<Rightarrow> ret (g, Down_test i) s)"
    by (auto simp: sema_wait_def seq_def split: sum.splits go.splits)
  finally show ?thesis .
qed

lemma take_points:
  assumes v: "sema_value s (l + 4) \<noteq> 0"
  shows "accquire_result l (points_run 4 E l (Down_test i) s) =
    Some (lock_taken l (int_set i (wr (l + 4) (sema_value s (l + 4) - 1) s)))"
proof -
  let ?s = "int_set i (wr (l + 4) (sema_value s (l + 4) - 1) s)"
  have "points_run (Suc (Suc (Suc (Suc 0)))) E l (Down_test i) s = points_run (Suc 0) E l Record ?s"
    using v by (simp only: lock_point.simps points_run_done if_False)
  then have "points_run 4 E l (Down_test i) s = points_run (Suc 0) E l Record ?s"
    by (simp add: numeral_eq_Suc del: points_run.simps)
  then show ?thesis by (cases "current_thread ?s") (auto simp: lock_taken_def)
qed

lemma sema_down_loop_points:
  assumes "sema_down_loop E (l + 4) i s = Some r"
  shows "\<exists>k. accquire_result l (points_run k E l (Down_test i) s) = Some (down_rest l r)"
proof -
  let ?P = "\<lambda>E sm i s r. sm = l + 4 \<longrightarrow> (\<exists>k. accquire_result l (points_run k E l (Down_test i) s) = Some (down_rest l r))"
  have "?P E (l + 4) i s r"
  proof (rule sema_down_loop.raw_induct [where P = ?P, OF _ assms], goal_cases)
    case (1 loop E sm i s r)
    show ?case
    proof
      assume sm: "sm = l + 4"
      show "\<exists>k. accquire_result l (points_run k E l (Down_test i) s) = Some (down_rest l r)"
      proof (cases "sema_value s (l + 4) = 0")
        case False
        then have "r = ret Done (int_set i (wr (l + 4) (sema_value s (l + 4) - 1) s))" using 1(2) sm by simp
        then show ?thesis using take_points [OF False, of E i] by (intro exI [of _ 4]) simp
      next
        case True
        note w = wait_points [OF True, of _ E i]
        show ?thesis
        proof (cases "sema_wait E (l + 4) s")
          case (Inl e)
          then have "r = Inl e" using 1(2) sm True by simp
          then show ?thesis using w [of 0] Inl by (intro exI [of _ "Suc (Suc (Suc 0))"]) (simp del: points_run.simps)
        next
          case (Inr x)
          obtain g s' where x: "x = (g, s')" by (cases x)
          show ?thesis
          proof (cases g)
            case Done
            then have "loop E sm i s' = Some r" using 1(2) sm True Inr x by simp
            then obtain k where "accquire_result l (points_run k E l (Down_test i) s') = Some (down_rest l r)"
              using 1(1) sm by blast
            then show ?thesis using w [of k] Inr x Done by (intro exI [of _ "Suc (Suc (Suc k))"]) (simp del: points_run.simps)
          next
            case (Switch c n fs)
            then have "r = ret (Switch c n (fs @ [In_sema_down (l + 4) i])) s'" using 1(2) sm True Inr x by simp
            then show ?thesis
              using w [of 0] Inr x Switch by (intro exI [of _ "Suc (Suc (Suc 0))"]) (simp del: points_run.simps)
          qed
        qed
      qed
    qed
  qed
  then show ?thesis by simp
qed

text \<open>The calls after their checks.\<close>

lemma release_points:
  "lock_release E l s = seq (release_check l s) (\<lambda>_ s. seq (points_run 6 E l Clear s) (\<lambda>r s.
     if r = (Done, Outside) then ret () s else Inl Undefined))"
  by (auto simp: lock_release_def release_check_def sema_up_def eval_nat_numeral seq_def PANIC_def Let_def int_defs
      split: sum.splits prod.splits)

lemma accquire_after_check:
  "lock_accquire E l s = seq (accquire_check l s) (\<lambda>_ s. down_rest l (sema_down E (lock_semaphore l) s))"
  by (auto simp: lock_accquire_def accquire_check_def down_rest_def seq_def PANIC_def split: sum.splits)

lemma down_points:
  assumes "down_rest l (sema_down E (lock_semaphore l) s) \<noteq> Inl Hang"
  shows "\<exists>k. accquire_result l (points_run k E l Down_enter s) = Some (down_rest l (sema_down E (lock_semaphore l) s))"
proof (cases "lock_semaphore l = 0")
  case True
  then have "accquire_result l (points_run 1 E l Down_enter s) = Some (down_rest l (sema_down E (lock_semaphore l) s))"
    by (simp add: sema_down_def PANIC_def)
  then show ?thesis by blast
next
  case False
  let ?s = "s\<lparr>iflag := False\<rparr>"
  have d: "sema_down E (l + 4) s = sema_down_from E (l + 4) (iflag s) ?s"
    using False by (simp add: sema_down_def int_defs Let_def)
  then obtain r where r: "sema_down_loop E (l + 4) (iflag s) ?s = Some r"
    using assms by (cases "sema_down_loop E (l + 4) (iflag s) ?s") (simp_all add: sema_down_from_def)
  then have "sema_down E (l + 4) s = r" unfolding d by (simp add: sema_down_from_def)
  moreover have "lock_point E l Down_enter s = ret (Done, Down_test (iflag s)) ?s"
    using False by (simp add: int_defs Let_def)
  ultimately show ?thesis using accquire_result_shift sema_down_loop_points [OF r] by blast
qed

text \<open>
  C99: \<^verbatim>\<open>lock_accquire\<close> and \<^verbatim>\<open>lock_release\<close> are their points: after the check, the statements executed one
  after the other end with the result, the state or the panic of the function, unless \<^verbatim>\<open>lock_accquire\<close>
  hangs; and the rest of \<^verbatim>\<open>lock_accquire\<close> that a woken thread continues with is its points from the test
  of the semaphore's value on.
\<close>

theorem lock_calls_are_points:
  "lock_release E l s = seq (release_check l s) (\<lambda>_ s. seq (points_run 6 E l Clear s) (\<lambda>r s.
     if r = (Done, Outside) then ret () s else Inl Undefined)) \<and>
   (lock_accquire E l s = Inl Hang \<or> (case accquire_check l s of Inl e \<Rightarrow> lock_accquire E l s = Inl e
     | Inr (_, s') \<Rightarrow> \<exists>k. accquire_result l (points_run k E l Down_enter s') = Some (lock_accquire E l s))) \<and>
   (case sema_down_loop E (lock_semaphore l) i s of None \<Rightarrow> True
     | Some r \<Rightarrow> \<exists>k. accquire_result l (points_run k E l (Down_test i) s) = Some (down_rest l r))"
proof -
  have "lock_accquire E l s = Inl Hang \<or> (case accquire_check l s of Inl e \<Rightarrow> lock_accquire E l s = Inl e
     | Inr (_, s') \<Rightarrow> \<exists>k. accquire_result l (points_run k E l Down_enter s') = Some (lock_accquire E l s))"
    using accquire_after_check [of E l s] down_points [of l E] by (auto simp: seq_def split: sum.splits)
  moreover have "case sema_down_loop E (lock_semaphore l) i s of None \<Rightarrow> True
     | Some r \<Rightarrow> \<exists>k. accquire_result l (points_run k E l (Down_test i) s) = Some (down_rest l r)"
    using sema_down_loop_points [of E l i s] by (simp split: option.split)
  ultimately show ?thesis using release_points by blast
qed

end
