(* ===== verification/Locks.thy ===== *)
theory Locks
  imports LockPoints
begin

text \<open>
  The kernel's threads using one lock, as a state machine over the code's own functions: the running
  thread executes the statements of \<^verbatim>\<open>lock_accquire\<close> and \<^verbatim>\<open>lock_release\<close> one by one, and between any two
  of them the timer interrupts it, unless interrupts are off; outside the two functions it also yields
  and changes memory that is not the kernel's; at a switch another thread is continued where it was
  interrupted. Every state that can be reached has at most one thread holding the lock, and no thread
  waits for a free lock without another one on its way to it.
\<close>

section \<open>The machine\<close>

text \<open>
  \<open>ks\<close> is the kernel's state, \<open>pc t\<close> the point at which the thread \<open>t\<close> is, \<open>calls t\<close> the calls of the
  timer's interrupt or of \<^verbatim>\<open>thread_yield\<close> that it has open there, and \<open>ctl\<close> the switch under way (from,
  to).
\<close>

record sys =
  ks :: kstate
  pc :: "ptr \<Rightarrow> point"
  calls :: "ptr \<Rightarrow> frame list"
  ctl :: "(ptr \<times> ptr) option"

definition current :: "sys \<Rightarrow> ptr" where
  "current S = (case ctl S of None \<Rightarrow> get_base_page (esp (ks S)) | Some (c, n) \<Rightarrow> n)"

text \<open>The words that the kernel uses besides its heap: the thread structs and the lock.\<close>

definition kernel_words :: "ptr set \<Rightarrow> ptr \<Rightarrow> ptr set" where
  "kernel_words T l = {t + j | t j. t \<in> T \<and> unat j < 44} \<union> {l, l + 4, l + 8}"

definition own_memory :: "nat \<Rightarrow> ptr set \<Rightarrow> ptr \<Rightarrow> kstate \<Rightarrow> kstate \<Rightarrow> bool" where
  "own_memory lim T l s s' \<longleftrightarrow> (\<exists>m e i. s' = s\<lparr>kmem := m, esp := e, iflag := i\<rparr> \<and>
     get_base_page e = get_base_page (esp s) \<and> (\<forall>x. unat x < lim \<longrightarrow> m x = kmem s x) \<and>
     (\<forall>a \<in> kernel_words T l. ld32 m a = rd s a))"

text \<open>\<open>at_rest p\<close>: the thread is in none of the two functions.\<close>

definition at_rest :: "point \<Rightarrow> bool" where
  "at_rest p \<longleftrightarrow> p = Outside \<or> p = Holding"

text \<open>What interrupts the thread at \<open>p\<close>, or what it calls: the timer anywhere while interrupts are on, \<^verbatim>\<open>thread_yield\<close> at rest.\<close>

definition preempts :: "env \<Rightarrow> point \<Rightarrow> kstate \<Rightarrow> (kstate \<Rightarrow> go kres) \<Rightarrow> bool" where
  "preempts E p s f \<longleftrightarrow> f = idt_int E 32 \<and> iflag s \<or> f = thread_yield E \<and> at_rest p"

inductive lock_step :: "env \<Rightarrow> nat \<Rightarrow> ptr set \<Rightarrow> ptr \<Rightarrow> sys \<Rightarrow> sys \<Rightarrow> bool" for E lim T l where
  accquire: "ctl S = None \<Longrightarrow> at_rest (pc S (current S)) \<Longrightarrow> current S \<noteq> idle_thread (ks S) \<Longrightarrow>
    accquire_check l (ks S) = ret () s' \<Longrightarrow>
    lock_step E lim T l S (S\<lparr>ks := s', pc := (pc S)(current S := Down_enter)\<rparr>)"
| release: "ctl S = None \<Longrightarrow> at_rest (pc S (current S)) \<Longrightarrow>
    release_check l (ks S) = ret () s' \<Longrightarrow>
    lock_step E lim T l S (S\<lparr>ks := s', pc := (pc S)(current S := Clear)\<rparr>)"
| statement: "ctl S = None \<Longrightarrow> room lim (ks S) \<Longrightarrow>
    lock_point E l (pc S (current S)) (ks S) = ret (Done, p) s' \<Longrightarrow>
    lock_step E lim T l S (S\<lparr>ks := s', pc := (pc S)(current S := p)\<rparr>)"
| waits: "ctl S = None \<Longrightarrow> room lim (ks S) \<Longrightarrow>
    lock_point E l (pc S (current S)) (ks S) = ret (Switch c n fs, p) s' \<Longrightarrow>
    lock_step E lim T l S (S\<lparr>ks := s', pc := (pc S)(c := p), calls := (calls S)(c := fs), ctl := Some (c, n)\<rparr>)"
| interrupted: "ctl S = None \<Longrightarrow> room lim (ks S) \<Longrightarrow> preempts E (pc S (current S)) (ks S) f \<Longrightarrow>
    f (ks S) = ret Done s' \<Longrightarrow>
    lock_step E lim T l S (S\<lparr>ks := s'\<rparr>)"
| preempted: "ctl S = None \<Longrightarrow> room lim (ks S) \<Longrightarrow> preempts E (pc S (current S)) (ks S) f \<Longrightarrow>
    f (ks S) = ret (Switch c n fs) s' \<Longrightarrow>
    lock_step E lim T l S (S\<lparr>ks := s', calls := (calls S)(c := fs), ctl := Some (c, n)\<rparr>)"
| works: "ctl S = None \<Longrightarrow> at_rest (pc S (current S)) \<Longrightarrow> own_memory lim T l (ks S) s' \<Longrightarrow>
    lock_step E lim T l S (S\<lparr>ks := s'\<rparr>)"
| continues: "ctl S = Some (c, n) \<Longrightarrow> get_base_page e = n \<Longrightarrow>
    resume E c (calls S n) ((ks S)\<lparr>esp := e\<rparr>) = ret Done s' \<Longrightarrow>
    lock_step E lim T l S (S\<lparr>ks := s', ctl := None\<rparr>)"

inductive reaches :: "env \<Rightarrow> nat \<Rightarrow> ptr set \<Rightarrow> ptr \<Rightarrow> sys \<Rightarrow> sys \<Rightarrow> bool" for E lim T l where
  here: "reaches E lim T l S S"
| further: "reaches E lim T l S S' \<Longrightarrow> lock_step E lim T l S' S'' \<Longrightarrow> reaches E lim T l S S''"

section \<open>The invariant\<close>

text \<open>
  The lists and the threads: the ready threads \<open>xs\<close> and the lock's waiting threads \<open>ws\<close> are
  different threads, none of them the current or the idle one. The list at address 24 is that of
  all threads, the first that the kernel allocates; its length must not be 3, the number of a dying
  thread's status (see the yield of a thread that is alone).
\<close>

definition threads_inv :: "nat \<Rightarrow> ptr set \<Rightarrow> ptr \<Rightarrow> kstate \<Rightarrow> ptr \<Rightarrow> (ptr \<Rightarrow> u32 list option) \<Rightarrow> u32 list \<Rightarrow> u32 list \<Rightarrow> bool" where
  "threads_inv lim T l s t Q xs ws \<longleftrightarrow> queues lim s Q \<and>
     Q (ready_threads s) = Some xs \<and> Q (sema_waiters s (l + 4)) = Some ws \<and>
     sema_waiters s (l + 4) \<noteq> ready_threads s \<and>
     24 \<noteq> ready_threads s \<and> 24 \<noteq> sema_waiters s (l + 4) \<and> (\<exists>ys. Q 24 = Some ys \<and> length ys \<noteq> 3) \<and>
     (\<forall>u \<in> T. thread_ok s u \<and> thr_status s u \<noteq> TS_DYING) \<and>
     distinct (xs @ ws) \<and> set (xs @ ws) \<subseteq> T - {t, idle_thread s} \<and> t \<in> T \<and> idle_thread s \<in> T"

text \<open>
  The points at which a thread owns the lock, having taken the semaphore down and not yet raised it;
  those at which the lock's holder says so; and those at which interrupts are off.
\<close>

fun owns :: "point \<Rightarrow> bool" where
  "owns (Down_restore i) = True"
| "owns Record = True"
| "owns Holding = True"
| "owns Clear = True"
| "owns Up_enter = True"
| "owns (Up_pop i) = True"
| "owns (Up_wake i t) = True"
| "owns (Up_raise i) = True"
| "owns p = False"

definition recorded :: "point \<Rightarrow> bool" where
  "recorded p \<longleftrightarrow> p = Holding \<or> p = Clear"

definition off :: "point \<Rightarrow> bool" where
  "off p \<longleftrightarrow> \<not> at_rest p \<and> p \<notin> {Down_enter, Record, Clear, Up_enter}"

text \<open>The value and the holder of the lock, given where the threads are.\<close>

definition lock_state :: "ptr \<Rightarrow> kstate \<Rightarrow> (ptr \<Rightarrow> point) \<Rightarrow> bool" where
  "lock_state l s C \<longleftrightarrow>
     (sema_value s (l + 4) = 1 \<and> (\<forall>t. \<not> owns (C t)) \<and> lock_holder s l = 0) \<or>
     (sema_value s (l + 4) = 0 \<and> (\<exists>u. u \<noteq> 0 \<and> (\<forall>t. owns (C t) \<longleftrightarrow> t = u) \<and>
        lock_holder s l = (if recorded (C u) then u else 0)))"

text \<open>
  A thread that does not run waits before the test of the semaphore's value, or at a point where
  interrupts are on. A waiting thread is of the former kind. When the semaphore is up and threads wait,
  one that will test its value is ready or running (a wake-up is not lost).
\<close>

definition testing :: "point \<Rightarrow> bool" where
  "testing p \<longleftrightarrow> (\<exists>i. p = Down_test i)"

definition parked :: "point \<Rightarrow> frame list \<Rightarrow> bool" where
  "parked p fs \<longleftrightarrow> \<not> off p \<or> testing p \<and> fs = []"

definition taker :: "(ptr \<Rightarrow> point) \<Rightarrow> ptr set \<Rightarrow> bool" where
  "taker C R \<longleftrightarrow> (\<exists>u \<in> R. testing (C u) \<or> (\<exists>i. C u = Down_take i))"

text \<open>What holds besides at the points of the running thread \<open>t\<close> between \<^verbatim>\<open>int_disable\<close> and \<^verbatim>\<open>int_set\<close>.\<close>

definition at_point :: "ptr \<Rightarrow> ptr set \<Rightarrow> kstate \<Rightarrow> ptr \<Rightarrow> ptr list \<Rightarrow> ptr list \<Rightarrow> (ptr \<Rightarrow> point) \<Rightarrow> bool" where
  "at_point l T s t xs ws C \<longleftrightarrow> (case C t of
       Down_append i \<Rightarrow> sema_value s (l + 4) = 0
     | Down_block i \<Rightarrow> False
     | Down_take i \<Rightarrow> sema_value s (l + 4) \<noteq> 0
     | Up_wake i u \<Rightarrow> u \<in> T - {t, idle_thread s} \<and> u \<notin> set (xs @ ws) \<and> testing (C u)
     | Up_raise i \<Rightarrow> ws \<noteq> [] \<longrightarrow> (\<exists>u \<in> set xs. testing (C u))
     | _ \<Rightarrow> True)"

definition run_inv :: "nat \<Rightarrow> ptr set \<Rightarrow> ptr \<Rightarrow> kstate \<Rightarrow> ptr \<Rightarrow> (ptr \<Rightarrow> point) \<Rightarrow> (ptr \<Rightarrow> frame list) \<Rightarrow> bool" where
  "run_inv lim T l s t C K \<longleftrightarrow> (\<exists>Q xs ws. threads_inv lim T l s t Q xs ws \<and> lock_state l s C \<and>
     at_point l T s t xs ws C \<and> (\<forall>u \<in> set ws. testing (C u)) \<and>
     (sema_value s (l + 4) = 1 \<and> ws \<noteq> [] \<longrightarrow> taker C (insert t (set xs))) \<and>
     (\<forall>u. u \<noteq> t \<longrightarrow> parked (C u) (K u)) \<and> (off (C t) \<longrightarrow> \<not> iflag s) \<and> C (idle_thread s) = Outside)"

text \<open>
  The thread that has entered itself into the waiting list but not yet given up the processor is in a
  state that the list's own description does not fit: it is described by the one before.
\<close>

definition queued :: "env \<Rightarrow> nat \<Rightarrow> ptr set \<Rightarrow> ptr \<Rightarrow> sys \<Rightarrow> bool \<Rightarrow> bool" where
  "queued E lim T l S i \<longleftrightarrow> (\<exists>s. run_inv lim T l s (current S) ((pc S)(current S := Down_append i)) (calls S) \<and>
     room lim s \<and> get_base_page (esp s) = current S \<and>
     lock_point E l (Down_append i) s = ret (Done, Down_block i) (ks S))"

definition plain_calls :: "frame list \<Rightarrow> bool" where
  "plain_calls fs \<longleftrightarrow> fs = [] \<or> (\<exists>i. fs = [In_yield i]) \<or> (\<exists>i j. fs = [In_yield i, In_int 32, In_iret j])"

lemma plain_calls_simps [simp]:
  "plain_calls []" "plain_calls [In_yield i]" "plain_calls [In_yield i, In_int 32, In_iret j]"
  unfolding plain_calls_def by blast+

definition lock_inv :: "env \<Rightarrow> nat \<Rightarrow> ptr set \<Rightarrow> ptr \<Rightarrow> sys \<Rightarrow> bool" where
  "lock_inv E lim T l S \<longleftrightarrow> (\<forall>t. plain_calls (calls S t)) \<and> (case ctl S of
       None \<Rightarrow> (case pc S (current S) of Down_block i \<Rightarrow> queued E lim T l S i
         | _ \<Rightarrow> run_inv lim T l (ks S) (current S) (pc S) (calls S))
     | Some (c, n) \<Rightarrow> run_inv lim T l (ks S) n (pc S) (calls S) \<and> parked (pc S n) (calls S n) \<and>
         c \<in> T \<and> c \<noteq> n \<and> \<not> iflag (ks S))"

definition lock_place :: "ptr set \<Rightarrow> ptr \<Rightarrow> bool" where
  "lock_place T l \<longleftrightarrow> l \<noteq> 0 \<and> l + 4 \<noteq> 0 \<and> (\<forall>t \<in> T. clear_of t l \<and> clear_of t (l + 4) \<and> clear_of t (l + 8))"

section \<open>Changing the state\<close>

lemma place_words:
  assumes "lock_place T l" and "t \<in> T"
  shows "kernel_word l" "kernel_word (l + 4)" "kernel_word (l + 8)" "l \<noteq> 0" "l + 4 \<noteq> 0" "aligned l"
    "\<And>u. u \<in> T \<Longrightarrow> clear_of u l \<and> clear_of u (l + 4) \<and> clear_of u (l + 8)"
  using assms by (auto simp: lock_place_def clear_of_def kernel_word_def)

text \<open>The words that thread operations change: statuses, and the lock's value and holder.\<close>

definition changes :: "ptr set \<Rightarrow> ptr \<Rightarrow> ptr set" where
  "changes T l = (\<lambda>u. u + 24) ` T \<union> {l, l + 4}"

lemma magic_not_changed:
  assumes "threads_inv lim T l s t Q xs ws" and "lock_place T l" and "u \<in> T"
  shows "u + 40 \<notin> changes T l"
proof -
  have "u + 40 \<noteq> v + 24" if "v \<in> T" for v
    using assms(1,3) that page_offset_inj [of u v 40 24] by (auto simp: threads_inv_def thread_ok_def)
  moreover have "u + 40 \<noteq> l" "u + 40 \<noteq> l + 4"
    using clear_of_neq [of u l 40] clear_of_neq [of u "l + 4" 40] place_words(7) [OF assms(2,3,3)] by auto
  ultimately show ?thesis by (auto simp: changes_def)
qed

lemma waiters_not_changed:
  assumes "lock_place T l"
  shows "l + 8 \<notin> changes T l"
  using assms clear_of_neq [of _ "l + 8" 24] by (auto simp: changes_def lock_place_def)

lemma threads_inv_change:
  assumes inv: "threads_inv lim T l s t Q xs ws" and pl: "lock_place T l"
    and q: "queues lim s' Q'" and k: "ready_threads s' = ready_threads s" "idle_thread s' = idle_thread s"
    and kept: "kept_but A s s'" "A \<subseteq> changes T l"
    and st: "\<And>u. u \<in> T \<Longrightarrow> u + 24 \<in> A \<Longrightarrow> thr_status s' u \<noteq> TS_DYING"
    and Q': "Q' (ready_threads s) = Some xs'" "Q' (sema_waiters s (l + 4)) = Some ws'" "Q' 24 = Q 24"
    and d: "distinct (xs' @ ws')" "set (xs' @ ws') \<subseteq> T - {t', idle_thread s}" "t' \<in> T"
  shows "threads_inv lim T l s' t' Q' xs' ws'"
proof -
  have t: "t \<in> T" using inv by (simp add: threads_inv_def)
  have w: "sema_waiters s' (l + 4) = sema_waiters s (l + 4)"
    using kept waiters_not_changed [OF pl] place_words(3) [OF pl t] by (auto simp: kept_but_def add.assoc)
  have "thread_ok s' u \<and> thr_status s' u \<noteq> TS_DYING" if u: "u \<in> T" for u
  proof
    have ok: "thread_ok s u" "thr_status s u \<noteq> TS_DYING" using inv u by (auto simp: threads_inv_def)
    show "thread_ok s' u"
      using magic_not_changed [OF inv pl u] kept by (intro thread_ok_kept [OF kept(1) ok(1)]) auto
    show "thr_status s' u \<noteq> TS_DYING"
      using st [OF u] kept(1) ok(2) thread_word [OF ok(1), of 24] by (cases "u + 24 \<in> A") (auto simp: kept_but_def)
  qed
  then show ?thesis
    using inv q k Q' d w unfolding threads_inv_def by auto
qed

text \<open>What the invariant reads of a state besides \<open>threads_inv\<close>: who can run, who waits, and the lock's value and holder.\<close>

definition view :: "ptr \<Rightarrow> kstate \<Rightarrow> ptr \<Rightarrow> ptr list \<Rightarrow> ptr list \<Rightarrow> ptr set \<times> ptr list \<times> u32 \<times> ptr" where
  "view l s t xs ws = (insert t (insert (idle_thread s) (set xs)), ws, sema_value s (l + 4), lock_holder s l)"

lemma view_kept:
  assumes "view l s t xs ws = W" and "kept_but A s s'" and "l \<notin> A" and "l + 4 \<notin> A" and "lock_place T l" and "t \<in> T"
    and "idle_thread s' = idle_thread s" and "insert t' (insert (idle_thread s) (set xs')) = insert t (insert (idle_thread s) (set xs))"
  shows "view l s' t' xs' ws = W"
  using assms place_words(1,2) [OF assms(5,6)] by (auto simp: view_def kept_but_def)

lemma view_cong:
  "view l s t xs ws = W \<Longrightarrow> kmem s' = kmem s \<Longrightarrow> idle_thread s' = idle_thread s \<Longrightarrow> view l s' t xs ws = W"
  by (simp add: view_def)

text \<open>The fields that the invariant does not read.\<close>

lemma threads_inv_cong:
  assumes "threads_inv lim T l s t Q xs ws" and "kmem s' = kmem s" and "firstFreeSegment s' = firstFreeSegment s"
    and "ready_threads s' = ready_threads s" and "idle_thread s' = idle_thread s"
  shows "threads_inv lim T l s' t Q xs ws"
proof -
  have "queues lim s' Q"
    using assms by (intro queues_cong [of lim s Q s']) (simp_all add: threads_inv_def)
  then show ?thesis
    using assms by (simp add: threads_inv_def thread_ok_def is_thread_def)
qed

lemma threads_inv_sched:
  assumes "threads_inv lim T l s t Q xs ws" and "get_base_page (esp s) = t"
  shows "sched lim s t Q"
  using assms by (auto simp: threads_inv_def sched_def running_def)

lemma threads_invD:
  assumes "threads_inv lim T l s t Q xs ws"
  shows "Q (ready_threads s) = Some xs" "Q (sema_waiters s (l + 4)) = Some ws"
    "sema_waiters s (l + 4) \<noteq> ready_threads s" "distinct (xs @ ws)" "set (xs @ ws) \<subseteq> T - {t, idle_thread s}"
    "t \<in> T" "queues lim s Q" "idle_thread s \<in> T" "24 \<noteq> ready_threads s" "24 \<noteq> sema_waiters s (l + 4)"
    "\<And>u. u \<in> T \<Longrightarrow> thread_ok s u" "\<And>u. u \<in> T \<Longrightarrow> thr_status s u \<noteq> TS_DYING"
  using assms by (auto simp: threads_inv_def)

lemma next_not_current:
  assumes "threads_inv lim T l s t Q xs ws" and "xs \<noteq> [] \<or> idle_thread s \<noteq> t"
  shows "next_of s xs \<noteq> t" and "next_of s xs \<in> T"
  using threads_invD(5,8) [OF assms(1)] assms(2) by (cases xs; auto simp: next_of_def)+

text \<open>The word at address 24 is the number of threads.\<close>

lemma word_24_not_dying:
  assumes "queues lim s Q" and "Q 24 = Some ys" and "length ys \<noteq> 3"
  shows "rd s 24 \<noteq> TS_DYING"
proof -
  obtain zs ns where h: "heap_ok s zs lim" "list_at (kmem s) zs 24 ns ys"
    using assms(1,2) by (auto simp: queues_def)
  have "unat (of_nat (length ys) :: u32) = length ys"
    using list_length_bound [OF heap_ok_blocks_ok [OF h(1)] h(2)] by (simp only: unat_of_nat) simp
  moreover have "rd s 24 = of_nat (length ys)" using h(2) by (simp add: list_at_def)
  moreover have "unat TS_DYING = 3" by (simp add: TS_DYING_def)
  ultimately show ?thesis using assms(3) by metis
qed

section \<open>The steps that leave the lock as it is\<close>

text \<open>What such a step may leave: still running, or switching to another thread.\<close>

definition stays :: "nat \<Rightarrow> ptr set \<Rightarrow> ptr \<Rightarrow> kstate \<Rightarrow> ptr \<Rightarrow> ptr set \<times> ptr list \<times> u32 \<times> ptr \<Rightarrow> bool" where
  "stays lim T l s t W \<longleftrightarrow> (\<exists>Q xs ws. threads_inv lim T l s t Q xs ws \<and> view l s t xs ws = W) \<and> get_base_page (esp s) = t"

definition leaves :: "nat \<Rightarrow> ptr set \<Rightarrow> ptr \<Rightarrow> kstate \<Rightarrow> ptr \<Rightarrow> ptr set \<times> ptr list \<times> u32 \<times> ptr \<Rightarrow> bool" where
  "leaves lim T l s n W \<longleftrightarrow> (\<exists>Q xs ws. threads_inv lim T l s n Q xs ws \<and> view l s n xs ws = W) \<and> \<not> iflag s"

lemma status_word_changes: "u \<in> T \<Longrightarrow> {u + 24} \<subseteq> changes T l"
  by (auto simp: changes_def)

lemma lock_words_not_status:
  assumes "lock_place T l" and "t \<in> T"
  shows "l \<notin> {t + 24}" "l + 4 \<notin> {t + 24}"
  using clear_of_neq [of t l 24] clear_of_neq [of t "l + 4" 24] place_words(7) [OF assms(1,2,2)] by auto

lemma yield_alone:
  assumes inv: "threads_inv lim T l s t Q xs ws" and pl: "lock_place T l" and ls: "view l s t xs ws = W"
    and r: "room lim s" and e: "get_base_page (esp s) = t"
    and alone: "next_of s (yield_queue s t xs) = t"
  shows "\<exists>s'. thread_yield E s = ret Done s' \<and> stays lim T l s' t W \<and> idle_thread s' = idle_thread s"
proof -
  note d = threads_invD [OF inv]
  have sc: "sched lim s t Q" by (rule threads_inv_sched [OF inv e])
  have lw: "l \<notin> {t + 24}" "l + 4 \<notin> {t + 24}" by (rule lock_words_not_status [OF pl d(6)])+
  have QQ: "(Q(ready_threads s \<mapsto> [])) (sema_waiters s (l + 4)) = Some ws" "(Q(ready_threads s \<mapsto> [])) 24 = Q 24"
    using d(2,3,9) by auto
  have xs: "xs = []"
    using alone d(5) by (cases xs) (auto simp: yield_queue_def next_of_def split: if_splits)
  have tl: "tl (yield_queue s t xs) = []" by (simp add: yield_queue_def xs)
  from lone_yield_step [OF sc d(1) r alone, of E] obtain s1 where
    s1: "sched lim s1 t (Q(ready_threads s \<mapsto> []))" "thr_status s1 t = TS_RUNNING" "kept_but {t + 24} s s1"
      "same_kernel s s1"
    and run: "thread_yield E s =
      seq (if rd s1 24 = TS_DYING then thread_kill 0 s1 else ret () s1) (\<lambda>_ s''. ret Done (int_set (iflag s) s''))"
    unfolding tl by blast
  have "\<exists>ys. (Q(ready_threads s \<mapsto> [])) 24 = Some ys \<and> length ys \<noteq> 3"
    using inv QQ(2) by (auto simp: threads_inv_def)
  then have "rd s1 24 \<noteq> TS_DYING" using word_24_not_dying [OF schedD(1) [OF s1(1)]] by blast
  then have run': "thread_yield E s = ret Done (int_set (iflag s) s1)" using run by simp
  have i1: "threads_inv lim T l s1 t (Q(ready_threads s \<mapsto> [])) [] ws"
    by (rule threads_inv_change [OF inv pl schedD(1) [OF s1(1)] same_kernelD(1,2) [OF s1(4)] s1(3)
          status_word_changes [OF d(6)] _ _ QQ])
      (use s1(2) d(4-6) xs in \<open>auto simp: thread_statuses\<close>)
  have i2: "threads_inv lim T l (int_set (iflag s) s1) t (Q(ready_threads s \<mapsto> [])) [] ws"
    by (rule threads_inv_cong [OF i1]) (simp_all add: int_defs Let_def)
  have i3: "idle_thread s1 = idle_thread s" using same_kernelD(2) [OF s1(4)] .
  have "view l s1 t [] ws = W"
    by (rule view_kept [OF ls s1(3) lw pl d(6) i3]) (simp add: xs)
  then have "view l (int_set (iflag s) s1) t [] ws = W" by (rule view_cong) (simp_all add: int_defs Let_def)
  moreover have "get_base_page (esp (int_set (iflag s) s1)) = t" "idle_thread (int_set (iflag s) s1) = idle_thread s"
    using same_kernelD(2,4) [OF s1(4)] e by (simp_all add: int_defs Let_def)
  ultimately show ?thesis using run' i2 unfolding stays_def by blast
qed

lemma yield_away:
  assumes inv: "threads_inv lim T l s t Q xs ws" and pl: "lock_place T l" and ls: "view l s t xs ws = W"
    and r: "room lim s" and e: "get_base_page (esp s) = t"
    and other: "next_of s (yield_queue s t xs) \<noteq> t"
  shows "\<exists>n s'. thread_yield E s = ret (Switch t n [In_yield (iflag s)]) s' \<and> leaves lim T l s' n W \<and> n \<noteq> t \<and>
      idle_thread s' = idle_thread s"
proof -
  note d = threads_invD [OF inv]
  have sc: "sched lim s t Q" by (rule threads_inv_sched [OF inv e])
  have lw: "l \<notin> {t + 24}" "l + 4 \<notin> {t + 24}" by (rule lock_words_not_status [OF pl d(6)])+
  have QQ: "(Q(ready_threads s \<mapsto> ys)) (sema_waiters s (l + 4)) = Some ws" "(Q(ready_threads s \<mapsto> ys)) 24 = Q 24" for ys
    using d(2,3,9) by auto
  have "xs \<noteq> []" using other by (auto simp: yield_queue_def next_of_def split: if_splits)
  then obtain n ys where n: "xs = n # ys" by (cases xs) auto
  have q: "yield_queue s t xs = n # yield_queue s t ys" "next_of s (n # yield_queue s t ys) = n"
    "tl (n # yield_queue s t ys) = yield_queue s t ys"
    by (simp_all add: yield_queue_def next_of_def n)
  from yield_round_robin_step [OF sc d(1) r other, of E] obtain s1 where
    s1: "thread_yield E s = ret (Switch t n [In_yield (iflag s)]) s1"
      "sched lim s1 t (Q(ready_threads s \<mapsto> yield_queue s t ys))" "same_kernel s s1" "thr_status s1 t = TS_READY"
      "\<not> iflag s1" "kept_but {t + 24} s s1"
    unfolding q by blast
  have "threads_inv lim T l s1 n (Q(ready_threads s \<mapsto> yield_queue s t ys)) (yield_queue s t ys) ws"
    by (rule threads_inv_change [OF inv pl schedD(1) [OF s1(2)] same_kernelD(1,2) [OF s1(3)] s1(6)
          status_word_changes [OF d(6)] _ _ QQ])
      (use s1(4) d(4-6) n in \<open>auto simp: thread_statuses yield_queue_def\<close>)
  moreover have "view l s1 n (yield_queue s t ys) ws = W"
    by (rule view_kept [OF ls s1(6) lw pl d(6) same_kernelD(2) [OF s1(3)]]) (use n in \<open>auto simp: yield_queue_def\<close>)
  ultimately have "leaves lim T l s1 n W" using s1(5) unfolding leaves_def by blast
  moreover have "n \<noteq> t" using d(5) n by auto
  ultimately show ?thesis using s1(1) same_kernelD(2) [OF s1(3)] by blast
qed

lemma yield_cases:
  assumes inv: "threads_inv lim T l s t Q xs ws" and pl: "lock_place T l" and ls: "view l s t xs ws = W"
    and r: "room lim s" and e: "get_base_page (esp s) = t"
  shows "(\<exists>s'. thread_yield E s = ret Done s' \<and> stays lim T l s' t W \<and> idle_thread s' = idle_thread s) \<or>
    (\<exists>n s'. thread_yield E s = ret (Switch t n [In_yield (iflag s)]) s' \<and> leaves lim T l s' n W \<and> n \<noteq> t \<and>
      idle_thread s' = idle_thread s)"
  using yield_alone [OF assms] yield_away [OF assms] by blast

text \<open>The timer: counting, and at the end of the time slice the yield in between.\<close>

lemma idt_int_timer:
  obtains s1 where "kmem s1 = kmem s" and "firstFreeSegment s1 = firstFreeSegment s" and "esp s1 = esp s"
    and "ready_threads s1 = ready_threads s" and "idle_thread s1 = idle_thread s" and "\<not> iflag s1"
    and "idt_int E 32 s =
      andthen (andthen (if TIME_SLICE \<le> sint (tick_count s + 1) then thread_yield E s1 else ret Done s1) (In_int 32) (int_rest E 32))
        (In_iret (iflag s)) (\<lambda>s'. ret Done (s'\<lparr>iflag := iflag s\<rparr>))"
proof -
  let ?s1 = "(time_tick (s\<lparr>iflag := False\<rparr>))\<lparr>tick_count := tick_count s + 1\<rparr>"
  have f: "kmem ?s1 = kmem s" "firstFreeSegment ?s1 = firstFreeSegment s" "esp ?s1 = esp s"
    "ready_threads ?s1 = ready_threads s" "idle_thread ?s1 = idle_thread s" "\<not> iflag ?s1"
    "tick_count (time_tick (s\<lparr>iflag := False\<rparr>)) = tick_count s"
    by (simp_all add: time_tick_def Let_def)
  have "idt_int E 32 s =
      andthen (andthen (if TIME_SLICE \<le> sint (tick_count s + 1) then thread_yield E ?s1 else ret Done ?s1) (In_int 32) (int_rest E 32))
        (In_iret (iflag s)) (\<lambda>s'. ret Done (s'\<lparr>iflag := iflag s\<rparr>))"
    using f(7) by (simp add: idt_int_def idt_global_int_wrapper_def thread_tick_def Let_def)
  with f show ?thesis using that by blast
qed

lemma int_rest_done:
  obtains s' where "int_rest E n s = ret Done s'" and "kmem s' = kmem s" and "firstFreeSegment s' = firstFreeSegment s"
    and "esp s' = esp s" and "ready_threads s' = ready_threads s" and "idle_thread s' = idle_thread s"
  by (rule that [of "case int_rest E n s of Inr (_, s') \<Rightarrow> s'"]) (simp_all add: int_rest_def Let_def)

lemma stays_cong:
  assumes "stays lim T l s t W" and "kmem s' = kmem s" and "firstFreeSegment s' = firstFreeSegment s"
    and "esp s' = esp s" and "ready_threads s' = ready_threads s" and "idle_thread s' = idle_thread s"
  shows "stays lim T l s' t W"
proof -
  obtain Q xs ws where i: "threads_inv lim T l s t Q xs ws" "view l s t xs ws = W" using assms(1) by (auto simp: stays_def)
  have "threads_inv lim T l s' t Q xs ws" by (rule threads_inv_cong [OF i(1)]) (simp_all add: assms)
  moreover have "view l s' t xs ws = W" by (rule view_cong [OF i(2)]) (simp_all add: assms)
  ultimately show ?thesis using assms by (auto simp: stays_def)
qed

lemma timer_cases:
  assumes inv: "threads_inv lim T l s t Q xs ws" and pl: "lock_place T l" and ls: "view l s t xs ws = W"
    and r: "room lim s" and e: "get_base_page (esp s) = t"
  shows "(\<exists>s'. idt_int E 32 s = ret Done s' \<and> stays lim T l s' t W \<and> idle_thread s' = idle_thread s) \<or>
    (\<exists>n s'. idt_int E 32 s = ret (Switch t n [In_yield False, In_int 32, In_iret (iflag s)]) s' \<and>
      leaves lim T l s' n W \<and> n \<noteq> t \<and> idle_thread s' = idle_thread s)"
proof -
  obtain s1 where s1: "kmem s1 = kmem s" "firstFreeSegment s1 = firstFreeSegment s" "esp s1 = esp s"
      "ready_threads s1 = ready_threads s" "idle_thread s1 = idle_thread s" "\<not> iflag s1"
    and run: "idt_int E 32 s =
      andthen (andthen (if TIME_SLICE \<le> sint (tick_count s + 1) then thread_yield E s1 else ret Done s1) (In_int 32) (int_rest E 32))
        (In_iret (iflag s)) (\<lambda>s'. ret Done (s'\<lparr>iflag := iflag s\<rparr>))"
    by (rule idt_int_timer) (rule that)
  have i1: "threads_inv lim T l s1 t Q xs ws" by (rule threads_inv_cong [OF inv]) (simp_all add: s1)
  have l1: "view l s1 t xs ws = W" by (rule view_cong [OF ls]) (simp_all add: s1)
  have r1: "room lim s1" using r s1 by (simp add: room_def)
  have e1: "get_base_page (esp s1) = t" using e s1 by simp
  have fin: "\<exists>s'. idt_int E 32 s = ret Done s' \<and> stays lim T l s' t W \<and> idle_thread s' = idle_thread s"
    if "(if TIME_SLICE \<le> sint (tick_count s + 1) then thread_yield E s1 else ret Done s1) = ret Done s2"
      "stays lim T l s2 t W" "idle_thread s2 = idle_thread s" for s2
  proof -
    obtain s3 where s3: "int_rest E 32 s2 = ret Done s3" "kmem s3 = kmem s2" "firstFreeSegment s3 = firstFreeSegment s2"
      "esp s3 = esp s2" "ready_threads s3 = ready_threads s2" "idle_thread s3 = idle_thread s2"
      by (rule int_rest_done) (rule that)
    have "idt_int E 32 s = ret Done (s3\<lparr>iflag := iflag s\<rparr>)"
      using run that(1) s3(1) by (simp add: andthen_def)
    moreover have "stays lim T l (s3\<lparr>iflag := iflag s\<rparr>) t W" by (rule stays_cong [OF that(2)]) (simp_all add: s3)
    ultimately show ?thesis using that(3) s3(6) by auto
  qed
  show ?thesis
  proof (cases "TIME_SLICE \<le> sint (tick_count s + 1)")
    case False
    have "stays lim T l s1 t W" using i1 l1 e1 unfolding stays_def by blast
    then show ?thesis using fin [of s1] False s1(5) by simp
  next
    case True
    from yield_cases [OF i1 pl l1 r1 e1, of E] show ?thesis
    proof (elim disjE exE conjE)
      fix s2 assume "thread_yield E s1 = ret Done s2" "stays lim T l s2 t W" "idle_thread s2 = idle_thread s1"
      then show ?thesis using fin [of s2] True s1(5) by simp
    next
      fix n s2 assume "thread_yield E s1 = ret (Switch t n [In_yield (iflag s1)]) s2" "leaves lim T l s2 n W" "n \<noteq> t"
        "idle_thread s2 = idle_thread s1"
      then show ?thesis using run True s1(5,6) by (simp add: andthen_def)
    qed
  qed
qed

lemma leaves_stays:
  "stays lim T l s t W \<Longrightarrow> kmem s' = kmem s \<Longrightarrow> firstFreeSegment s' = firstFreeSegment s \<Longrightarrow> esp s' = esp s \<Longrightarrow>
    ready_threads s' = ready_threads s \<Longrightarrow> idle_thread s' = idle_thread s \<Longrightarrow>
    stays lim T l s' t W \<and> idle_thread s' = idle_thread s"
  using stays_cong by simp

text \<open>Calls that are open from a yield or the timer return without further changes.\<close>

lemma plain_unwind:
  assumes "stays lim T l s t W" and "plain_calls fs" and "unwind E fs s = ret g s'"
  shows "g = Done \<and> stays lim T l s' t W \<and> idle_thread s' = idle_thread s"
proof -
  consider "fs = []" | i where "fs = [In_yield i]" | i j where "fs = [In_yield i, In_int 32, In_iret j]"
    using assms(2) by (auto simp: plain_calls_def)
  then show ?thesis
  proof cases
    case 1
    then show ?thesis using assms by simp
  next
    case 2
    then show ?thesis
      using assms(3) leaves_stays [OF assms(1), of s'] by (auto simp: int_defs Let_def)
  next
    case 3
    then show ?thesis
      using assms(3) leaves_stays [OF assms(1), of s'] by (auto simp: int_defs Let_def int_rest_def)
  qed
qed

text \<open>The thread that is switched to: \<^verbatim>\<open>switch_complete\<close> makes it running; then its open calls go on.\<close>

lemma switched_in:
  assumes inv: "threads_inv lim T l s n Q xs ws" and pl: "lock_place T l" and ls: "view l s n xs ws = W"
    and e: "get_base_page e = n" and c: "c \<in> T" "c \<noteq> n"
    and s2: "s2 = wr (n + 24) TS_RUNNING (s\<lparr>esp := e, tick_count := 0\<rparr>)"
  shows "resume E c fs (s\<lparr>esp := e\<rparr>) = unwind E fs s2" and "threads_inv lim T l s2 n Q xs ws"
    and "view l s2 n xs ws = W" and "stays lim T l s2 n W"
proof -
  note d = threads_invD [OF inv]
  let ?s1 = "s\<lparr>esp := e\<rparr>"
  have inv1: "threads_inv lim T l ?s1 n Q xs ws" by (rule threads_inv_cong [OF inv]) simp_all
  have sc1: "sched lim ?s1 n Q" by (rule threads_inv_sched [OF inv1]) (simp add: e)
  have al: "page_aligned n" "page_aligned c" "aligned n"
    using d(11) [OF d(6)] d(11) [OF c(1)] by (simp_all add: thread_ok_def page_aligned_imp_aligned)
  have s2': "s2 = wr (n + 24) TS_RUNNING (?s1\<lparr>tick_count := 0\<rparr>)" by (simp add: s2)
  have "switch_complete c ?s1 = ret () s2"
    unfolding s2' using status_other_thread [OF al(1,2) c(2)] d(12) [OF c(1)]
    by (intro switch_complete_result schedD(2) [OF sc1]) simp
  then show "resume E c fs (s\<lparr>esp := e\<rparr>) = unwind E fs s2" by (simp add: resume_def)
  have k2: "kept_but {n + 24} ?s1 s2"
    unfolding s2'
    by (rule kept_but_wr [OF thread_word [OF d(11) [OF d(6)], of 24] _ kept_but_refl [OF refl]]) simp_all
  show inv2: "threads_inv lim T l s2 n Q xs ws"
  proof (rule threads_inv_change [OF inv1 pl _ _ _ k2])
    have "sched lim s2 n Q" unfolding s2' using sc1 schedD(3) [OF sc1] by (intro sched_wr) simp_all
    then show "queues lim s2 Q" by (rule schedD(1))
  qed (use d al in \<open>auto simp: s2' changes_def thread_statuses\<close>)
  show ls2: "view l s2 n xs ws = W"
    by (rule view_kept [OF view_cong [OF ls] k2 lock_words_not_status [OF pl d(6)] pl d(6)]) (simp_all add: s2)
  show "stays lim T l s2 n W" using inv2 ls2 e unfolding stays_def by (auto simp: s2)
qed

lemma works_stays:
  assumes inv: "threads_inv lim T l s t Q xs ws" and ls: "view l s t xs ws = W" and e: "get_base_page (esp s) = t"
    and own: "own_memory lim T l s s'"
  shows "stays lim T l s' t W \<and> idle_thread s' = idle_thread s"
proof -
  obtain m e' i where s': "s' = s\<lparr>kmem := m, esp := e', iflag := i\<rparr>" and e': "get_base_page e' = get_base_page (esp s)"
    and lo: "\<forall>x. unat x < lim \<longrightarrow> m x = kmem s x" and hi: "\<forall>a \<in> kernel_words T l. ld32 m a = rd s a"
    using own by (auto simp: own_memory_def)
  note d = threads_invD [OF inv]
  have q: "queues lim s' Q" by (rule queues_cong [OF d(7)]) (use lo in \<open>simp_all add: s'\<close>)
  have struct: "rd s' (u + j) = rd s (u + j)" if "u \<in> T" "unat j < 44" for u j
    using hi that by (auto simp: s' kernel_words_def)
  have lw: "rd s' l = rd s l" "rd s' (l + 4) = rd s (l + 4)" "rd s' (l + 4 + 4) = rd s (l + 4 + 4)"
    using hi by (simp_all add: s' kernel_words_def add.commute [of 8])
  have "thread_ok s' u \<and> thr_status s' u \<noteq> TS_DYING" if "u \<in> T" for u
    using d(11,12) [OF that] struct [OF that, of 24] struct [OF that, of 40] by (simp add: thread_ok_def is_thread_def)
  then have "threads_inv lim T l s' t Q xs ws"
    using inv q lw(3) unfolding threads_inv_def s' by simp
  moreover have "view l s' t xs ws = W" using ls lw by (simp add: view_def s')
  ultimately show ?thesis using e e' unfolding stays_def by (auto simp: s')
qed

section \<open>The statements\<close>

lemma run_invE:
  assumes "run_inv lim T l s t C K"
  obtains Q xs ws where "threads_inv lim T l s t Q xs ws" and "lock_state l s C" and "at_point l T s t xs ws C"
    and "\<And>u. u \<in> set ws \<Longrightarrow> testing (C u)"
    and "sema_value s (l + 4) = 1 \<Longrightarrow> ws \<noteq> [] \<Longrightarrow> taker C (insert t (set xs))"
    and "\<And>u. u \<noteq> t \<Longrightarrow> parked (C u) (K u)" and "off (C t) \<Longrightarrow> \<not> iflag s" and "C (idle_thread s) = Outside"
  using assms unfolding run_inv_def by blast

lemma run_invI:
  assumes "threads_inv lim T l s t Q xs ws" and "lock_state l s C" and "at_point l T s t xs ws C"
    and "\<And>u. u \<in> set ws \<Longrightarrow> testing (C u)"
    and "sema_value s (l + 4) = 1 \<Longrightarrow> ws \<noteq> [] \<Longrightarrow> taker C (insert t (set xs))"
    and "\<And>u. u \<noteq> t \<Longrightarrow> parked (C u) (K u)" and "off (C t) \<Longrightarrow> \<not> iflag s" and "C (idle_thread s) = Outside"
  shows "run_inv lim T l s t C K"
  using assms unfolding run_inv_def by blast

text \<open>Where the points are, for the simplifier.\<close>

lemmas point_facts = off_def at_rest_def recorded_def testing_def at_point_def

lemma parked_point: "parked (C t) fs \<Longrightarrow> at_point l T s t xs ws C"
  by (cases "C t") (simp_all add: parked_def point_facts)

lemma lock_state_upd:
  assumes "lock_state l s C" and "owns p = owns (C t)" and "recorded p = recorded (C t)"
    and "sema_value s' (l + 4) = sema_value s (l + 4)" and "lock_holder s' l = lock_holder s l"
  shows "lock_state l s' (C(t := p))"
  using assms by (fastforce simp: lock_state_def)

lemma taker_upd:
  assumes "taker C R" and "testing (C t) \<or> (\<exists>i. C t = Down_take i) \<Longrightarrow> testing p \<or> (\<exists>i. p = Down_take i)"
  shows "taker (C(t := p)) R"
proof -
  obtain u where "u \<in> R" "testing (C u) \<or> (\<exists>i. C u = Down_take i)" using assms(1) by (auto simp: taker_def)
  then show ?thesis using assms(2) unfolding taker_def by (cases "u = t") (auto intro!: bexI [of _ u])
qed

lemma at_point_cong:
  "at_point l T s t xs ws C \<Longrightarrow> sema_value s' (l + 4) = sema_value s (l + 4) \<Longrightarrow> idle_thread s' = idle_thread s \<Longrightarrow>
    at_point l T s' t xs ws C"
  by (auto simp: at_point_def split: point.splits)

text \<open>The parts of the invariant that a statement of the thread \<open>t\<close> passes on, where the threads stay in their lists.\<close>

lemma statement_keeps:
  assumes inv: "threads_inv lim T l s t Q xs ws" and w: "\<And>u. u \<in> set ws \<Longrightarrow> testing (C u)"
    and pk: "\<And>u. u \<noteq> t \<Longrightarrow> parked (C u) (K u)" and i: "C (idle_thread s) = Outside" "t \<noteq> idle_thread s"
  shows "\<And>u. u \<in> set ws \<Longrightarrow> testing ((C(t := p)) u)" and "\<And>u. u \<noteq> t \<Longrightarrow> parked ((C(t := p)) u) (K u)"
    and "(C(t := p)) (idle_thread s) = Outside"
  using threads_invD(5) [OF inv] w pk i by auto

text \<open>A statement that changes the interrupt flag at most.\<close>

lemma flag_statement:
  assumes inv: "run_inv lim T l s t C K" and s': "s' = s\<lparr>iflag := f\<rparr>" and i: "t \<noteq> idle_thread s"
    and own: "owns p = owns (C t)" "recorded p = recorded (C t)" and f: "off p \<Longrightarrow> \<not> f"
    and tk: "testing (C t) \<or> (\<exists>i. C t = Down_take i) \<Longrightarrow> sema_value s (l + 4) = 1 \<Longrightarrow> testing p \<or> (\<exists>i. p = Down_take i)"
    and at: "\<And>xs ws. at_point l T s t xs ws (C(t := p))"
  shows "run_inv lim T l s' t (C(t := p)) K"
  using inv
proof (rule run_invE)
  fix Q xs ws assume a: "threads_inv lim T l s t Q xs ws" "lock_state l s C"
    "\<And>u. u \<in> set ws \<Longrightarrow> testing (C u)" "sema_value s (l + 4) = 1 \<Longrightarrow> ws \<noteq> [] \<Longrightarrow> taker C (insert t (set xs))"
    "\<And>u. u \<noteq> t \<Longrightarrow> parked (C u) (K u)" "C (idle_thread s) = Outside"
  show ?thesis
  proof (rule run_invI)
    show "threads_inv lim T l s' t Q xs ws" by (rule threads_inv_cong [OF a(1)]) (simp_all add: s')
    show "lock_state l s' (C(t := p))" by (rule lock_state_upd [OF a(2) own]) (simp_all add: s')
    show "at_point l T s' t xs ws (C(t := p))" by (rule at_point_cong [OF at]) (simp_all add: s')
    show "taker (C(t := p)) (insert t (set xs))" if "sema_value s' (l + 4) = 1" "ws \<noteq> []"
      using that tk a(4) by (intro taker_upd) (simp_all add: s')
  qed (use statement_keeps [where C = C and K = K and p = p, OF a(1,3,5,6) i] f in \<open>simp_all add: s'\<close>)
qed

text \<open>Stores to the lock.\<close>

lemma threads_inv_wr:
  assumes inv: "threads_inv lim T l s t Q xs ws" and pl: "lock_place T l" and a: "a \<in> {l, l + 4}"
  shows "threads_inv lim T l (wr a v s) t Q xs ws"
proof -
  note d = threads_invD [OF inv]
  note p = place_words [OF pl d(6)]
  have k: "kernel_word a" using a p(1,2) by auto
  have kept: "kept_but {a} s (wr a v s)"
    by (rule kept_but_wr [OF k _ kept_but_refl [OF refl]]) simp_all
  show ?thesis
    by (rule threads_inv_change [OF inv pl queues_wr [OF d(7)] _ _ kept])
      (use a k d p(7) clear_of_neq [of _ l 24] clear_of_neq [of _ "l + 4" 24] in \<open>auto simp: changes_def kernel_word_def\<close>)
qed

text \<open>A statement that stores to the lock.\<close>

lemma store_statement:
  assumes inv: "run_inv lim T l s t C K" and pl: "lock_place T l" and i: "t \<noteq> idle_thread s"
    and s': "s' = wr a v s" "a \<in> {l, l + 4}" and f: "off p \<Longrightarrow> off (C t)"
    and ls: "lock_state l s' (C(t := p))"
    and tk: "\<And>xs ws. at_point l T s t xs ws C \<Longrightarrow> sema_value s' (l + 4) = 1 \<Longrightarrow> ws \<noteq> [] \<Longrightarrow>
      (sema_value s (l + 4) = 1 \<Longrightarrow> taker C (insert t (set xs))) \<Longrightarrow> taker (C(t := p)) (insert t (set xs))"
    and at: "\<And>xs ws. at_point l T s' t xs ws (C(t := p))"
  shows "run_inv lim T l s' t (C(t := p)) K"
  using inv
proof (rule run_invE)
  fix Q xs ws assume a: "threads_inv lim T l s t Q xs ws" "at_point l T s t xs ws C"
    "\<And>u. u \<in> set ws \<Longrightarrow> testing (C u)" "sema_value s (l + 4) = 1 \<Longrightarrow> ws \<noteq> [] \<Longrightarrow> taker C (insert t (set xs))"
    "\<And>u. u \<noteq> t \<Longrightarrow> parked (C u) (K u)" "off (C t) \<Longrightarrow> \<not> iflag s" "C (idle_thread s) = Outside"
  show ?thesis
  proof (rule run_invI [OF _ ls at])
    show "threads_inv lim T l s' t Q xs ws" unfolding s'(1) by (rule threads_inv_wr [OF a(1) pl s'(2)])
    show "taker (C(t := p)) (insert t (set xs))" if "sema_value s' (l + 4) = 1" "ws \<noteq> []"
      using tk [OF a(2) that] a(4) that(2) by blast
  qed (use statement_keeps [where C = C and K = K and p = p, OF a(1,3,5,7) i] f a(6) in \<open>auto simp: s'(1)\<close>)
qed

text \<open>Taking the semaphore down, recording the holder, and clearing it.\<close>

lemma lock_stateD:
  assumes "lock_state l s C"
  shows "sema_value s (l + 4) \<noteq> 0 \<Longrightarrow> sema_value s (l + 4) = 1 \<and> lock_holder s l = 0 \<and> \<not> owns (C u)"
    and "owns (C u) \<Longrightarrow> sema_value s (l + 4) = 0 \<and> u \<noteq> 0 \<and> lock_holder s l = (if recorded (C u) then u else 0)"
    and "owns (C u) \<Longrightarrow> owns (C v) \<Longrightarrow> u = v"
  using assms by (auto simp: lock_state_def)

lemma lock_state_owned:
  assumes "sema_value s (l + 4) = 0" and "u \<noteq> 0" and "owns (C u)" and "\<And>v. v \<noteq> u \<Longrightarrow> \<not> owns (C v)"
    and "lock_holder s l = (if recorded (C u) then u else 0)"
  shows "lock_state l s C"
proof -
  have "\<forall>t. owns (C t) \<longleftrightarrow> t = u" using assms(3,4) by auto
  then show ?thesis using assms(1,2,5) unfolding lock_state_def by blast
qed

lemma take_statement:
  assumes inv: "run_inv lim T l s t C K" and pl: "lock_place T l" and i: "t \<noteq> idle_thread s" and c: "C t = Down_take j"
    and t: "t \<noteq> 0" "aligned l"
  shows "run_inv lim T l (wr (l + 4) (sema_value s (l + 4) - 1) s) t (C(t := Down_restore j)) K"
proof -
  have ls: "lock_state l s C" and at: "sema_value s (l + 4) \<noteq> 0"
    using inv c by (auto elim!: run_invE simp: at_point_def)
  note v = lock_stateD(1) [OF ls at]
  let ?s = "wr (l + 4) (sema_value s (l + 4) - 1) s"
  have z: "sema_value ?s (l + 4) = 0" "lock_holder ?s l = 0" using v t(2) by simp_all
  show ?thesis
  proof (rule store_statement [OF inv pl i refl])
    show "lock_state l ?s (C(t := Down_restore j))"
      by (rule lock_state_owned [of _ _ t]) (use z t v in \<open>simp_all add: recorded_def\<close>)
  qed (use z in \<open>simp_all add: point_facts c\<close>)
qed

lemma holder_statement:
  assumes inv: "run_inv lim T l s t C K" and pl: "lock_place T l" and i: "t \<noteq> idle_thread s" and o: "owns (C t)" "owns p"
    and p: "\<not> off p" "aligned l"
  shows "run_inv lim T l (wr l (if recorded p then t else 0) s) t (C(t := p)) K"
proof -
  have ls: "lock_state l s C" using inv by (auto elim!: run_invE)
  note v = lock_stateD(2) [OF ls o(1)]
  have n: "\<not> owns (C w)" if "w \<noteq> t" for w using lock_stateD(3) [OF ls o(1)] that by blast
  let ?s = "wr l (if recorded p then t else 0) s"
  have z: "sema_value ?s (l + 4) = 0" "lock_holder ?s l = (if recorded p then t else 0)" using v p(2) by simp_all
  show ?thesis
  proof (rule store_statement [OF inv pl i refl])
    show "lock_state l ?s (C(t := p))"
      by (rule lock_state_owned [of _ _ t]) (use z v n o(2) in simp_all)
    show "at_point l T ?s t xs ws (C(t := p))" for xs ws
      using o(2) p(1) by (cases p) (simp_all add: off_def at_rest_def at_point_def)
  qed (use z p(1) in simp_all)
qed

text \<open>Raising the semaphore: the first waiting thread is taken from its list, made ready, and the value counted up.\<close>

lemma pop_statement:
  assumes inv: "run_inv lim T l s t C K" and pl: "lock_place T l" and i: "t \<noteq> idle_thread s" and c: "C t = Up_pop j"
    and e: "get_base_page (esp s) = t" and run: "lock_point E l (Up_pop j) s = ret (Done, p) s'"
  shows "run_inv lim T l s' t (C(t := p)) K \<and> esp s' = esp s \<and> idle_thread s' = idle_thread s"
  using inv
proof (rule run_invE)
  fix Q xs ws assume a: "threads_inv lim T l s t Q xs ws" "lock_state l s C" "\<And>u. u \<in> set ws \<Longrightarrow> testing (C u)"
    "\<And>u. u \<noteq> t \<Longrightarrow> parked (C u) (K u)" "off (C t) \<Longrightarrow> \<not> iflag s" "C (idle_thread s) = Outside"
  note d = threads_invD [OF a(1)]
  note v = lock_stateD(2) [OF a(2), of t, unfolded c owns.simps, OF TrueI]
  have fl: "\<not> iflag s" using a(5) c by (simp add: off_def at_rest_def)
  note keeps = statement_keeps [where C = C and K = K, OF a(1,3,4,6) i]
  have emp: "is_empty (sema_waiters s (l + 4)) s \<longleftrightarrow> ws = []" by (rule queues_empty [OF d(7,2)])
  show ?thesis
  proof (cases ws)
    case Nil
    then have p: "p = Up_raise j" "s' = s" using run emp by simp_all
    have "run_inv lim T l s t (C(t := p)) K"
      by (rule run_invI [OF a(1)])
        (use keeps [where p = p] lock_state_upd [OF a(2), of p t s] fl v c Nil in \<open>simp_all add: p at_point_def recorded_def\<close>)
    then show ?thesis by (simp add: p)
  next
    case (Cons u us)
    obtain m where m: "pop (sema_waiters s (l + 4)) s = (u, s\<lparr>kmem := m\<rparr>)"
      "queues lim (s\<lparr>kmem := m\<rparr>) (Q(sema_waiters s (l + 4) \<mapsto> us))" "\<And>x. lim \<le> unat x \<Longrightarrow> m x = kmem s x"
      by (rule queues_pop [OF d(7) d(2) [unfolded Cons]]) (rule that)
    have p: "p = Up_wake j u" "s' = s\<lparr>kmem := m\<rparr>" using run emp Cons m(1) by simp_all
    have k: "kept_but {} s s'"
      by (rule kept_but_above [OF kept_but_refl [OF refl] queues_lim [OF d(7)]]) (simp add: m(3) p(2))
    have "threads_inv lim T l s' t (Q(sema_waiters s (l + 4) \<mapsto> us)) xs us"
      by (rule threads_inv_change [OF a(1) pl m(2) [folded p(2)] _ _ k]) (use d Cons p(2) in auto)
    moreover have "sema_value s' (l + 4) = 0" "lock_holder s' l = 0"
      using k place_words(1,2) [OF pl d(6)] v c by (simp_all add: kept_but_def recorded_def)
    moreover have "lock_state l s' (C(t := p))"
      by (rule lock_state_owned [of _ _ t]) (use calculation(2,3) lock_stateD(3) [OF a(2), of t] v c in \<open>auto simp: p(1) recorded_def\<close>)
    ultimately have "run_inv lim T l s' t (C(t := p)) K"
      by (intro run_invI [of lim T l s' t "Q(sema_waiters s (l + 4) \<mapsto> us)" xs us])
        (use keeps [where p = p] a(3) d(4,5) fl Cons in \<open>auto simp: p at_point_def\<close>)
    then show ?thesis by (simp add: p(2))
  qed
qed

lemma wake_statement:
  assumes inv: "run_inv lim T l s t C K" and pl: "lock_place T l" and i: "t \<noteq> idle_thread s" and c: "C t = Up_wake j u"
    and e: "get_base_page (esp s) = t" and r: "room lim s" and run: "thread_unblock E u s = ret () s'"
  shows "run_inv lim T l s' t (C(t := Up_raise j)) K \<and> esp s' = esp s \<and> idle_thread s' = idle_thread s"
  using inv
proof (rule run_invE)
  fix Q xs ws assume a: "threads_inv lim T l s t Q xs ws" "lock_state l s C" "\<And>u. u \<in> set ws \<Longrightarrow> testing (C u)"
    "\<And>u. u \<noteq> t \<Longrightarrow> parked (C u) (K u)" "off (C t) \<Longrightarrow> \<not> iflag s" "C (idle_thread s) = Outside" "at_point l T s t xs ws C"
  note d = threads_invD [OF a(1)]
  note v = lock_stateD(2) [OF a(2), of t, unfolded c owns.simps, OF TrueI]
  have fl: "\<not> iflag s" using a(5) c by (simp add: off_def at_rest_def)
  have u: "u \<in> T" "u \<noteq> t" "u \<noteq> idle_thread s" "u \<notin> set (xs @ ws)" "testing (C u)" using a(7) c by (simp_all add: at_point_def)
  have up: "page_aligned u" "0x80000000 \<le> unat u" using d(11) [OF u(1)] by (simp_all add: thread_ok_def)
  from unblock_step [OF threads_inv_sched [OF a(1) e] d(1) r up, of E] run
  have s': "sched lim s' t (Q(ready_threads s \<mapsto> xs @ [u]))" "same_kernel s s'" "iflag s' = iflag s"
    "thr_status s' u = TS_READY" "kept_but {u + 24} s s'"
    by (auto simp: PANIC_def split: if_splits)
  have "threads_inv lim T l s' t (Q(ready_threads s \<mapsto> xs @ [u])) (xs @ [u]) ws"
    by (rule threads_inv_change [OF a(1) pl schedD(1) [OF s'(1)] same_kernelD(1,2) [OF s'(2)] s'(5) status_word_changes [OF u(1)]])
      (use s'(4) u d in \<open>auto simp: thread_statuses\<close>)
  moreover have z: "sema_value s' (l + 4) = 0" "lock_holder s' l = 0"
    using s'(5) place_words(1,2) [OF pl d(6)] lock_words_not_status [OF pl u(1)] v c by (simp_all add: kept_but_def recorded_def)
  moreover have "lock_state l s' (C(t := Up_raise j))"
    by (rule lock_state_owned [of _ _ t]) (use z lock_stateD(3) [OF a(2), of t] v c in \<open>auto simp: recorded_def\<close>)
  ultimately have "run_inv lim T l s' t (C(t := Up_raise j)) K"
    by (intro run_invI [of lim T l s' t "Q(ready_threads s \<mapsto> xs @ [u])" "xs @ [u]" ws])
      (use statement_keeps [where C = C and K = K and p = "Up_raise j", OF a(1,3,4,6) i] u fl s'(3) same_kernelD(2) [OF s'(2)]
        in \<open>auto simp: at_point_def\<close>)
  then show ?thesis using same_kernelD(2,4) [OF s'(2)] by simp
qed

lemma raise_statement:
  assumes inv: "run_inv lim T l s t C K" and pl: "lock_place T l" and i: "t \<noteq> idle_thread s" and c: "C t = Up_raise j"
    and al: "aligned l"
  shows "run_inv lim T l (wr (l + 4) (sema_value s (l + 4) + 1) s) t (C(t := Up_restore j)) K"
proof -
  have ls: "lock_state l s C" using inv by (auto elim!: run_invE)
  note v = lock_stateD(2) [OF ls, of t, unfolded c owns.simps, OF TrueI] and u = lock_stateD(3) [OF ls, of t, unfolded c owns.simps, OF TrueI]
  let ?s = "wr (l + 4) (sema_value s (l + 4) + 1) s"
  show ?thesis
  proof (rule store_statement [OF inv pl i refl])
    have "\<not> owns (C w)" if "w \<noteq> t" for w using u that by blast
    then show "lock_state l ?s (C(t := Up_restore j))" using v al by (auto simp: lock_state_def recorded_def c)
    fix xs ws assume "at_point l T s t xs ws C" "ws \<noteq> []"
    then obtain u where u: "u \<in> set xs" "testing (C u)" by (auto simp: at_point_def c)
    then have "u \<noteq> t" using c by (auto simp: testing_def)
    then show "taker (C(t := Up_restore j)) (insert t (set xs))" using u by (auto simp: taker_def)
  qed (simp_all add: point_facts c)
qed

text \<open>Giving up the processor after entering the waiting list.\<close>

lemma block_statement:
  assumes inv: "run_inv lim T l s t (C(t := Down_append j)) K" and pl: "lock_place T l" and i: "t \<noteq> idle_thread s" "C (idle_thread s) = Outside"
    and e: "get_base_page (esp s) = t" and r: "room lim s"
    and run: "lock_point E l (Down_append j) s = ret (Done, Down_block j) s1" "lock_point E l (Down_block j) s1 = ret (g, p) s'"
  shows "\<exists>n. g = Switch t n [] \<and> p = Down_test j \<and> run_inv lim T l s' n (C(t := p)) (K(t := [])) \<and>
    parked ((C(t := p)) n) ((K(t := [])) n) \<and> n \<noteq> t \<and> \<not> iflag s' \<and> t \<in> T"
  using inv
proof (rule run_invE)
  let ?C = "C(t := Down_append j)" and ?D = "C(t := Down_test j)" and ?K = "K(t := [])" and ?w = "sema_waiters s (l + 4)"
  fix Q xs ws assume a: "threads_inv lim T l s t Q xs ws" "lock_state l s ?C" "\<And>u. u \<in> set ws \<Longrightarrow> testing (?C u)"
    "\<And>u. u \<noteq> t \<Longrightarrow> parked (?C u) (K u)" "off (?C t) \<Longrightarrow> \<not> iflag s" "at_point l T s t xs ws ?C"
  note d = threads_invD [OF a(1)]
  have fl: "\<not> iflag s" using a(5) by (simp add: off_def at_rest_def)
  have v: "sema_value s (l + 4) = 0" using a(6) by (simp add: at_point_def)
  have sc: "sched lim s t Q" by (rule threads_inv_sched [OF a(1) e])
  have n: "next_of s xs \<noteq> t" "next_of s xs \<in> T" using next_not_current [OF a(1)] i by auto
  obtain s2 s3 where s3: "append (env_vp E) ?w t s = ret () s2" "thread_block s2 = ret (Switch t (next_of s xs) []) s3"
    "sched lim s3 t (Q(?w \<mapsto> ws @ [t], ready_threads s \<mapsto> tl xs))" "same_kernel s s3"
    "thr_status s3 t = TS_BLOCKED" "\<not> iflag s3" "kept_but {t + 24} s s3"
    by (rule sema_wait_steps [OF sc d(1,2,3) r n(1) fl, where E = E]) (rule that)
  have g: "g = Switch t (next_of s xs) []" "p = Down_test j" "s' = s3"
    using run s3(1,2) schedD(2) [OF sc] by simp_all
  have "threads_inv lim T l s3 (next_of s xs) (Q(?w \<mapsto> ws @ [t], ready_threads s \<mapsto> tl xs)) (tl xs) (ws @ [t])"
    by (rule threads_inv_change [OF a(1) pl schedD(1) [OF s3(3)] same_kernelD(1,2) [OF s3(4)] s3(7) status_word_changes [OF d(6)]])
      (use s3(5) d n i in \<open>cases xs; auto simp: thread_statuses next_of_def\<close>)+
  moreover have z: "sema_value s3 (l + 4) = 0" "lock_holder s3 l = lock_holder s l"
    using s3(7) place_words(1,2) [OF pl d(6)] lock_words_not_status [OF pl d(6)] v by (simp_all add: kept_but_def)
  moreover have "lock_state l s3 ?D"
    using lock_state_upd [OF a(2), of "Down_test j" t s3] z v by (simp add: recorded_def)
  moreover have pk: "parked (?D u) (?K u)" for u
    using a(4) [of u] by (cases "u = t") (simp_all add: parked_def testing_def)
  moreover have "at_point l T s3 (next_of s xs) (tl xs) (ws @ [t]) ?D"
    by (rule parked_point) (rule pk)
  moreover have "testing (?D u)" if "u \<in> set (ws @ [t])" for u
    using a(3) [of u] that by (cases "u = t") (auto simp: testing_def)
  ultimately have "run_inv lim T l s3 (next_of s xs) ?D ?K"
    by (intro run_invI [of lim T l s3 "next_of s xs" "Q(?w \<mapsto> ws @ [t], ready_threads s \<mapsto> tl xs)" "tl xs" "ws @ [t]"])
      (use s3(6) i same_kernelD(2) [OF s3(4)] in \<open>simp_all\<close>)
  then show ?thesis using g pk n s3(6) d(6) by simp
qed

text \<open>Each statement.\<close>

lemma statement_inv:
  assumes inv: "run_inv lim T l s t C K" and pl: "lock_place T l" and e: "get_base_page (esp s) = t"
    and r: "room lim s" and run: "lock_point E l (C t) s = ret (Done, p) s'" and p: "\<And>i. p \<noteq> Down_block i"
  shows "run_inv lim T l s' t (C(t := p)) K \<and> get_base_page (esp s') = t"
proof (cases "t = idle_thread s")
  case True
  then have "C t = Outside" using inv by (auto elim!: run_invE)
  then show ?thesis using run inv e by (auto simp: fun_upd_idem)
next
  case False
  note i = False
  obtain Q xs ws where d: "threads_inv lim T l s t Q xs ws" "at_point l T s t xs ws C" by (rule run_invE [OF inv]) (rule that)
  have pl': "aligned l" "l + 4 \<noteq> 0" using place_words(5,6) [OF pl threads_invD(6) [OF d(1)]] by simp_all
  have cur: "current_thread s = ret t s" by (rule current_thread_running [OF schedD(2) [OF threads_inv_sched [OF d(1) e]]])
  have t0: "t \<noteq> 0" using threads_invD(11) [OF d(1) threads_invD(6) [OF d(1)]] by (auto simp: thread_ok_def)
  show ?thesis
  proof (cases "C t")
    case Down_enter
    then have "p = Down_test (iflag s)" "s' = s\<lparr>iflag := False\<rparr>" using run pl'(2) by (auto simp: int_defs Let_def)
    then show ?thesis using flag_statement [OF inv _ i, of s' False p] Down_enter e by (simp add: point_facts)
  next
    case (Down_test j)
    have p': "p = (if sema_value s (l + 4) = 0 then Down_append j else Down_take j)" "s' = s" using run Down_test by auto
    have "\<not> iflag s" using inv Down_test by (auto elim!: run_invE simp: off_def at_rest_def)
    then show ?thesis using flag_statement [OF inv _ i, of s False p] p' Down_test e by (simp add: point_facts)
  next
    case (Down_append j)
    then show ?thesis using run p cur by (auto simp: seq_def split: sum.splits)
  next
    case (Down_block j)
    then show ?thesis using d(2) by (simp add: at_point_def)
  next
    case (Down_take j)
    then show ?thesis using take_statement [OF inv pl i Down_take t0 pl'(1)] run e by auto
  next
    case (Down_restore j)
    then have "p = Record" "s' = s\<lparr>iflag := j \<or> iflag s\<rparr>" using run by (auto simp: int_defs Let_def)
    then show ?thesis using flag_statement [OF inv _ i, of s' "j \<or> iflag s" p] Down_restore e by (simp add: point_facts)
  next
    case Record
    then show ?thesis using holder_statement [OF inv pl i _ _ _ pl'(1), of p] run cur e by (auto simp: point_facts)
  next
    case Clear
    then show ?thesis using holder_statement [OF inv pl i _ _ _ pl'(1), of p] run e by (auto simp: point_facts)
  next
    case Up_enter
    then have "p = Up_pop (iflag s)" "s' = s\<lparr>iflag := False\<rparr>" using run pl'(2) by (auto simp: int_defs Let_def)
    then show ?thesis using flag_statement [OF inv _ i, of s' False p] Up_enter e by (simp add: point_facts)
  next
    case (Up_pop j)
    then show ?thesis using pop_statement [OF inv pl i Up_pop e, of E p s'] run e by simp
  next
    case (Up_wake j u)
    then have "p = Up_raise j" "thread_unblock E u s = ret () s'" using run by (auto simp: seq_def split: sum.splits)
    then show ?thesis using wake_statement [OF inv pl i Up_wake e r, of E s'] e by simp
  next
    case (Up_raise j)
    then show ?thesis using raise_statement [OF inv pl i Up_raise pl'(1)] run e by auto
  next
    case (Up_restore j)
    then have "p = Outside" "s' = s\<lparr>iflag := j \<or> iflag s\<rparr>" using run by (auto simp: int_defs Let_def)
    then show ?thesis using flag_statement [OF inv _ i, of s' "j \<or> iflag s" p] Up_restore e by (simp add: point_facts)
  qed (use run inv e in \<open>auto simp: fun_upd_idem\<close>)
qed

section \<open>The other steps\<close>

text \<open>A step that keeps the view of the running thread at an open point, or passes on to a parked one.\<close>

lemma view_run_inv:
  assumes inv: "threads_inv lim T l s t Q xs ws" "lock_state l s C" "\<And>u. u \<in> set ws \<Longrightarrow> testing (C u)"
      "sema_value s (l + 4) = 1 \<Longrightarrow> ws \<noteq> [] \<Longrightarrow> taker C (insert t (set xs))" "C (idle_thread s) = Outside"
    and pk: "\<And>u. u \<noteq> n \<Longrightarrow> parked (C u) (K u)" and n: "\<And>xs ws. at_point l T s' n xs ws C" "off (C n) \<Longrightarrow> \<not> iflag s'"
    and s': "threads_inv lim T l s' n Q' xs' ws'" "view l s' n xs' ws' = view l s t xs ws" "idle_thread s' = idle_thread s"
  shows "run_inv lim T l s' n C K"
proof (rule run_invI [OF s'(1) _ n(1)])
  have v: "insert n (insert (idle_thread s) (set xs')) = insert t (insert (idle_thread s) (set xs))" "ws' = ws"
    "sema_value s' (l + 4) = sema_value s (l + 4)" "lock_holder s' l = lock_holder s l"
    using s'(2,3) by (simp_all add: view_def)
  show "lock_state l s' C" using lock_state_upd [OF inv(2), of "C undefined" undefined s'] v(3,4) by simp
  show "testing (C u)" if "u \<in> set ws'" for u using inv(3) that v(2) by simp
  show "taker C (insert n (set xs'))" if "sema_value s' (l + 4) = 1" "ws' \<noteq> []"
  proof -
    have "taker C (insert t (set xs))" using inv(4) that v by simp
    then have "taker C (insert t (insert (idle_thread s) (set xs)))" by (auto simp: taker_def)
    then have "taker C (insert n (insert (idle_thread s) (set xs')))" unfolding v(1) .
    then show ?thesis using inv(5) by (auto simp: taker_def testing_def)
  qed
qed (use pk n(2) inv(5) s'(3) in auto)

lemma interrupted_inv:
  assumes inv: "run_inv lim T l s t C K" and pl: "lock_place T l" and r: "room lim s" and e: "get_base_page (esp s) = t"
    and f: "preempts E (C t) s f" "f s = ret g s'"
  shows "(g = Done \<and> run_inv lim T l s' t C K \<and> get_base_page (esp s') = t) \<or>
    (\<exists>n fs. g = Switch t n fs \<and> plain_calls fs \<and> run_inv lim T l s' n C (K(t := fs)) \<and> parked (C n) ((K(t := fs)) n) \<and>
      t \<in> T \<and> t \<noteq> n \<and> \<not> iflag s')"
  using inv
proof (rule run_invE)
  fix Q xs ws assume a: "threads_inv lim T l s t Q xs ws" "lock_state l s C" "\<And>u. u \<in> set ws \<Longrightarrow> testing (C u)"
    "sema_value s (l + 4) = 1 \<Longrightarrow> ws \<noteq> [] \<Longrightarrow> taker C (insert t (set xs))"
    "\<And>u. u \<noteq> t \<Longrightarrow> parked (C u) (K u)" "off (C t) \<Longrightarrow> \<not> iflag s" "C (idle_thread s) = Outside"
  define W where "W = view l s t xs ws"
  have op: "\<not> off (C t)" using f(1) a(6) by (auto simp: preempts_def off_def)
  have pk: "parked (C u) ((K(t := fs)) u)" for u fs using a(5) [of u] op by (cases "u = t") (simp_all add: parked_def)
  have at: "at_point l T s'' u xs ws C" for s'' u xs ws by (rule parked_point) (rule pk)
  have "(g = Done \<and> stays lim T l s' t W \<and> idle_thread s' = idle_thread s) \<or>
      (\<exists>n fs. g = Switch t n fs \<and> plain_calls fs \<and> leaves lim T l s' n W \<and> n \<noteq> t \<and> idle_thread s' = idle_thread s)"
    using f yield_cases [OF a(1) pl W_def [symmetric] r e, of E] timer_cases [OF a(1) pl W_def [symmetric] r e, of E]
    by (auto simp: preempts_def)
  then show ?thesis
  proof (elim disjE exE conjE)
    assume s': "g = Done" "stays lim T l s' t W" "idle_thread s' = idle_thread s"
    obtain Q' xs' ws' where t': "threads_inv lim T l s' t Q' xs' ws'" "view l s' t xs' ws' = W" "get_base_page (esp s') = t"
      using s'(2) by (auto simp: stays_def)
    have "run_inv lim T l s' t C K"
      by (rule view_run_inv [OF a(1-4,7,5) at _ t'(1) t'(2) [unfolded W_def] s'(3)]) (use op in simp_all)
    then show ?thesis using s'(1) t'(3) by simp
  next
    fix n fs assume s': "g = Switch t n fs" "plain_calls fs" "leaves lim T l s' n W" "n \<noteq> t" "idle_thread s' = idle_thread s"
    obtain Q' xs' ws' where t': "threads_inv lim T l s' n Q' xs' ws'" "view l s' n xs' ws' = W" "\<not> iflag s'"
      using s'(3) by (auto simp: leaves_def)
    have "run_inv lim T l s' n C (K(t := fs))"
      by (rule view_run_inv [OF a(1-4,7) pk at _ t'(1) t'(2) [unfolded W_def] s'(5)]) (use t'(3) in simp_all)
    then show ?thesis using s' t'(3) pk [of n fs] threads_invD(6) [OF a(1)] by auto
  qed
qed

lemma works_inv:
  assumes inv: "run_inv lim T l s t C K" and e: "get_base_page (esp s) = t" and c: "at_rest (C t)"
    and own: "own_memory lim T l s s'"
  shows "run_inv lim T l s' t C K \<and> get_base_page (esp s') = t"
  using inv
proof (rule run_invE)
  fix Q xs ws assume a: "threads_inv lim T l s t Q xs ws" "lock_state l s C" "\<And>u. u \<in> set ws \<Longrightarrow> testing (C u)"
    "sema_value s (l + 4) = 1 \<Longrightarrow> ws \<noteq> [] \<Longrightarrow> taker C (insert t (set xs))"
    "\<And>u. u \<noteq> t \<Longrightarrow> parked (C u) (K u)" "C (idle_thread s) = Outside"
  have at: "at_point l T s' t xs ws C" for xs ws using c by (auto simp: at_rest_def at_point_def)
  from works_stays [OF a(1) refl e own] obtain Q' xs' ws' where
    t': "threads_inv lim T l s' t Q' xs' ws'" "view l s' t xs' ws' = view l s t xs ws" "get_base_page (esp s') = t"
      "idle_thread s' = idle_thread s" by (auto simp: stays_def)
  have "run_inv lim T l s' t C K"
    by (rule view_run_inv [OF a(1-4,6,5) at _ t'(1,2,4)]) (use c in \<open>simp_all add: off_def\<close>)
  then show ?thesis using t'(3) by simp
qed

lemma continues_inv:
  assumes inv: "run_inv lim T l s n C K" and pk: "parked (C n) (K n)" "plain_calls (K n)" and pl: "lock_place T l"
    and e: "get_base_page e = n" and c: "c \<in> T" "c \<noteq> n" "\<not> iflag s"
    and run: "resume E c (K n) (s\<lparr>esp := e\<rparr>) = ret g s'"
  shows "g = Done \<and> run_inv lim T l s' n C K \<and> get_base_page (esp s') = n"
  using inv
proof (rule run_invE)
  fix Q xs ws assume a: "threads_inv lim T l s n Q xs ws" "lock_state l s C" "\<And>u. u \<in> set ws \<Longrightarrow> testing (C u)"
    "sema_value s (l + 4) = 1 \<Longrightarrow> ws \<noteq> [] \<Longrightarrow> taker C (insert n (set xs))"
    "\<And>u. u \<noteq> n \<Longrightarrow> parked (C u) (K u)" "C (idle_thread s) = Outside"
  define s2 where "s2 = wr (n + 24) TS_RUNNING (s\<lparr>esp := e, tick_count := 0\<rparr>)"
  note s2 = switched_in [OF a(1) pl refl e c(1,2) s2_def]
  have run2: "unwind E (K n) s2 = ret g s'" using run s2(1) by simp
  have i: "idle_thread s2 = idle_thread s" "iflag s2 = iflag s" by (simp_all add: s2_def)
  from plain_unwind [OF s2(4) pk(2) run2] obtain Q' xs' ws' where
    t': "g = Done" "threads_inv lim T l s' n Q' xs' ws'" "view l s' n xs' ws' = view l s n xs ws" "get_base_page (esp s') = n"
      "idle_thread s' = idle_thread s" by (auto simp: stays_def i)
  have "\<not> iflag s'" if "off (C n)"
  proof -
    have "K n = []" using that pk(1) by (simp add: parked_def)
    then show ?thesis using run2 i(2) c(3) by simp
  qed
  then have "run_inv lim T l s' n C K"
    by (intro view_run_inv [OF a(1-4,6,5) parked_point _ t'(2,3,5)]) (use pk(1) in simp_all)
  then show ?thesis using t' by simp
qed

section \<open>Mutual exclusion\<close>

lemma lock_invI_running:
  assumes "run_inv lim T l (ks S) (current S) (pc S) (calls S)" and "\<And>t. plain_calls (calls S t)" and "ctl S = None"
  shows "lock_inv E lim T l S"
proof -
  have "pc S (current S) \<noteq> Down_block i" for i
    using assms(1) by (auto elim!: run_invE simp: at_point_def)
  then show ?thesis using assms by (auto simp: lock_inv_def split: point.splits)
qed

lemma lock_inv_running:
  assumes "lock_inv E lim T l S" and "ctl S = None"
  shows "(run_inv lim T l (ks S) (current S) (pc S) (calls S) \<and> (\<forall>i. pc S (current S) \<noteq> Down_block i)) \<or>
    (\<exists>i. pc S (current S) = Down_block i \<and> queued E lim T l S i)"
  using assms by (auto simp: lock_inv_def split: point.splits)

lemma lock_inv_next:
  assumes "run_inv lim T l s' t C (calls S)" and "get_base_page (esp s') = t" and "\<And>t. plain_calls (calls S t)"
    and "ctl S = None"
  shows "lock_inv E lim T l (S\<lparr>ks := s', pc := C\<rparr>)"
proof -
  have "current (S\<lparr>ks := s', pc := C\<rparr>) = t" unfolding current_def using assms(2,4) by simp
  then show ?thesis using assms by (intro lock_invI_running) simp_all
qed

text \<open>The one statement that leads to the block, and the one that switches.\<close>

lemma before_block: "lock_point E l q s = ret (Done, Down_block i) s' \<Longrightarrow> q = Down_append i"
  by (cases q) (simp_all add: seq_def Let_def PANIC_def split: sum.splits if_splits prod.splits)

lemma only_block_switches: "lock_point E l q s = ret (Switch d n fs, p) s' \<Longrightarrow> \<exists>i. q = Down_block i"
  by (cases q) (simp_all add: seq_def Let_def PANIC_def split: sum.splits if_splits prod.splits)

text \<open>Only the statement that gives up the processor is taken from the point after entering the waiting list.\<close>

lemma queued_flag:
  assumes "queued E lim T l S i"
  shows "\<not> iflag (ks S)"
proof -
  obtain s where s: "run_inv lim T l s (current S) ((pc S)(current S := Down_append i)) (calls S)"
    "room lim s" "get_base_page (esp s) = current S" "lock_point E l (Down_append i) s = ret (Done, Down_block i) (ks S)"
    using assms by (auto simp: queued_def)
  obtain Q xs ws where a: "threads_inv lim T l s (current S) Q xs ws" "\<not> iflag s"
    using s(1) by (auto elim!: run_invE simp: off_def at_rest_def)
  note d = threads_invD [OF a(1)]
  note sc = threads_inv_sched [OF a(1) s(3)]
  obtain m where "append (env_vp E) (sema_waiters s (l + 4)) (current S) s = ret () (s\<lparr>kmem := m, firstFreeSegment := firstFreeSegment s + 40\<rparr>)"
    by (rule sched_append [OF sc d(2) s(2), where vp = "env_vp E" and d = "current S"]) (rule that)
  then have "ks S = s\<lparr>kmem := m, firstFreeSegment := firstFreeSegment s + 40\<rparr>" using s(4) schedD(2) [OF sc] by simp
  then show ?thesis using a(2) by simp
qed

lemma statement_step:
  assumes inv: "lock_inv E lim T l S" and pl: "lock_place T l" and c: "ctl S = None" and r: "room lim (ks S)"
    and run: "lock_point E l (pc S (current S)) (ks S) = ret (Done, p) s'"
  shows "lock_inv E lim T l (S\<lparr>ks := s', pc := (pc S)(current S := p)\<rparr>)"
proof -
  let ?t = "current S" and ?S = "S\<lparr>ks := s', pc := (pc S)(current S := p)\<rparr>"
  have e: "get_base_page (esp (ks S)) = ?t" using c by (simp add: current_def)
  have pl': "plain_calls (calls S u)" for u using inv by (simp add: lock_inv_def)
  from lock_inv_running [OF inv c] show ?thesis
  proof (elim disjE conjE exE)
    assume ri: "run_inv lim T l (ks S) ?t (pc S) (calls S)"
    show ?thesis
    proof (cases "\<exists>i. p = Down_block i")
      case False
      then have "run_inv lim T l s' ?t ((pc S)(?t := p)) (calls S) \<and> get_base_page (esp s') = ?t"
        using statement_inv [OF ri pl e r run] by blast
      then show ?thesis using c pl' by (intro lock_inv_next) simp_all
    next
      case True
      then obtain i where p: "p = Down_block i" ..
      obtain Q xs ws where d: "threads_inv lim T l (ks S) ?t Q xs ws" by (rule run_invE [OF ri]) (rule that)
      note sc = threads_inv_sched [OF d e]
      have pa: "pc S ?t = Down_append i" using before_block run p by simp
      obtain m where "append (env_vp E) (sema_waiters (ks S) (l + 4)) ?t (ks S) =
          ret () ((ks S)\<lparr>kmem := m, firstFreeSegment := firstFreeSegment (ks S) + 40\<rparr>)"
        by (rule sched_append [OF sc threads_invD(2) [OF d] r, where vp = "env_vp E" and d = ?t]) (rule that)
      then have e': "esp s' = esp (ks S)" using run pa schedD(2) [OF sc] by auto
      have cu: "current ?S = ?t" unfolding current_def [of ?S] using e e' c by simp
      have u: "(pc ?S)(?t := Down_append i) = pc S" using pa by (simp add: fun_upd_idem)
      have "run_inv lim T l (ks S) (current ?S) ((pc ?S)(current ?S := Down_append i)) (calls ?S)"
        unfolding cu u using ri by simp
      moreover have "lock_point E l (Down_append i) (ks S) = ret (Done, Down_block i) (ks ?S)" using run unfolding pa p by simp
      ultimately have "queued E lim T l ?S i" unfolding queued_def using r e cu by auto
      moreover have "pc ?S (current ?S) = Down_block i" unfolding cu using p by simp
      ultimately show ?thesis using c pl' by (simp add: lock_inv_def)
    qed
  next
    fix i assume b: "pc S ?t = Down_block i" "queued E lim T l S i"
    obtain s where s: "run_inv lim T l s ?t ((pc S)(?t := Down_append i)) (calls S)"
      "room lim s" "get_base_page (esp s) = ?t" "lock_point E l (Down_append i) s = ret (Done, Down_block i) (ks S)"
      using b(2) by (auto simp: queued_def)
    have i: "?t \<noteq> idle_thread s" "pc S (idle_thread s) = Outside"
      using s(1) by (auto elim!: run_invE split: if_splits)
    from block_statement [OF s(1) pl i s(3,2,4) run [unfolded b(1)]] show ?thesis by auto
  qed
qed

lemma waits_step:
  assumes inv: "lock_inv E lim T l S" and pl: "lock_place T l" and c: "ctl S = None"
    and run: "lock_point E l (pc S (current S)) (ks S) = ret (Switch d n fs, p) s'"
  shows "lock_inv E lim T l (S\<lparr>ks := s', pc := (pc S)(d := p), calls := (calls S)(d := fs), ctl := Some (d, n)\<rparr>)"
proof -
  let ?t = "current S"
  have pl': "plain_calls (calls S u)" for u using inv by (simp add: lock_inv_def)
  obtain i where b: "pc S ?t = Down_block i" using only_block_switches [OF run] ..
  then have q: "queued E lim T l S i" using lock_inv_running [OF inv c] by auto
  obtain s where s: "run_inv lim T l s ?t ((pc S)(?t := Down_append i)) (calls S)"
    "room lim s" "get_base_page (esp s) = ?t" "lock_point E l (Down_append i) s = ret (Done, Down_block i) (ks S)"
    using q by (auto simp: queued_def)
  have i: "?t \<noteq> idle_thread s" "pc S (idle_thread s) = Outside"
    using s(1) by (auto elim!: run_invE split: if_splits)
  from block_statement [OF s(1) pl i s(3,2,4) run [unfolded b]] show ?thesis
    using pl' by (auto simp: lock_inv_def)
qed

lemma lock_step_inv:
  assumes "lock_step E lim T l S S'" and inv: "lock_inv E lim T l S" and pl: "lock_place T l"
  shows "lock_inv E lim T l S'"
proof -
  let ?t = "current S"
  have pl': "plain_calls (calls S u)" for u using inv by (simp add: lock_inv_def)
  have e: "get_base_page (esp (ks S)) = ?t" if "ctl S = None" using that by (simp add: current_def)
  have rest: "run_inv lim T l (ks S) ?t (pc S) (calls S)" if "ctl S = None" "\<And>i. pc S ?t \<noteq> Down_block i"
    using lock_inv_running [OF inv that(1)] that(2) by blast
  have cur: "current_thread (ks S) = ret ?t (ks S)" if "ctl S = None" "run_inv lim T l (ks S) ?t (pc S) (calls S)"
    by (rule run_invE [OF that(2)], rule current_thread_running [OF schedD(2) [OF threads_inv_sched [OF _ e [OF that(1)]]]])
  show ?thesis
    using assms(1)
  proof cases
    case (accquire s')
    then have ri: "run_inv lim T l (ks S) ?t (pc S) (calls S)" by (intro rest) (auto simp: at_rest_def)
    have a: "s' = ks S" "lock_holder (ks S) l \<noteq> ?t"
      using accquire(5) cur [OF accquire(2) ri] by (auto simp: accquire_check_def PANIC_def split: if_splits)
    have h: "pc S ?t = Outside"
      using accquire(3) a(2) ri lock_stateD(2) [of l "ks S" "pc S" ?t] by (auto elim!: run_invE simp: at_rest_def recorded_def)
    have "run_inv lim T l (ks S) ?t ((pc S)(?t := Down_enter)) (calls S)"
      by (rule flag_statement [OF ri _ accquire(4), where f = "iflag (ks S)"]) (use h in \<open>simp_all add: point_facts\<close>)
    then show ?thesis unfolding accquire(1) a(1) by (rule lock_inv_next) (use e pl' accquire(2) in simp_all)
  next
    case (release s')
    then have ri: "run_inv lim T l (ks S) ?t (pc S) (calls S)" by (intro rest) (auto simp: at_rest_def)
    have a: "s' = ks S" "lock_holder (ks S) l = ?t"
      using release(4) cur [OF release(2) ri] by (auto simp: release_check_def PANIC_def split: if_splits)
    obtain Q xs ws where d: "threads_inv lim T l (ks S) ?t Q xs ws" "lock_state l (ks S) (pc S)" "pc S (idle_thread (ks S)) = Outside"
      by (rule run_invE [OF ri]) (rule that)
    have t0: "?t \<noteq> 0" using threads_invD(11) [OF d(1) threads_invD(6) [OF d(1)]] by (auto simp: thread_ok_def)
    have h: "pc S ?t = Holding"
      using release(3) a(2) d(2) t0 by (auto simp: lock_state_def at_rest_def recorded_def split: if_splits)
    then have i: "?t \<noteq> idle_thread (ks S)" using d(3) by auto
    have "run_inv lim T l (ks S) ?t ((pc S)(?t := Clear)) (calls S)"
      by (rule flag_statement [OF ri _ i, where f = "iflag (ks S)"]) (use h in \<open>simp_all add: point_facts\<close>)
    then show ?thesis unfolding release(1) a(1) by (rule lock_inv_next) (use e pl' release(2) in simp_all)
  next
    case (statement p s')
    then show ?thesis using statement_step [OF inv pl] by simp
  next
    case (waits c n fs p s')
    then show ?thesis using waits_step [OF inv pl] by simp
  next
    case (interrupted f s')
    have "pc S ?t \<noteq> Down_block i" for i
      using interrupted(4) lock_inv_running [OF inv interrupted(2)] queued_flag by (fastforce simp: preempts_def at_rest_def)
    then have ri: "run_inv lim T l (ks S) ?t (pc S) (calls S)" using rest interrupted(2) by blast
    from interrupted_inv [OF ri pl interrupted(3) e [OF interrupted(2)] interrupted(4,5)]
    show ?thesis using interrupted(1,2) pl' lock_inv_next [of lim T l s' ?t "pc S" S E] by simp
  next
    case (preempted f c n fs s')
    have "pc S ?t \<noteq> Down_block i" for i
      using preempted(4) lock_inv_running [OF inv preempted(2)] queued_flag by (fastforce simp: preempts_def at_rest_def)
    then have ri: "run_inv lim T l (ks S) ?t (pc S) (calls S)" using rest preempted(2) by blast
    from interrupted_inv [OF ri pl preempted(3) e [OF preempted(2)] preempted(4,5)] show ?thesis
      using preempted(1) pl' by (auto simp: lock_inv_def)
  next
    case (works s')
    then have ri: "run_inv lim T l (ks S) ?t (pc S) (calls S)" by (intro rest) (auto simp: at_rest_def)
    from works_inv [OF ri e [OF works(2)] works(3,4)]
    show ?thesis using works(1,2) pl' lock_inv_next [of lim T l s' ?t "pc S" S E] by simp
  next
    case (continues c n e s')
    then have i: "run_inv lim T l (ks S) n (pc S) (calls S)" "parked (pc S n) (calls S n)" "c \<in> T" "c \<noteq> n" "\<not> iflag (ks S)"
      using inv by (simp_all add: lock_inv_def)
    from continues_inv [OF i(1,2) pl' pl continues(3) i(3-5) continues(4)]
    have "lock_inv E lim T l (S\<lparr>ctl := None, ks := s'\<rparr>)"
      using pl' lock_inv_next [of lim T l s' n "pc S" "S\<lparr>ctl := None\<rparr>" E] by simp
    moreover have "S\<lparr>ctl := None, ks := s'\<rparr> = S'" unfolding continues(1) by (rule sys.equality) simp_all
    ultimately show ?thesis by simp
  qed
qed

lemma reaches_inv: "reaches E lim T l S S' \<Longrightarrow> lock_inv E lim T l S \<Longrightarrow> lock_place T l \<Longrightarrow> lock_inv E lim T l S'"
  by (induction rule: reaches.induct) (auto intro: lock_step_inv)

text \<open>The lock's state is that of the points, also while a thread enters itself into the waiting list.\<close>

lemma queued_lock_state:
  assumes "queued E lim T l S i" and pl: "lock_place T l" and b: "pc S (current S) = Down_block i"
  shows "lock_state l (ks S) (pc S) \<and> sema_value (ks S) (l + 4) = 0"
proof -
  obtain s where s: "run_inv lim T l s (current S) ((pc S)(current S := Down_append i)) (calls S)"
    "room lim s" "get_base_page (esp s) = current S" "lock_point E l (Down_append i) s = ret (Done, Down_block i) (ks S)"
    using assms(1) by (auto simp: queued_def)
  let ?C = "(pc S)(current S := Down_append i)"
  obtain Q xs ws where a: "threads_inv lim T l s (current S) Q xs ws" "lock_state l s ?C" "at_point l T s (current S) xs ws ?C"
    by (rule run_invE [OF s(1)]) (rule that)
  note d = threads_invD [OF a(1)]
  note sc = threads_inv_sched [OF a(1) s(3)]
  obtain m where m: "append (env_vp E) (sema_waiters s (l + 4)) (current S) s =
      ret () (s\<lparr>kmem := m, firstFreeSegment := firstFreeSegment s + 40\<rparr>)" "\<And>x. lim \<le> unat x \<Longrightarrow> m x = kmem s x"
    by (rule sched_append [OF sc d(2) s(2), where vp = "env_vp E" and d = "current S"]) (rule that)
  have k: "ks S = s\<lparr>kmem := m, firstFreeSegment := firstFreeSegment s + 40\<rparr>" using m(1) s(4) schedD(2) [OF sc] by simp
  have "kept_but {} s (ks S)"
    by (rule kept_but_above [OF kept_but_refl [OF refl] queues_lim [OF d(7)]]) (simp add: m(2) k)
  then have w: "sema_value (ks S) (l + 4) = sema_value s (l + 4)" "lock_holder (ks S) l = lock_holder s l"
    using place_words(1,2) [OF pl d(6)] by (simp_all add: kept_but_def)
  have "(?C(current S := Down_block i)) = pc S" using b by (simp add: fun_upd_idem)
  then show ?thesis
    using lock_state_upd [OF a(2), of "Down_block i" "current S" "ks S"] w a(3) by (simp add: recorded_def at_point_def)
qed

lemma lock_inv_state:
  assumes inv: "lock_inv E lim T l S" and pl: "lock_place T l"
  shows "lock_state l (ks S) (pc S)"
proof (cases "ctl S")
  case None
  from lock_inv_running [OF inv this] show ?thesis using queued_lock_state [OF _ pl] by (auto elim!: run_invE)
next
  case (Some cn)
  then show ?thesis using inv by (cases cn) (auto simp: lock_inv_def elim!: run_invE)
qed

text \<open>Who is ready, and whether threads wait, as the lists in memory have it.\<close>

definition ready_list :: "nat \<Rightarrow> kstate \<Rightarrow> ptr list \<Rightarrow> bool" where
  "ready_list lim s xs \<longleftrightarrow> (\<exists>Q. queues lim s Q \<and> Q (ready_threads s) = Some xs)"

lemma lock_inv_taker:
  assumes inv: "lock_inv E lim T l S" and pl: "lock_place T l" and v: "sema_value (ks S) (l + 4) = 1"
    and w: "\<not> is_empty (sema_waiters (ks S) (l + 4)) (ks S)"
  shows "\<exists>xs. ready_list lim (ks S) xs \<and> taker (pc S) (insert (current S) (set xs))"
proof -
  have "run_inv lim T l (ks S) (current S) (pc S) (calls S)"
  proof (cases "ctl S")
    case None
    from lock_inv_running [OF inv this] show ?thesis using queued_lock_state [OF _ pl] v by auto
  next
    case (Some cn)
    then show ?thesis using inv by (cases cn) (auto simp: lock_inv_def current_def)
  qed
  then show ?thesis
  proof (rule run_invE)
    fix Q xs ws assume a: "threads_inv lim T l (ks S) (current S) Q xs ws"
      "sema_value (ks S) (l + 4) = 1 \<Longrightarrow> ws \<noteq> [] \<Longrightarrow> taker (pc S) (insert (current S) (set xs))"
    note d = threads_invD [OF a(1)]
    have "ws \<noteq> []" using queues_empty [OF d(7,2)] w by simp
    then show ?thesis using a(2) v d(1,7) unfolding ready_list_def by blast
  qed
qed

text \<open>
  C1: a lock keeps threads out. The threads execute \<^verbatim>\<open>lock_accquire\<close> and \<^verbatim>\<open>lock_release\<close> statement by
  statement; wherever interrupts are on between two statements the timer may interrupt and switch to
  another thread, and outside the functions threads also yield and compute. However these steps follow
  each other, at most one thread has taken the lock's semaphore down and not yet raised it, so at most
  one holds the lock, and it is the one that the lock records; and no wake-up is lost: when the
  semaphore is up and threads wait for it, then a thread that is about to test its value is ready or
  running. Each statement that allocates needs room in the heap, all threads of the kernel are never
  three in number, the idle thread does not use the lock, and the threads do no other calls into the
  kernel.
\<close>

theorem lock_mutual_exclusion:
  assumes "lock_inv E lim T l S" and "lock_place T l" and "reaches E lim T l S S'"
  shows "lock_inv E lim T l S' \<and>
    (\<forall>t u. owns (pc S' t) \<and> owns (pc S' u) \<longrightarrow> t = u) \<and>
    (\<forall>t. pc S' t = Holding \<longrightarrow> lock_holder (ks S') l = t \<and> sema_value (ks S') (l + 4) = 0) \<and>
    (sema_value (ks S') (l + 4) = 1 \<and> \<not> is_empty (sema_waiters (ks S') (l + 4)) (ks S') \<longrightarrow>
      (\<exists>xs. ready_list lim (ks S') xs \<and> taker (pc S') (insert (current S') (set xs))))"
proof -
  have inv: "lock_inv E lim T l S'" using reaches_inv assms by blast
  note ls = lock_inv_state [OF inv assms(2)]
  have "lock_holder (ks S') l = t \<and> sema_value (ks S') (l + 4) = 0" if "pc S' t = Holding" for t
    using lock_stateD(2) [OF ls, of t] that by (simp add: recorded_def)
  moreover have "t = u" if "owns (pc S' t)" "owns (pc S' u)" for t u using lock_stateD(3) [OF ls that] .
  ultimately show ?thesis using inv lock_inv_taker [OF inv assms(2)] by blast
qed

section \<open>An example\<close>

text \<open>The list of all threads at address 24, the ready list and the lock's waiting list.\<close>

lemma example_lists:
  obtains s r w where "queues 4096 s [24 \<mapsto> [], r \<mapsto> [0xC0009000], w \<mapsto> []]" and "distinct [24, r, w]"
    and "unat (firstFreeSegment s) = 160"
proof -
  have f0: "unat (firstFreeSegment heap_state) = 0" using first_free_end [OF heap_state_ok] by simp
  have up: "unat (k + 40) = unat k + 40" if "unat k < 1000" for k :: ptr
    using that unat_plus_small [of k 40] by simp
  have "room 4096 heap_state" by (simp add: room_def f0)
  from heap_state_ok this obtain m1 l1 where l1: "heap_ok (heap_state\<lparr>kmem := m1, firstFreeSegment := firstFreeSegment heap_state + 40\<rparr>) ([] @ [16]) 4096"
    "list_at m1 ([] @ [16]) l1 [] []"
    by (rule list_init_result [where vp = 0]) (rule that)
  let ?s1 = "heap_state\<lparr>kmem := m1, firstFreeSegment := firstFreeSegment heap_state + 40\<rparr>"
  have "unat l1 = 24" using l1(2) by (simp add: list_at_def node_def)
  then have e: "l1 = 24" by (simp add: word_unat_eq_iff)
  have q1: "queues 4096 ?s1 [24 \<mapsto> []]"
    by (rule queues_intro [OF l1(1), where N = "\<lambda>_. []"]) (use l1(2) e in \<open>auto split: if_splits\<close>)
  have f1: "unat (firstFreeSegment ?s1) = 40" using f0 up by simp
  then have r1: "room 4096 ?s1" by (simp add: room_def)
  obtain m2 r where q2: "queues 4096 (?s1\<lparr>kmem := m2, firstFreeSegment := firstFreeSegment ?s1 + 40\<rparr>) [24 \<mapsto> [], r \<mapsto> []]"
    and r: "([24 \<mapsto> []] :: ptr \<rightharpoonup> ptr list) r = None"
    by (rule queues_init [OF q1 r1, where vp = 0]) (erule (1) that)
  let ?s2 = "?s1\<lparr>kmem := m2, firstFreeSegment := firstFreeSegment ?s1 + 40\<rparr>"
  have f2: "unat (firstFreeSegment ?s2) = 80" using f1 up [of "firstFreeSegment ?s1"] by simp
  then have r2: "room 4096 ?s2" by (simp add: room_def)
  obtain m3 w where q3: "queues 4096 (?s2\<lparr>kmem := m3, firstFreeSegment := firstFreeSegment ?s2 + 40\<rparr>) [24 \<mapsto> [], r \<mapsto> [], w \<mapsto> []]"
    and w: "([24 \<mapsto> [], r \<mapsto> []] :: ptr \<rightharpoonup> ptr list) w = None"
    by (rule queues_init [OF q2 r2, where vp = 0]) (erule (1) that)
  let ?s3 = "?s2\<lparr>kmem := m3, firstFreeSegment := firstFreeSegment ?s2 + 40\<rparr>"
  have f3: "unat (firstFreeSegment ?s3) = 120" using f2 up [of "firstFreeSegment ?s2"] by simp
  have n: "distinct [24, r, w]" using r w by (auto split: if_splits)
  have Q: "[24 \<mapsto> [], r \<mapsto> [], w \<mapsto> []] r = Some []" "room 4096 ?s3" using n f3 by (simp_all add: room_def)
  obtain m4 where "queues 4096 (?s3\<lparr>kmem := m4, firstFreeSegment := firstFreeSegment ?s3 + 40\<rparr>)
      ([24 \<mapsto> [], r \<mapsto> [], w \<mapsto> []](r \<mapsto> [] @ [0xC0009000]))"
    by (rule queues_append [OF q3 Q, where vp = 0 and d = "0xC0009000"]) (rule that)
  moreover have "[24 \<mapsto> [], r \<mapsto> [], w \<mapsto> []](r \<mapsto> [] @ [0xC0009000]) =
      ([24 \<mapsto> [], r \<mapsto> [0xC0009000], w \<mapsto> []] :: ptr \<rightharpoonup> ptr list)"
    using n by (auto simp: fun_eq_iff)
  ultimately have "queues 4096 (?s3\<lparr>kmem := m4, firstFreeSegment := firstFreeSegment ?s3 + 40\<rparr>)
      [24 \<mapsto> [], r \<mapsto> [0xC0009000], w \<mapsto> []]" by (simp only:)
  moreover have "unat (firstFreeSegment (?s3\<lparr>kmem := m4, firstFreeSegment := firstFreeSegment ?s3 + 40\<rparr>)) = 160"
    using f3 up [of "firstFreeSegment ?s3"] by simp
  ultimately show ?thesis using n by (intro that)
qed

text \<open>Three threads' pages and, in the page below them, a free lock.\<close>

definition example_threads :: "ptr set" where
  "example_threads = {0xC0008000, 0xC0009000, 0xC000A000}"

lemma example_lock_place: "lock_place example_threads 0xC0007F00"
proof -
  have "clear_of t a" if "t \<in> example_threads" "a \<in> {0xC0007F00, 0xC0007F04, 0xC0007F08}" for t a
  proof -
    have p: "page_aligned t" "page_aligned 0xC0007000" "t \<noteq> 0xC0007000"
      using that(1) by (auto simp: example_threads_def page_aligned_def)
    have "a \<noteq> t + j" if "unat j < 44" for j
    proof -
      have "a = 0xC0007000 + (a - 0xC0007000)" "unat (a - 0xC0007000) < 4096"
        using \<open>a \<in> {0xC0007F00, 0xC0007F04, 0xC0007F08}\<close> by auto
      then show ?thesis using page_offset_inj [OF p(1,2), of j "a - 0xC0007000"] p(3) that by auto
    qed
    then show ?thesis using that(2) by (auto simp: clear_of_def kernel_word_def)
  qed
  then show ?thesis by (simp add: lock_place_def)
qed

lemma example_lock_inv:
  obtains S where "lock_inv example_env 4096 example_threads 0xC0007F00 S" and "ctl S = None" and "current S = 0xC0008000"
    and "\<And>t. pc S t = Outside" and "room 4096 (ks S)" and "idle_thread (ks S) = 0xC000A000"
    and "sema_value (ks S) 0xC0007F04 = 1" and "lock_holder (ks S) 0xC0007F00 = 0" and "iflag (ks S)"
proof -
  obtain s r w where q: "queues 4096 s [24 \<mapsto> [], r \<mapsto> [0xC0009000], w \<mapsto> []]" and n: "distinct [24, r, w]"
    and f: "unat (firstFreeSegment s) = 160" by (rule example_lists)
  let ?s1 = "wr 0xC0008028 T_MAGIC (wr 0xC0009028 T_MAGIC (wr 0xC000A028 T_MAGIC
      (wr 0xC0008018 TS_RUNNING (wr 0xC0009018 TS_READY (wr 0xC000A018 TS_BLOCKED s)))))"
  let ?s2 = "wr 0xC0007F00 0 (wr 0xC0007F04 1 (wr 0xC0007F08 w ?s1))"
  let ?s = "?s2\<lparr>esp := 0xC0008F00, iflag := True, idle_thread := 0xC000A000, ready_threads := r\<rparr>"
  have "queues 4096 ?s2 [24 \<mapsto> [], r \<mapsto> [0xC0009000], w \<mapsto> []]" by (intro queues_wr q) simp_all
  then have q': "queues 4096 ?s [24 \<mapsto> [], r \<mapsto> [0xC0009000], w \<mapsto> []]" by (rule queues_cong) simp_all
  have w: "sema_waiters ?s (0xC0007F00 + 4) = w" by simp
  have inv: "threads_inv 4096 example_threads 0xC0007F00 ?s 0xC0008000 [24 \<mapsto> [], r \<mapsto> [0xC0009000], w \<mapsto> []] [0xC0009000] []"
    unfolding threads_inv_def w using q' n
    by (auto simp: example_threads_def thread_ok_def is_thread_def page_aligned_def thread_statuses)
  let ?S = "\<lparr>ks = ?s, pc = \<lambda>_. Outside, calls = \<lambda>_. [], ctl = None\<rparr>"
  have cur: "current ?S = 0xC0008000" by (simp add: current_def get_base_page_def Let_def PGSIZE_def)
  have "run_inv 4096 example_threads 0xC0007F00 (ks ?S) (current ?S) (pc ?S) (calls ?S)"
    unfolding cur by (rule run_invI [of _ _ _ _ _ _ "[0xC0009000]" "[]"])
      (use inv in \<open>simp_all add: lock_state_def parked_def point_facts\<close>)
  then have "lock_inv example_env 4096 example_threads 0xC0007F00 ?S" by (rule lock_invI_running) simp_all
  then show ?thesis using f cur by (intro that [of ?S]) (simp_all add: room_def)
qed

theorem sema_down_result_witness:
  "\<exists>s. sema_value s 0xC0007F04 = 1 \<and> sema_down example_env 0xC0007F04 s = ret Done (wr 0xC0007F04 0 s)"
proof -
  obtain S where S: "lock_inv example_env 4096 example_threads 0xC0007F00 S" "ctl S = None" "current S = 0xC0008000"
    "\<And>t. pc S t = Outside" "room 4096 (ks S)" "idle_thread (ks S) = 0xC000A000" "sema_value (ks S) 0xC0007F04 = 1"
    by (rule example_lock_inv) (rule that)
  have "run_inv 4096 example_threads 0xC0007F00 (ks S) 0xC0008000 (pc S) (calls S)"
    using lock_inv_running [OF S(1,2)] S(3,4) by auto
  then obtain Q xs ws where i: "threads_inv 4096 example_threads 0xC0007F00 (ks S) 0xC0008000 Q xs ws" by (rule run_invE)
  have e: "get_base_page (esp (ks S)) = 0xC0008000" using S(2,3) by (simp add: current_def)
  have q: "Q (ready_threads (ks S)) = Some xs" "Q (sema_waiters (ks S) 0xC0007F04) = Some ws"
    "sema_waiters (ks S) 0xC0007F04 \<noteq> ready_threads (ks S)"
    and x: "set xs \<subseteq> example_threads - {0xC0008000, 0xC000A000}"
    using i S(6) by (auto simp: threads_inv_def)
  have n: "next_of (ks S) xs \<noteq> 0xC0008000"
    using x S(6) by (cases xs) (auto simp: next_of_def)
  have "sema_down example_env 0xC0007F04 (ks S) = ret Done (wr 0xC0007F04 (sema_value (ks S) 0xC0007F04 - 1) (ks S))"
    using sema_down_result [OF threads_inv_sched [OF i e] _ q S(5) n, of example_env] S(7) by simp
  then show ?thesis using S(7) by (intro exI [of _ "ks S"]) simp
qed

text \<open>The running thread of the example takes the lock, statement by statement.\<close>

lemma statement_reaches:
  assumes "reaches E lim T l S S1" and "ctl S1 = None" and "room lim (ks S1)" and "get_base_page (esp (ks S1)) = t" and "pc S1 t = q"
    and "lock_point E l q (ks S1) = ret (Done, p) s'"
  obtains S2 where "reaches E lim T l S S2" and "ctl S2 = None" and "ks S2 = s'" and "pc S2 t = p"
proof -
  have t: "current S1 = t" using assms(2,4) by (simp add: current_def)
  have "lock_step E lim T l S1 (S1\<lparr>ks := s', pc := (pc S1)(current S1 := p)\<rparr>)"
    by (rule lock_step.statement [OF assms(2,3)]) (use assms(5,6) t in simp)
  then have "reaches E lim T l S (S1\<lparr>ks := s', pc := (pc S1)(current S1 := p)\<rparr>)" by (rule reaches.further [OF assms(1)])
  then show ?thesis by (rule that) (use assms(2) t in simp_all)
qed

lemma take_reaches:
  assumes inv: "lock_inv E lim T l S" and pl: "lock_place T l" and c: "ctl S = None" and t: "current S = t" "pc S t = Outside" "t \<noteq> idle_thread (ks S)"
    and r: "room lim (ks S)" and v: "sema_value (ks S) (l + 4) \<noteq> 0"
  obtains S' where "reaches E lim T l S S'" and "pc S' t = Holding"
proof -
  let ?s = "ks S" and ?i = "iflag (ks S)"
  have e: "get_base_page (esp ?s) = t" using c t(1) by (simp add: current_def)
  have "run_inv lim T l ?s t (pc S) (calls S)" using lock_inv_running [OF inv c] t by auto
  then obtain Q xs ws where i: "threads_inv lim T l ?s t Q xs ws" "lock_state l ?s (pc S)" by (rule run_invE)
  note d = threads_invD [OF i(1)]
  note p = place_words [OF pl d(6)]
  have t0: "t \<noteq> 0" using d(11) [OF d(6)] by (auto simp: thread_ok_def)
  have sc: "sched lim ?s t Q" by (rule threads_inv_sched [OF i(1) e])
  have "accquire_check l ?s = ret () ?s"
    using schedD(2) [OF sc] p(4) t0 lock_stateD(1) [OF i(2) v] by (simp add: accquire_check_def)
  from reaches.further [OF reaches.here lock_step.accquire [OF c _ _ this]] obtain S1 where
    S1: "reaches E lim T l S S1" "ctl S1 = None" "ks S1 = ?s" "pc S1 t = Down_enter"
    using c t that by (force simp: at_rest_def)
  let ?s1 = "?s\<lparr>iflag := False\<rparr>" and ?s2 = "wr (l + 4) (sema_value ?s (l + 4) - 1) (?s\<lparr>iflag := False\<rparr>)"
  have r': "room lim ?s1" "room lim ?s2" "room lim (int_set ?i ?s2)" using r by (simp_all add: room_def int_defs Let_def)
  have e': "get_base_page (esp (int_set ?i ?s2)) = t" using e by (simp add: int_defs Let_def)
  have "sched lim (int_set ?i ?s2) t Q"
    unfolding sched_int_set by (rule sched_wr_clear) (use sc p(7) [OF d(6)] in simp_all)
  then have cur: "current_thread (int_set ?i ?s2) = ret t (int_set ?i ?s2)" by (rule current_thread_running [OF schedD(2)])
  obtain S2 where S2: "reaches E lim T l S S2" "ctl S2 = None" "ks S2 = ?s1" "pc S2 t = Down_test ?i"
    by (rule statement_reaches [OF S1(1,2) _ _ S1(4), of "Down_test ?i" ?s1])
      (use S1(3) r e p(5) that in \<open>simp_all add: int_defs Let_def\<close>)
  obtain S3 where S3: "reaches E lim T l S S3" "ctl S3 = None" "ks S3 = ?s1" "pc S3 t = Down_take ?i"
    by (rule statement_reaches [OF S2(1,2) _ _ S2(4), of "Down_take ?i" ?s1]) (use S2(3) r' e v that in simp_all)
  obtain S4 where S4: "reaches E lim T l S S4" "ctl S4 = None" "ks S4 = ?s2" "pc S4 t = Down_restore ?i"
    by (rule statement_reaches [OF S3(1,2) _ _ S3(4), of "Down_restore ?i" ?s2]) (use S3(3) r' e that in simp_all)
  obtain S5 where S5: "reaches E lim T l S S5" "ctl S5 = None" "ks S5 = int_set ?i ?s2" "pc S5 t = Record"
    by (rule statement_reaches [OF S4(1,2) _ _ S4(4), of Record "int_set ?i ?s2"]) (use S4(3) r' e that in simp_all)
  obtain S6 where "reaches E lim T l S S6" "pc S6 t = Holding"
    by (rule statement_reaches [OF S5(1,2) _ _ S5(4), of Holding "wr l t (int_set ?i ?s2)"]) (use S5(3) r' e' cur that in simp_all)
  then show ?thesis by (rule that)
qed

theorem lock_mutual_exclusion_witness:
  "\<exists>S S'. reaches example_env 4096 example_threads 0xC0007F00 S S' \<and> (\<forall>t. pc S t = Outside) \<and>
     pc S' 0xC0008000 = Holding \<and> lock_holder (ks S') 0xC0007F00 = 0xC0008000"
proof -
  obtain S where S: "lock_inv example_env 4096 example_threads 0xC0007F00 S" "ctl S = None" "current S = 0xC0008000"
    "\<And>t. pc S t = Outside" "room 4096 (ks S)" "idle_thread (ks S) = 0xC000A000" "sema_value (ks S) 0xC0007F04 = 1"
    by (rule example_lock_inv) (rule that)
  obtain S' where S': "reaches example_env 4096 example_threads 0xC0007F00 S S'" "pc S' 0xC0008000 = Holding"
    by (rule take_reaches [OF S(1) example_lock_place S(2-4) _ S(5)]) (use S(6,7) that in simp_all)
  from lock_mutual_exclusion [OF S(1) example_lock_place S'(1)] S(4) S' show ?thesis by blast
qed

end
