(* ===== verification/Kv.thy ===== *)
theory Kv
  imports Chains
begin

text \<open>
  The key-value list of \<^verbatim>\<open>src/lib/kv.c\<close>: size 0, head 4, tail 8; an element is key 0, value 4, next 8,
  prev 12 (16 bytes). Its functions \<^verbatim>\<open>add\<close>, \<^verbatim>\<open>is_empty\<close> and \<^verbatim>\<open>remove\<close>, whose names those of
  \<^verbatim>\<open>list.c\<close> share, are \<open>kv_add\<close>, \<open>kv_is_empty\<close> and \<open>kv_remove\<close>. Then its contract: a sequence of
  pairs with removal by key, and access by index, although \<^verbatim>\<open>kv.h\<close> calls \<^verbatim>\<open>kv_get\<close>'s argument a key.
\<close>

section \<open>Operations\<close>

abbreviation kv_size :: "kstate \<Rightarrow> ptr \<Rightarrow> u32" where "kv_size s l \<equiv> rd s l"
abbreviation kv_head :: "kstate \<Rightarrow> ptr \<Rightarrow> ptr" where "kv_head s l \<equiv> rd s (l + 4)"
abbreviation kv_tail :: "kstate \<Rightarrow> ptr \<Rightarrow> ptr" where "kv_tail s l \<equiv> rd s (l + 8)"
abbreviation kv_key :: "kstate \<Rightarrow> ptr \<Rightarrow> u32" where "kv_key s e \<equiv> rd s e"
abbreviation kv_value :: "kstate \<Rightarrow> ptr \<Rightarrow> u32" where "kv_value s e \<equiv> rd s (e + 4)"
abbreviation kv_next :: "kstate \<Rightarrow> ptr \<Rightarrow> ptr" where "kv_next s e \<equiv> rd s (e + 8)"
abbreviation kv_prev :: "kstate \<Rightarrow> ptr \<Rightarrow> ptr" where "kv_prev s e \<equiv> rd s (e + 12)"

definition sizeof_kv :: u32 where "sizeof_kv = 12"
definition sizeof_kv_elem :: u32 where "sizeof_kv_elem = 16"

definition kv_init :: "ptr \<Rightarrow> kstate \<Rightarrow> ptr kres" where
  "kv_init vp s =
     seq (malloc vp sizeof_kv s) (\<lambda>new_kv s.
     let s = wr new_kv 0 s; s = wr (new_kv + 8) 0 s; s = wr (new_kv + 4) 0 s
     in ret new_kv s)"

definition kv_init_with :: "ptr \<Rightarrow> u32 \<Rightarrow> u32 \<Rightarrow> kstate \<Rightarrow> ptr kres" where
  "kv_init_with vp key val s =
     seq (malloc vp sizeof_kv s) (\<lambda>new_kv s.
     let s = wr new_kv 1 s in
     seq (malloc vp sizeof_kv_elem s) (\<lambda>elem s.
     let s = wr (new_kv + 4) elem s;
         s = wr (new_kv + 8) (kv_head s new_kv) s;
         s = wr (kv_head s new_kv) key s;
         s = wr (kv_head s new_kv + 4) val s
     in ret new_kv (wr new_kv 1 s)))"

definition kv_is_empty :: "ptr \<Rightarrow> kstate \<Rightarrow> bool" where
  "kv_is_empty l s \<longleftrightarrow> kv_size s l = 0"

definition kv_add :: "ptr \<Rightarrow> ptr \<Rightarrow> u32 \<Rightarrow> u32 \<Rightarrow> kstate \<Rightarrow> unit kres" where
  "kv_add vp l key val s =
     seq (malloc vp sizeof_kv_elem s) (\<lambda>elem s.
     let s = wr (elem + 4) val (wr elem key s) in
     if kv_is_empty l s
     then let s = wr (l + 4) elem s;
              s = wr (l + 8) elem s;
              s = wr (elem + 12) 0 s;
              s = wr (elem + 8) 0 s
       in ret () (wr l (kv_size s l + 1) s)
     else let s = wr (elem + 12) (kv_tail s l) s;
              s = wr (l + 8) elem s;
              s = wr (kv_prev s elem + 8) elem s
       in ret () (wr l (kv_size s l + 1) s))"

partial_function (option) kv_find :: "mem \<Rightarrow> u32 \<Rightarrow> ptr \<Rightarrow> ptr option" where
  "kv_find m key elem =
     (if ld32 m elem \<noteq> key \<and> ld32 m (elem + 8) \<noteq> 0 then kv_find m key (ld32 m (elem + 8))
      else Some elem)"

definition kv_unlink :: "ptr \<Rightarrow> ptr \<Rightarrow> kstate \<Rightarrow> kstate" where
  "kv_unlink l elem s =
     (let s = (if elem = kv_head s l
            then let s = wr (l + 4) (kv_next s elem) s in wr (kv_head s l + 12) 0 s
            else wr (kv_prev s elem + 8) (kv_next s elem) s);
          s = (if elem = kv_tail s l then wr (l + 8) (kv_prev s elem) s
               else wr (kv_next s elem + 12) (kv_prev s elem) s)
      in wr l (kv_size s l - 1) s)"

definition kv_remove :: "ptr \<Rightarrow> u32 \<Rightarrow> kstate \<Rightarrow> bool kres" where
  "kv_remove l key s =
     (case kv_find (kmem s) key (kv_head s l) of None \<Rightarrow> Inl Hang
      | Some elem \<Rightarrow> if kv_key s elem = key then ret True (kv_unlink l elem s) else ret False s)"

fun kv_walk :: "mem \<Rightarrow> nat \<Rightarrow> ptr \<Rightarrow> ptr" where
  "kv_walk m 0 elem = elem"
| "kv_walk m (Suc n) elem = kv_walk m n (ld32 m (elem + 8))"

definition kv_get :: "ptr \<Rightarrow> u32 \<Rightarrow> kstate \<Rightarrow> u32 kres" where
  "kv_get l idx s =
     (if idx \<ge> kv_size s l then PANIC ''LIST OUT OF BOUNDS EXCEPTION'' s
      else ret (kv_value s (kv_walk (kmem s) (unat idx) (kv_head s l))) s)"

text \<open>The pairs that \<^verbatim>\<open>kv_dump\<close> prints, and the printing (the memory does not change meanwhile).\<close>

partial_function (option) kv_chain :: "mem \<Rightarrow> ptr \<Rightarrow> (u32 \<times> u32) list option" where
  "kv_chain m elem =
     (if elem = 0 then Some []
      else if ld32 m (elem + 8) = 0 then Some [(ld32 m elem, ld32 m (elem + 4))]
      else Option.bind (kv_chain m (ld32 m (elem + 8))) (\<lambda>ds. Some ((ld32 m elem, ld32 m (elem + 4)) # ds)))"

definition print_pair :: "u32 \<times> u32 \<Rightarrow> kstate \<Rightarrow> unit kres" where
  "print_pair p s =
     seq (kprint_num (fst p) BASE_HEX (kprint ''('' s)) (\<lambda>_ s.
     seq (kprint_num (snd p) BASE_HEX (kprint '','' s)) (\<lambda>_ s. ret () (kprint '')'' s)))"

fun print_pairs :: "(u32 \<times> u32) list \<Rightarrow> kstate \<Rightarrow> unit kres" where
  "print_pairs [] s = ret () s"
| "print_pairs [p] s = print_pair p s"
| "print_pairs (p # ps) s = seq (print_pair p s) (\<lambda>_ s. print_pairs ps (kprint '','' s))"

definition kv_dump :: "ptr \<Rightarrow> kstate \<Rightarrow> unit kres" where
  "kv_dump l s =
     (case kv_chain (kmem s) (kv_head s l) of None \<Rightarrow> Inl Hang
      | Some ps \<Rightarrow> seq (print_pairs ps (kprintln ''['' s)) (\<lambda>_ s. ret () (kprint '']'' s)))"

section \<open>A list of pairs in memory\<close>

definition kv_item :: "mem \<Rightarrow> ptr \<Rightarrow> u32 \<times> u32 \<Rightarrow> bool" where
  "kv_item m a p \<longleftrightarrow> ld32 m a = fst p \<and> ld32 m (a + 4) = snd p"

definition kv_at :: "mem \<Rightarrow> nat list \<Rightarrow> ptr \<Rightarrow> ptr list \<Rightarrow> (u32 \<times> u32) list \<Rightarrow> bool" where
  "kv_at m zs l ns ps \<longleftrightarrow> holds_chain m 8 zs l ns \<and> list_all2 (kv_item m) ns ps"

lemma kv_item_reads: "reads_below 8 kv_item"
  unfolding reads_below_def
proof (intro allI impI, elim conjE)
  fix m m' :: mem and a :: ptr and p
  assume r: "\<forall>k. unat k < unat (8 :: u32) \<and> aligned k \<longrightarrow> ld32 m' (a + k) = ld32 m (a + k)" and p: "kv_item m a p"
  from r [rule_format, of 0] r [rule_format, of 4] p show "kv_item m' a p" by (simp add: kv_item_def)
qed

lemma kv_unlink_unchain: "kv_unlink l elem s = s\<lparr>kmem := unchain 8 l elem (kmem s)\<rparr>"
proof -
  have e: "(8 :: u32) + 4 = 12" by simp
  have k: "wr a v (s\<lparr>kmem := m\<rparr>) = s\<lparr>kmem := st32 a v m\<rparr>" for a v m
    by (cases s) simp
  have i: "(if b then s\<lparr>kmem := m\<rparr> else s\<lparr>kmem := m'\<rparr>) = s\<lparr>kmem := if b then m else m'\<rparr>" for b m m'
    by simp
  have s: "s = s\<lparr>kmem := kmem s\<rparr>" and m: "kmem (s\<lparr>kmem := m\<rparr>) = m" for m by simp_all
  show ?thesis
    by (subst s) (simp only: kv_unlink_def unchain_def Let_def k i e m)
qed

lemma kv_length:
  assumes "blocks_ok zs" and "kv_at m zs l ns ps"
  shows "unat (ld32 m l) = length ps"
  using holds_chain_length [OF assms(1)] assms(2) by (auto simp: kv_at_def dest: list_all2_lengthD)

lemma kv_at_kept:
  assumes "kept zs as m m'" and "kv_at m zs l ns ps" and "set (l # ns) \<inter> as = {}"
  shows "kv_at m' zs l ns ps"
proof -
  have "holds_chain m' 8 zs l ns"
    by (rule holds_chain_kept [OF assms(1) _ assms(3)]) (use assms(2) in \<open>simp_all add: kv_at_def\<close>)
  moreover have "kv_item m' a p" if "a \<in> set ns" "kv_item m a p" for a p
    using that assms(2,3) kept_read [OF assms(1), of a] by (auto simp: kv_item_def kv_at_def holds_chain_def)
  ultimately show ?thesis
    using assms(2) by (auto simp: kv_at_def intro: list.rel_mono_strong)
qed

section \<open>What the operations do\<close>

lemma kv_add_writes:
  assumes "malloc vp 16 s = ret e s1" and "sep e l" and "sep l e" and "kv_size s1 l = 0 \<longleftrightarrow> ns = []"
    and "ns \<noteq> [] \<Longrightarrow> kv_tail s1 l = last ns \<and> sep (last ns) l"
  shows "kv_add vp l key val s = ret () (s1\<lparr>kmem := enchain 8 l ns e (st32 (e + 4) val (st32 e key (kmem s1)))\<rparr>)"
proof -
  have al: "aligned e" "aligned l" using assms(2) by (auto simp: sep_def)
  show ?thesis
  proof (cases "ns = []")
    case True
    then show ?thesis using assms al
      by (simp add: kv_add_def sizeof_kv_elem_def kv_is_empty_def Let_def enchain_def)
  next
    case False
    then show ?thesis using assms al
      by (simp add: kv_add_def sizeof_kv_elem_def kv_is_empty_def Let_def enchain_def)
  qed
qed

lemma kv_add_result:
  assumes h: "heap_ok s zs lim" and r: "room lim s" and l: "kv_at (kmem s) zs l ns ps"
  obtains m e where "kv_add vp l key val s = ret () (s\<lparr>kmem := m, firstFreeSegment := firstFreeSegment s + 40\<rparr>)"
    and "heap_ok (s\<lparr>kmem := m, firstFreeSegment := firstFreeSegment s + 40\<rparr>) (zs @ [16]) lim"
    and "kv_at m (zs @ [16]) l (ns @ [e]) (ps @ [(key, val)])"
proof -
  obtain m1 e where m1: "malloc vp 16 s = ret e (s\<lparr>kmem := m1, firstFreeSegment := firstFreeSegment s + 40\<rparr>)"
    and h1: "heap_ok (s\<lparr>kmem := m1, firstFreeSegment := firstFreeSegment s + 40\<rparr>) (zs @ [16]) lim"
    and ne: "node (zs @ [16]) e" "\<not> node zs e" and k1: "kept zs {} (kmem s) m1"
    and z: "ld32 m1 (e + 8) = 0"
    by (rule malloc_node16 [OF h r, where sz = 16 and vp = vp]) (simp, rule that)
  let ?m = "st32 (e + 4) val (st32 e key m1)" and ?s = "s\<lparr>kmem := m1, firstFreeSegment := firstFreeSegment s + 40\<rparr>"
  let ?n = "enchain 8 l ns e ?m"
  have bo: "blocks_ok (zs @ [16])" using heap_ok_blocks_ok [OF h1] .
  have al: "aligned e" by (rule node_aligned [OF bo ne(1)])
  have k: "kept (zs @ [16]) {e} m1 ?m"
    using kept_trans [OF kept_st32 [OF bo, of e 0] kept_st32 [OF bo, of e 4]] ne(1) by simp
  then have "kept zs {e} m1 ?m" using node_snoc by (auto simp: kept_def)
  from kept_trans [OF k1 this] have "kv_at ?m zs l ns ps"
    using l ne(2) by (intro kv_at_kept [OF _ l]) (auto simp: kv_at_def holds_chain_def)
  then have c: "holds_chain ?m 8 zs l ns" "list_all2 (kv_item ?m) ns ps" by (simp_all add: kv_at_def)
  have "ld32 ?m (e + 8) = 0" using z al by simp
  note u = enchain_result [OF c(1) bo disjI2 [OF refl] ne this]
  have nn: "\<And>a. a \<in> set (l # ns) \<Longrightarrow> node (zs @ [16]) a \<and> a \<noteq> e"
    using l ne(2) node_snoc by (auto simp: kv_at_def holds_chain_def)
  have l1: "kv_at m1 zs l ns ps" by (rule kv_at_kept [OF k1 l]) simp
  have sep: "sep a b" if "a \<in> set (l # ns @ [e])" "b \<in> set (l # ns @ [e])" "a \<noteq> b" for a b
    using that nn ne(1) node_sep [OF bo, of a b] by auto
  have "kv_add vp l key val s = ret () (?s\<lparr>kmem := enchain 8 l ns e (st32 (e + 4) val (st32 e key (kmem ?s)))\<rparr>)"
  proof (rule kv_add_writes [OF m1])
    show "sep e l" "sep l e" using sep nn by auto
    have "unat (ld32 m1 l) = length ps"
      by (rule kv_length [OF _ l1]) (rule heap_ok_blocks_ok [OF h])
    moreover have "length ns = length ps" using l1 by (auto simp: kv_at_def dest: list_all2_lengthD)
    ultimately show "kv_size ?s l = 0 \<longleftrightarrow> ns = []" by (auto simp: word_unat_eq_iff)
    assume "ns \<noteq> []"
    moreover from this have "last ns \<noteq> l" using l last_in_set [of ns] by (auto simp: kv_at_def holds_chain_def)
    ultimately show "kv_tail ?s l = last ns \<and> sep (last ns) l"
      using l1 sep [of "last ns" l] by (simp add: kv_at_def holds_chain_def)
  qed
  then have "kv_add vp l key val s = ret () (?s\<lparr>kmem := ?n\<rparr>)" by simp
  moreover have "kv_at ?n (zs @ [16]) l (ns @ [e]) (ps @ [(key, val)])"
  proof -
    have ke: "ld32 ?n (e + k) = ld32 ?m (e + k)" if "unat k < 8" "aligned k" for k using u(3) [of e k] that by simp
    have "ld32 ?m e = key" "ld32 ?m (e + 4) = val" using al by simp_all
    then have "kv_item ?n e (key, val)" using ke [of 0] ke [of 4] by (simp add: kv_item_def)
    moreover have "kv_item ?n a p" if "a \<in> set ns" "kv_item ?m a p" for a p
      using that u(3) kv_item_reads unfolding reads_below_def by (metis Un_iff set_append)
    then have "list_all2 (kv_item ?n) ns ps" using c(2) by (auto intro: list.rel_mono_strong)
    ultimately show ?thesis using u(1) by (simp add: kv_at_def list_all2_appendI)
  qed
  moreover have "heap_ok (?s\<lparr>kmem := ?n\<rparr>) (zs @ [16]) lim"
  proof (rule heap_ok_same_end [OF h1])
    fix x :: ptr assume x: "heap_end (zs @ [16]) \<le> unat x"
    have st: "st32 (e + j) v m' x = m' x" if "unat j \<le> 12" for j v m'
      by (rule st32_low [OF node_end [OF ne(1)] _ that x]) (use bo in \<open>simp add: blocks_ok_def\<close>)
    show "?n x = kmem ?s x" using u(4) [OF x] st [of 0] st [of 4] by simp
  qed
  moreover have "?s\<lparr>kmem := ?n\<rparr> = s\<lparr>kmem := ?n, firstFreeSegment := firstFreeSegment s + 40\<rparr>" by simp
  ultimately show ?thesis using that [of ?n e] by (simp only:)
qed

lemma kv_remove_result:
  assumes h: "heap_ok s zs lim" and l: "kv_at (kmem s) zs l ns ps" and ne: "ps \<noteq> []"
  obtains m ns' where "kv_remove l k s = ret (\<exists>p \<in> set ps. fst p = k) (s\<lparr>kmem := m\<rparr>)"
    and "heap_ok (s\<lparr>kmem := m\<rparr>) zs lim" and "kv_at m zs l ns' (del_first (\<lambda>p. fst p = k) ps)"
proof -
  note c = l [unfolded kv_at_def]
  obtain e where e: "kv_find (kmem s) k (ld32 (kmem s) (l + 4)) = Some e" "ld32 (kmem s) e = k \<longleftrightarrow> (\<exists>p \<in> set ps. fst p = k)"
    and u: "ld32 (kmem s) e = k \<Longrightarrow> \<exists>ns'. holds_chain (unchain 8 l e (kmem s)) 8 zs l ns' \<and>
      list_all2 (kv_item (unchain 8 l e (kmem s))) ns' (del_first (\<lambda>p. fst p = k) ps) \<and> set ns' \<subseteq> set ns \<and>
      kept zs (set (l # ns)) (kmem s) (unchain 8 l e (kmem s)) \<and>
      (\<forall>x. heap_end zs \<le> unat x \<longrightarrow> unchain 8 l e (kmem s) x = kmem s x)"
    by (rule remove_first [OF conjunct1 [OF c] conjunct2 [OF c] ne heap_ok_blocks_ok [OF h] _ kv_item_reads,
        where key = fst and k = k and f = "kv_find (kmem s) k"])
      (simp, simp add: kv_item_def, subst kv_find.simps, simp, rule that)
  show ?thesis
  proof (cases "\<exists>p \<in> set ps. fst p = k")
    case True
    then have "ld32 (kmem s) e = k" using e(2) by simp
    from u [OF this] obtain ns' where ns': "kv_at (unchain 8 l e (kmem s)) zs l ns' (del_first (\<lambda>p. fst p = k) ps)"
      "\<And>x. heap_end zs \<le> unat x \<Longrightarrow> unchain 8 l e (kmem s) x = kmem s x"
      unfolding kv_at_def by blast
    show ?thesis
    proof (rule that [of "unchain 8 l e (kmem s)" ns'])
      show "kv_remove l k s = ret (\<exists>p \<in> set ps. fst p = k) (s\<lparr>kmem := unchain 8 l e (kmem s)\<rparr>)"
        using e(1) \<open>ld32 (kmem s) e = k\<close> True by (simp add: kv_remove_def kv_unlink_unchain)
      show "heap_ok (s\<lparr>kmem := unchain 8 l e (kmem s)\<rparr>) zs lim"
        by (rule heap_ok_same_end [OF h]) (rule ns'(2))
    qed (rule ns'(1))
  next
    case False
    then have "kv_remove l k s = ret (\<exists>p \<in> set ps. fst p = k) (s\<lparr>kmem := kmem s\<rparr>)" "del_first (\<lambda>p. fst p = k) ps = ps"
      using e by (auto simp: kv_remove_def intro: del_first_none)
    then show ?thesis using h l that [of "kmem s" ns] by simp
  qed
qed

lemma kv_get_result:
  assumes h: "heap_ok s zs lim" and l: "kv_at (kmem s) zs l ns ps"
  shows "kv_get l i s =
    (if unat i < length ps then ret (snd (ps ! unat i)) s else PANIC ''LIST OUT OF BOUNDS EXCEPTION'' s)"
proof -
  have len: "length ns = length ps" and c: "chained (kmem s) 8 0 ns 0" and d: "list_all2 (kv_item (kmem s)) ns ps"
    using l by (auto simp: kv_at_def holds_chain_def dest: list_all2_lengthD)
  have "unat (kv_size s l) = length ps" by (rule kv_length [OF heap_ok_blocks_ok [OF h] l])
  then have b: "kv_size s l \<le> i \<longleftrightarrow> \<not> unat i < length ps" by (simp add: word_le_nat_alt not_less)
  have w: "kv_walk (kmem s) (unat i) (kv_head s l) = ns ! unat i" if "unat i < length ps"
  proof -
    have "ns \<noteq> []" using that len by auto
    then have "kv_head s l = hd ns" using l by (simp add: kv_at_def holds_chain_def)
    then show ?thesis using walk_chain [of "kv_walk (kmem s)", OF _ _ c] that len by simp
  qed
  show ?thesis using b w list_all2_nthD [OF d, of "unat i"] len by (auto simp: kv_get_def kv_item_def)
qed

lemma kv_init_result:
  assumes h: "heap_ok s zs lim" and r: "room lim s"
  obtains m l where "kv_init vp s = ret l (s\<lparr>kmem := m, firstFreeSegment := firstFreeSegment s + 40\<rparr>)"
    and "heap_ok (s\<lparr>kmem := m, firstFreeSegment := firstFreeSegment s + 40\<rparr>) (zs @ [16]) lim"
    and "kv_at m (zs @ [16]) l [] []"
proof -
  obtain m l where m: "list_init vp s = ret l (s\<lparr>kmem := m, firstFreeSegment := firstFreeSegment s + 40\<rparr>)"
    "heap_ok (s\<lparr>kmem := m, firstFreeSegment := firstFreeSegment s + 40\<rparr>) (zs @ [16]) lim"
    "list_at m (zs @ [16]) l [] []"
    by (rule list_init_result [OF h r, where vp = vp]) (rule that)
  have "kv_init vp s = list_init vp s"
    by (simp add: kv_init_def list_init_def sizeof_kv_def sizeof_list_def)
  then show ?thesis using that m by (simp add: list_at_chain kv_at_def holds_chain_def)
qed

section \<open>The contract\<close>

definition kv_enq :: "nat \<Rightarrow> ptr \<Rightarrow> ptr \<Rightarrow> u32 \<times> u32 \<Rightarrow> kstate \<Rightarrow> kstate option" where
  "kv_enq lim vp l p s =
     (if room lim s then case kv_add vp l (fst p) (snd p) s of Inl _ \<Rightarrow> None | Inr (_, s') \<Rightarrow> Some s' else None)"

definition kv_del :: "ptr \<Rightarrow> u32 \<Rightarrow> kstate \<Rightarrow> (bool \<times> kstate) option" where
  "kv_del l k s = (case kv_remove l k s of Inl _ \<Rightarrow> None | Inr r \<Rightarrow> Some r)"

definition kv_item_at :: "ptr \<Rightarrow> u32 \<Rightarrow> kstate \<Rightarrow> u32 option" where
  "kv_item_at l i s = (case kv_get l i s of Inl _ \<Rightarrow> None | Inr (v, _) \<Rightarrow> Some v)"

definition kv_rep :: "nat \<Rightarrow> ptr \<Rightarrow> kstate \<Rightarrow> (u32 \<times> u32) list \<Rightarrow> bool" where
  "kv_rep lim l s ps \<longleftrightarrow> (\<exists>zs ns. heap_ok s zs lim \<and> kv_at (kmem s) zs l ns ps)"

interpretation kv: keyed_sequence "kv_enq lim vp l" "kv_del l" "kv_item_at l" "kv_rep lim l" "list_capacity lim"
  fst snd for lim vp l
proof unfold_locales
  fix s ps p
  assume "kv_rep lim l s ps" and c: "0 < list_capacity lim s"
  then obtain zs ns where h: "heap_ok s zs lim" "kv_at (kmem s) zs l ns ps" by (auto simp: kv_rep_def)
  note r = capacity_room [OF c]
  obtain m e where m: "kv_add vp l (fst p) (snd p) s = ret () (s\<lparr>kmem := m, firstFreeSegment := firstFreeSegment s + 40\<rparr>)"
    "heap_ok (s\<lparr>kmem := m, firstFreeSegment := firstFreeSegment s + 40\<rparr>) (zs @ [16]) lim"
    "kv_at m (zs @ [16]) l (ns @ [e]) (ps @ [(fst p, snd p)])"
    by (rule kv_add_result [OF h(1) r h(2), where vp = vp and key = "fst p" and val = "snd p"]) (rule that)
  let ?s = "s\<lparr>kmem := m, firstFreeSegment := firstFreeSegment s + 40\<rparr>"
  have "kv_rep lim l ?s (ps @ [p])" using m(2,3) by (auto simp: kv_rep_def)
  then show "\<exists>s'. kv_enq lim vp l p s = Some s' \<and> kv_rep lim l s' (ps @ [p]) \<and>
      list_capacity lim s \<le> Suc (list_capacity lim s')"
    using r m(1) capacity_step [OF h(1) m(2)] by (auto simp: kv_enq_def)
next
  fix s ps k
  assume "kv_rep lim l s ps" and ne: "ps \<noteq> []"
  then obtain zs ns where h: "heap_ok s zs lim" "kv_at (kmem s) zs l ns ps" by (auto simp: kv_rep_def)
  obtain m ns' where m: "kv_remove l k s = ret (\<exists>p \<in> set ps. fst p = k) (s\<lparr>kmem := m\<rparr>)" "heap_ok (s\<lparr>kmem := m\<rparr>) zs lim"
    "kv_at m zs l ns' (del_first (\<lambda>p. fst p = k) ps)"
    by (rule kv_remove_result [OF h ne, where k = k]) (rule that)
  then show "\<exists>s'. kv_del l k s = Some (\<exists>p \<in> set ps. fst p = k, s') \<and>
      kv_rep lim l s' (del_first (\<lambda>p. fst p = k) ps) \<and> list_capacity lim s \<le> list_capacity lim s'"
    by (intro exI [of _ "s\<lparr>kmem := m\<rparr>"]) (auto simp: kv_del_def kv_rep_def list_capacity_def)
next
  fix s ps i
  assume "kv_rep lim l s ps"
  then obtain zs ns where h: "heap_ok s zs lim" "kv_at (kmem s) zs l ns ps" by (auto simp: kv_rep_def)
  show "kv_item_at l i s = (if unat i < length ps then Some (snd (ps ! unat i)) else None)"
    using kv_get_result [OF h, of i] by (simp add: kv_item_at_def PANIC_def)
qed

text \<open>
  C15: a list of \<^verbatim>\<open>kv.c\<close> used through \<^verbatim>\<open>add\<close>, \<^verbatim>\<open>remove\<close> and \<^verbatim>\<open>kv_get\<close> is a sequence of pairs: every
  script of these operations for which the heap has room, and which does not remove from an empty
  list, ends and gives the answers of that sequence: \<^verbatim>\<open>add\<close> keeps older pairs with the same key,
  \<^verbatim>\<open>remove\<close> takes out the first pair with the key, and \<^verbatim>\<open>kv_get\<close> returns the value at an index, not
  the value of a key, and panics exactly for an index that is too large.
\<close>

theorem kv_is_sequence:
  assumes "kv_rep lim l s ps" and "count_add ops \<le> list_capacity lim s" and "never_empty fst ops ps"
  shows "\<exists>s'. run_script (kv_enq lim vp l) (kv_del l) (kv_item_at l) ops s = Some (fst (seq_script fst snd ops ps), s') \<and>
    kv_rep lim l s' (snd (seq_script fst snd ops ps))"
  by (rule kv.script [OF assms])

theorem kv_is_sequence_witness:
  "\<exists>l s s'. kv_init 0 heap_state = ret l s \<and>
     run_script (kv_enq 4096 0 l) (kv_del l) (kv_item_at l)
       [Add (5, 70), Add (1, 80), Add (5, 90), Get 1, Del 5, Get 1, Del 4, Get 5] s
     = Some ([Added, Added, Added, Got 80, Deleted True, Got 90, Deleted False, Panicked], s')"
proof -
  have f: "firstFreeSegment heap_state = 0"
    by (simp add: heap_state_def initialiseHeap_def Let_def)
  then have "room 4096 heap_state" by (simp add: room_def)
  from kv_init_result [OF heap_state_ok this, of 0] obtain m l where
    l: "kv_init 0 heap_state = ret l (heap_state\<lparr>kmem := m, firstFreeSegment := firstFreeSegment heap_state + 40\<rparr>)"
    "heap_ok (heap_state\<lparr>kmem := m, firstFreeSegment := firstFreeSegment heap_state + 40\<rparr>) ([] @ [16]) 4096"
    "kv_at m ([] @ [16]) l [] []" by blast
  let ?s = "heap_state\<lparr>kmem := m, firstFreeSegment := firstFreeSegment heap_state + 40\<rparr>"
  let ?ops = "[Add (5, 70), Add (1, 80), Add (5, 90), Get 1, Del 5, Get 1, Del 4, Get 5] :: (u32 \<times> u32, u32) sop list"
  have "kv_rep 4096 l ?s []" unfolding kv_rep_def using l(2,3) by (intro exI conjI) simp_all
  then have "\<exists>s'. run_script (kv_enq 4096 0 l) (kv_del l) (kv_item_at l) ?ops ?s =
      Some (fst (seq_script fst snd ?ops []), s') \<and> kv_rep 4096 l s' (snd (seq_script fst snd ?ops []))"
    by (rule kv_is_sequence) (simp_all add: list_capacity_def f)
  then show ?thesis using l(1) by auto
qed

end
