(* ===== verification/Files.thy ===== *)
theory Files
  imports Kv Queues
begin

text \<open>
  The file system (\<^verbatim>\<open>src/filesystem/fs.c\<close>, \<^verbatim>\<open>fs.h\<close> and the parts of \<^verbatim>\<open>initrd.c\<close> that have a
  meaning), which the makefile does not build yet. A node is name 0 (128 bytes), type 128, flags 132,
  size 136, inode 140, read 144, write 148, readdir 152, finddir 156, parent 160, dir_contents 164;
  a file header of the RAM disk is magic 0, name 4, length 132, filetype 136 (140 bytes). A call
  through a function pointer is the parameter \<open>C\<close>: what the code at that address does.
  \<^verbatim>\<open>open_fs\<close> and \<^verbatim>\<open>close_fs\<close> use members that \<^verbatim>\<open>fs_node\<close> does not have, and have no model.
\<close>

section \<open>Nodes\<close>

datatype node_type = FILE | DIRECTORY | SYM_LINK | DEVICE | SOCKET | PIPE

fun node_type_code :: "node_type \<Rightarrow> u32" where
  "node_type_code FILE = 0"
| "node_type_code DIRECTORY = 1"
| "node_type_code SYM_LINK = 2"
| "node_type_code DEVICE = 3"
| "node_type_code SOCKET = 4"
| "node_type_code PIPE = 5"

record fs_node =
  fs_type :: u32
  fs_flags :: u32
  fs_size :: u32
  fs_inode :: u32
  fs_read :: ptr
  fs_write :: ptr
  fs_readdir :: ptr
  fs_finddir :: ptr
  fs_parent :: ptr
  fs_dir_contents :: ptr

definition fs_node_at :: "mem \<Rightarrow> ptr \<Rightarrow> fs_node" where
  "fs_node_at m a =
     \<lparr>fs_type = ld32 m (a + 128), fs_flags = ld32 m (a + 132), fs_size = ld32 m (a + 136),
      fs_inode = ld32 m (a + 140), fs_read = ld32 m (a + 144), fs_write = ld32 m (a + 148),
      fs_readdir = ld32 m (a + 152), fs_finddir = ld32 m (a + 156), fs_parent = ld32 m (a + 160),
      fs_dir_contents = ld32 m (a + 164)\<rparr>"

record fs_calls =
  call_read :: "ptr \<Rightarrow> ptr \<Rightarrow> u32 \<Rightarrow> u32 \<Rightarrow> ptr \<Rightarrow> kstate \<Rightarrow> u32 kres"
  call_write :: "ptr \<Rightarrow> ptr \<Rightarrow> u32 \<Rightarrow> u32 \<Rightarrow> ptr \<Rightarrow> kstate \<Rightarrow> u32 kres"
  call_readdir :: "ptr \<Rightarrow> ptr \<Rightarrow> u32 \<Rightarrow> kstate \<Rightarrow> ptr kres"
  call_finddir :: "ptr \<Rightarrow> ptr \<Rightarrow> ptr \<Rightarrow> kstate \<Rightarrow> ptr kres"

section \<open>The dispatch of \<^verbatim>\<open>fs.c\<close>\<close>

definition read_fs :: "fs_calls \<Rightarrow> ptr \<Rightarrow> u32 \<Rightarrow> u32 \<Rightarrow> ptr \<Rightarrow> kstate \<Rightarrow> u32 kres" where
  "read_fs C nd offset sz buffer s =
     (let n = fs_node_at (kmem s) nd in
      if fs_read n \<noteq> 0 then call_read C (fs_read n) nd offset sz buffer s else ret 0 s)"

definition write_fs :: "fs_calls \<Rightarrow> ptr \<Rightarrow> u32 \<Rightarrow> u32 \<Rightarrow> ptr \<Rightarrow> kstate \<Rightarrow> u32 kres" where
  "write_fs C nd offset sz buffer s =
     (let n = fs_node_at (kmem s) nd in
      if fs_write n \<noteq> 0 then call_write C (fs_write n) nd offset sz buffer s else ret 0 s)"

definition readdir_fs :: "fs_calls \<Rightarrow> ptr \<Rightarrow> u32 \<Rightarrow> kstate \<Rightarrow> ptr kres" where
  "readdir_fs C nd index s =
     (let n = fs_node_at (kmem s) nd in
      if fs_type n = node_type_code DIRECTORY \<and> fs_readdir n \<noteq> 0
      then call_readdir C (fs_readdir n) nd index s else ret 0 s)"

definition finddir_fs :: "fs_calls \<Rightarrow> ptr \<Rightarrow> ptr \<Rightarrow> kstate \<Rightarrow> ptr kres" where
  "finddir_fs C nd name s =
     (let n = fs_node_at (kmem s) nd in
      if fs_type n = node_type_code DIRECTORY \<and> fs_finddir n \<noteq> 0
      then call_finddir C (fs_finddir n) nd name s else ret 0 s)"

section \<open>The RAM disk (\<^verbatim>\<open>initrd.c\<close>)\<close>

record rd_file_header =
  rd_magic :: u32
  rd_length :: u32
  rd_filetype :: u8

definition rd_file_header_at :: "mem \<Rightarrow> ptr \<Rightarrow> rd_file_header" where
  "rd_file_header_at m a = \<lparr>rd_magic = ld32 m a, rd_length = ld32 m (a + 132), rd_filetype = m (a + 136)\<rparr>"

definition MAGIC :: u32 where "MAGIC = 0x12345678"

definition is_rd_file :: "ptr \<Rightarrow> kstate \<Rightarrow> bool" where
  "is_rd_file f s \<longleftrightarrow> rd_magic (rd_file_header_at (kmem s) f) = MAGIC"

text \<open>
  \<^verbatim>\<open>initrd_read\<close>: the header of the node's file from the table \<^verbatim>\<open>file_lookup\<close>, the number of bytes to
  copy, and the copy. The source writes the length as \<^verbatim>\<open>file.length\<close> and the place of the data as
  \<^verbatim>\<open>file.addr\<close>, of a pointer and without such a member: the first is taken as \<^verbatim>\<open>file->length\<close>, and
  the second is the parameter \<open>addr\<close>.
\<close>

definition read_size :: "u32 \<Rightarrow> u32 \<Rightarrow> u32 \<Rightarrow> u32" where
  "read_size offset sz len = (if offset + sz > len then len - offset else sz)"

definition initrd_read :: "(ptr \<Rightarrow> ptr) \<Rightarrow> ptr \<Rightarrow> ptr \<Rightarrow> u32 \<Rightarrow> u32 \<Rightarrow> ptr \<Rightarrow> kstate \<Rightarrow> u32 kres" where
  "initrd_read addr file_lookup nd offset sz buffer s =
     seq (kv_get file_lookup (fs_inode (fs_node_at (kmem s) nd)) s) (\<lambda>file s.
     if file = 0 then ret 0 s
     else let len = rd_length (rd_file_header_at (kmem s) file) in
       if offset > len then ret 0 s
       else let sz = read_size offset sz len
         in ret sz (kmem_update (memcpy buffer (addr file + offset) sz) s))"

text \<open>\<^verbatim>\<open>initrd_readdir\<close> calls \<^verbatim>\<open>get\<close>, which no file defines: it is a parameter.\<close>

definition initrd_readdir :: "(ptr \<Rightarrow> u32 \<Rightarrow> kstate \<Rightarrow> ptr kres) \<Rightarrow> ptr \<Rightarrow> u32 \<Rightarrow> kstate \<Rightarrow> ptr kres" where
  "initrd_readdir get nd idx s =
     (let n = fs_node_at (kmem s) nd in
      if fs_type n \<noteq> node_type_code DIRECTORY then ret 0 s
      else if idx \<ge> list_size s (fs_dir_contents n) then ret 0 s
      else get (fs_dir_contents n) idx s)"

section \<open>What reading does\<close>

text \<open>
  The size of a read is cut to the rest of the file, as long as the end of the read does not
  overflow; otherwise nothing is cut.
\<close>

lemma read_size_result:
  assumes "offset \<le> len"
  shows "unat (read_size offset sz len) =
    (if unat offset + unat sz < 4294967296 then min (unat sz) (unat len - unat offset)
     else if unat offset + unat sz - 4294967296 > unat len then unat len - unat offset else unat sz)"
proof -
  have o: "unat offset \<le> unat len" using assms by (simp add: word_le_nat_alt)
  have d: "unat (len - offset) = unat len - unat offset" using assms by (rule unat_sub)
  have w: "unat (offset + sz) = (if unat offset + unat sz < 4294967296 then unat offset + unat sz
      else unat offset + unat sz - 4294967296)"
    using unat_lt32 [of offset] unat_lt32 [of sz] by (simp add: unat_word_ariths mod_if del: unat_lt32)
  show ?thesis
    using o unfolding read_size_def word_less_nat_alt if_distrib [of unat] d w by auto
qed


lemma kv_rep_wr:
  assumes "kv_rep lim l s ps" and "0x80000000 \<le> unat a" and "unat a + 4 \<le> 4294967296"
  shows "kv_rep lim l (wr a v s) ps"
proof -
  obtain zs ns where h: "heap_ok s zs lim" "kv_at (kmem s) zs l ns ps"
    using assms(1) by (auto simp: kv_rep_def)
  have low: "kmem (wr a v s) x = kmem s x" if "unat x < lim" for x
    using h(1) that assms(2,3) by (simp add: heap_ok_def st32_frame)
  have "heap_end zs \<le> lim" using h(1) by (simp add: heap_ok_def)
  then have "kept zs {} (kmem s) (kmem (wr a v s))"
    by (intro kept_cong [OF heap_ok_blocks_ok [OF h(1)], of lim] low)
  then have "kv_at (kmem (wr a v s)) zs l ns ps" by (rule kv_at_kept [OF _ h(2)]) simp
  moreover have "heap_ok (wr a v s) zs lim" by (rule heap_ok_cong [OF h(1) low]) simp_all
  ultimately show ?thesis by (auto simp: kv_rep_def)
qed


end
