(* ===== verification/Pages.thy ===== *)
theory Pages
  imports Palloc
begin

text \<open>
  What a zeroed page from \<^verbatim>\<open>palloc_kern\<close> leaves of the memory: four pages of zeroes, as its
  \<^verbatim>\<open>memset\<close> counts words, one new word in the page table, and nothing else changed.
\<close>

lemma memset_loop_zero: "within b p (4 * n) \<Longrightarrow> 4 * n \<le> 4294967296 \<Longrightarrow> memset_loop n p 0 m b = 0"
proof (induction n arbitrary: p m)
  case (Suc n)
  show ?case
  proof (cases "unat (b - p) < 4")
    case True
    have "\<not> within b (p + 4) (4 * n)"
    proof -
      have e: "b - (p + 4) = (b - p) - 4" by simp
      have "unat ((b - p) - 4) = 4294967292 + unat (b - p)"
        using True by (simp add: unat_sub_if')
      then show ?thesis using Suc.prems(2) unfolding within_def e by simp
    qed
    then have "memset_loop n (p + 4) 0 (st32 p 0 m) b = st32 p 0 m b" by (rule memset_loop_outside)
    moreover have "st32 p 0 m b = 0"
    proof -
      have "unat (b - p) \<in> {0, 1, 2, 3}" using True by auto
      then have "b - p \<in> {0, 1, 2, 3}" by (auto simp: word_unat_eq_iff)
      then have "b \<in> {p, p + 1, p + 2, p + 3}" by (auto simp: diff_eq_eq add.commute [of _ p])
      then show ?thesis by (auto simp: st32_def)
    qed
    ultimately show ?thesis by simp
  next
    case False
    then have "within b (p + 4) (4 * n)"
      using Suc.prems(1) by (simp add: within_def unat_minus_step)
    then show ?thesis using Suc by simp
  qed
qed (simp add: within_def)

text \<open>The word of the page table in which the page of \<open>v\<close> is mapped.\<close>

definition pte_slot :: "kstate \<Rightarrow> ptr \<Rightarrow> ptr" where
  "pte_slot s v = table_of (pde_at (kmem s) v) + 4 * pt_no v"

lemma palloc_zeroed:
  assumes "paging_ok s" and "free_frames (physical_page_entries s) = f # fs" and "flags AND F_ZERO \<noteq> 0"
  obtains m c ps where "palloc_kern 1 flags s = ret (Kptov f) (s\<lparr>kmem := m, con := c, physical_page_entries := ps\<rparr>)"
    and "free_frames ps = fs" and "page_aligned f"
    and "\<And>x. within x (Kptov f) 16384 \<Longrightarrow> m x = 0"
    and "\<And>x. \<not> within x (Kptov f) 16384 \<Longrightarrow> \<not> within x (pte_slot s (Kptov f)) 4 \<Longrightarrow> m x = kmem s x"
proof -
  let ?m = "put_pte (Kptov f) (leaf f flags (pte_at (kmem s) (Kptov f))) (kmem s)"
  obtain c ps where run: "palloc_kern 1 flags s = ret (Kptov f) (zero_pages (Kptov f) 1 flags
      (s\<lparr>kmem := ?m, con := c, physical_page_entries := ps\<rparr>))"
    and f: "free_frames ps = fs" "page_aligned f"
    by (rule palloc_kern_one [OF assms(1,2), where flags = flags]) (rule that)
  let ?z = "memset (Kptov f) 0 4096 ?m"
  have "kmem_update (memset (Kptov f) 0 4096) (s\<lparr>kmem := ?m, con := c, physical_page_entries := ps\<rparr>) =
      s\<lparr>kmem := ?z, con := c, physical_page_entries := ps\<rparr>"
    by (rule kstate.equality) simp_all
  then have "palloc_kern 1 flags s = ret (Kptov f) (s\<lparr>kmem := ?z, con := c, physical_page_entries := ps\<rparr>)"
    using run by (simp only: zero_pages_on [OF assms(3)])
  moreover have "?z x = 0" if "within x (Kptov f) 16384" for x
    using memset_loop_zero [of x "Kptov f" 4096 ?m] that by (simp add: memset_def)
  moreover have "?z x = kmem s x" if "\<not> within x (Kptov f) 16384" "\<not> within x (pte_slot s (Kptov f)) 4" for x
    using memset_loop_outside [of x "Kptov f" 4096 0 ?m] that
    by (simp add: memset_def put_pte_def pte_slot_def within_def st32_other_byte)
  ultimately show ?thesis using f that by blast
qed

text \<open>An aligned word of memory that the allocation does not touch.\<close>

lemma within_word:
  assumes "unat a + 4 \<le> 4294967296" and "unat p + n \<le> 4294967296" and "unat a + 4 \<le> unat p \<or> unat p + n \<le> unat a"
    and "unat k < 4"
  shows "\<not> within (a + k) p n"
proof -
  have u: "unat (a + k) = unat a + unat k" using assms(1,4) by (simp add: unat_plus_small)
  show ?thesis
  proof (cases "unat p \<le> unat (a + k)")
    case True
    then have "unat (a + k - p) = unat (a + k) - unat p" by (intro unat_sub) (simp add: word_le_nat_alt)
    then show ?thesis using u assms(3,4) True by (auto simp: within_def)
  next
    case False
    then have "unat (a + k - p) = 4294967296 + unat (a + k) - unat p"
      by (simp add: unat_sub_if' word_le_nat_alt)
    then show ?thesis using assms(2) False by (auto simp: within_def)
  qed
qed

text \<open>The word \<open>a\<close> lies outside the zeroed pages and the new page table entry.\<close>

definition untouched :: "kstate \<Rightarrow> ptr \<Rightarrow> ptr \<Rightarrow> bool" where
  "untouched s f a \<longleftrightarrow> (\<forall>k. unat k < 4 \<longrightarrow> \<not> within (a + k) (Kptov f) 16384 \<and> \<not> within (a + k) (pte_slot s (Kptov f)) 4)"

text \<open>A store outside the page directory keeps the paging state well-formed.\<close>

lemma pde_at_wr:
  assumes "aligned a" and "\<And>v. a \<noteq> PAGE_DIRECTORY_BASE + 4 * pd_no v"
  shows "pde_at (st32 a v m) w = pde_at m w"
  using assms by (simp add: pde_at_def)

lemma paging_ok_wr:
  assumes "paging_ok s" and "aligned a" and "\<And>v. a \<noteq> PAGE_DIRECTORY_BASE + 4 * pd_no v"
  shows "paging_ok (wr a v s)"
  using assms by (simp add: paging_ok_def tables_ok_def frames_ok_def pde_at_wr)

end
