(* ===== verification/Tss.thy ===== *)
theory Tss
  imports Switch Pages
begin

text \<open>
  The task state segment (\<^verbatim>\<open>src/process/tss.c\<close>, \<^verbatim>\<open>tss.h\<close>) in memory, whose \<^verbatim>\<open>ss0\<close> and \<^verbatim>\<open>esp0\<close> give
  the processor the stack for interrupts from user mode. The struct is packed by its 16-bit
  fillers: a field of 16 bits and its filler share a word, \<^verbatim>\<open>trace\<close> and \<^verbatim>\<open>IOPB\<close> the last one.
\<close>

definition ld16 :: "mem \<Rightarrow> ptr \<Rightarrow> u16" where
  "ld16 m a = ucast (m a) OR push_bit 8 (ucast (m (a + 1)))"

definition st16 :: "ptr \<Rightarrow> u16 \<Rightarrow> mem \<Rightarrow> mem" where
  "st16 a v m = m(a := ucast v, a + 1 := ucast (drop_bit 8 v))"

record tss =
  tss_back_link :: u16
  tss_esp0 :: ptr
  tss_ss0 :: u16
  tss_esp1 :: ptr
  tss_ss1 :: u16
  tss_esp2 :: ptr
  tss_ss2 :: u16
  tss_cr3 :: u32
  tss_eip :: ptr
  tss_eflags :: u32
  tss_eax :: u32
  tss_ecx :: u32
  tss_edx :: u32
  tss_ebx :: u32
  tss_esp :: u32
  tss_ebp :: u32
  tss_esi :: u32
  tss_edi :: u32
  tss_es :: u16
  tss_cs :: u16
  tss_ss :: u16
  tss_ds :: u16
  tss_fs :: u16
  tss_gs :: u16
  tss_ldt :: u16
  tss_trace :: u16
  tss_IOPB :: u16

definition tss_at :: "mem \<Rightarrow> ptr \<Rightarrow> tss" where
  "tss_at m a =
     \<lparr>tss_back_link = ld16 m a, tss_esp0 = ld32 m (a + 4), tss_ss0 = ld16 m (a + 8),
      tss_esp1 = ld32 m (a + 12), tss_ss1 = ld16 m (a + 16), tss_esp2 = ld32 m (a + 20), tss_ss2 = ld16 m (a + 24),
      tss_cr3 = ld32 m (a + 28), tss_eip = ld32 m (a + 32), tss_eflags = ld32 m (a + 36),
      tss_eax = ld32 m (a + 40), tss_ecx = ld32 m (a + 44), tss_edx = ld32 m (a + 48), tss_ebx = ld32 m (a + 52),
      tss_esp = ld32 m (a + 56), tss_ebp = ld32 m (a + 60), tss_esi = ld32 m (a + 64), tss_edi = ld32 m (a + 68),
      tss_es = ld16 m (a + 72), tss_cs = ld16 m (a + 76), tss_ss = ld16 m (a + 80), tss_ds = ld16 m (a + 84),
      tss_fs = ld16 m (a + 88), tss_gs = ld16 m (a + 92), tss_ldt = ld16 m (a + 96),
      tss_trace = ld16 m (a + 100), tss_IOPB = ld16 m (a + 102)\<rparr>"

definition sizeof_tss :: u16 where "sizeof_tss = 104"

definition tss_update :: "kstate \<Rightarrow> unit kres" where
  "tss_update s =
     (if kernel_tss s = 0 then PANIC ''TSS null'' s
      else seq (current_thread s) (\<lambda>t s. ret () (wr (kernel_tss s + 4) (t + PGSIZE) s)))"

definition tss_init :: "kstate \<Rightarrow> unit kres" where
  "tss_init s =
     seq (palloc_kern 1 (F_ASSERT OR F_ZERO) s) (\<lambda>p s.
     let s = s\<lparr>kernel_tss := p\<rparr>;
         s = kmem_update (st16 (kernel_tss s + 8) 0x10) s;
         s = kmem_update (st16 (kernel_tss s + 102) sizeof_tss) s
     in tss_update s)"

definition get_kernel_tss :: "kstate \<Rightarrow> ptr" where
  "get_kernel_tss s = kernel_tss s"

text \<open>The empty segment, which the zeroed page is.\<close>

definition blank_tss :: tss where
  "blank_tss = tss_at (\<lambda>_. 0) 0"

lemma ld16_st16_same: "ld16 (st16 a v m) a = v"
proof (rule bit_word_eqI)
  fix n assume "n < LENGTH(16)"
  then show "bit (ld16 (st16 a v m) a) n = bit v n"
    by (cases "n < 8") (auto simp: ld16_def st16_def bit_simps)
qed

lemma ld16_cong: "m a = m' a \<Longrightarrow> m (a + 1) = m' (a + 1) \<Longrightarrow> ld16 m a = ld16 m' a"
  by (simp add: ld16_def)

lemma ld16_zero: "m a = 0 \<Longrightarrow> m (a + 1) = 0 \<Longrightarrow> ld16 m a = 0"
  by (simp add: ld16_def)

lemma ld32_zero: "(\<And>k. unat k < 4 \<Longrightarrow> m (a + k) = 0) \<Longrightarrow> ld32 m a = 0"
  using ld32_cong [of m a "\<lambda>_. 0"] by (simp add: ld32_def)

text \<open>A zeroed segment with the three fields that \<^verbatim>\<open>tss_init\<close> sets.\<close>

lemma tss_fields:
  assumes "\<And>k. unat k < 104 \<Longrightarrow> m (a + k) = 0"
  shows "tss_at (st32 (a + 4) e (st16 (a + 102) iopb (st16 (a + 8) ss m))) a =
    blank_tss\<lparr>tss_esp0 := e, tss_ss0 := ss, tss_IOPB := iopb\<rparr>"
proof -
  let ?m = "st32 (a + 4) e (st16 (a + 102) iopb (st16 (a + 8) ss m))"
  have b: "?m (a + k) = 0" if "unat k < 104" "unat k \<notin> {4, 5, 6, 7, 8, 9, 102, 103}" for k
  proof -
    have "k \<noteq> 4" "k \<noteq> 5" "k \<noteq> 6" "k \<noteq> 7" "k \<noteq> 8" "k \<noteq> 9" "k \<noteq> 102" "k \<noteq> 103" using that(2) by auto
    then show ?thesis using assms [OF that(1)] by (simp add: st32_def st16_def add.assoc)
  qed
  have b2: "?m (a + k + j) = 0" if "unat k + unat j < 104" "unat k + unat j \<notin> {4, 5, 6, 7, 8, 9, 102, 103}" for k j
  proof -
    have "unat (k + j) = unat k + unat j" using that(1) by (intro unat_plus_small) simp
    then show ?thesis using b [of "k + j"] that by (simp add: add.assoc)
  qed
  have h: "ld16 ?m (a + k) = 0" if "unat k = 0 \<or> 9 < unat k" "unat k < 101" for k
    using b2 [of k 0] b2 [of k 1] that by (intro ld16_zero) auto
  have w: "ld32 ?m (a + k) = 0" if "9 < unat k" "unat k < 99" for k
  proof (rule ld32_zero)
    fix j :: u32 assume "unat j < 4"
    then show "?m (a + k + j) = 0" using that by (intro b2) auto
  qed
  have "?m (a + 8) = st16 (a + 8) ss m (a + 8)" "?m (a + 8 + 1) = st16 (a + 8) ss m (a + 8 + 1)"
    by (simp_all add: st32_def st16_def add.assoc)
  then have ss0: "ld16 ?m (a + 8) = ss" using ld16_cong ld16_st16_same by metis
  have "?m (a + 102) = st16 (a + 102) iopb (st16 (a + 8) ss m) (a + 102)"
    "?m (a + 102 + 1) = st16 (a + 102) iopb (st16 (a + 8) ss m) (a + 102 + 1)"
    by (simp_all add: st32_def add.assoc)
  then have iop: "ld16 ?m (a + 102) = iopb" using ld16_cong ld16_st16_same by metis
  have "ld16 ?m a = 0" using h [of 0] by simp
  then show ?thesis
    unfolding tss_at_def blank_tss_def using h w ss0 iop by (simp add: ld32_zero ld16_zero)
qed

text \<open>
  with a frame left, \<^verbatim>\<open>tss_init\<close> makes a task state segment that is empty but for the kernel's
  stack segment, the top of the running thread's page as the stack, and an I/O map beyond its end;
  \<^verbatim>\<open>get_kernel_tss\<close> returns it.
\<close>

theorem tss_init_result:
  assumes "paging_ok s" and "free_frames (physical_page_entries s) = f # fs" and "Kptov f \<noteq> 0"
    and "current_thread s = ret t s" and "untouched s f (t + 40)"
  shows "\<exists>s'. tss_init s = ret () s' \<and> get_kernel_tss s' = Kptov f \<and>
    tss_at (kmem s') (Kptov f) = blank_tss\<lparr>tss_esp0 := t + 4096, tss_ss0 := 0x10, tss_IOPB := 104\<rparr> \<and>
    free_frames (physical_page_entries s') = fs"
proof -
  have z: "(F_ASSERT OR F_ZERO) AND F_ZERO \<noteq> 0" by (simp add: page_flags)
  let ?p = "Kptov f"
  obtain m c ps where run: "palloc_kern 1 (F_ASSERT OR F_ZERO) s = ret ?p (s\<lparr>kmem := m, con := c, physical_page_entries := ps\<rparr>)"
    and f: "free_frames ps = fs" "page_aligned f"
    and zero: "\<And>x. within x ?p 16384 \<Longrightarrow> m x = 0"
    and old: "\<And>x. \<not> within x ?p 16384 \<Longrightarrow> \<not> within x (pte_slot s ?p) 4 \<Longrightarrow> m x = kmem s x"
    by (rule palloc_zeroed [OF assms(1,2) z]) (rule that)
  let ?m = "st16 (?p + 102) 104 (st16 (?p + 8) 0x10 m)"
  let ?s = "s\<lparr>kmem := ?m, con := c, physical_page_entries := ps, kernel_tss := ?p\<rparr>"
  have zp: "m (?p + k) = 0" if "unat k < 104" for k
    using that by (intro zero) (simp add: within_def)
  have "ld32 ?m (t + 40) = rd s (t + 40)"
  proof (rule ld32_cong)
    fix k :: u32 assume "unat k < 4"
    then have n: "\<not> within (t + 40 + k) ?p 16384" "\<not> within (t + 40 + k) (pte_slot s ?p) 4"
      using assms(5) by (simp_all add: untouched_def)
    have "t + 40 + k \<noteq> ?p + j" if "unat j < 104" for j
      using n(1) that by (auto simp: within_def)
    from this [of 8] this [of 9] this [of 102] this [of 103]
    have "?m (t + 40 + k) = m (t + 40 + k)" by (simp add: st16_def add.assoc)
    then show "?m (t + 40 + k) = kmem s (t + 40 + k)" using old [OF n] by simp
  qed
  then have cur: "current_thread ?s = ret t ?s"
    using assms(4) by (auto simp: current_thread_def get_esp_def Let_def split: if_splits)
  let ?s1 = "s\<lparr>kmem := m, con := c, physical_page_entries := ps, kernel_tss := ?p\<rparr>"
  have k: "kernel_tss ?s1 = ?p" "kernel_tss (kmem_update g ?s1) = ?p" for g by simp_all
  have "kmem_update (st16 (?p + 102) 104) (kmem_update (st16 (?p + 8) 0x10) ?s1) = ?s"
    by (rule kstate.equality) simp_all
  then have "tss_init s = tss_update ?s"
    by (simp only: tss_init_def run seq_Inr Let_def k sizeof_tss_def)
  also have "\<dots> = ret () (wr (?p + 4) (t + PGSIZE) ?s)"
    using cur assms(3) by (simp add: tss_update_def)
  finally have "tss_init s = ret () (wr (?p + 4) (t + PGSIZE) ?s)" .
  moreover have "tss_at (st32 (?p + 4) (t + 4096) ?m) ?p =
      blank_tss\<lparr>tss_esp0 := t + 4096, tss_ss0 := 0x10, tss_IOPB := 104\<rparr>"
    by (rule tss_fields) (rule zp)
  ultimately show ?thesis using f by (simp add: get_kernel_tss_def PGSIZE_def)
qed

text \<open>The boot state with the boot stack's page as the kernel thread.\<close>

definition boot_thread_state :: kstate where
  "boot_thread_state = wr 0xC0007028 T_MAGIC (boot_state\<lparr>esp := 0xC0007F00\<rparr>)"

lemma boot_magic_no_pde: "0xC0007028 \<noteq> PAGE_DIRECTORY_BASE + 4 * pd_no v"
proof -
  have "page_aligned 0xC0007000" "page_aligned PAGE_DIRECTORY_BASE" "(0xC0007000 :: ptr) \<noteq> PAGE_DIRECTORY_BASE"
    by (simp_all add: page_aligned_def PAGE_DIRECTORY_BASE_def)
  then show ?thesis
    using page_offset_inj [of "0xC0007000" PAGE_DIRECTORY_BASE "0x28" "4 * pd_no v"] pd_entry_small [of v] by auto
qed

lemma boot_thread_state_ok: "paging_ok boot_thread_state"
  unfolding boot_thread_state_def
proof (rule paging_ok_wr)
  show "paging_ok (boot_state\<lparr>esp := 0xC0007F00\<rparr>)" using paging_ok_boot by (simp add: paging_ok_def)
qed (simp, rule boot_magic_no_pde)

lemma boot_thread_slot: "unat (pte_slot boot_thread_state 0xC0020000) \<ge> 0xC0008000 \<and>
    unat (pte_slot boot_thread_state 0xC0020000) + 4 \<le> 4294967296"
proof -
  have "pde_at (kmem boot_thread_state) 0xC0020000 = pde_at boot_mem 0xC0020000"
    using pde_at_wr [OF _ boot_magic_no_pde] by (simp add: boot_thread_state_def)
  moreover have d: "d_present (pde_at boot_mem 0xC0020000) \<noteq> 0" by (rule boot_facts)
  then have t: "unat (table_of (pde_at boot_mem 0xC0020000)) \<in> {0xC1100000..<0xC1500000}"
    unfolding pde_at_boot by (rule boot_tables_small)
  moreover have "unat (4 * pt_no 0xC0020000) < 4096" by (rule pt_entry_small)
  ultimately show ?thesis by (simp add: pte_slot_def unat_plus_small)
qed

theorem tss_init_result_witness:
  "\<exists>s'. tss_init boot_thread_state = ret () s' \<and> get_kernel_tss s' = 0xC0020000 \<and>
    tss_esp0 (tss_at (kmem s') 0xC0020000) = 0xC0008000"
proof -
  obtain fs where fs: "free_frames boot_pages = 0x20000 # fs"
    using boot_facts(6,7) by (cases "free_frames boot_pages") auto
  have k: "Kptov 0x20000 = 0xC0020000" by (simp add: Kptov_def KERN_BASE_def)
  have c: "current_thread boot_thread_state = ret 0xC0007000 boot_thread_state"
    by (simp add: boot_thread_state_def current_thread_def get_esp_def get_base_page_def Let_def PGSIZE_def)
  have u: "untouched boot_thread_state 0x20000 (0xC0007000 + 40)"
    unfolding untouched_def k using boot_thread_slot
    by (intro allI impI conjI within_word) auto
  have "\<exists>s'. tss_init boot_thread_state = ret () s' \<and> get_kernel_tss s' = Kptov 0x20000 \<and>
    tss_at (kmem s') (Kptov 0x20000) = blank_tss\<lparr>tss_esp0 := 0xC0007000 + 4096, tss_ss0 := 0x10, tss_IOPB := 104\<rparr> \<and>
    free_frames (physical_page_entries s') = fs"
    by (rule tss_init_result [OF boot_thread_state_ok _ _ c u]) (simp_all add: fs k boot_thread_state_def)
  then show ?thesis by (auto simp: k)
qed

end
