(* ===== verification/Start.thy ===== *)
theory Start
  imports Synch Tss
begin

text \<open>
  The start of the kernel (\<^verbatim>\<open>src/kernel/start.c\<close>), in the order of \<^verbatim>\<open>boot\<close>, with the initialisations
  of the segments and the interrupts as a whole (\<^verbatim>\<open>gdt_init\<close>, \<^verbatim>\<open>idt_init\<close>), the timer's rate and
  the shell (\<^verbatim>\<open>shell.c\<close>), whose functions are still empty. \<open>image\<close> holds the addresses that the linker gives.
\<close>

record image =
  img_env :: env
  img_gdt :: ptr
  img_idt :: ptr
  img_isr :: "u8 \<Rightarrow> u32"
  img_MemoryRegionCount :: ptr
  img_BSS_SECTION_START :: ptr
  img_BSS_SECTION_END :: ptr
  img_init_started :: ptr

section \<open>Initialisation\<close>

definition gdt_init :: "image \<Rightarrow> kstate \<Rightarrow> kstate" where
  "gdt_init I s = s\<lparr>gdt_table := gdt_init_table (gdt_table s), gdt_register := gdt_init_info (img_gdt I)\<rparr>"

text \<open>\<^verbatim>\<open>sti\<close> at the end of \<^verbatim>\<open>idt_init\<close> lets interrupts in before the threads are set up.\<close>

definition idt_init :: "image \<Rightarrow> kstate \<Rightarrow> kstate" where
  "idt_init I s =
     (let s = s\<lparr>idt_register := \<lparr>idtr_limit = of_nat (sizeof_idt_entry * IDT_MAX_DESCRIPTORS - 1), idtr_base = img_idt I\<rparr>\<rparr>;
          s = s\<lparr>idt_table := idt_fill (img_isr I) (idt_table s)\<rparr>;
          s = con_update irq_remap s
      in s\<lparr>iflag := True\<rparr>)"

text \<open>
  The difference of the two word pointers is taken from the contents of the linker's symbols, not
  from their addresses, and counts words.
\<close>

definition clear_bss :: "image \<Rightarrow> kstate \<Rightarrow> kstate" where
  "clear_bss I s =
     (let bss_start = rd s (img_BSS_SECTION_START I);
          bss_end = rd s (img_BSS_SECTION_END I);
          bss_length = signed_drop_bit 2 (bss_end - bss_start)
      in kmem_update (memset bss_start 0 bss_length) s)"

definition timer_phase :: "u32 \<Rightarrow> console \<Rightarrow> console option" where
  "timer_phase hz c =
     (if hz = 0 then None
      else let divisor = (word_of_int (1193180 sdiv sint hz) :: u32);
               c = outportb 0x43 0x36 c;
               c = outportb 0x40 (ucast (divisor AND 0xFF)) c
        in Some (outportb 0x40 (ucast (signed_drop_bit 8 divisor)) c))"

definition page_fault_handler :: "exception_state \<Rightarrow> kstate \<Rightarrow> kstate" where
  "page_fault_handler st s = s"

text \<open>An exception ends the machine; \<open>None\<close> would be a report that does not end.\<close>

definition idt_global_exc_wrapper :: "cbuf \<Rightarrow> exception_state \<Rightarrow> kstate \<Rightarrow> console option" where
  "idt_global_exc_wrapper buf st s = default_exception_handler buf st (con s)"

section \<open>\<^verbatim>\<open>boot\<close> and \<^verbatim>\<open>main\<close>\<close>

abbreviation attempt :: "string \<Rightarrow> kstate \<Rightarrow> kstate" where
  "attempt msg s \<equiv> con_update (print_attempt (lit msg)) s"

abbreviation okay :: "kstate \<Rightarrow> kstate" where
  "okay s \<equiv> con_update print_ok s"

text \<open>\<^verbatim>\<open>boot\<close> up to the return of \<^verbatim>\<open>thread_init\<close>, whose \<^verbatim>\<open>sema_down\<close> switches to the idle thread.\<close>

definition boot_memory :: "image \<Rightarrow> kstate \<Rightarrow> unit kres" where
  "boot_memory I s =
     seq (getUsableMemoryRegions (kmem s (img_MemoryRegionCount I)) s) (\<lambda>regions s.
     if UsableMemoryRegionCount s < 1 then PANIC ''MEMORY REGION COUNT FAIL'' s
     else seq (setupAvailablePages (word_of_int (UsableMemoryRegionCount s)) regions s) (\<lambda>_ s.
       if sint (pagecount s) < 1 then PANIC ''NO AVAILABLE PAGES'' s else ret () s))"

definition boot_start :: "image \<Rightarrow> kstate \<Rightarrow> go kres" where
  "boot_start I s =
     (let s = okay (clear_bss I (attempt ''Clearing BSS.'' s)) in
      seq (boot_memory I (attempt ''Memory Regions Check:'' s)) (\<lambda>_ s.
      let s = okay (gdt_init I (attempt ''GDT init'' (okay s))) in
      seq (paging_init (attempt ''Paging init'' s)) (\<lambda>_ s.
      let s = okay (idt_init I (attempt ''IDT init'' (okay s))) in
      thread_init (img_env I) (img_init_started I) (attempt ''Threading init'' s))))"

definition main :: "image \<Rightarrow> kstate \<Rightarrow> go kres" where
  "main I s =
     andthen (boot_start I (kprintln ''Kernel Mode.'' s)) In_boot (\<lambda>s. main_end (img_env I) (boot_end s))"

section \<open>The shell (\<^verbatim>\<open>shell.c\<close>)\<close>

text \<open>\<^verbatim>\<open>shell_run\<close> loops for ever; the other two functions have comments for bodies.\<close>

definition shell_init :: "kstate \<Rightarrow> kstate" where "shell_init s = s"
definition shell_run :: "kstate \<Rightarrow> unit kres" where "shell_run s = Inl Hang"
definition shell_input_return :: "kstate \<Rightarrow> kstate" where "shell_input_return s = s"

section \<open>What they do\<close>

lemma two_bytes:
  fixes d :: u32
  shows "unat (ucast (d AND 0xFF) :: u8) + 256 * unat (ucast (signed_drop_bit 8 d) :: u8) = unat d mod 65536"
proof -
  have "(ucast (d AND 0xFF) :: u8) = ucast d"
    by (rule bit_word_eqI) (auto simp: bit_simps bit_numeral_rec less_Suc_eq numeral_eq_Suc)
  moreover have "(ucast (signed_drop_bit 8 d) :: u8) = ucast (drop_bit 8 d)"
    by (rule bit_word_eqI) (auto simp: bit_simps)
  moreover have "unat (ucast d :: u8) = unat d mod 256" "unat (ucast (drop_bit 8 d) :: u8) = unat d div 256 mod 256"
    by (simp_all add: unsigned_ucast_eq take_bit_eq_mod drop_bit_eq_div unat_div)
  ultimately show ?thesis using mod_mult2_eq [of "unat d" 256 256] by simp
qed

text \<open>
  \<^verbatim>\<open>timer_phase(hz)\<close> for a positive rate selects the channel and writes the divisor low byte
  first; the two bytes are the divisor modulo 65536, so the rate is right from 19 Hz on.
\<close>

theorem timer_phase_divisor:
  assumes "0 < sint hz"
  shows "\<exists>lo hi. timer_phase hz c = Some (c\<lparr>io := [Out 0x40 hi, Out 0x40 lo, Out 0x43 0x36] @ io c\<rparr>) \<and>
    int (unat lo + 256 * unat hi) = (1193180 div sint hz) mod 65536 \<and>
    (19 \<le> sint hz \<longrightarrow> int (unat lo + 256 * unat hi) = 1193180 div sint hz)"
proof -
  let ?q = "1193180 div sint hz"
  let ?d = "word_of_int ?q :: u32"
  let ?lo = "ucast (?d AND 0xFF) :: u8" and ?hi = "ucast (signed_drop_bit 8 ?d) :: u8"
  have q: "0 \<le> ?q" "?q \<le> 1193180"
    using assms zdiv_mono2 [of 1193180 1 "sint hz"] by (auto simp: pos_imp_zdiv_nonneg_iff)
  have "1193180 sdiv sint hz = ?q" using assms by (simp add: signed_divide_int_def sgn_if)
  then have run: "timer_phase hz c = Some (c\<lparr>io := [Out 0x40 ?hi, Out 0x40 ?lo, Out 0x43 0x36] @ io c\<rparr>)"
    using assms by (auto simp: timer_phase_def Let_def outportb_def)
  have "int (unat ?d) = ?q" using q by (simp add: unsigned_of_int take_bit_int_eq_self)
  then have v: "int (unat ?lo + 256 * unat ?hi) = ?q mod 65536"
    unfolding two_bytes by (simp add: zmod_int)
  have "?q < 65536" if "19 \<le> sint hz"
    using that zdiv_mono2 [of 1193180 19 "sint hz"] by simp
  with q v have "19 \<le> sint hz \<longrightarrow> int (unat ?lo + 256 * unat ?hi) = ?q" by simp
  with run v show ?thesis by blast
qed

theorem timer_phase_divisor_witness:
  "\<exists>lo hi. timer_phase 100 (console_at 0) = Some (console_at 0\<lparr>io := [Out 0x40 hi, Out 0x40 lo, Out 0x43 0x36] @ io (console_at 0)\<rparr>) \<and>
     int (unat lo + 256 * unat hi) = 11931"
  using timer_phase_divisor [of 100 "console_at 0"] by auto

text \<open>
  C39: \<^verbatim>\<open>idt_init\<close> enables the interrupts before \<^verbatim>\<open>thread_init\<close> has made the boot stack's page a
  thread: three timer interrupts are counted and the fourth one, which ends the time slice of a
  thread that is not there, panics.
\<close>

theorem ticks_before_threads:
  assumes "tick_count s = 0" and "thr_magic s (get_base_page (esp s)) \<noteq> T_MAGIC"
  shows "\<exists>s1 s2 s3 s4. iflag (idt_init I s) \<and> idt_int E 32 (idt_init I s) = ret Done s1 \<and> idt_int E 32 s1 = ret Done s2 \<and>
    idt_int E 32 s2 = ret Done s3 \<and> idt_int E 32 s3 = PANIC ''TRIED TO RETRIEVE NON-THREAD PAGE'' s4"
proof -
  let ?s = "idt_init I s"
  have s: "iflag ?s" "tick_count ?s = 0" "kmem ?s = kmem s" "esp ?s = esp s"
    using assms(1) by (simp_all add: idt_init_def Let_def)
  obtain s1 where s1: "idt_int E 32 ?s = ret Done s1" "tick_count s1 = 1" "kmem s1 = kmem s" "esp s1 = esp s"
    using tick_within_slice_step [of ?s E] s by auto
  obtain s2 where s2: "idt_int E 32 s1 = ret Done s2" "tick_count s2 = 2" "kmem s2 = kmem s" "esp s2 = esp s"
    using tick_within_slice_step [of s1 E] s1 by auto
  obtain s3 where s3: "idt_int E 32 s2 = ret Done s3" "tick_count s3 = 3" "kmem s3 = kmem s" "esp s3 = esp s"
    using tick_within_slice_step [of s2 E] s2 by auto
  define s4 where "s4 = (time_tick (s3\<lparr>iflag := False\<rparr>))\<lparr>tick_count := 4\<rparr>"
  have k: "kmem s4 = kmem s" "esp s4 = esp s" "tick_count (time_tick (s3\<lparr>iflag := False\<rparr>)) = 3"
    using s3 by (simp_all add: s4_def time_tick_def Let_def)
  then have "current_thread s4 = PANIC ''TRIED TO RETRIEVE NON-THREAD PAGE'' s4"
    using assms(2) by (simp add: current_thread_def get_esp_def Let_def)
  then have "thread_tick E (s3\<lparr>iflag := False\<rparr>) = PANIC ''TRIED TO RETRIEVE NON-THREAD PAGE'' s4"
    using k(3) by (simp add: thread_tick_def TIME_SLICE_def Let_def thread_yield_def s4_def)
  then have "idt_int E 32 s3 = PANIC ''TRIED TO RETRIEVE NON-THREAD PAGE'' s4"
    by (simp add: idt_int_def idt_global_int_wrapper_def andthen_def)
  then show ?thesis using s(1) s1(1) s2(1) s3(1) by blast
qed

definition example_image :: image where
  "example_image = \<lparr>img_env = example_env, img_gdt = 0xC0010000, img_idt = 0xC0011000, img_isr = (\<lambda>v. 0xC0012000 + ucast v),
     img_MemoryRegionCount = 0x8000, img_BSS_SECTION_START = 0xC0013000, img_BSS_SECTION_END = 0xC0013000,
     img_init_started = 0xC0007F80\<rparr>"

theorem ticks_before_threads_witness:
  "\<exists>s1 s2 s3 s4. idt_int example_env 32 (idt_init example_image boot_state) = ret Done s1 \<and>
     idt_int example_env 32 s1 = ret Done s2 \<and> idt_int example_env 32 s2 = ret Done s3 \<and>
     idt_int example_env 32 s3 = PANIC ''TRIED TO RETRIEVE NON-THREAD PAGE'' s4"
proof -
  have "tick_count boot_state = 0" "thr_magic boot_state (get_base_page (esp boot_state)) \<noteq> T_MAGIC"
    by (simp_all add: boot_state_def boot_mem_def get_base_page_def Let_def PGSIZE_def boot_word_def T_MAGIC_def
        PAGE_DIRECTORY_BASE_def PAGE_TABLES_BASE_def Kptov_def KERN_BASE_def)
  from ticks_before_threads [OF this, of example_image example_env] show ?thesis by blast
qed

lemma no_usable_regions:
  assumes "\<forall>i < n. me_Type (MemoryMapEntry_at m (a + of_nat (Suc i) * sizeof_MemoryMapEntry)) \<noteq> 1"
  shows "usable_loop n a regions m = Some regions"
  using assms
proof (induction n arbitrary: a)
  case (Suc n)
  have "me_Type (MemoryMapEntry_at m (a + sizeof_MemoryMapEntry)) \<noteq> 1" using Suc.prems by (auto dest: spec [of _ 0])
  moreover have "usable_loop n (a + sizeof_MemoryMapEntry) regions m = Some regions"
  proof (rule Suc.IH, intro allI impI)
    fix i assume "i < n"
    then show "me_Type (MemoryMapEntry_at m (a + sizeof_MemoryMapEntry + of_nat (Suc i) * sizeof_MemoryMapEntry)) \<noteq> 1"
      using Suc.prems [rule_format, of "Suc i"] by (simp add: algebra_simps)
  qed
  ultimately show ?case by simp
qed simp

text \<open>
  a machine whose memory map has no usable entry does not start: \<^verbatim>\<open>main\<close> panics in \<^verbatim>\<open>boot\<close>, before
  it sets up anything else.
\<close>

theorem boot_without_memory:
  assumes "m = kmem (clear_bss I s)"
    and "\<forall>i < unat (m (img_MemoryRegionCount I)). me_Type (MemoryMapEntry_at m (0x5000 + of_nat i * 24)) \<noteq> 1"
  shows "\<exists>s'. main I s = PANIC ''MEMORY REGION COUNT FAIL'' s' \<and> kmem s' = m \<and> iflag s' = iflag s \<and> gdt_table s' = gdt_table s"
proof -
  define s1 where "s1 = attempt ''Memory Regions Check:'' (okay (clear_bss I (attempt ''Clearing BSS.'' (kprintln ''Kernel Mode.'' s))))"
  have k: "kmem s1 = m" "iflag s1 = iflag s" "gdt_table s1 = gdt_table s"
    by (simp_all add: s1_def assms(1) clear_bss_def Let_def)
  have "usable_loop (unat (m (img_MemoryRegionCount I))) (0x5000 - sizeof_MemoryMapEntry) [] m = Some []"
  proof (rule no_usable_regions, intro allI impI)
    fix i assume "i < unat (m (img_MemoryRegionCount I))"
    then show "me_Type (MemoryMapEntry_at m (0x5000 - sizeof_MemoryMapEntry + of_nat (Suc i) * sizeof_MemoryMapEntry)) \<noteq> 1"
      using assms(2) by (auto simp: sizeof_MemoryMapEntry_def algebra_simps)
  qed
  then have "getUsableMemoryRegions (kmem s1 (img_MemoryRegionCount I)) s1 =
      ret [] (s1\<lparr>UsableMemoryRegionCount := 0, usableMemoryRegions := []\<rparr>)"
    by (simp add: getUsableMemoryRegions_def k(1))
  then have "boot_memory I s1 = PANIC ''MEMORY REGION COUNT FAIL'' (s1\<lparr>UsableMemoryRegionCount := 0, usableMemoryRegions := []\<rparr>)"
    by (simp add: boot_memory_def)
  then have "main I s = PANIC ''MEMORY REGION COUNT FAIL'' (s1\<lparr>UsableMemoryRegionCount := 0, usableMemoryRegions := []\<rparr>)"
    by (simp only: main_def boot_start_def andthen_def Let_def s1_def [symmetric] seq_PANIC)
  then show ?thesis using k by (intro exI [of _ "s1\<lparr>UsableMemoryRegionCount := 0, usableMemoryRegions := []\<rparr>"]) simp
qed

theorem boot_without_memory_witness:
  "\<exists>s s'. kmem s 0x8000 = 1 \<and> main example_image s = PANIC ''MEMORY REGION COUNT FAIL'' s'"
proof -
  let ?s = "heap_state\<lparr>kmem := (\<lambda>_. 0)(0x8000 := 1)\<rparr>"
  let ?m = "kmem (clear_bss example_image ?s)"
  have m: "?m = (\<lambda>_. 0)(0x8000 := 1)"
    by (simp add: clear_bss_def Let_def example_image_def memset_def)
  have "\<forall>i < unat (?m (img_MemoryRegionCount example_image)). me_Type (MemoryMapEntry_at ?m (0x5000 + of_nat i * 24)) \<noteq> 1"
    unfolding m by (simp add: example_image_def MemoryMapEntry_at_def ld32_def)
  from boot_without_memory [OF refl this] obtain s' where
    "main example_image ?s = PANIC ''MEMORY REGION COUNT FAIL'' s'" by blast
  moreover have "kmem ?s 0x8000 = 1" by simp
  ultimately show ?thesis by blast
qed

end
