(* ===== verification/Create.thy ===== *)
theory Create
  imports Synch Tss
begin

text \<open>
  Making and ending threads: what \<^verbatim>\<open>thread_create\<close> builds from a free frame and how it enters the
  scheduler, and what \<^verbatim>\<open>thread_kill\<close> takes out of it.
\<close>

section \<open>\<^verbatim>\<open>thread_create\<close>\<close>

lemma pages_apart:
  assumes "page_aligned t" and "page_aligned u" and "t \<noteq> u"
  shows "unat t + 4096 \<le> unat u \<or> unat u + 4096 \<le> unat t"
proof -
  obtain i j where e: "unat t = 4096 * i" "unat u = 4096 * j"
    using assms(1,2) by (auto simp: page_aligned_def elim!: dvdE)
  then have "i \<noteq> j" using assms(3) by (auto simp: word_unat_eq_iff)
  then show ?thesis using e by (cases "i < j") auto
qed

lemma page_store_outside:
  assumes "page_aligned t" and "unat k \<le> 4092" and "unat x < unat t \<or> unat t + 4096 \<le> unat x"
  shows "st32 (t + k) v m x = m x"
proof (rule st32_frame)
  have "unat t + 4096 \<le> 4294967296"
    using page_plus_unat [OF assms(1), of 4095] unat_lt32 [of "t + 4095"] by simp
  moreover have "unat t + unat k = unat (t + k)" using assms(2) by (simp add: page_plus_unat [OF assms(1)])
  ultimately show "unat (t + k) + 4 \<le> 4294967296" "unat x < unat (t + k) \<or> unat (t + k) + 4 \<le> unat x"
    using assms(2,3) by linarith+
qed

lemma thread_fields_result:
  assumes "page_aligned t"
  obtains m where "thread_fields t s = s\<lparr>num_threads := num_threads s + 1, kmem := m\<rparr>"
    and "ld32 m t = t + PGSIZE" "ld32 m (t + 4) = num_threads s + 1" "ld32 m (t + 24) = TS_BLOCKED"
      "ld32 m (t + 28) = cr3 s" "ld32 m (t + 32) = kernel_pool s" "ld32 m (t + 36) = 1" "ld32 m (t + 40) = T_MAGIC"
    and "\<And>x. unat x < unat t \<or> unat t + 4096 \<le> unat x \<Longrightarrow> m x = kmem s x"
proof -
  define m where "m = st32 (t + 24) TS_BLOCKED (st32 t (t + PGSIZE) (st32 (t + 36) 1 (st32 (t + 32) (kernel_pool s)
    (st32 (t + 28) (cr3 s) (st32 (t + 40) T_MAGIC (st32 (t + 4) (num_threads s + 1) (kmem s)))))))"
  have a: "aligned t" using assms by (rule page_aligned_imp_aligned)
  have "thread_fields t s = s\<lparr>num_threads := num_threads s + 1, kmem := m\<rparr>"
    unfolding thread_fields_def create_id_def get_pd_def Let_def m_def
    by (rule kstate.equality) simp_all
  moreover have "st32 t v m' x = m' x" if "unat x < unat t \<or> unat t + 4096 \<le> unat x" for v m' x
    using page_store_outside [OF assms, of 0] that by simp
  then have "m x = kmem s x" if "unat x < unat t \<or> unat t + 4096 \<le> unat x" for x
    using that by (simp add: m_def page_store_outside [OF assms])
  ultimately show ?thesis using a by (intro that [of m]) (simp_all add: m_def)
qed

text \<open>
  The frame \<open>f\<close> in kernel space: its four pages and the page table word lie above the heap, and
  not on the magic number of the thread \<open>t\<close>.
\<close>

definition frame_clear :: "kstate \<Rightarrow> ptr \<Rightarrow> ptr \<Rightarrow> bool" where
  "frame_clear s f t \<longleftrightarrow> 0x80000000 \<le> unat (Kptov f) \<and> unat (Kptov f) + 16384 \<le> 4294967296 \<and>
     0x80000000 \<le> unat (pte_slot s (Kptov f)) \<and> unat (pte_slot s (Kptov f)) + 4 \<le> 4294967296 \<and> untouched s f (t + 40)"

lemma not_within:
  assumes "unat p + n \<le> 4294967296" and "unat x < unat p \<or> unat p + n \<le> unat x"
  shows "\<not> within x p n"
proof (cases "unat p \<le> unat x")
  case True
  then have "unat (x - p) = unat x - unat p" by (intro unat_sub) (simp add: word_le_nat_alt)
  then show ?thesis using assms True by (auto simp: within_def)
next
  case False
  then have "unat (x - p) = 4294967296 + unat x - unat p"
    by (simp add: unat_sub_if' word_le_nat_alt)
  then show ?thesis using assms(1) False by (auto simp: within_def)
qed

text \<open>The new thread's page, before it is entered into the lists.\<close>

lemma new_page:
  assumes s: "sched lim s t Q" and p: "paging_ok s" and f: "free_frames (physical_page_entries s) = f # fs"
    and cl: "frame_clear s f t" and fl: "flags AND F_ZERO \<noteq> 0"
  obtains m c ps where "palloc_kern 1 flags s = ret (Kptov f) (s\<lparr>kmem := m, con := c, physical_page_entries := ps\<rparr>)"
    and "free_frames ps = fs" and "page_aligned (Kptov f)"
    and "\<And>x. unat x < unat (Kptov f) \<Longrightarrow> unat x < unat (pte_slot s (Kptov f)) \<Longrightarrow> m x = kmem s x"
    and "ld32 m (t + 40) = rd s (t + 40)" and "t \<noteq> (Kptov f)"
proof -
  let ?u = "Kptov f"
  obtain m c ps where run: "palloc_kern 1 flags s = ret ?u (s\<lparr>kmem := m, con := c, physical_page_entries := ps\<rparr>)"
    and fr: "free_frames ps = fs" and a: "page_aligned f"
    and old: "\<And>x. \<not> within x ?u 16384 \<Longrightarrow> \<not> within x (pte_slot s ?u) 4 \<Longrightarrow> m x = kmem s x"
    by (rule palloc_zeroed [OF p f fl]) (rule that)
  have "m x = kmem s x" if "unat x < unat ?u" "unat x < unat (pte_slot s ?u)" for x
    using cl that by (intro old not_within) (simp_all add: frame_clear_def)
  moreover have "ld32 m (t + 40) = rd s (t + 40)"
  proof (rule ld32_cong)
    fix k :: u32 assume "unat k < 4"
    then show "m (t + 40 + k) = kmem s (t + 40 + k)"
      using cl by (intro old) (simp_all add: frame_clear_def untouched_def)
  qed
  moreover have "t \<noteq> ?u"
  proof
    assume "t = ?u"
    then have "within (t + 40 + 0) (Kptov f) 16384" by (simp add: within_def)
    moreover have "\<not> within (t + 40 + 0) (Kptov f) 16384"
      using cl unfolding frame_clear_def untouched_def by (metis unat_0 zero_less_numeral)
    ultimately show False by simp
  qed
  moreover have "page_aligned ?u" using a by simp
  ultimately show ?thesis using that run fr by blast
qed

lemma new_thread:
  assumes s: "sched lim s t Q" and p: "paging_ok s" and f: "free_frames (physical_page_entries s) = f # fs"
    and cl: "frame_clear s f t" and fl: "flags AND F_ZERO \<noteq> 0"
  obtains m c ps s1 where "palloc_kern 1 flags s = ret (Kptov f) s1"
    and "thread_stack sy (Kptov f) func aux (snd (int_disable (thread_fields (Kptov f) s1))) =
      ret () (s\<lparr>kmem := m, con := c, physical_page_entries := ps, num_threads := num_threads s + 1, iflag := False\<rparr>)"
    and "fst (int_disable (thread_fields (Kptov f) s1)) = iflag s"
    and "free_frames ps = fs" and "sched lim (s\<lparr>kmem := m\<rparr>) t Q" and "thread_ok (s\<lparr>kmem := m\<rparr>) (Kptov f)"
    and "new_stack_at sy (Kptov f) func aux m" and "ld32 m ((Kptov f) + 4) = num_threads s + 1" and "ld32 m ((Kptov f) + 24) = TS_BLOCKED"
    and "\<And>x. unat x < unat (Kptov f) \<Longrightarrow> unat x < unat (pte_slot s (Kptov f)) \<Longrightarrow> m x = kmem s x"
proof -
  let ?u = "Kptov f"
  obtain m1 c ps where run: "palloc_kern 1 flags s = ret ?u (s\<lparr>kmem := m1, con := c, physical_page_entries := ps\<rparr>)"
    and fr: "free_frames ps = fs" and a: "page_aligned ?u"
    and below1: "\<And>x. unat x < unat ?u \<Longrightarrow> unat x < unat (pte_slot s ?u) \<Longrightarrow> m1 x = kmem s x" and t1: "ld32 m1 (t + 40) = rd s (t + 40)" and tu: "t \<noteq> ?u"
    by (rule new_page [OF s p f cl fl]) (rule that)
  let ?s1 = "s\<lparr>kmem := m1, con := c, physical_page_entries := ps\<rparr>"
  obtain m2 where fields: "thread_fields ?u ?s1 = ?s1\<lparr>num_threads := num_threads ?s1 + 1, kmem := m2\<rparr>"
    and w: "ld32 m2 ?u = ?u + PGSIZE" "ld32 m2 (?u + 4) = num_threads ?s1 + 1" "ld32 m2 (?u + 24) = TS_BLOCKED"
      "ld32 m2 (?u + 40) = T_MAGIC"
    and out2: "\<And>x. unat x < unat ?u \<or> unat ?u + 4096 \<le> unat x \<Longrightarrow> m2 x = kmem ?s1 x"
    by (rule thread_fields_result [OF a]) (rule that)
  let ?s2 = "s\<lparr>kmem := m2, con := c, physical_page_entries := ps, num_threads := num_threads s + 1, iflag := False\<rparr>"
  have d: "int_disable (thread_fields ?u ?s1) = (iflag s, ?s2)"
    unfolding fields by (simp add: int_defs Let_def)
  have m2: "thr_stack ?s2 ?u = ?u + PGSIZE" "is_thread ?u ?s2" using w by (simp_all add: is_thread_def)
  obtain m3 where st: "thread_stack sy ?u func aux ?s2 = ret () (?s2\<lparr>kmem := m3\<rparr>)" "new_stack_at sy ?u func aux m3"
    and k3: "\<And>j. 4 \<le> unat j \<Longrightarrow> unat j < 44 \<Longrightarrow> aligned j \<Longrightarrow> ld32 m3 (?u + j) = rd ?s2 (?u + j)"
    and out3: "\<And>x. unat x < unat ?u \<or> unat ?u + 4096 \<le> unat x \<Longrightarrow> m3 x = kmem ?s2 x"
    by (rule thread_stack_result [OF a m2, where sy = sy and func = func and aux = aux]) (rule that)
  have u: "0x80000000 \<le> unat ?u" "0x80000000 \<le> unat (pte_slot s ?u)" using cl by (simp_all add: frame_clear_def)
  have below: "m3 x = kmem s x" if "unat x < unat ?u" "unat x < unat (pte_slot s ?u)" for x
    using that out2 [of x] out3 [of x] below1 [of x] by simp
  have low: "m3 x = kmem s x" if "unat x < lim" for x
    using that queues_lim [OF schedD(1) [OF s]] u by (intro below) simp_all
  have "ld32 m3 (t + 40) = ld32 m1 (t + 40)"
  proof (rule ld32_cong)
    fix k :: u32 assume k: "unat k < 4"
    have "page_aligned t" using schedD(3) [OF s] by (simp add: thread_ok_def)
    then have "unat (t + (40 + k)) = unat t + 40 + unat k" "unat t + 4096 \<le> unat ?u \<or> unat ?u + 4096 \<le> unat t"
      using k page_plus_unat [of t "40 + k"] pages_apart [OF _ a tu] by (simp_all add: unat_plus_small)
    then have "unat (t + 40 + k) < unat ?u \<or> unat ?u + 4096 \<le> unat (t + 40 + k)" using k by (auto simp: add.assoc)
    then show "m3 (t + 40 + k) = m1 (t + 40 + k)" using out2 out3 by simp
  qed
  then have "is_thread t (s\<lparr>kmem := m3\<rparr>)" using t1 schedD(3) [OF s] by (simp add: is_thread_def thread_ok_def)
  moreover have "queues lim (s\<lparr>kmem := m3\<rparr>) Q"
    by (rule queues_cong [OF schedD(1) [OF s]]) (simp_all add: low)
  ultimately have "sched lim (s\<lparr>kmem := m3\<rparr>) t Q"
    using s by (auto simp: sched_def running_def thread_ok_def)
  moreover have "thread_ok (s\<lparr>kmem := m3\<rparr>) ?u"
    using a u w(4) k3 [of 40] by (simp add: thread_ok_def is_thread_def)
  moreover have "ld32 m3 (?u + 4) = num_threads s + 1" "ld32 m3 (?u + 24) = TS_BLOCKED"
    using w k3 [of 4] k3 [of 24] by simp_all
  moreover have "?s2\<lparr>kmem := m3\<rparr> = s\<lparr>kmem := m3, con := c, physical_page_entries := ps, num_threads := num_threads s + 1, iflag := False\<rparr>"
    by simp
  ultimately show ?thesis using run d st fr below by (intro that [where ?s1.0 = ?s1 and m = m3 and c = c and ps = ps]) simp_all
qed

text \<open>A blocked thread is entered at the end of both lists.\<close>

lemma thread_enters:
  assumes s: "sched lim s t Q" and ok: "thread_ok s u" and b: "thr_status s u = TS_BLOCKED"
    and a: "Q (all_threads s) = Some as" and r: "Q (ready_threads s) = Some xs"
    and ar: "all_threads s \<noteq> ready_threads s" and m: "unat (firstFreeSegment s) + 104 \<le> lim"
  obtains s' where "seq (append (env_vp E) (all_threads s) u s) (\<lambda>_ s. seq (thread_unblock E u s) (\<lambda>_ s. ret u s)) = ret u s'"
    and "sched lim s' t (Q(all_threads s \<mapsto> as @ [u], ready_threads s \<mapsto> xs @ [u]))"
    and "same_kernel s s'" and "iflag s' = iflag s" and "thr_status s' u = TS_READY" and "kept_but {u + 24} s s'"
    and "unat (firstFreeSegment s') \<le> unat (firstFreeSegment s) + 80"
proof -
  have m1: "room lim s" using m by (simp add: room_def)
  obtain m3 where ap: "append (env_vp E) (all_threads s) u s = ret () (s\<lparr>kmem := m3, firstFreeSegment := firstFreeSegment s + 40\<rparr>)"
    and s3: "sched lim (s\<lparr>kmem := m3, firstFreeSegment := firstFreeSegment s + 40\<rparr>) t (Q(all_threads s \<mapsto> as @ [u]))"
    and o: "\<And>x. lim \<le> unat x \<Longrightarrow> m3 x = kmem s x"
    by (rule sched_append [OF s a m1, where vp = "env_vp E" and d = u]) (rule that)
  let ?s3 = "s\<lparr>kmem := m3, firstFreeSegment := firstFreeSegment s + 40\<rparr>"
  have k3: "kept_but {} s ?s3"
    by (rule kept_but_above [OF kept_but_refl [OF refl] queues_lim [OF schedD(1) [OF s]]]) (simp add: o)
  have ok3: "thread_ok ?s3 u" by (rule thread_ok_kept [OF k3 ok]) simp
  have "rd ?s3 (u + 24) = rd s (u + 24)"
    using k3 thread_word [OF ok, of 24] by (simp add: kept_but_def)
  then have u: "is_thread u ?s3" "thr_status ?s3 u = TS_BLOCKED" "page_aligned u" "0x80000000 \<le> unat u"
    using ok3 b by (simp_all add: thread_ok_def)
  have f: "unat (firstFreeSegment ?s3) = unat (firstFreeSegment s) + 40"
    using m queues_lim [OF schedD(1) [OF s]] by (simp add: unat_plus_small)
  then have r3: "(Q(all_threads s \<mapsto> as @ [u])) (ready_threads ?s3) = Some xs" "room lim ?s3"
    using r ar m by (simp_all add: room_def)
  obtain s' where s': "thread_unblock E u ?s3 = ret () s'"
    "sched lim s' t (Q(all_threads s \<mapsto> as @ [u], ready_threads s \<mapsto> xs @ [u]))"
    "same_kernel ?s3 s'" "iflag s' = iflag s" "thr_status s' u = TS_READY" "kept_but {u + 24} ?s3 s'"
    "unat (firstFreeSegment s') \<le> unat (firstFreeSegment ?s3) + 40"
    using unblock_step [OF s3 r3 u(3,4), of E] u(1,2) by auto
  have "same_kernel s s'" by (rule same_kernel_trans [OF _ s'(3)]) simp
  moreover have "kept_but {u + 24} s s'" by (rule kept_but_trans [OF k3 s'(6)]) simp_all
  moreover have "unat (firstFreeSegment s') \<le> unat (firstFreeSegment s) + 80" using s'(7) f by linarith
  ultimately show ?thesis using ap s' by (intro that) simp_all
qed

lemma thread_create_step:
  assumes s: "sched lim s t Q" and "paging_ok s" and "free_frames (physical_page_entries s) = f # fs"
    and "frame_clear s f t" and a: "Q (all_threads s) = Some as" and r: "Q (ready_threads s) = Some xs"
    and ar: "all_threads s \<noteq> ready_threads s" and m: "unat (firstFreeSegment s) + 104 \<le> lim"
  shows "\<exists>s'. thread_create E func aux s = ret (Kptov f) s' \<and>
    sched lim s' t (Q(all_threads s \<mapsto> as @ [Kptov f], ready_threads s \<mapsto> xs @ [Kptov f])) \<and>
    thread_ok s' (Kptov f) \<and> thr_id s' (Kptov f) = num_threads s + 1 \<and> thr_status s' (Kptov f) = TS_READY \<and>
    new_stack_at (env_symbols E) (Kptov f) func aux (kmem s') \<and>
    free_frames (physical_page_entries s') = fs \<and> num_threads s' = num_threads s + 1 \<and> iflag s' = iflag s \<and>
    unat (firstFreeSegment s') \<le> unat (firstFreeSegment s) + 80 \<and>
    (\<exists>ps. same_kernel (s\<lparr>physical_page_entries := ps, num_threads := num_threads s + 1\<rparr>) s') \<and>
    (\<forall>a. kernel_word a \<and> unat a + 4 \<le> unat (Kptov f) \<and> unat a + 4 \<le> unat (pte_slot s (Kptov f)) \<longrightarrow> rd s' a = rd s a)"
proof -
  let ?u = "Kptov f" and ?flags = "F_ASSERT OR F_KERN OR F_ZERO OR F_VERBOSE"
  have fl: "?flags AND F_ZERO \<noteq> 0" by (simp add: page_flags)
  obtain m1 c ps s1 where run: "palloc_kern 1 ?flags s = ret ?u s1"
    and st: "thread_stack (env_symbols E) ?u func aux (snd (int_disable (thread_fields ?u s1))) =
      ret () (s\<lparr>kmem := m1, con := c, physical_page_entries := ps, num_threads := num_threads s + 1, iflag := False\<rparr>)"
    and i: "fst (int_disable (thread_fields ?u s1)) = iflag s" and fr: "free_frames ps = fs"
    and sc: "sched lim (s\<lparr>kmem := m1\<rparr>) t Q" and ok: "thread_ok (s\<lparr>kmem := m1\<rparr>) ?u"
    and n: "new_stack_at (env_symbols E) ?u func aux m1" "ld32 m1 (?u + 4) = num_threads s + 1" "ld32 m1 (?u + 24) = TS_BLOCKED"
    and below: "\<And>x. unat x < unat ?u \<Longrightarrow> unat x < unat (pte_slot s ?u) \<Longrightarrow> m1 x = kmem s x"
    by (rule new_thread [OF assms(1-4) fl, where sy = "env_symbols E" and func = func and aux = aux]) (rule that)
  let ?s2 = "s\<lparr>kmem := m1, con := c, physical_page_entries := ps, num_threads := num_threads s + 1, iflag := iflag s\<rparr>"
  have ist: "int_set (iflag s) (s\<lparr>kmem := m1, con := c, physical_page_entries := ps, num_threads := num_threads s + 1, iflag := False\<rparr>) = ?s2"
    by (simp add: int_defs Let_def)
  have q2: "queues lim ?s2 Q" by (rule queues_cong [OF schedD(1) [OF sc]]) simp_all
  have s2: "sched lim ?s2 t Q"
    by (rule sched_above [OF sc refl q2]) (use s in \<open>simp_all add: sched_def\<close>)
  have ok2: "thread_ok ?s2 ?u" using ok by (simp add: thread_ok_def is_thread_def)
  have h: "thr_status ?s2 ?u = TS_BLOCKED" "Q (all_threads ?s2) = Some as" "Q (ready_threads ?s2) = Some xs"
    "all_threads ?s2 \<noteq> ready_threads ?s2" "unat (firstFreeSegment ?s2) + 104 \<le> lim"
    using n(3) a r ar m by simp_all
  obtain s' where en: "seq (append (env_vp E) (all_threads ?s2) ?u ?s2) (\<lambda>_ s. seq (thread_unblock E ?u s) (\<lambda>_ s. ret ?u s)) = ret ?u s'"
    and s': "sched lim s' t (Q(all_threads ?s2 \<mapsto> as @ [?u], ready_threads ?s2 \<mapsto> xs @ [?u]))" "same_kernel ?s2 s'"
      "iflag s' = iflag ?s2" "thr_status s' ?u = TS_READY" and k: "kept_but {?u + 24} ?s2 s'"
    and fb: "unat (firstFreeSegment s') \<le> unat (firstFreeSegment ?s2) + 80"
    by (rule thread_enters [OF s2 ok2 h, where E = E]) (rule that)
  have "thread_create E func aux s = ret ?u s'"
    using run st i ist en by (simp add: thread_create_def case_prod_beta)
  moreover have kw: "rd s' (?u + j) = ld32 m1 (?u + j)" if "unat j \<le> 4092" "aligned j" "j \<noteq> 24" for j
    using k thread_word [OF ok2 that(1,2)] that(3) by (simp add: kept_but_def)
  have "new_stack_at (env_symbols E) ?u func aux (kmem s')"
    using n(1) kw [of 0] by (simp add: new_stack_at_def kw)
  moreover have "thr_id s' ?u = num_threads s + 1" using kw [of 4] n(2) by simp
  moreover have "thread_ok s' ?u" by (rule thread_ok_kept [OF k ok2]) simp
  moreover have "physical_page_entries s' = ps" "num_threads s' = num_threads s + 1"
    using same_kernelD(7,8) [OF s'(2)] by simp_all
  moreover have "same_kernel (s\<lparr>physical_page_entries := ps, num_threads := num_threads s + 1\<rparr>) s'"
    by (rule same_kernel_trans [OF _ s'(2)]) (simp add: same_kernel_def restore_def)
  moreover have "rd s' w = rd s w" if w: "kernel_word w" "unat w + 4 \<le> unat ?u" "unat w + 4 \<le> unat (pte_slot s ?u)" for w
  proof -
    have "w \<noteq> ?u + 24" using w(2) thread_ok_field [OF ok2, of 24] by auto
    then have "rd s' w = ld32 m1 w" using k w(1) by (simp add: kept_but_def)
    also have "\<dots> = rd s w"
      by (rule ld32_cong, rule below) (use w in \<open>simp_all add: unat_plus_small kernel_word_def\<close>)
    finally show ?thesis .
  qed
  ultimately show ?thesis using s' fb fr by auto
qed

text \<open>
  C12: \<^verbatim>\<open>thread_create\<close>, with a frame left and room on the heap: the new thread is a page with the
  next id, the magic number and a stack on which the first switch finds \<^verbatim>\<open>run\<close> with the function
  and its argument; it is ready, at the end of both lists, and the caller runs on, its interrupt
  flag as before.
\<close>

theorem thread_create_result:
  assumes s: "sched lim s t Q" and "paging_ok s" and "free_frames (physical_page_entries s) = f # fs"
    and "frame_clear s f t" and a: "Q (all_threads s) = Some as" and r: "Q (ready_threads s) = Some xs"
    and ar: "all_threads s \<noteq> ready_threads s" and m: "unat (firstFreeSegment s) + 104 \<le> lim"
  shows "\<exists>s'. thread_create E func aux s = ret (Kptov f) s' \<and>
    sched lim s' t (Q(all_threads s \<mapsto> as @ [Kptov f], ready_threads s \<mapsto> xs @ [Kptov f])) \<and>
    thread_ok s' (Kptov f) \<and> thr_id s' (Kptov f) = num_threads s + 1 \<and> thr_status s' (Kptov f) = TS_READY \<and>
    new_stack_at (env_symbols E) (Kptov f) func aux (kmem s') \<and>
    free_frames (physical_page_entries s') = fs \<and> num_threads s' = num_threads s + 1 \<and> iflag s' = iflag s"
  using thread_create_step [OF assms, of E func aux] by blast

section \<open>\<^verbatim>\<open>thread_kill\<close>\<close>

lemma sched_remove:
  assumes "sched lim s t Q" and "Q l = Some xs" and "xs \<noteq> []"
  obtains m where "remove l d s = ret (d \<in> set xs) (s\<lparr>kmem := m\<rparr>)"
    and "sched lim (s\<lparr>kmem := m\<rparr>) t (Q(l \<mapsto> remove1 d xs))" and "\<And>x. lim \<le> unat x \<Longrightarrow> m x = kmem s x"
proof -
  obtain m where m: "remove l d s = ret (d \<in> set xs) (s\<lparr>kmem := m\<rparr>)"
    "queues lim (s\<lparr>kmem := m\<rparr>) (Q(l \<mapsto> remove1 d xs))" "\<And>x. lim \<le> unat x \<Longrightarrow> m x = kmem s x"
    by (rule queues_remove [OF schedD(1) [OF assms(1)] assms(2,3), where d = d]) (rule that)
  have "sched lim (s\<lparr>kmem := m\<rparr>) t (Q(l \<mapsto> remove1 d xs))"
    using assms(1) by (intro sched_above [OF assms(1) m(3,2)]) (auto simp: sched_def)
  with m show ?thesis using that by blast
qed

lemma thread_kill_step:
  assumes s: "sched lim s t Q" and a: "Q (all_threads s) = Some as" "as \<noteq> []"
    and r: "Q (ready_threads s) = Some xs" "xs \<noteq> []" and n: "all_threads s \<noteq> ready_threads s"
  obtains m c where "thread_kill p s = ret () (s\<lparr>kmem := m, con := c\<rparr>)"
    and "sched lim (s\<lparr>kmem := m, con := c\<rparr>) t (Q(all_threads s \<mapsto> remove1 p as, ready_threads s \<mapsto> remove1 p xs))"
    and "\<And>x. lim \<le> unat x \<Longrightarrow> m x = kmem s x"
proof -
  have dec: "2 \<le> BASE_DEC" "BASE_DEC \<le> 16" by (simp_all add: base_defs)
  obtain g where g: "kprint_num (thr_id s p) BASE_DEC (kprintln ''KILLING THREAD: '' s) =
      ret () (con_update g (kprintln ''KILLING THREAD: '' s))"
    using kprint_num_returns [OF dec] by blast
  define c where "c = g (println (lit ''KILLING THREAD: '') (con s))"
  have e: "con_update g (kprintln ''KILLING THREAD: '' s) = s\<lparr>con := c\<rparr>"
    by (rule kstate.equality) (simp_all add: c_def)
  have s1: "sched lim (s\<lparr>con := c\<rparr>) t Q"
    by (rule sched_above [OF s refl queues_cong [OF schedD(1) [OF s]]]) (use s in \<open>simp_all add: sched_def\<close>)
  obtain m1 where m1: "remove (all_threads s) p (s\<lparr>con := c\<rparr>) = ret (p \<in> set as) (s\<lparr>con := c, kmem := m1\<rparr>)"
    "sched lim (s\<lparr>con := c, kmem := m1\<rparr>) t (Q(all_threads s \<mapsto> remove1 p as))"
    "\<And>x. lim \<le> unat x \<Longrightarrow> m1 x = kmem (s\<lparr>con := c\<rparr>) x"
    by (rule sched_remove [OF s1 a, where d = p]) (rule that)
  have r': "(Q(all_threads s \<mapsto> remove1 p as)) (ready_threads s) = Some xs" using r n by simp
  obtain m2 where m2: "remove (ready_threads s) p (s\<lparr>con := c, kmem := m1\<rparr>) =
      ret (p \<in> set xs) (s\<lparr>con := c, kmem := m1\<rparr>\<lparr>kmem := m2\<rparr>)"
    "sched lim (s\<lparr>con := c, kmem := m1\<rparr>\<lparr>kmem := m2\<rparr>) t (Q(all_threads s \<mapsto> remove1 p as, ready_threads s \<mapsto> remove1 p xs))"
    "\<And>x. lim \<le> unat x \<Longrightarrow> m2 x = kmem (s\<lparr>con := c, kmem := m1\<rparr>) x"
    by (rule sched_remove [OF m1(2) r' r(2), where d = p]) (rule that)
  have "thread_kill p s = ret () (s\<lparr>kmem := m2, con := c\<rparr>)"
    using m1(1) m2(1) unfolding thread_kill_def g seq_Inr e by simp
  moreover have "s\<lparr>con := c, kmem := m1\<rparr>\<lparr>kmem := m2\<rparr> = s\<lparr>kmem := m2, con := c\<rparr>" by simp
  then have "sched lim (s\<lparr>kmem := m2, con := c\<rparr>) t (Q(all_threads s \<mapsto> remove1 p as, ready_threads s \<mapsto> remove1 p xs))"
    using m2(2) by (simp only:)
  ultimately show ?thesis using m1(3) m2(3) by (intro that [where m = m2 and c = c]) simp_all
qed

text \<open>
  C28: the thread that is switched to after \<^verbatim>\<open>run\<close> has ended ends the dying one: it is running with a
  new time slice, and the dying thread is on neither list any more. Both lists must have an element
  left: \<^verbatim>\<open>remove\<close> follows the head of an empty list, so another thread has to be ready.
\<close>

theorem dying_thread_leaves:
  assumes s: "sched lim s t Q" and a: "Q (all_threads s) = Some as" "as \<noteq> []"
    and r: "Q (ready_threads s) = Some xs" "xs \<noteq> []" and n: "all_threads s \<noteq> ready_threads s"
    and p: "thread_ok s p" "p \<noteq> t" "thr_status s p = TS_DYING" and d: "distinct as" "distinct xs"
  shows "\<exists>s'. switch_complete p s = ret () s' \<and>
    sched lim s' t (Q(all_threads s \<mapsto> removeAll p as, ready_threads s \<mapsto> removeAll p xs)) \<and>
    thr_status s' t = TS_RUNNING \<and> tick_count s' = 0"
proof -
  have t: "thread_ok s t" by (rule schedD(3) [OF s])
  let ?s1 = "(wr (t + 24) TS_RUNNING s)\<lparr>tick_count := 0\<rparr>"
  have s1: "sched lim ?s1 t Q" using sched_wr [OF s t, of 24] by simp
  have "p + 24 \<noteq> t + 24" using p(2) by simp
  then have st: "thr_status ?s1 p = TS_DYING"
    using p(3) thread_ok_aligned [OF p(1)] thread_ok_aligned [OF t] by simp
  have f: "Q (all_threads ?s1) = Some as" "Q (ready_threads ?s1) = Some xs" "all_threads ?s1 \<noteq> ready_threads ?s1"
    using a r n by simp_all
  obtain m c where k: "thread_kill p ?s1 = ret () (?s1\<lparr>kmem := m, con := c\<rparr>)"
    "sched lim (?s1\<lparr>kmem := m, con := c\<rparr>) t (Q(all_threads ?s1 \<mapsto> remove1 p as, ready_threads ?s1 \<mapsto> remove1 p xs))"
    "\<And>x. lim \<le> unat x \<Longrightarrow> m x = kmem ?s1 x"
    by (rule thread_kill_step [OF s1 f(1) a(2) f(2) r(2) f(3), where p = p]) (rule that)
  have w: "unat (t + 24) + 4 \<le> 4294967296" "0x80000000 \<le> unat (t + 24)"
    using thread_ok_field [OF t, of 24] t by (simp_all add: thread_ok_def)
  have "ld32 m (t + 24) = rd ?s1 (t + 24)"
    by (rule ld32_cong, rule k(3)) (use w queues_lim [OF schedD(1) [OF s]] in \<open>simp add: unat_plus_small\<close>)
  then have "ld32 m (t + 24) = TS_RUNNING" using thread_ok_aligned [OF t] by simp
  moreover have "switch_complete p s = ret () (?s1\<lparr>kmem := m, con := c\<rparr>)"
    using st k(1) schedD(2) [OF s] by (simp add: switch_complete_def Let_def)
  ultimately show ?thesis
    using k(2) d by (intro exI [of _ "?s1\<lparr>kmem := m, con := c\<rparr>"]) (simp add: distinct_remove1_removeAll)
qed

text \<open>
  A kernel with both lists empty on the boot page tables, for the witnesses: the heap of
  \<^verbatim>\<open>s\<close> below the first page, the boot tables and the boot thread above.
\<close>

definition on_boot :: "kstate \<Rightarrow> ptr \<Rightarrow> ptr \<Rightarrow> kstate" where
  "on_boot s a r = s\<lparr>kmem := (\<lambda>x. if unat x < 4096 then kmem s x else kmem boot_thread_state x),
     physical_page_entries := boot_pages, esp := 0xC0007F00, iflag := True, all_threads := a, ready_threads := r\<rparr>"

lemma on_boot_word:
  assumes "4096 \<le> unat a" and "unat a + 4 \<le> 4294967296"
  shows "rd (on_boot s x r) a = rd boot_thread_state a"
  by (rule ld32_cong) (use assms in \<open>simp add: on_boot_def unat_plus_small\<close>)

lemma on_boot_pde [simp]: "pde_at (kmem (on_boot s x r)) v = pde_at (kmem boot_thread_state) v"
proof -
  have "unat (PAGE_DIRECTORY_BASE + 4 * pd_no v) = unat PAGE_DIRECTORY_BASE + 4 * unat (pd_no v)"
    using page_plus_unat [OF page_aligned_PD pd_entry_small] by (simp add: pd_no_bound)
  then have "4096 \<le> unat (PAGE_DIRECTORY_BASE + 4 * pd_no v)" "unat (PAGE_DIRECTORY_BASE + 4 * pd_no v) + 4 \<le> 4294967296"
    using pd_no_bound [of v] by (simp_all add: PAGE_DIRECTORY_BASE_def)
  then show ?thesis by (simp only: pde_at_def on_boot_word)
qed

lemma on_boot_paging: "paging_ok (on_boot s x r)"
proof -
  have "physical_page_entries (on_boot s x r) = boot_pages" "physical_page_entries boot_thread_state = boot_pages"
    by (simp_all add: on_boot_def boot_thread_state_def)
  then show ?thesis
    using boot_thread_state_ok by (simp add: paging_ok_def tables_ok_def frames_ok_def)
qed

lemma on_boot_clear: "frame_clear (on_boot s x r) 0x20000 0xC0007000"
proof -
  have k: "Kptov 0x20000 = 0xC0020000" by (simp add: Kptov_def KERN_BASE_def)
  have "pte_slot (on_boot s x r) 0xC0020000 = pte_slot boot_thread_state 0xC0020000" by (simp add: pte_slot_def)
  then show ?thesis
    using boot_thread_slot unfolding frame_clear_def untouched_def k
    by (intro conjI allI impI within_word) auto
qed

lemma empty_lists_on_boot:
  obtains s a r where "sched 4096 (on_boot s a r) 0xC0007000 [a \<mapsto> [], r \<mapsto> []]" and "a \<noteq> r"
    and "unat (firstFreeSegment (on_boot s a r)) = 80"
proof -
  have f0: "unat (firstFreeSegment heap_state) = 0" using first_free_end [OF heap_state_ok] by simp
  have up: "unat (k + 40) = unat k + 40" if "unat k < 1000" for k :: ptr
    using that unat_plus_small [of k 40] by simp
  have r0: "room 4096 heap_state" by (simp add: room_def f0)
  obtain m1 a where q1: "queues 4096 (heap_state\<lparr>kmem := m1, firstFreeSegment := firstFreeSegment heap_state + 40\<rparr>) [a \<mapsto> []]"
    by (rule queues_init [OF queues_start r0, where vp = 0]) (rule that)
  let ?s1 = "heap_state\<lparr>kmem := m1, firstFreeSegment := firstFreeSegment heap_state + 40\<rparr>"
  have f1: "unat (firstFreeSegment ?s1) = 40" using f0 up by simp
  then have r1: "room 4096 ?s1" by (simp add: room_def)
  obtain m2 r where q2: "queues 4096 (?s1\<lparr>kmem := m2, firstFreeSegment := firstFreeSegment ?s1 + 40\<rparr>) [a \<mapsto> [], r \<mapsto> []]"
    and n: "([a \<mapsto> []] :: ptr \<rightharpoonup> ptr list) r = None"
    by (rule queues_init [OF q1 r1, where vp = 0]) (erule (1) that)
  let ?s2 = "?s1\<lparr>kmem := m2, firstFreeSegment := firstFreeSegment ?s1 + 40\<rparr>" and ?s = "on_boot (?s1\<lparr>kmem := m2, firstFreeSegment := firstFreeSegment ?s1 + 40\<rparr>) a r"
  have "queues 4096 ?s [a \<mapsto> [], r \<mapsto> []]" by (rule queues_cong [OF q2]) (simp_all add: on_boot_def)
  moreover have "rd ?s 0xC0007028 = T_MAGIC"
    by (subst on_boot_word) (simp_all add: boot_thread_state_def)
  then have "running ?s 0xC0007000"
    by (simp add: running_def thread_ok_def is_thread_def page_aligned_def get_base_page_def Let_def PGSIZE_def on_boot_def)
  moreover have "ready_threads ?s = r" by (simp add: on_boot_def)
  ultimately have "sched 4096 ?s 0xC0007000 [a \<mapsto> [], r \<mapsto> []]" by (simp add: sched_def)
  moreover have "a \<noteq> r" using n by (auto split: if_splits)
  moreover have "unat (firstFreeSegment ?s) = 80" using f1 up [of "firstFreeSegment ?s1"] by (simp add: on_boot_def)
  ultimately show ?thesis by (rule that)
qed

theorem thread_create_result_witness:
  "\<exists>s s'. thread_create example_env 0x100 7 s = ret 0xC0020000 s' \<and> thr_status s' 0xC0020000 = TS_READY \<and>
     thr_id s' 0xC0020000 = num_threads s + 1 \<and> iflag s'"
proof -
  obtain s0 a r where s: "sched 4096 (on_boot s0 a r) 0xC0007000 [a \<mapsto> [], r \<mapsto> []]" and n: "a \<noteq> r"
    and f: "unat (firstFreeSegment (on_boot s0 a r)) = 80" by (rule empty_lists_on_boot)
  let ?s = "on_boot s0 a r"
  obtain fs where fs: "free_frames boot_pages = 0x20000 # fs"
    using boot_facts(6,7) by (cases "free_frames boot_pages") auto
  have w: "all_threads ?s = a" "ready_threads ?s = r" "physical_page_entries ?s = boot_pages" "iflag ?s"
    by (simp_all add: on_boot_def)
  have k: "Kptov 0x20000 = 0xC0020000" by (simp add: Kptov_def KERN_BASE_def)
  have h: "free_frames (physical_page_entries ?s) = 0x20000 # fs" "[a \<mapsto> [], r \<mapsto> []] (all_threads ?s) = Some []"
    "[a \<mapsto> [], r \<mapsto> []] (ready_threads ?s) = Some []" "all_threads ?s \<noteq> ready_threads ?s"
    "unat (firstFreeSegment ?s) + 104 \<le> 4096"
    using fs w n f by simp_all
  from thread_create_result [OF s on_boot_paging h(1) on_boot_clear h(2-5), of example_env "0x100" 7]
  show ?thesis unfolding k using w(4) by blast
qed

theorem dying_thread_leaves_witness:
  "\<exists>s s' Q. sched 4096 s 0xC0007000 Q \<and> Q (all_threads s) = Some [0xC0009000] \<and>
     switch_complete 0xC0009000 s = ret () s' \<and> thr_status s' 0xC0007000 = TS_RUNNING \<and>
     sched 4096 s' 0xC0007000 (Q(all_threads s \<mapsto> [], ready_threads s \<mapsto> [0xC000A000]))"
proof -
  obtain s0 a r where s: "sched 4096 (on_boot s0 a r) 0xC0007000 [a \<mapsto> [], r \<mapsto> []]" and n: "a \<noteq> r"
    and f: "unat (firstFreeSegment (on_boot s0 a r)) = 80" by (rule empty_lists_on_boot)
  let ?s = "on_boot s0 a r"
  have l: "[a \<mapsto> [], r \<mapsto> []] a = Some []" "room 4096 ?s" using n f by (simp_all add: room_def)
  obtain m1 where q1: "sched 4096 (?s\<lparr>kmem := m1, firstFreeSegment := firstFreeSegment ?s + 40\<rparr>) 0xC0007000
      ([a \<mapsto> [], r \<mapsto> []](a \<mapsto> [] @ [0xC0009000]))"
    by (rule sched_append [OF s l, where vp = 0 and d = "0xC0009000"]) (rule that)
  let ?s1 = "?s\<lparr>kmem := m1, firstFreeSegment := firstFreeSegment ?s + 40\<rparr>"
  have f1: "unat (firstFreeSegment ?s1) = 120" using f by (simp add: unat_plus_small)
  then have l1: "([a \<mapsto> [], r \<mapsto> []](a \<mapsto> [] @ [0xC0009000])) r = Some []" "room 4096 ?s1"
    using n by (simp_all add: room_def)
  obtain m2 where q2: "sched 4096 (?s1\<lparr>kmem := m2, firstFreeSegment := firstFreeSegment ?s1 + 40\<rparr>) 0xC0007000
      ([a \<mapsto> [], r \<mapsto> []](a \<mapsto> [] @ [0xC0009000], r \<mapsto> [] @ [0xC000A000]))"
    by (rule sched_append [OF q1 l1, where vp = 0 and d = "0xC000A000"]) (rule that)
  let ?Q = "[a \<mapsto> [], r \<mapsto> []](a \<mapsto> [] @ [0xC0009000], r \<mapsto> [] @ [0xC000A000]) :: ptr \<rightharpoonup> u32 list"
  let ?s2 = "wr 0xC0009028 T_MAGIC (wr 0xC0009018 TS_DYING
      (?s1\<lparr>kmem := m2, firstFreeSegment := firstFreeSegment ?s1 + 40\<rparr>))"
  have q3: "queues 4096 ?s2 ?Q" by (intro queues_wr schedD(1) [OF q2]) simp_all
  have w: "all_threads ?s2 = a" "ready_threads ?s2 = r" "esp ?s2 = esp ?s1" by (simp_all add: on_boot_def)
  have "thread_ok ?s2 0xC0007000" "get_base_page (esp ?s2) = 0xC0007000"
    using schedD(2,3) [OF q2] by (simp_all add: thread_ok_def is_thread_def running_def)
  then have c: "sched 4096 ?s2 0xC0007000 ?Q" using q3 unfolding sched_def running_def w by simp
  have p: "thread_ok ?s2 0xC0009000" "thr_status ?s2 0xC0009000 = TS_DYING"
    by (simp_all add: thread_ok_def is_thread_def page_aligned_def)
  have l2: "?Q (all_threads ?s2) = Some [0xC0009000]" "?Q (ready_threads ?s2) = Some [0xC000A000]"
    "all_threads ?s2 \<noteq> ready_threads ?s2" unfolding w using n by simp_all
  define S Q where "S = ?s2" and "Q = ?Q"
  note h = c l2 p
  note h = h [folded S_def Q_def]
  have "\<exists>s'. switch_complete 0xC0009000 S = ret () s' \<and>
    sched 4096 s' 0xC0007000 (Q(all_threads S \<mapsto> removeAll 0xC0009000 [0xC0009000 :: ptr], ready_threads S \<mapsto> removeAll 0xC0009000 [0xC000A000 :: ptr])) \<and>
    thr_status s' 0xC0007000 = TS_RUNNING \<and> tick_count s' = 0"
    by (rule dying_thread_leaves [OF h(1,2) _ h(3) _ h(4,5) _ h(6)]) simp_all
  then have "\<exists>s'. switch_complete 0xC0009000 S = ret () s' \<and> thr_status s' 0xC0007000 = TS_RUNNING \<and>
    sched 4096 s' 0xC0007000 (Q(all_threads S \<mapsto> [], ready_threads S \<mapsto> [0xC000A000]))" by auto
  with h(1,2) show ?thesis by blast
qed

end
