(* ===== verification/Meminit.thy ===== *)
theory Meminit
  imports Create
begin

text \<open>
  What \<^verbatim>\<open>paging_init\<close> (\<^verbatim>\<open>src/paging/paging.c\<close>) leaves: the identity mapping gone, three frames for the
  kernel's pool, one for the first page of the heap and one for the page table that maps it, and
  the frames that are left for threads.
\<close>

section \<open>Frames for threads\<close>

text \<open>
  The layout in which threads are made: the frames \<open>fs\<close> lie above the page of the boot thread in
  ascending order, the four pages that each allocation zeroes end below \<open>T\<close>, and the page tables of
  the kernel window, in which the frames are mapped, lie from \<open>T\<close> on. Any other page table lies there
  too or below all the frames, as that of the heap does, which \<^verbatim>\<open>paging_init\<close> takes from the frames
  before.
\<close>

definition frames_fit :: "nat \<Rightarrow> kstate \<Rightarrow> ptr list \<Rightarrow> bool" where
  "frames_fit T s fs \<longleftrightarrow> T \<le> 4294967296 \<and>
     (\<forall>f \<in> set fs. 0xC0008000 \<le> unat (Kptov f) \<and> unat (Kptov f) + 16384 \<le> T \<and>
       T \<le> unat (table_of (pde_at (kmem s) (Kptov f)))) \<and>
     sorted_wrt (\<lambda>f g. unat (Kptov f) < unat (Kptov g)) fs \<and>
     (\<forall>v. d_present (pde_at (kmem s) v) \<noteq> 0 \<longrightarrow> T \<le> unat (table_of (pde_at (kmem s) v)) \<or>
       (\<forall>f \<in> set fs. unat (table_of (pde_at (kmem s) v)) + 4096 \<le> unat (Kptov f)))"

text \<open>
  The memory before \<^verbatim>\<open>paging_init\<close>: page tables only from \<open>T\<close> on, the frames \<open>fs\<close> below them, and
  the heap's page zero.
\<close>

definition memory_ready :: "nat \<Rightarrow> kstate \<Rightarrow> ptr list \<Rightarrow> bool" where
  "memory_ready T s fs \<longleftrightarrow> paging_ok s \<and> free_frames (physical_page_entries s) = fs \<and> frames_fit T s fs \<and>
     (\<forall>v. d_present (pde_at (kmem s) v) \<noteq> 0 \<longrightarrow> T \<le> unat (table_of (pde_at (kmem s) v))) \<and>
     (\<forall>x. unat x < 4096 \<longrightarrow> kmem s x = 0)"

section \<open>The identity mapping\<close>

text \<open>The page directory's bytes determine the directory entries.\<close>

lemma directory_bytes:
  "unat (PAGE_DIRECTORY_BASE + 4 * pd_no v) + 4 \<le> 0xC0007000 \<and> 0xC0006000 \<le> unat (PAGE_DIRECTORY_BASE + 4 * pd_no v)"
proof -
  have "unat (PAGE_DIRECTORY_BASE + 4 * pd_no v) = unat PAGE_DIRECTORY_BASE + 4 * unat (pd_no v)"
    using page_plus_unat [OF page_aligned_PD pd_entry_small] by (simp add: pd_no_bound)
  then show ?thesis using pd_no_bound [of v] by (simp add: PAGE_DIRECTORY_BASE_def)
qed

lemma pde_at_bytes:
  assumes "\<And>x. 0xC0006000 \<le> unat x \<Longrightarrow> unat x < 0xC0007000 \<Longrightarrow> m x = m' x"
  shows "pde_at m v = pde_at m' v"
  unfolding pde_at_def using directory_bytes [of v]
  by (intro arg_cong [of _ _ pde_decode] ld32_cong assms) (simp_all add: unat_plus_small)

lemma put_pde_byte: "unat x < 0xC0006000 \<or> 0xC0007000 \<le> unat x \<Longrightarrow> put_pde v e m x = m x"
  unfolding put_pde_def using directory_bytes [of v] by (intro st32_frame) auto

lemma put_pte_byte: "unat x < unat (table_of (pde_at m v)) \<Longrightarrow> put_pte v e m x = m x"
proof -
  assume x: "unat x < unat (table_of (pde_at m v))"
  let ?t = "table_of (pde_at m v)"
  have "unat (?t + 4095) = unat ?t + 4095" using page_plus_unat [OF page_aligned_table_of, of 4095] by simp
  then have "unat ?t + 4095 < 4294967296" by (metis unat_lt32)
  moreover have "unat (?t + 4 * pt_no v) = unat ?t + 4 * unat (pt_no v)"
    using page_plus_unat [OF page_aligned_table_of pt_entry_small] by (simp add: pt_no_bound)
  ultimately show "put_pte v e m x = m x"
    unfolding put_pte_def using x pt_no_bound [of v] by (intro st32_frame) auto
qed

lemma clear_entries:
  "\<exists>m. fold (\<lambda>v. set_pde v (\<lambda>e. e\<lparr>d_present := 0\<rparr>)) vs s = s\<lparr>kmem := m\<rparr> \<and>
     (\<forall>v. pde_at m v = (if pd_no v \<in> pd_no ` set vs then (pde_at (kmem s) v)\<lparr>d_present := 0\<rparr> else pde_at (kmem s) v)) \<and>
     (\<forall>x. unat x < 0xC0006000 \<or> 0xC0007000 \<le> unat x \<longrightarrow> m x = kmem s x)"
proof (induction vs arbitrary: s)
  case Nil
  show ?case by (intro exI [of _ "kmem s"]) simp
next
  case (Cons u vs)
  let ?s = "set_pde u (\<lambda>e. e\<lparr>d_present := 0\<rparr>) s"
  obtain m where m: "fold (\<lambda>v. set_pde v (\<lambda>e. e\<lparr>d_present := 0\<rparr>)) vs ?s = ?s\<lparr>kmem := m\<rparr>"
    "\<And>v. pde_at m v = (if pd_no v \<in> pd_no ` set vs then (pde_at (kmem ?s) v)\<lparr>d_present := 0\<rparr> else pde_at (kmem ?s) v)"
    "\<And>x. unat x < 0xC0006000 \<or> 0xC0007000 \<le> unat x \<Longrightarrow> m x = kmem ?s x"
    using Cons [of ?s] by blast
  have p: "pde_at (kmem ?s) v = (if pd_no v = pd_no u then (pde_at (kmem s) v)\<lparr>d_present := 0\<rparr> else pde_at (kmem s) v)" for v
  proof -
    have "pd_no v = pd_no u \<Longrightarrow> pde_at (kmem s) v = pde_at (kmem s) u" by (simp add: pde_at_def)
    then show ?thesis by (simp add: set_pde_def pde_at_put_pde)
  qed
  have "pde_at m v = (if pd_no v \<in> pd_no ` set (u # vs) then (pde_at (kmem s) v)\<lparr>d_present := 0\<rparr> else pde_at (kmem s) v)" for v
    using m(2) [of v] p [of v] by auto
  moreover have "m x = kmem s x" if "unat x < 0xC0006000 \<or> 0xC0007000 \<le> unat x" for x
    using m(3) [OF that] put_pde_byte [OF that] by (simp add: set_pde_def)
  moreover have "fold (\<lambda>v. set_pde v (\<lambda>e. e\<lparr>d_present := 0\<rparr>)) (u # vs) s = s\<lparr>kmem := m\<rparr>"
    using m(1) by (simp add: set_pde_def)
  ultimately show ?case by blast
qed

lemma identity_entries: "pd_no ` set (map (\<lambda>i. of_nat i * 0x400000) [0..<6]) = {0, 1, 2, 3, 4, 5}"
  by (simp add: upt_rec pd_no_def PDSHIFT_def drop_bit_eq_div)

lemma clear_identity_result:
  obtains m where "clear_identity_pages s = s\<lparr>kmem := m\<rparr>"
    and "\<And>v. pde_at m v = (if pd_no v < 6 then (pde_at (kmem s) v)\<lparr>d_present := 0\<rparr> else pde_at (kmem s) v)"
    and "\<And>x. unat x < 0xC0006000 \<or> 0xC0007000 \<le> unat x \<Longrightarrow> m x = kmem s x"
proof -
  have e: "pd_no v \<in> {0, 1, 2, 3, 4, 5} \<longleftrightarrow> pd_no v < 6" for v
  proof
    assume "pd_no v < 6"
    then have "unat (pd_no v) \<in> {0, 1, 2, 3, 4, 5}" by (auto simp: word_less_nat_alt)
    moreover have "pd_no v = of_nat (unat (pd_no v))" by simp
    ultimately show "pd_no v \<in> {0, 1, 2, 3, 4, 5}" by (elim insertE) auto
  qed auto
  have f: "clear_identity_pages s = fold (\<lambda>v. set_pde v (\<lambda>e. e\<lparr>d_present := 0\<rparr>)) (map (\<lambda>i. of_nat i * 0x400000) [0..<6]) s"
    by (simp add: clear_identity_pages_def fold_map comp_def del: upt_rec_numeral)
  from clear_entries [of "map (\<lambda>i. of_nat i * 0x400000) [0..<6]" s, unfolded identity_entries e, folded f] that
  show ?thesis by blast
qed

lemma identity_cleared:
  assumes "memory_ready T s fs"
  obtains m where "clear_identity_pages s = s\<lparr>kmem := m\<rparr>" and "memory_ready T (s\<lparr>kmem := m\<rparr>) fs"
    and "\<And>v. if pd_no v < 6 then d_present (pde_at m v) = 0 else pde_at m v = pde_at (kmem s) v" and "\<And>x. 0xC0007000 \<le> unat x \<Longrightarrow> m x = kmem s x"
proof -
  obtain m where m: "clear_identity_pages s = s\<lparr>kmem := m\<rparr>"
    "\<And>v. pde_at m v = (if pd_no v < 6 then (pde_at (kmem s) v)\<lparr>d_present := 0\<rparr> else pde_at (kmem s) v)"
    "\<And>x. unat x < 0xC0006000 \<or> 0xC0007000 \<le> unat x \<Longrightarrow> m x = kmem s x"
    by (rule clear_identity_result) (rule that)
  note r = assms [unfolded memory_ready_def]
  have hi: "\<not> pd_no (Kptov f) < 6" and ge: "0xC0008000 \<le> unat (Kptov f)" if "f \<in> set fs" for f
  proof -
    show ge: "0xC0008000 \<le> unat (Kptov f)" using r that by (simp add: frames_fit_def)
    have "unat (pd_no (Kptov f)) = unat (Kptov f) div 4194304"
      by (simp add: pd_no_def PDSHIFT_def drop_bit_eq_div unat_div)
    moreover have "768 \<le> unat (Kptov f) div 4194304" using ge by simp
    ultimately show "\<not> pd_no (Kptov f) < 6" by (simp add: word_less_nat_alt)
  qed
  have p: "pde_at m (Kptov f) = pde_at (kmem s) (Kptov f)" if "f \<in> set fs" for f
    using m(2) hi [OF that] by simp
  have d: "d_present (pde_at m v) \<noteq> 0 \<Longrightarrow> pde_at m v = pde_at (kmem s) v" for v
    using m(2) [of v] by (auto split: if_splits)
  have t: "tables_ok m" using r d unfolding paging_ok_def tables_ok_def by metis
  have "frames_ok m (physical_page_entries s)"
    using r p d unfolding paging_ok_def frames_ok_def by (metis (full_types))
  moreover have T: "T \<le> unat (table_of (pde_at m v))" if "d_present (pde_at m v) \<noteq> 0" for v
    using r d [OF that] that by simp
  then have "frames_fit T (s\<lparr>kmem := m\<rparr>) fs" using r p by (simp add: frames_fit_def)
  ultimately have "memory_ready T (s\<lparr>kmem := m\<rparr>) fs"
    using r t T m(3) by (simp add: memory_ready_def paging_ok_def)
  with m show ?thesis by (intro that [of m]) (simp_all add: m(2))
qed

section \<open>The pool\<close>

text \<open>A frame that is mapped at its address in the kernel window; nothing below \<open>T\<close> changes.\<close>

lemma map_kern_page:
  assumes "memory_ready T s (f # fs)"
  obtains m c ps where "get_next_free_physical_page s = (f, s\<lparr>physical_page_entries := ps\<rparr>)"
    and "map_page f (Kptov f) flags (s\<lparr>physical_page_entries := ps\<rparr>) = ret () (s\<lparr>kmem := m, con := c, physical_page_entries := ps\<rparr>)"
    and "memory_ready T (s\<lparr>kmem := m, con := c, physical_page_entries := ps\<rparr>) fs"
    and "\<And>v. pde_at m v = pde_at (kmem s) v" and "\<And>x. unat x < T \<Longrightarrow> m x = kmem s x"
proof (cases s rule: get_next_free_cases)
  case 1
  with assms show ?thesis by (simp add: memory_ready_def)
next
  case (2 a ps)
  note r = assms [unfolded memory_ready_def]
  have a: "a = f" "free_frames ps = fs" using 2 r by simp_all
  have f: "page_aligned f" "d_present (pde_at (kmem s) (Kptov f)) \<noteq> 0"
    using r by (auto simp: paging_ok_def frames_ok_def)
  let ?s = "s\<lparr>physical_page_entries := ps\<rparr>"
  let ?m = "put_pte (Kptov f) (leaf f flags (pte_at (kmem s) (Kptov f))) (kmem s)"
  have t: "tables_ok (kmem s)" "frames_ok (kmem s) ps"
    using r a by (auto simp: paging_ok_def frames_ok_def)
  obtain c where c: "map_page f (Kptov f) flags ?s = ret () (?s\<lparr>kmem := ?m, con := c\<rparr>)"
    using map_page_present [of ?s f "Kptov f" flags] f t by auto
  have e: "?s\<lparr>kmem := ?m, con := c\<rparr> = s\<lparr>kmem := ?m, con := c, physical_page_entries := ps\<rparr>"
    by (rule kstate.equality) simp_all
  have "T \<le> unat (table_of (pde_at (kmem s) (Kptov f)))" using r by (simp add: frames_fit_def)
  then have low: "?m x = kmem s x" if "unat x < T" for x using that by (intro put_pte_byte) simp
  have pd: "pde_at ?m v = pde_at (kmem s) v" for v using t f by simp
  have "memory_ready T (s\<lparr>kmem := ?m, con := c, physical_page_entries := ps\<rparr>) fs"
  proof -
    have "frames_fit T (s\<lparr>kmem := ?m, con := c, physical_page_entries := ps\<rparr>) fs"
      using r by (auto simp: frames_fit_def pd)
    moreover have "4096 \<le> T" using r by (auto simp: frames_fit_def)
    ultimately show ?thesis
      using r t f a low by (simp add: memory_ready_def paging_ok_def pd)
  qed
  then show ?thesis
    using 2(1) a(1) c [unfolded e] low pd by (intro that [where m = ?m and c = c]) simp_all
qed

lemma init_pool_result:
  assumes "memory_ready T s (p # q # r # fs)"
  obtains m c ps where "init_pool F_KERN s = ret (Kptov p) (s\<lparr>kmem := m, con := c, physical_page_entries := ps\<rparr>)"
    and "memory_ready T (s\<lparr>kmem := m, con := c, physical_page_entries := ps\<rparr>) fs"
    and "\<And>v. pde_at m v = pde_at (kmem s) v" and "\<And>x. unat x < T \<Longrightarrow> m x = kmem s x"
proof -
  obtain m1 c1 ps1 where 1: "get_next_free_physical_page s = (p, s\<lparr>physical_page_entries := ps1\<rparr>)"
    "map_page p (Kptov p) F_KERN (s\<lparr>physical_page_entries := ps1\<rparr>) = ret () (s\<lparr>kmem := m1, con := c1, physical_page_entries := ps1\<rparr>)"
    "memory_ready T (s\<lparr>kmem := m1, con := c1, physical_page_entries := ps1\<rparr>) (q # r # fs)"
    "\<And>v. pde_at m1 v = pde_at (kmem s) v" "\<And>x. unat x < T \<Longrightarrow> m1 x = kmem s x"
    by (rule map_kern_page [OF assms, where flags = F_KERN]) (rule that)
  let ?s1 = "s\<lparr>kmem := m1, con := c1, physical_page_entries := ps1\<rparr>"
  obtain m2 c2 ps2 where 2: "get_next_free_physical_page ?s1 = (q, ?s1\<lparr>physical_page_entries := ps2\<rparr>)"
    "map_page q (Kptov q) F_KERN (?s1\<lparr>physical_page_entries := ps2\<rparr>) = ret () (?s1\<lparr>kmem := m2, con := c2, physical_page_entries := ps2\<rparr>)"
    "memory_ready T (?s1\<lparr>kmem := m2, con := c2, physical_page_entries := ps2\<rparr>) (r # fs)"
    "\<And>v. pde_at m2 v = pde_at (kmem ?s1) v" "\<And>x. unat x < T \<Longrightarrow> m2 x = kmem ?s1 x"
    by (rule map_kern_page [OF 1(3), where flags = F_KERN]) (rule that)
  let ?s2 = "?s1\<lparr>kmem := m2, con := c2, physical_page_entries := ps2\<rparr>"
  obtain m3 c3 ps3 where 3: "get_next_free_physical_page ?s2 = (r, ?s2\<lparr>physical_page_entries := ps3\<rparr>)"
    "map_page r (Kptov r) F_KERN (?s2\<lparr>physical_page_entries := ps3\<rparr>) = ret () (?s2\<lparr>kmem := m3, con := c3, physical_page_entries := ps3\<rparr>)"
    "memory_ready T (?s2\<lparr>kmem := m3, con := c3, physical_page_entries := ps3\<rparr>) fs"
    "\<And>v. pde_at m3 v = pde_at (kmem ?s2) v" "\<And>x. unat x < T \<Longrightarrow> m3 x = kmem ?s2 x"
    by (rule map_kern_page [OF 2(3), where flags = F_KERN]) (rule that)
  let ?s3 = "?s2\<lparr>kmem := m3, con := c3, physical_page_entries := ps3\<rparr>"
  have n: "pool_pages = Suc (Suc (Suc 0))" by (simp add: pool_pages_def sizeof_pool_def Let_def)
  have "init_pool F_KERN s = ret (Kptov p) ?s3"
    by (simp only: init_pool_def n init_pool_loop.simps 1(1,2) 2(1,2) 3(1,2) Let_def prod.case seq_Inr if_True if_False)
  moreover have "?s3 = s\<lparr>kmem := m3, con := c3, physical_page_entries := ps3\<rparr>" by simp
  ultimately show ?thesis
    using 1(4,5) 2(4,5) 3(3-5) by (intro that [where m = m3 and c = c3 and ps = ps3]) simp_all
qed

section \<open>The first heap page\<close>

lemma memory_ready_cong:
  assumes "memory_ready T s fs" and "physical_page_entries s' = physical_page_entries s"
    and "\<And>x. unat x < 0xC0008000 \<Longrightarrow> kmem s' x = kmem s x"
  shows "memory_ready T s' fs" and "pde_at (kmem s') v = pde_at (kmem s) v"
proof -
  have p: "pde_at (kmem s') v = pde_at (kmem s) v" for v by (rule pde_at_bytes) (simp add: assms(3))
  then show "pde_at (kmem s') v = pde_at (kmem s) v" .
  show "memory_ready T s' fs"
    using assms by (auto simp: memory_ready_def paging_ok_def tables_ok_def frames_ok_def frames_fit_def p)
qed

lemma memory_ready_take:
  assumes "memory_ready T s (f # fs)"
  obtains ps where "get_next_free_physical_page s = (f, s\<lparr>physical_page_entries := ps\<rparr>)"
    and "memory_ready T (s\<lparr>physical_page_entries := ps\<rparr>) fs" and "page_aligned f"
proof (cases s rule: get_next_free_cases)
  case 1
  with assms show ?thesis by (simp add: memory_ready_def)
next
  case (2 a ps)
  note r = assms [unfolded memory_ready_def]
  have a: "a = f" "free_frames ps = fs" using 2 r by simp_all
  then have "paging_ok (s\<lparr>physical_page_entries := ps\<rparr>)" using paging_ok_take [of s f ps] r by simp
  then have "memory_ready T (s\<lparr>physical_page_entries := ps\<rparr>) fs" using r a by (simp add: memory_ready_def frames_fit_def)
  moreover have "page_aligned f" using r by (auto simp: paging_ok_def frames_ok_def)
  ultimately show ?thesis using that 2(1) a(1) by simp
qed

text \<open>A page of the heap that needs a page table: the table lies in the next frame.\<close>

lemma heap_page_mapped:
  assumes "memory_ready T s (t # fs)" and "page_aligned h" and "d_present (pde_at (kmem s) 0) = 0"
  obtains m c ps where "map_page h 0 flags s = ret () (s\<lparr>kmem := m, con := c, physical_page_entries := ps\<rparr>)"
    and "tables_ok m" and "frames_ok m ps" and "free_frames ps = fs" and "page_aligned t" and "0xC0008000 \<le> unat (Kptov t)"
    and "\<And>v. pde_at m v = (if pd_no v = 0 then new_pde t (pde_at (kmem s) 0) else pde_at (kmem s) v)"
    and "\<exists>e. pte_at m 0 = leaf h flags e" and "\<And>x. unat x < 0xC0006000 \<Longrightarrow> m x = kmem s x"
proof -
  note r = assms(1) [unfolded memory_ready_def]
  have r0: "paging_ok s" "free_frames (physical_page_entries s) \<noteq> []" using r by auto
  have z: "pd_no 0 = 0" by (simp add: pd_no_def)
  obtain f ps c where f: "free_frames (physical_page_entries s) = f # free_frames ps"
    "page_aligned f" "Kptov f \<noteq> PAGE_DIRECTORY_BASE" "d_present (pde_at (kmem s) (Kptov f)) \<noteq> 0"
    "\<And>w. d_present (pde_at (kmem s) w) \<noteq> 0 \<Longrightarrow> table_of (pde_at (kmem s) w) \<noteq> Kptov f"
    and run: "map_page h 0 flags s =
      (let m = put_pte (Kptov f) (leaf f F_KERN (pte_at (kmem s) (Kptov f))) (kmem s);
           m = put_pde 0 (new_pde f (pde_at (kmem s) 0)) m
       in ret () (s\<lparr>kmem := put_pte 0 (leaf h flags (pte_at m 0)) m, con := c, physical_page_entries := ps\<rparr>))"
    by (rule map_page_absent [OF r0(1) assms(2) page_aligned_0 assms(3) r0(2), where flags = flags]) (rule that)
  have ft: "f = t" "free_frames ps = fs" using f(1) r by simp_all
  have fits: "new_table_fits f 0 (kmem s)" using r0(1) assms(3) f by (simp add: new_table_fits_def paging_ok_def)
  note ok = with_table_ok [OF fits]
  let ?m1 = "with_table f 0 (kmem s)"
  let ?m = "put_pte 0 (leaf h flags (pte_at ?m1 0)) ?m1"
  have p0: "d_present (pde_at ?m1 0) \<noteq> 0" by (simp add: ok(1))
  have T: "0xC0008000 \<le> unat (Kptov t)" "unat (Kptov t) + 16384 \<le> T" "T \<le> unat (table_of (pde_at (kmem s) (Kptov t)))"
    using r by (simp_all add: frames_fit_def)
  have tb: "table_of (pde_at ?m1 0) = Kptov t" using f(2) ft(1) ok(1) [of 0] by simp
  have "?m x = kmem s x" if "unat x < 0xC0006000" for x
  proof -
    have "?m x = ?m1 x" using that T(1) tb by (intro put_pte_byte) simp
    also have "\<dots> = put_pte (Kptov f) (leaf f F_KERN (pte_at (kmem s) (Kptov f))) (kmem s) x"
      using that by (simp add: with_table_def put_pde_byte)
    also have "\<dots> = kmem s x" using that T ft(1) by (intro put_pte_byte) simp
    finally show ?thesis .
  qed
  moreover have "frames_ok ?m1 ps" by (rule ok(3) [OF _ f(1)]) (use r0(1) in \<open>simp add: paging_ok_def\<close>)
  then have "frames_ok ?m ps" using ok(2) p0 by simp
  moreover have "map_page h 0 flags s = ret () (s\<lparr>kmem := ?m, con := c, physical_page_entries := ps\<rparr>)"
    using run by (simp only: Let_def with_table_def)
  moreover have "pde_at ?m v = (if pd_no v = 0 then new_pde t (pde_at (kmem s) 0) else pde_at (kmem s) v)" for v
    using p0 ok(1) [of v] ok(2) ft(1) z by simp
  moreover have "\<exists>e. pte_at ?m 0 = leaf h flags e" using p0 ok(2) by (auto simp: pte_at_put_pte)
  moreover have "tables_ok ?m" using p0 ok(2) by simp
  moreover have "page_aligned t" using f(2) ft(1) by simp
  ultimately show ?thesis
    using ft(2) T(1) by (intro that [where m = ?m and c = c and ps = ps]) simp_all
qed

text \<open>What \<^verbatim>\<open>init_heap_page\<close> stores in the pool and in the heap's header.\<close>

lemma pool_page_byte:
  assumes "page_aligned pl" and "unat x < unat pl \<or> unat pl + 4096 \<le> unat x" and "unat k \<le> 4092"
  shows "st32 (pl + k) v m x = m x"
  using page_store_outside [OF assms(1,3,2)] .

definition heap_started :: "ptr \<Rightarrow> kstate \<Rightarrow> kstate" where
  "heap_started pl s = initialiseHeap 0 PGSIZE (wr pl 0 (wr (virt_page pl 0 + 12) 0 (wr (virt_page pl 0 + 8) 0 (wr (virt_page pl 0 + 4) 0 s))))"

lemma heap_started_result:
  assumes pl: "page_aligned pl" "0xC0008000 \<le> unat pl" and z: "\<And>x. unat x < 4096 \<Longrightarrow> kmem s x = 0"
  obtains m where "heap_started pl s = s\<lparr>kmem := m, firstFreeSegment := 0\<rparr>" and "queues 4096 (s\<lparr>kmem := m, firstFreeSegment := 0\<rparr>) Map.empty"
    and "\<And>x. 4096 \<le> unat x \<Longrightarrow> unat x < unat pl \<or> unat pl + 4096 \<le> unat x \<Longrightarrow> m x = kmem s x"
proof -
  let ?m = "st32 pl 0 (st32 (pl + 24) 0 (st32 (pl + 20) 0 (st32 (pl + 16) 0 (kmem s))))"
  let ?s = "s\<lparr>kmem := ?m\<rparr>"
  have o: "?m x = kmem s x" if "unat x < unat pl \<or> unat pl + 4096 \<le> unat x" for x
    using pool_page_byte [OF pl(1) that] pool_page_byte [OF pl(1) that, of 0] by simp
  have "wr pl 0 (wr (virt_page pl 0 + 12) 0 (wr (virt_page pl 0 + 8) 0 (wr (virt_page pl 0 + 4) 0 s))) = ?s"
    by (rule kstate.equality) (simp_all add: virt_page_def add.commute [of pl])
  then have e: "heap_started pl s = initialiseHeap 0 PGSIZE ?s" by (simp only: heap_started_def)
  obtain m where m: "initialiseHeap 0 PGSIZE ?s = ?s\<lparr>firstFreeSegment := 0, kmem := m\<rparr>" "same_outside {0} (kmem ?s) m"
    by (rule initialiseHeap_run [of PGSIZE ?s]) (rule that)
  have "heap_ok (initialiseHeap 0 PGSIZE ?s) [] (unat PGSIZE)"
    by (rule initialiseHeap_ok) (use o z pl(2) in \<open>auto simp: PGSIZE_def inside_def\<close>)
  then have "queues 4096 (initialiseHeap 0 PGSIZE ?s) Map.empty"
    by (intro queues_intro [of _ "[]"]) (simp_all add: PGSIZE_def)
  moreover have "m x = kmem s x" if "4096 \<le> unat x" "unat x < unat pl \<or> unat pl + 4096 \<le> unat x" for x
    using m(2) o [OF that(2)] that(1) by (simp add: same_outside_def inside_def)
  moreover have "?s\<lparr>firstFreeSegment := 0, kmem := m\<rparr> = s\<lparr>kmem := m, firstFreeSegment := 0\<rparr>" by simp
  ultimately show ?thesis using m(1) e by (intro that [of m]) simp_all
qed

text \<open>
  \<^verbatim>\<open>init_heap_page\<close>: linear page 0 is mapped to the first frame, by a page table in the second one, and
  is a heap of one free segment.
\<close>

lemma init_heap_page_result:
  assumes s: "memory_ready T s (h # t # fs)" and pl: "page_aligned pl" "0xC0008000 \<le> unat pl" "unat pl + 4096 \<le> unat (Kptov t)"
    and z: "rd s (pl + 4) = 0" and absent: "d_present (pde_at (kmem s) 0) = 0"
  obtains m c ps where "init_heap_page pl F_KERN s = ret () (s\<lparr>kmem := m, con := c, physical_page_entries := ps, firstFreeSegment := 0\<rparr>)"
    and "queues 4096 (s\<lparr>kmem := m, con := c, physical_page_entries := ps, firstFreeSegment := 0\<rparr>) Map.empty"
    and "tables_ok m" and "frames_ok m ps" and "free_frames ps = fs" and "page_aligned t"
    and "\<And>v. pde_at m v = (if pd_no v = 0 then new_pde t (pde_at (kmem s) 0) else pde_at (kmem s) v)"
    and "\<And>k. unat k < 4096 \<Longrightarrow> mmu m k = Some (h + k)"
proof -
  obtain ps0 where g: "get_next_free_physical_page s = (h, s\<lparr>physical_page_entries := ps0\<rparr>)"
    "memory_ready T (s\<lparr>physical_page_entries := ps0\<rparr>) (t # fs)" "page_aligned h"
    by (rule memory_ready_take [OF s]) (rule that)
  let ?a = "wr8 (virt_page pl 0) M_ALLOCATED (wr (pl + 4) 1 (s\<lparr>physical_page_entries := ps0\<rparr>))"
  have pl12: "unat (pl + 12) = unat pl + 12" by (simp add: page_plus_unat [OF pl(1)])
  have oa: "kmem ?a x = kmem s x" if "unat x < unat pl \<or> unat pl + 4096 \<le> unat x" for x
    using pool_page_byte [OF pl(1) that, of 4 1 "kmem s"] that pl12 by (auto simp: virt_page_def)
  have ma: "memory_ready T ?a (t # fs)" and pa: "\<And>v. pde_at (kmem ?a) v = pde_at (kmem s) v"
    using memory_ready_cong [OF g(2), of ?a] oa pl(2) by auto
  have ab: "d_present (pde_at (kmem ?a) 0) = 0" using absent pa by simp
  obtain m c ps where m: "map_page h 0 F_KERN ?a = ret () (?a\<lparr>kmem := m, con := c, physical_page_entries := ps\<rparr>)"
    "tables_ok m" "frames_ok m ps" "free_frames ps = fs" "page_aligned t" "0xC0008000 \<le> unat (Kptov t)"
    "\<And>v. pde_at m v = (if pd_no v = 0 then new_pde t (pde_at (kmem ?a) 0) else pde_at (kmem ?a) v)"
    "\<exists>e. pte_at m 0 = leaf h F_KERN e" "\<And>x. unat x < 0xC0006000 \<Longrightarrow> m x = kmem ?a x"
    by (rule heap_page_mapped [OF ma g(3) ab, where flags = F_KERN]) (rule that)
  let ?b = "?a\<lparr>kmem := m, con := c, physical_page_entries := ps\<rparr>"
  have zb: "kmem ?b x = 0" if "unat x < 4096" for x
    using m(9) [of x] oa [of x] that pl(2) s by (simp add: memory_ready_def)
  obtain m' where m': "heap_started pl ?b = ?b\<lparr>kmem := m', firstFreeSegment := 0\<rparr>"
    "queues 4096 (?b\<lparr>kmem := m', firstFreeSegment := 0\<rparr>) Map.empty"
    "\<And>x. 4096 \<le> unat x \<Longrightarrow> unat x < unat pl \<or> unat pl + 4096 \<le> unat x \<Longrightarrow> m' x = kmem ?b x"
    by (rule heap_started_result [OF pl(1,2), of ?b]) (erule zb, rule that)
  have e: "?b\<lparr>kmem := m', firstFreeSegment := 0\<rparr> = s\<lparr>kmem := m', con := c, physical_page_entries := ps, firstFreeSegment := 0\<rparr>"
    by (rule kstate.equality) simp_all
  have "init_heap_page pl F_KERN s = ret () (heap_started pl ?b)"
    using z m(1) by (simp add: init_heap_page_def pool_index_def g(1) heap_started_def page_flags Let_def comp_assoc)
  moreover have pd: "pde_at m' v = pde_at m v" for v
    by (rule pde_at_bytes) (use m'(3) pl(2) in simp)
  have pd': "pde_at m' v = (if pd_no v = 0 then new_pde t (pde_at (kmem s) 0) else pde_at (kmem s) v)" for v
    by (simp only: pd m(7) pa)
  have ok: "tables_ok m'" "frames_ok m' ps" using m(2,3) by (simp_all add: tables_ok_def frames_ok_def pd)
  have mm: "mmu m' (0 + k) = Some (h + k)" if k: "unat k < 4096" for k
  proof -
    have z0: "pd_no 0 = 0" "pt_no 0 = 0" by (simp_all add: pd_no_def pt_no_def)
    have tb: "table_of (pde_at m 0) = Kptov t" using m(5,7) by (simp add: z0)
    have "ld32 m' (Kptov t) = ld32 m (Kptov t)"
      by (rule ld32_cong) (use m(5,6) pl m'(3) page_plus_unat in simp)
    then have "pte_at m' 0 = pte_at m 0" by (simp add: pte_at_def pd tb z0)
    moreover obtain x where "pte_at m 0 = leaf h F_KERN x" using m(8) by blast
    ultimately show ?thesis
      by (intro mmu_leaf [OF page_aligned_0 g(3) k]) (simp_all add: pd m(7) z0)
  qed
  ultimately show ?thesis
    using ok m'(1,2) [unfolded e] m(4,5) pd' mm by (intro that [where m = m' and c = c and ps = ps]) simp_all
qed

section \<open>\<^verbatim>\<open>paging_init\<close>\<close>

lemma frames_after:
  assumes "frames_fit T s (f # fs)" and "g \<in> set fs" and "page_aligned f" and "page_aligned g"
  shows "unat (Kptov f) + 4096 \<le> unat (Kptov g)"
proof -
  have "unat (Kptov f) < unat (Kptov g)" using assms(1,2) by (simp add: frames_fit_def)
  then show ?thesis using pages_apart [of "Kptov f" "Kptov g"] assms(3,4) by auto
qed

lemma paging_init_step:
  assumes s: "memory_ready T s (p # q # r # h # t # fs)" and z: "rd s (Kptov p + 4) = 0"
  shows "\<exists>m c ps. paging_init s = ret () (s\<lparr>kmem := m, con := c, physical_page_entries := ps, kernel_pool := Kptov p, firstFreeSegment := 0\<rparr>) \<and>
    queues 4096 (s\<lparr>kmem := m, con := c, physical_page_entries := ps, kernel_pool := Kptov p, firstFreeSegment := 0\<rparr>) Map.empty \<and>
    tables_ok m \<and> frames_ok m ps \<and> free_frames ps = fs \<and> frames_fit T (s\<lparr>kmem := m\<rparr>) fs \<and>
    table_of (pde_at m 0) = Kptov t \<and> (\<forall>k. unat k < 4096 \<longrightarrow> mmu m k = Some (h + k)) \<and>
    (\<forall>v. pd_no v \<noteq> 0 \<longrightarrow> (if pd_no v < 6 then d_present (pde_at m v) = 0 else pde_at m v = pde_at (kmem s) v))"
proof -
  note r = s [unfolded memory_ready_def]
  have al: "page_aligned x" if "x \<in> {p, q, r, h, t} \<union> set fs" for x
    using r that by (auto simp: paging_ok_def frames_ok_def)
  obtain m1 where m1: "clear_identity_pages s = s\<lparr>kmem := m1\<rparr>" "memory_ready T (s\<lparr>kmem := m1\<rparr>) (p # q # r # h # t # fs)"
    "\<And>v. if pd_no v < 6 then d_present (pde_at m1 v) = 0 else pde_at m1 v = pde_at (kmem s) v" "\<And>x. 0xC0007000 \<le> unat x \<Longrightarrow> m1 x = kmem s x"
    by (rule identity_cleared [OF s]) (rule that)
  let ?s1 = "s\<lparr>kmem := m1\<rparr>"
  obtain m2 c2 ps2 where m2: "init_pool F_KERN ?s1 = ret (Kptov p) (?s1\<lparr>kmem := m2, con := c2, physical_page_entries := ps2\<rparr>)"
    "memory_ready T (?s1\<lparr>kmem := m2, con := c2, physical_page_entries := ps2\<rparr>) (h # t # fs)"
    "\<And>v. pde_at m2 v = pde_at (kmem ?s1) v" "\<And>x. unat x < T \<Longrightarrow> m2 x = kmem ?s1 x"
    by (rule init_pool_result [OF m1(2)]) (rule that)
  let ?s2 = "?s1\<lparr>kmem := m2, con := c2, physical_page_entries := ps2, kernel_pool := Kptov p\<rparr>"
  have s2: "memory_ready T ?s2 (h # t # fs)" by (rule memory_ready_cong(1) [OF m2(2)]) simp_all
  have fp: "frames_fit T s (p # q # r # h # t # fs)" using r by simp
  have pl: "page_aligned (Kptov p)" "0xC0008000 \<le> unat (Kptov p)" "unat (Kptov p) + 16384 \<le> T" "unat (Kptov p) + 4096 \<le> unat (Kptov t)"
    using fp al frames_after [OF fp, of t] by (simp_all add: frames_fit_def)
  have "rd ?s2 (Kptov p + 4) = rd s (Kptov p + 4)"
  proof (rule ld32_cong)
    fix k :: u32 assume "unat k < 4"
    then have "unat (Kptov p + (4 + k)) = unat (Kptov p) + 4 + unat k"
      using page_plus_unat [OF pl(1), of "4 + k"] by (simp add: unat_plus_small)
    then show "kmem ?s2 (Kptov p + 4 + k) = kmem s (Kptov p + 4 + k)"
      using m2(4) m1(4) pl(2,3) \<open>unat k < 4\<close> by (simp add: add.assoc)
  qed
  then have z2: "rd ?s2 (Kptov p + 4) = 0" using z by simp
  have ab: "d_present (pde_at (kmem ?s2) 0) = 0" using m2(3) m1(3) [of 0] by (simp add: pd_no_def)
  obtain m c ps where m: "init_heap_page (Kptov p) F_KERN ?s2 = ret () (?s2\<lparr>kmem := m, con := c, physical_page_entries := ps, firstFreeSegment := 0\<rparr>)"
    "queues 4096 (?s2\<lparr>kmem := m, con := c, physical_page_entries := ps, firstFreeSegment := 0\<rparr>) Map.empty"
    "tables_ok m" "frames_ok m ps" "free_frames ps = fs" "page_aligned t"
    "\<And>v. pde_at m v = (if pd_no v = 0 then new_pde t (pde_at (kmem ?s2) 0) else pde_at (kmem ?s2) v)"
    "\<And>k. unat k < 4096 \<Longrightarrow> mmu m k = Some (h + k)"
    by (rule init_heap_page_result [OF s2 pl(1,2,4) z2 ab]) (rule that)
  have e: "?s2\<lparr>kmem := m, con := c, physical_page_entries := ps, firstFreeSegment := 0\<rparr> =
      s\<lparr>kmem := m, con := c, physical_page_entries := ps, kernel_pool := Kptov p, firstFreeSegment := 0\<rparr>"
    by (rule kstate.equality) simp_all
  have "paging_init s = ret () (s\<lparr>kmem := m, con := c, physical_page_entries := ps, kernel_pool := Kptov p, firstFreeSegment := 0\<rparr>)"
    using m(1) [unfolded e] m1(1) m2(1) by (simp add: paging_init_def Let_def)
  moreover have tt: "table_of (pde_at m 0) = Kptov t" using m(6,7) by (simp add: pd_no_def)
  moreover have "frames_fit T (s\<lparr>kmem := m\<rparr>) fs"
  proof -
    note f2 = s2 [unfolded memory_ready_def]
    have o: "pde_at m (Kptov f) = pde_at m2 (Kptov f)" if "f \<in> set fs" for f
    proof -
      have "d_present (pde_at m2 (Kptov f)) \<noteq> 0" using f2 that by (auto simp: paging_ok_def frames_ok_def)
      then have "pd_no (Kptov f) \<noteq> 0" using ab by (auto simp: pde_at_def pd_no_def)
      then show ?thesis using m(7) by simp
    qed
    have "unat (table_of (pde_at m v)) + 4096 \<le> unat (Kptov f)" if "pd_no v = 0" "f \<in> set fs" for v f
      using that m(6,7) frames_after [of T ?s2 t fs f] f2 al by (simp add: frames_fit_def)
    moreover have "T \<le> unat (table_of (pde_at m v))" if "pd_no v \<noteq> 0" "d_present (pde_at m v) \<noteq> 0" for v
      using that m(7) f2 by simp
    ultimately show ?thesis using f2 o by (auto simp: frames_fit_def)
  qed
  moreover have "if pd_no v < 6 then d_present (pde_at m v) = 0 else pde_at m v = pde_at (kmem s) v" if "pd_no v \<noteq> 0" for v
    using that m1(3) [of v] m2(3) [of v] m(7) [of v] by simp
  ultimately show ?thesis using m(2) [unfolded e] m(3-5,8) by (metis (full_types))
qed

text \<open>
  C99: \<^verbatim>\<open>paging_init\<close>: the identity mapping of the first 24 MiB is removed and the rest of the page
  directory kept; of the free frames the first three become the kernel's pool, the fourth the first
  page of the heap, to which the processor then translates linear page 0, and the fifth the page
  table for it; the tables stay separate, the heap is one empty free segment of a page, and the
  remaining frames fit for threads. The heap's page reads zero before.
\<close>

theorem paging_init_result:
  assumes "memory_ready T s (p # q # r # h # t # fs)" and "rd s (Kptov p + 4) = 0"
  shows "\<exists>s'. paging_init s = ret () s' \<and> kernel_pool s' = Kptov p \<and> queues 4096 s' Map.empty \<and> firstFreeSegment s' = 0 \<and>
    paging_ok s' \<and> free_frames (physical_page_entries s') = fs \<and> frames_fit T s' fs \<and>
    table_of (pde_at (kmem s') 0) = Kptov t \<and> (\<forall>k. unat k < 4096 \<longrightarrow> mmu (kmem s') k = Some (h + k)) \<and>
    (\<forall>v. pd_no v \<noteq> 0 \<longrightarrow> (if pd_no v < 6 then d_present (pde_at (kmem s') v) = 0
      else pde_at (kmem s') v = pde_at (kmem s) v))"
proof -
  from paging_init_step [OF assms] obtain m c ps where
    m: "paging_init s = ret () (s\<lparr>kmem := m, con := c, physical_page_entries := ps, kernel_pool := Kptov p, firstFreeSegment := 0\<rparr>)"
      "queues 4096 (s\<lparr>kmem := m, con := c, physical_page_entries := ps, kernel_pool := Kptov p, firstFreeSegment := 0\<rparr>) Map.empty"
      "tables_ok m" "frames_ok m ps" "free_frames ps = fs" "frames_fit T (s\<lparr>kmem := m\<rparr>) fs"
      "table_of (pde_at m 0) = Kptov t" "\<forall>k. unat k < 4096 \<longrightarrow> mmu m k = Some (h + k)"
      "\<forall>v. pd_no v \<noteq> 0 \<longrightarrow> (if pd_no v < 6 then d_present (pde_at m v) = 0 else pde_at m v = pde_at (kmem s) v)"
    by blast
  show ?thesis
    by (intro exI conjI, rule m(1)) (use m(2-9) in \<open>simp_all add: paging_ok_def frames_fit_def\<close>)
qed

text \<open>The boot code's page tables and 64 pages of memory, on the stack of the boot thread.\<close>

definition boot_ready :: kstate where
  "boot_ready = boot_state\<lparr>esp := 0xC0007F00, iflag := True\<rparr>"

lemma boot_memory_ready: "memory_ready 0xC1100000 boot_ready (free_frames boot_pages)"
proof -
  have k: "unat (Kptov (of_nat i * 4096)) = 0xC0000000 + i * 4096" if "i < 64" for i
    using that by (simp add: Kptov_def KERN_BASE_def unat_plus_small page_number_unat)
  have t: "0xC1100000 \<le> unat (table_of (pde_at boot_mem v))" if "d_present (pde_at boot_mem v) \<noteq> 0" for v
    using boot_tables_small [of "pd_no v"] that by (simp add: pde_at_boot)
  have "sorted_wrt (\<lambda>f g. unat (Kptov f) < unat (Kptov g)) (free_frames boot_pages)"
    unfolding boot_pages_free sorted_wrt_map
    by (rule sorted_wrt_mono_rel [OF _ sorted_wrt_upt]) (simp add: k del: upt_rec_numeral)
  moreover have "0xC0008000 \<le> unat (Kptov f) \<and> unat (Kptov f) + 16384 \<le> 0xC1100000" if "f \<in> set (free_frames boot_pages)" for f
    using that by (auto simp: boot_pages_free k simp del: upt_rec_numeral)
  moreover have "0xC1100000 \<le> unat (table_of (pde_at boot_mem (Kptov f)))" if "f \<in> set (free_frames boot_pages)" for f
    using paging_ok_boot that by (intro t) (simp add: paging_ok_def frames_ok_def)
  ultimately have "frames_fit 0xC1100000 boot_ready (free_frames boot_pages)"
    using t by (simp add: frames_fit_def boot_ready_def)
  moreover have "boot_mem x = 0" if "unat x < 4096" for x using that by (intro boot_mem_low) simp
  ultimately show ?thesis
    using paging_ok_boot t by (simp add: memory_ready_def boot_ready_def paging_ok_def)
qed

lemma boot_frames:
  obtains fs where "free_frames boot_pages = 0x20000 # 0x21000 # 0x22000 # 0x23000 # 0x24000 # 0x25000 # 0x26000 # 0x27000 # fs"
proof -
  have "free_frames boot_pages = 0x20000 # 0x21000 # 0x22000 # 0x23000 # 0x24000 # 0x25000 # 0x26000 # 0x27000 #
      map (\<lambda>i. of_nat i * 4096) [40..<64]"
    unfolding boot_pages_free by (simp add: upt_conv_Cons del: upt_rec_numeral)
  then show ?thesis by (rule that)
qed

lemma boot_pool_zero: "rd boot_ready (Kptov 0x20000 + 4) = 0"
  by (simp add: boot_ready_def boot_mem_def boot_word_def Kptov_def KERN_BASE_def PAGE_DIRECTORY_BASE_def PAGE_TABLES_BASE_def aligned_def)

theorem paging_init_result_witness:
  "\<exists>s. paging_init boot_ready = ret () s \<and> kernel_pool s = 0xC0020000 \<and> mmu (kmem s) 0x10 = Some 0x23010 \<and>
     table_of (pde_at (kmem s) 0) = 0xC0024000"
proof -
  obtain fs where fs: "free_frames boot_pages = 0x20000 # 0x21000 # 0x22000 # 0x23000 # 0x24000 # 0x25000 # 0x26000 # 0x27000 # fs"
    by (rule boot_frames)
  have k: "Kptov 0x20000 = 0xC0020000" "Kptov 0x24000 = 0xC0024000" by (simp_all add: Kptov_def KERN_BASE_def)
  from paging_init_result [OF boot_memory_ready [unfolded fs] boot_pool_zero] obtain s where
    s: "paging_init boot_ready = ret () s" "kernel_pool s = Kptov 0x20000" "table_of (pde_at (kmem s) 0) = Kptov 0x24000"
      "\<forall>k. unat k < 4096 \<longrightarrow> mmu (kmem s) k = Some (0x23000 + k)"
    by blast
  have "mmu (kmem s) 0x10 = Some (0x23000 + 0x10)" using s(4) by (elim allE [of _ "0x10"]) simp
  then show ?thesis using s(1-3) k by auto
qed

end
