(* ===== verification/Firstrun.thy ===== *)
theory Firstrun
  imports Meminit Start
begin

text \<open>
  From the initialised memory to running threads: \<^verbatim>\<open>thread_init\<close>, the first run of the idle thread and
  the rest of \<^verbatim>\<open>main\<close>, as one run of the functions involved.
\<close>

section \<open>Frames for threads\<close>

lemma frames_fit_slot:
  assumes "frames_fit T s (f # fs)"
  shows "T \<le> unat (pte_slot s (Kptov f)) \<and> unat (pte_slot s (Kptov f)) + 4 \<le> 4294967296"
proof -
  let ?t = "table_of (pde_at (kmem s) (Kptov f))"
  have a: "page_aligned ?t" by (rule page_aligned_table_of)
  have "unat (?t + 4095) = unat ?t + 4095" using page_plus_unat [OF a, of 4095] by simp
  then have "unat ?t + 4095 < 4294967296" by (metis unat_lt32)
  moreover have "unat (pte_slot s (Kptov f)) = unat ?t + unat (4 * pt_no (Kptov f))"
    unfolding pte_slot_def by (rule page_plus_unat [OF a pt_entry_small])
  moreover have "unat (4 * pt_no (Kptov f)) \<le> 4092"
    using pt_no_bound [of "Kptov f"] by simp
  ultimately show ?thesis using assms by (auto simp: frames_fit_def)
qed

lemma frames_fit_clear:
  assumes "frames_fit T s (f # fs)" and "unat t + 4096 \<le> unat (Kptov f)"
  shows "frame_clear s f t"
proof -
  note sl = frames_fit_slot [OF assms(1)]
  have u: "0xC0008000 \<le> unat (Kptov f)" "unat (Kptov f) + 16384 \<le> T" "T \<le> 4294967296"
    using assms(1) by (auto simp: frames_fit_def)
  have "unat (t + 40) = unat t + 40" using assms(2) u by (intro unat_plus_small [of t 40, simplified]) simp
  then have "untouched s f (t + 40)"
    unfolding untouched_def using sl u assms(2) by (intro allI impI conjI within_word) auto
  then show ?thesis using sl u by (simp add: frame_clear_def)
qed

text \<open>The paging state depends on the words of the page directory only.\<close>

lemma directory_word:
  "kernel_word (PAGE_DIRECTORY_BASE + 4 * pd_no v) \<and> 0xC0006000 \<le> unat (PAGE_DIRECTORY_BASE + 4 * pd_no v) \<and>
   unat (PAGE_DIRECTORY_BASE + 4 * pd_no v) < 0xC0007000"
proof -
  have "unat (PAGE_DIRECTORY_BASE + 4 * pd_no v) = unat PAGE_DIRECTORY_BASE + 4 * unat (pd_no v)"
    using page_plus_unat [OF page_aligned_PD pd_entry_small] by (simp add: pd_no_bound)
  then show ?thesis
    using pd_no_bound [of v] aligned_pde_addr [of v] by (simp add: kernel_word_def PAGE_DIRECTORY_BASE_def)
qed

lemma paging_kept:
  assumes "paging_ok s" and "frames_fit T s fs" and "kept_but A s s'"
    and "\<And>a. a \<in> A \<Longrightarrow> unat a < 0xC0006000 \<or> 0xC0007000 \<le> unat a"
  shows "pde_at (kmem s') v = pde_at (kmem s) v" and "frames_fit T s' fs"
    and "physical_page_entries s' = physical_page_entries s \<Longrightarrow> paging_ok s'"
proof -
  have p: "pde_at (kmem s') v = pde_at (kmem s) v" for v
  proof -
    have "PAGE_DIRECTORY_BASE + 4 * pd_no v \<notin> A"
      using assms(4) directory_word [of v] by force
    then show ?thesis using assms(3) directory_word [of v] by (simp add: kept_but_def pde_at_def)
  qed
  then show "pde_at (kmem s') v = pde_at (kmem s) v" .
  show "frames_fit T s' fs" using assms(2) by (simp add: frames_fit_def p)
  assume "physical_page_entries s' = physical_page_entries s"
  then show "paging_ok s'" using assms(1) by (simp add: paging_ok_def tables_ok_def frames_ok_def p)
qed

lemma create_keeps_paging:
  assumes p: "paging_ok s" and f: "free_frames (physical_page_entries s) = f # fs" and t: "frames_fit T s (f # fs)"
    and k: "kept_but A s s'" and a: "\<And>a. a \<in> A \<Longrightarrow> 0xC0007000 \<le> unat a"
    and f': "free_frames (physical_page_entries s') = fs"
  shows "paging_ok s'" and "frames_fit T s' fs"
proof -
  have e: "pde_at (kmem s') v = pde_at (kmem s) v" for v
    by (rule paging_kept(1) [OF p t k]) (use a in blast)
  show "paging_ok s'" using p f f' by (auto simp: paging_ok_def tables_ok_def frames_ok_def e)
  show "frames_fit T s' fs" using t by (auto simp: frames_fit_def e)
qed

section \<open>\<^verbatim>\<open>thread_init\<close>\<close>

lemma kernel_thread_fields_result:
  assumes "get_base_page (esp s) = K_THREAD_BASE" and q: "queues lim s Q"
  obtains m where "kernel_thread_fields s = s\<lparr>kernel_thread := K_THREAD_BASE, num_threads := num_threads s + 1, kmem := m\<rparr>"
    and "ld32 m (K_THREAD_BASE + 4) = num_threads s + 1" and "ld32 m (K_THREAD_BASE + 24) = TS_RUNNING"
    and "running (s\<lparr>kernel_thread := K_THREAD_BASE, num_threads := num_threads s + 1, kmem := m\<rparr>) K_THREAD_BASE"
    and "queues lim (s\<lparr>kernel_thread := K_THREAD_BASE, num_threads := num_threads s + 1, kmem := m\<rparr>) Q"
    and "kept_but {a. 0xC0007000 \<le> unat a} s (s\<lparr>kernel_thread := K_THREAD_BASE, num_threads := num_threads s + 1, kmem := m\<rparr>)"
proof -
  let ?K = "0xC0007000 :: ptr"
  define m where "m = st32 ?K (esp s) (st32 (?K + 24) TS_RUNNING (st32 (?K + 36) 1 (st32 (?K + 32) (kernel_pool s)
    (st32 (?K + 28) (cr3 s) (st32 (?K + 4) (num_threads s + 1) (st32 (?K + 40) T_MAGIC (kmem s)))))))"
  let ?s = "s\<lparr>kernel_thread := ?K, num_threads := num_threads s + 1, kmem := m\<rparr>"
  have low: "m x = kmem s x" if "unat x < 0xC0007000" for x
    using that by (simp add: m_def st32_frame)
  have "kernel_thread_fields s = ?s"
    unfolding kernel_thread_fields_def create_id_def get_pd_def get_esp_def Let_def m_def K_THREAD_BASE_def
    by (rule kstate.equality) simp_all
  moreover have "queues lim ?s Q"
    by (rule queues_cong [OF q]) (use low queues_lim [OF q] in simp_all)
  moreover have "kept_but {a. 0xC0007000 \<le> unat a} s ?s"
    unfolding kept_but_def
  proof (intro allI impI, elim conjE)
    fix a assume a: "kernel_word a" "a \<notin> {a. 0xC0007000 \<le> unat a}"
    then have "4 dvd unat a" "unat a < 0xC0007000" by (simp_all add: kernel_word_def aligned_def)
    then have "unat a + 4 \<le> 0xC0007000" by presburger
    then show "rd ?s a = rd s a" by (intro ld32_cong) (simp add: low unat_plus_small)
  qed
  moreover have "ld32 m (?K + 4) = num_threads s + 1" "ld32 m (?K + 24) = TS_RUNNING" and t: "ld32 m (?K + 40) = T_MAGIC"
    by (simp_all add: m_def)
  moreover have "running ?s ?K"
    using assms(1) t unfolding K_THREAD_BASE_def by (simp add: running_def thread_ok_def is_thread_def page_aligned_def)
  ultimately show ?thesis
    using that [of m] unfolding K_THREAD_BASE_def by blast
qed

text \<open>The lists that \<^verbatim>\<open>thread_init\<close> makes, and its semaphore.\<close>

definition init_lists :: "env \<Rightarrow> ptr \<Rightarrow> kstate \<Rightarrow> unit kres" where
  "init_lists E init_started s =
     seq (list_init_with (env_vp E) (kernel_thread s) s) (\<lambda>l s.
     seq (list_init (env_vp E) (s\<lparr>all_threads := l\<rparr>)) (\<lambda>l s.
     seq (list_init (env_vp E) (s\<lparr>ready_threads := l\<rparr>)) (\<lambda>l s.
     seq (kprintln_num (get_esp s) BASE_HEX (s\<lparr>sleeper_list := l\<rparr>)) (\<lambda>_ s.
     sema_init E init_started 0 s))))"

lemma thread_init_split:
  "thread_init E init_started s =
     seq (init_lists E init_started (kernel_thread_fields (snd (int_disable s)))) (\<lambda>_ s.
     seq (thread_create E (sym_idle (env_symbols E)) init_started s) (\<lambda>_ s.
     sema_down E init_started (snd (int_enable s))))"
  by (simp add: thread_init_def init_lists_def Let_def seq_def split: sum.splits prod.splits)

lemma queues_fields [simp]:
  "queues lim (s\<lparr>all_threads := l\<rparr>) Q = queues lim s Q" "queues lim (s\<lparr>ready_threads := l\<rparr>) Q = queues lim s Q"
  "queues lim (s\<lparr>sleeper_list := l\<rparr>) Q = queues lim s Q" "queues lim (s\<lparr>idle_thread := l\<rparr>) Q = queues lim s Q"
  "queues lim (s\<lparr>esp := l\<rparr>) Q = queues lim s Q"
  by (auto simp: queues_def heap_ok_def)

lemma same_kernel_fields:
  assumes "same_kernel s s'"
  shows "same_kernel (s\<lparr>all_threads := l\<rparr>) (s'\<lparr>all_threads := l\<rparr>)"
    and "same_kernel (s\<lparr>ready_threads := l\<rparr>) (s'\<lparr>ready_threads := l\<rparr>)"
    and "same_kernel (s\<lparr>sleeper_list := l\<rparr>) (s'\<lparr>sleeper_list := l\<rparr>)"
proof -
  have "restore (s\<lparr>all_threads := l\<rparr>) (s'\<lparr>all_threads := l\<rparr>) = (restore s s')\<lparr>all_threads := l\<rparr>"
    "restore (s\<lparr>ready_threads := l\<rparr>) (s'\<lparr>ready_threads := l\<rparr>) = (restore s s')\<lparr>ready_threads := l\<rparr>"
    "restore (s\<lparr>sleeper_list := l\<rparr>) (s'\<lparr>sleeper_list := l\<rparr>) = (restore s s')\<lparr>sleeper_list := l\<rparr>"
    by (simp_all add: restore_def)
  then show "same_kernel (s\<lparr>all_threads := l\<rparr>) (s'\<lparr>all_threads := l\<rparr>)"
    "same_kernel (s\<lparr>ready_threads := l\<rparr>) (s'\<lparr>ready_threads := l\<rparr>)"
    "same_kernel (s\<lparr>sleeper_list := l\<rparr>) (s'\<lparr>sleeper_list := l\<rparr>)"
    using assms by (simp_all add: same_kernel_def)
qed

text \<open>What making a list does to the kernel: the heap grows, nothing else changes.\<close>

definition heap_grown :: "nat \<Rightarrow> kstate \<Rightarrow> kstate \<Rightarrow> bool" where
  "heap_grown n s s' \<longleftrightarrow> same_kernel s s' \<and> kept_but {} s s' \<and> iflag s' = iflag s \<and>
     unat (firstFreeSegment s') = unat (firstFreeSegment s) + n"

lemma init_step:
  assumes q: "queues lim s Q" and m: "room lim s"
  obtains s' l where "list_init vp s = ret l s'" and "queues lim s' (Q(l \<mapsto> []))" and "Q l = None" and "heap_grown 40 s s'"
proof -
  obtain k l where r: "list_init vp s = ret l (s\<lparr>kmem := k, firstFreeSegment := firstFreeSegment s + 40\<rparr>)"
      "queues lim (s\<lparr>kmem := k, firstFreeSegment := firstFreeSegment s + 40\<rparr>) (Q(l \<mapsto> []))" "Q l = None"
      "\<And>x. lim \<le> unat x \<Longrightarrow> k x = kmem s x"
    by (rule queues_init [OF q m, where vp = vp]) (rule that)
  have "unat (firstFreeSegment s + 40) = unat (firstFreeSegment s) + 40"
    using m queues_lim [OF q] unat_plus_small [of "firstFreeSegment s" 40] by (simp add: room_def)
  then have "heap_grown 40 s (s\<lparr>kmem := k, firstFreeSegment := firstFreeSegment s + 40\<rparr>)"
    using kept_but_above [OF kept_but_refl [OF refl] queues_lim [OF q]] r(4) by (simp add: heap_grown_def)
  with r show ?thesis using that by blast
qed

lemma init_with_step:
  assumes q: "queues lim s Map.empty" and m: "unat (firstFreeSegment s) + 104 \<le> lim"
  obtains s' l where "list_init_with vp d s = ret l s'" and "queues lim s' [l \<mapsto> [d]]" and "heap_grown 80 s s'"
proof -
  obtain k l where r: "list_init_with vp d s = ret l (s\<lparr>kmem := k, firstFreeSegment := firstFreeSegment s + 40 + 40\<rparr>)"
      "queues lim (s\<lparr>kmem := k, firstFreeSegment := firstFreeSegment s + 40 + 40\<rparr>) [l \<mapsto> [d]]"
      "\<And>x. lim \<le> unat x \<Longrightarrow> k x = kmem s x"
    by (rule queues_init_with [OF q m, where vp = vp and d = d]) (rule that)
  have "unat (firstFreeSegment s + 80) = unat (firstFreeSegment s) + unat (80 :: u32)"
    by (rule unat_plus_small) (use m queues_lim [OF q] in simp)
  then have "heap_grown 80 s (s\<lparr>kmem := k, firstFreeSegment := firstFreeSegment s + 40 + 40\<rparr>)"
    using kept_but_above [OF kept_but_refl [OF refl] queues_lim [OF q]] r(3) by (simp add: heap_grown_def add.assoc)
  with r(1,2) show ?thesis using that by blast
qed

text \<open>The four lists and the semaphore's words, made one after the other, leave the rest of the kernel alone.\<close>

lemma lists_made:
  assumes g1: "heap_grown 80 s s1" and g2: "heap_grown 40 (s1\<lparr>all_threads := a\<rparr>) s2"
    and g3: "heap_grown 40 (s2\<lparr>ready_threads := r\<rparr>) s3" and s4: "s4 = wr sm 0 (con_update g (s3\<lparr>sleeper_list := sl\<rparr>))"
    and g5: "heap_grown 40 s4 s5" and w: "kernel_word sm" "kernel_word (sm + 4)" and s': "s' = wr (sm + 4) v s5"
  shows "kept_but {sm, sm + 4} s s'"
    and "same_kernel (s\<lparr>all_threads := a, ready_threads := r, sleeper_list := sl\<rparr>) s'"
    and "sema_value s' sm = 0" and "sema_waiters s' sm = v" and "iflag s' = iflag s"
    and "unat (firstFreeSegment s') = unat (firstFreeSegment s) + 200"
proof -
  have "kept_but {} s s3" using g1 g2 g3 by (simp add: heap_grown_def kept_but_def)
  then have "kept_but {sm, sm + 4} s s3" by (simp add: kept_but_def)
  then have "kept_but {sm, sm + 4} s s4" by (rule kept_but_wr [OF w(1), rotated]) (simp_all add: s4)
  then have "kept_but {sm, sm + 4} s s5" using g5 by (simp add: heap_grown_def kept_but_def)
  then show "kept_but {sm, sm + 4} s s'" by (rule kept_but_wr [OF w(2), rotated]) (simp_all add: s')
  have "same_kernel (s\<lparr>all_threads := a\<rparr>) s2"
    using same_kernel_trans [OF same_kernel_fields(1)] g1 g2 by (auto simp: heap_grown_def)
  then have "same_kernel (s\<lparr>all_threads := a, ready_threads := r\<rparr>) s3"
    using same_kernel_trans [OF same_kernel_fields(2)] g3 by (auto simp: heap_grown_def)
  then have "same_kernel (s\<lparr>all_threads := a, ready_threads := r, sleeper_list := sl\<rparr>) (s3\<lparr>sleeper_list := sl\<rparr>)"
    by (rule same_kernel_fields(3))
  moreover have "same_kernel (s3\<lparr>sleeper_list := sl\<rparr>) s4" by (simp add: s4 same_kernel_def restore_def)
  moreover have "same_kernel s4 s'" using g5 by (auto simp: s' heap_grown_def intro: same_kernel_trans)
  ultimately show "same_kernel (s\<lparr>all_threads := a, ready_threads := r, sleeper_list := sl\<rparr>) s'"
    by (blast intro: same_kernel_trans)
  show "sema_value s' sm = 0" "sema_waiters s' sm = v"
    using g5 w by (simp_all add: s' heap_grown_def kept_but_def kernel_word_def s4)
  show "iflag s' = iflag s" "unat (firstFreeSegment s') = unat (firstFreeSegment s) + 200"
    using g1 g2 g3 g5 by (simp_all add: s' heap_grown_def s4)
qed

lemma init_lists_result:
  assumes q: "queues lim s Map.empty" and t: "running s t" "kernel_thread s = t"
    and m: "unat (firstFreeSegment s) + 224 \<le> lim" and sm: "sm \<noteq> 0" "clear_of t sm" "clear_of t (sm + 4)"
  obtains s' a r sl w where "init_lists E sm s = ret () s'"
    and "sched lim s' t [a \<mapsto> [t], r \<mapsto> [], sl \<mapsto> [], w \<mapsto> []]" and "distinct [a, r, sl, w]"
    and "all_threads s' = a" and "ready_threads s' = r" and "sema_value s' sm = 0" and "sema_waiters s' sm = w"
    and "same_kernel (s\<lparr>all_threads := a, ready_threads := r, sleeper_list := sl\<rparr>) s'" and "iflag s' = iflag s"
    and "kept_but {sm, sm + 4} s s'" and "unat (firstFreeSegment s') = unat (firstFreeSegment s) + 200"
proof -
  let ?vp = "env_vp E"
  have m1: "unat (firstFreeSegment s) + 104 \<le> lim" using m by simp
  obtain s1 a where r1: "list_init_with ?vp t s = ret a s1" "queues lim s1 [a \<mapsto> [t]]" and g1: "heap_grown 80 s s1"
    by (rule init_with_step [OF q m1, where vp = ?vp and d = t]) (rule that)
  have q1: "queues lim (s1\<lparr>all_threads := a\<rparr>) [a \<mapsto> [t]]" "room lim (s1\<lparr>all_threads := a\<rparr>)"
    using r1(2) g1 m by (simp_all add: heap_grown_def room_def)
  obtain s2 r where r2: "list_init ?vp (s1\<lparr>all_threads := a\<rparr>) = ret r s2" "queues lim s2 [a \<mapsto> [t], r \<mapsto> []]"
      "[a \<mapsto> [t]] r = None" and g2: "heap_grown 40 (s1\<lparr>all_threads := a\<rparr>) s2"
    by (rule init_step [OF q1, where vp = ?vp]) (rule that)
  have q2: "queues lim (s2\<lparr>ready_threads := r\<rparr>) [a \<mapsto> [t], r \<mapsto> []]" "room lim (s2\<lparr>ready_threads := r\<rparr>)"
    using r2(2) g1 g2 m by (simp_all add: heap_grown_def room_def)
  obtain s3 sl where r3: "list_init ?vp (s2\<lparr>ready_threads := r\<rparr>) = ret sl s3" "queues lim s3 [a \<mapsto> [t], r \<mapsto> [], sl \<mapsto> []]"
      "[a \<mapsto> [t], r \<mapsto> []] sl = None" and g3: "heap_grown 40 (s2\<lparr>ready_threads := r\<rparr>) s3"
    by (rule init_step [OF q2, where vp = ?vp]) (rule that)
  have hex: "2 \<le> BASE_HEX" "BASE_HEX \<le> 16" by (simp_all add: base_defs)
  obtain g where r4: "kprintln_num (get_esp s3) BASE_HEX (s3\<lparr>sleeper_list := sl\<rparr>) = ret () (con_update g (s3\<lparr>sleeper_list := sl\<rparr>))"
    using kprintln_num_returns [OF hex] by blast
  define s4 where "s4 = wr sm 0 (con_update g (s3\<lparr>sleeper_list := sl\<rparr>))"
  have kw: "kernel_word sm" "kernel_word (sm + 4)" using sm(2,3) by (simp_all add: clear_of_def)
  have q4: "queues lim s4 [a \<mapsto> [t], r \<mapsto> [], sl \<mapsto> []]" "room lim s4"
    using r3(2) kw g1 g2 g3 m by (auto simp: s4_def heap_grown_def room_def kernel_word_def intro: queues_wr)
  obtain s5 w where r5: "list_init ?vp s4 = ret w s5" "queues lim s5 [a \<mapsto> [t], r \<mapsto> [], sl \<mapsto> [], w \<mapsto> []]"
      "[a \<mapsto> [t], r \<mapsto> [], sl \<mapsto> []] w = None" and g5: "heap_grown 40 s4 s5"
    by (rule init_step [OF q4, where vp = ?vp]) (rule that)
  let ?s' = "wr (sm + 4) w s5"
  have "init_lists E sm s = ret () ?s'"
    using r1(1) r2(1) r3(1) r4 r5(1) sm(1) by (simp add: init_lists_def sema_init_def t(2) s4_def Let_def)
  moreover note made = lists_made [OF g1 g2 g3 s4_def g5 kw refl, of w]
  moreover have "sched lim ?s' t [a \<mapsto> [t], r \<mapsto> [], sl \<mapsto> [], w \<mapsto> []]"
  proof -
    have "thread_ok ?s' t"
      using thread_ok_kept [OF made(1)] t(1) clear_of_neq [OF sm(2), of 40] clear_of_neq [OF sm(3), of 40]
      by (simp add: running_def)
    moreover have "queues lim ?s' [a \<mapsto> [t], r \<mapsto> [], sl \<mapsto> [], w \<mapsto> []]"
      by (rule queues_wr [OF r5(2)]) (use kw in \<open>simp_all add: kernel_word_def\<close>)
    ultimately show ?thesis using t(1) same_kernelD(1,4) [OF made(2)] by (simp add: sched_def running_def)
  qed
  moreover have "distinct [a, r, sl, w]" using r2(3) r3(3) r5(3) by (auto split: if_splits)
  ultimately show ?thesis
    using same_kernelD(1,3) [OF made(2)] by (intro that [where s' = ?s' and a = a and r = r and sl = sl and w = w]) simp_all
qed

text \<open>A kernel with the thread \<open>t\<close> running, its lists \<open>Q\<close>, and the frames \<open>fs\<close> left for threads.\<close>

definition kernel_up :: "nat \<Rightarrow> nat \<Rightarrow> kstate \<Rightarrow> ptr \<Rightarrow> (ptr \<Rightarrow> u32 list option) \<Rightarrow> ptr list \<Rightarrow> bool" where
  "kernel_up lim T s t Q fs \<longleftrightarrow> sched lim s t Q \<and> paging_ok s \<and> free_frames (physical_page_entries s) = fs \<and>
     frames_fit T s fs"

lemma paging_status:
  assumes "kernel_up lim T s t Q fs" and "kept_but A s s'" and "\<And>x. x \<in> A \<Longrightarrow> 0xC0007000 \<le> unat x"
    and "physical_page_entries s' = physical_page_entries s" and "sched lim s' t' R"
  shows "kernel_up lim T s' t' R fs"
proof -
  have "paging_ok s" "frames_fit T s fs" using assms(1) by (simp_all add: kernel_up_def)
  then have "frames_fit T s' fs" "paging_ok s'" using paging_kept(2,3) [OF _ _ assms(2)] assms(3,4) by auto
  then show ?thesis using assms(1,4,5) by (simp add: kernel_up_def)
qed

lemma create_up:
  assumes s: "kernel_up lim T s t Q (f # fs)" and t: "unat t + 4096 \<le> unat (Kptov f)"
    and a: "Q (all_threads s) = Some as" and r: "Q (ready_threads s) = Some xs"
    and ar: "all_threads s \<noteq> ready_threads s" and m: "unat (firstFreeSegment s) + 104 \<le> lim"
  obtains s' ps where "thread_create E func aux s = ret (Kptov f) s'"
    and "kernel_up lim T s' t (Q(all_threads s \<mapsto> as @ [Kptov f], ready_threads s \<mapsto> xs @ [Kptov f])) fs"
    and "thread_ok s' (Kptov f)" and "thr_id s' (Kptov f) = num_threads s + 1" and "thr_status s' (Kptov f) = TS_READY"
    and "new_stack_at (env_symbols E) (Kptov f) func aux (kmem s')"
    and "num_threads s' = num_threads s + 1" and "iflag s' = iflag s"
    and "unat (firstFreeSegment s') \<le> unat (firstFreeSegment s) + 80"
    and "same_kernel (s\<lparr>physical_page_entries := ps, num_threads := num_threads s + 1\<rparr>) s'"
    and "kept_but {a. unat (Kptov f) < unat a + 4} s s'"
proof -
  have u: "sched lim s t Q" "paging_ok s" "free_frames (physical_page_entries s) = f # fs" "frames_fit T s (f # fs)"
    using s by (simp_all add: kernel_up_def)
  have k: "unat (Kptov f) + 16384 \<le> T" "0xC0008000 \<le> unat (Kptov f)" using u(4) by (simp_all add: frames_fit_def)
  have sl: "unat (Kptov f) < unat (pte_slot s (Kptov f))"
    using frames_fit_slot [OF u(4)] k by linarith
  obtain s' ps where s': "thread_create E func aux s = ret (Kptov f) s'"
      "sched lim s' t (Q(all_threads s \<mapsto> as @ [Kptov f], ready_threads s \<mapsto> xs @ [Kptov f]))"
      "thread_ok s' (Kptov f)" "thr_id s' (Kptov f) = num_threads s + 1" "thr_status s' (Kptov f) = TS_READY"
      "new_stack_at (env_symbols E) (Kptov f) func aux (kmem s')"
      "num_threads s' = num_threads s + 1" "iflag s' = iflag s"
      "unat (firstFreeSegment s') \<le> unat (firstFreeSegment s) + 80"
      "same_kernel (s\<lparr>physical_page_entries := ps, num_threads := num_threads s + 1\<rparr>) s'"
    and f': "free_frames (physical_page_entries s') = fs"
    and below: "\<forall>a. kernel_word a \<and> unat a + 4 \<le> unat (Kptov f) \<and> unat a + 4 \<le> unat (pte_slot s (Kptov f)) \<longrightarrow> rd s' a = rd s a"
    using thread_create_step [OF u(1-3) frames_fit_clear [OF u(4) t] a r ar m, of E func aux] by blast
  have kb: "kept_but {a. unat (Kptov f) < unat a + 4} s s'"
    using below sl by (simp add: kept_but_def)
  have "kernel_up lim T s' t (Q(all_threads s \<mapsto> as @ [Kptov f], ready_threads s \<mapsto> xs @ [Kptov f])) fs"
    using create_keeps_paging [OF u(2-4) kb _ f'] s'(2) f' k(2) by (simp add: kernel_up_def)
  from that [OF s'(1) this s'(3-10) kb] show ?thesis .
qed

lemma create_boot:
  assumes s: "kernel_up lim T s t [a \<mapsto> as, r \<mapsto> xs, sl \<mapsto> [], w \<mapsto> []] (f # fs)" and t: "unat t + 4096 \<le> unat (Kptov f)"
    and d: "distinct [a, r, sl, w]" and l: "all_threads s = a" "ready_threads s = r" and m: "unat (firstFreeSegment s) + 104 \<le> lim"
  obtains s' where "thread_create E func aux s = ret (Kptov f) s'"
    and "kernel_up lim T s' t [a \<mapsto> as @ [Kptov f], r \<mapsto> xs @ [Kptov f], sl \<mapsto> [], w \<mapsto> []] fs"
    and "thread_ok s' (Kptov f)" and "thr_status s' (Kptov f) = TS_READY"
    and "new_stack_at (env_symbols E) (Kptov f) func aux (kmem s')" and "all_threads s' = a" and "ready_threads s' = r"
    and "num_threads s' = num_threads s + 1" and "iflag s' = iflag s" and "idle_thread s' = idle_thread s"
    and "unat (firstFreeSegment s') \<le> unat (firstFreeSegment s) + 80" and "kept_but {x. unat (Kptov f) < unat x + 4} s s'"
proof -
  let ?Q = "[a \<mapsto> as, r \<mapsto> xs, sl \<mapsto> [], w \<mapsto> []]"
  have Q: "?Q (all_threads s) = Some as" "?Q (ready_threads s) = Some xs" "all_threads s \<noteq> ready_threads s"
    using d l by auto
  have eq: "?Q(all_threads s \<mapsto> as @ [Kptov f], ready_threads s \<mapsto> xs @ [Kptov f]) =
      [a \<mapsto> as @ [Kptov f], r \<mapsto> xs @ [Kptov f], sl \<mapsto> [], w \<mapsto> []]"
    using d l by auto
  obtain s' ps where s': "thread_create E func aux s = ret (Kptov f) s'"
      "kernel_up lim T s' t (?Q(all_threads s \<mapsto> as @ [Kptov f], ready_threads s \<mapsto> xs @ [Kptov f])) fs"
      "thread_ok s' (Kptov f)" "thr_status s' (Kptov f) = TS_READY" "new_stack_at (env_symbols E) (Kptov f) func aux (kmem s')"
      "num_threads s' = num_threads s + 1" "iflag s' = iflag s" "unat (firstFreeSegment s') \<le> unat (firstFreeSegment s) + 80"
      "same_kernel (s\<lparr>physical_page_entries := ps, num_threads := num_threads s + 1\<rparr>) s'"
      "kept_but {x. unat (Kptov f) < unat x + 4} s s'"
    by (rule create_up [OF s t Q m, where E = E and func = func and aux = aux]) (rule that)
  show ?thesis
    by (rule that [OF s'(1) s'(2) [unfolded eq] s'(3-5) _ _ s'(6,7) _ s'(8,10)])
      (use same_kernelD(1-3) [OF s'(9)] l in simp_all)
qed

text \<open>
  The kernel while it starts: the four lists, of which the sleepers' one is empty, and the
  semaphore of \<^verbatim>\<open>thread_init\<close> with its value and its waiting list.
\<close>

definition starting :: "nat \<Rightarrow> nat \<Rightarrow> ptr \<Rightarrow> kstate \<Rightarrow> ptr \<Rightarrow> ptr \<times> ptr \<times> ptr \<times> ptr \<Rightarrow> u32 list \<Rightarrow> u32 list \<Rightarrow> u32 list \<Rightarrow> u32 \<Rightarrow> ptr list \<Rightarrow> bool" where
  "starting lim T sm s t ls xs ys ws v fs \<longleftrightarrow> (case ls of (a, r, sl, w) \<Rightarrow>
     kernel_up lim T s t [a \<mapsto> xs, r \<mapsto> ys, sl \<mapsto> [], w \<mapsto> ws] fs \<and> distinct [a, r, sl, w] \<and>
     all_threads s = a \<and> ready_threads s = r \<and> sema_value s sm = v \<and> sema_waiters s sm = w)"

text \<open>
  The start of \<^verbatim>\<open>thread_init\<close>: the boot stack's page is the kernel's, the heap is still empty, and
  the local semaphore lies in that page, behind the thread struct.
\<close>

definition can_start :: "nat \<Rightarrow> nat \<Rightarrow> ptr \<Rightarrow> kstate \<Rightarrow> ptr list \<Rightarrow> bool" where
  "can_start lim T sm s fs \<longleftrightarrow> queues lim s Map.empty \<and> get_base_page (esp s) = K_THREAD_BASE \<and>
     unat (firstFreeSegment s) + 600 \<le> lim \<and> aligned sm \<and> 0xC000702C \<le> unat sm \<and> unat sm + 8 \<le> 0xC0008000 \<and>
     paging_ok s \<and> free_frames (physical_page_entries s) = fs \<and> frames_fit T s fs"

lemma start_semaphore:
  assumes "can_start lim T sm s fs"
  shows "sm \<noteq> 0" "clear_of K_THREAD_BASE sm" "clear_of K_THREAD_BASE (sm + 4)" "unat (sm + 4) = unat sm + 4"
    "0xC000702C \<le> unat sm" "unat sm + 8 \<le> 0xC0008000"
proof -
  have sm: "aligned sm" "0xC000702C \<le> unat sm" "unat sm + 8 \<le> 0xC0008000"
    using assms by (simp_all add: can_start_def)
  show b: "0xC000702C \<le> unat sm" "unat sm + 8 \<le> 0xC0008000" by (fact sm)+
  show u: "unat (sm + 4) = unat sm + 4" using sm by (simp add: unat_plus_small)
  show "sm \<noteq> 0" using sm(2) by auto
  have k: "unat (0xC0007000 + j) = 0xC0007000 + unat j" if "unat j < 44" for j :: u32
    using that by (simp add: unat_plus_small)
  have "a \<noteq> 0xC0007000 + j" if "0xC000702C \<le> unat a" "unat j < 44" for a j :: u32
    using k [OF that(2)] that by auto
  then show "clear_of K_THREAD_BASE sm" "clear_of K_THREAD_BASE (sm + 4)"
    using sm u by (auto simp: clear_of_def K_THREAD_BASE_def kernel_word_def)
qed

text \<open>Up to the creation of the idle thread.\<close>

lemma lists_started:
  assumes c: "can_start lim T sm s fs"
  obtains s' ls where "init_lists E sm (kernel_thread_fields (snd (int_disable s))) = ret () s'"
    and "starting lim T sm s' K_THREAD_BASE ls [K_THREAD_BASE] [] [] 0 fs"
    and "num_threads s' = num_threads s + 1" and "unat (firstFreeSegment s') = unat (firstFreeSegment s) + 200"
proof -
  let ?d = "s\<lparr>iflag := False\<rparr>" and ?K = K_THREAD_BASE
  have d: "snd (int_disable s) = ?d" by (simp add: int_defs Let_def)
  have b: "get_base_page (esp ?d) = ?K" "queues lim ?d Map.empty" "paging_ok ?d" "frames_fit T ?d fs"
    using c by (simp_all add: can_start_def paging_ok_def frames_fit_def)
  obtain m where kf: "kernel_thread_fields ?d = ?d\<lparr>kernel_thread := ?K, num_threads := num_threads ?d + 1, kmem := m\<rparr>"
    and r: "running (?d\<lparr>kernel_thread := ?K, num_threads := num_threads ?d + 1, kmem := m\<rparr>) ?K"
    and q: "queues lim (?d\<lparr>kernel_thread := ?K, num_threads := num_threads ?d + 1, kmem := m\<rparr>) Map.empty"
    and k: "kept_but {a. 0xC0007000 \<le> unat a} ?d (?d\<lparr>kernel_thread := ?K, num_threads := num_threads ?d + 1, kmem := m\<rparr>)"
    by (rule kernel_thread_fields_result [OF b(1,2)]) (rule that)
  define s1 where "s1 = ?d\<lparr>kernel_thread := ?K, num_threads := num_threads ?d + 1, kmem := m\<rparr>"
  have s1: "kernel_thread s1 = ?K" "unat (firstFreeSegment s1) + 224 \<le> lim" "num_threads s1 = num_threads s + 1"
    "firstFreeSegment s1 = firstFreeSegment s" "physical_page_entries s1 = physical_page_entries s"
    using c by (simp_all add: s1_def can_start_def)
  have k1: "kept_but {a. 0xC0007000 \<le> unat a} ?d s1" using k by (simp only: s1_def)
  obtain s' a r sl w where l: "init_lists E sm s1 = ret () s'"
      "sched lim s' ?K [a \<mapsto> [?K], r \<mapsto> [], sl \<mapsto> [], w \<mapsto> []]" "distinct [a, r, sl, w]"
      "all_threads s' = a" "ready_threads s' = r" "sema_value s' sm = 0" "sema_waiters s' sm = w"
    and sk: "same_kernel (s1\<lparr>all_threads := a, ready_threads := r, sleeper_list := sl\<rparr>) s'"
    and k2: "kept_but {sm, sm + 4} s1 s'" and f: "unat (firstFreeSegment s') = unat (firstFreeSegment s1) + 200"
    by (rule init_lists_result [OF q [folded s1_def] r [folded s1_def] s1(1,2) start_semaphore(1-3) [OF c], where E = E]) (rule that)
  have p: "physical_page_entries s' = physical_page_entries ?d" "num_threads s' = num_threads s + 1"
    using same_kernelD(7,8) [OF sk] s1 by simp_all
  have "kept_but {a. 0xC0007000 \<le> unat a} ?d s'"
    by (rule kept_but_trans [OF k1 k2]) (use start_semaphore(4-6) [OF c] in auto)
  from paging_kept(2,3) [OF b(3,4) this] have "paging_ok s'" "free_frames (physical_page_entries s') = fs" "frames_fit T s' fs"
    using p c by (auto simp: can_start_def)
  then have "starting lim T sm s' ?K (a, r, sl, w) [?K] [] [] 0 fs" using l by (simp add: starting_def kernel_up_def)
  moreover have "init_lists E sm (kernel_thread_fields (snd (int_disable s))) = ret () s'"
    by (simp only: d kf s1_def [symmetric] l(1))
  moreover have "unat (firstFreeSegment s') = unat (firstFreeSegment s) + 200" using f s1(4) by simp
  ultimately show ?thesis using p(2) by (intro that)
qed

lemma idle_created:
  assumes s: "starting lim T sm s K_THREAD_BASE ls [K_THREAD_BASE] [] [] 0 (f # fs)"
    and sm: "kernel_word sm" "kernel_word (sm + 4)" "unat (sm + 4) + 4 \<le> unat (Kptov f)" "unat sm + 4 \<le> unat (Kptov f)"
    and m: "unat (firstFreeSegment s) + 104 \<le> lim"
  obtains s' where "thread_create E func aux s = ret (Kptov f) s'"
    and "starting lim T sm s' K_THREAD_BASE ls [K_THREAD_BASE, Kptov f] [Kptov f] [] 0 fs"
    and "thread_ok s' (Kptov f)" and "thr_status s' (Kptov f) = TS_READY" and "new_stack_at (env_symbols E) (Kptov f) func aux (kmem s')"
    and "num_threads s' = num_threads s + 1" and "unat (firstFreeSegment s') \<le> unat (firstFreeSegment s) + 80"
proof -
  let ?K = K_THREAD_BASE and ?u = "Kptov f"
  obtain a r sl w where ls: "ls = (a, r, sl, w)" by (cases ls)
  have s0: "kernel_up lim T s ?K [a \<mapsto> [?K], r \<mapsto> [], sl \<mapsto> [], w \<mapsto> []] (f # fs)" and d: "distinct [a, r, sl, w]"
    and l: "all_threads s = a" "ready_threads s = r" "sema_value s sm = 0" "sema_waiters s sm = w"
    using s by (simp_all add: starting_def ls)
  have "0xC0008000 \<le> unat ?u" using s0 by (simp add: kernel_up_def frames_fit_def)
  then have ku: "unat ?K + 4096 \<le> unat ?u" by (simp add: K_THREAD_BASE_def)
  obtain s' where s': "thread_create E func aux s = ret ?u s'"
      "kernel_up lim T s' ?K [a \<mapsto> [?K] @ [?u], r \<mapsto> [] @ [?u], sl \<mapsto> [], w \<mapsto> []] fs"
      "thread_ok s' ?u" "thr_status s' ?u = TS_READY" "new_stack_at (env_symbols E) ?u func aux (kmem s')"
      "all_threads s' = a" "ready_threads s' = r" "num_threads s' = num_threads s + 1"
      "unat (firstFreeSegment s') \<le> unat (firstFreeSegment s) + 80" "kept_but {x. unat ?u < unat x + 4} s s'"
    by (rule create_boot [OF s0 ku d l(1,2) m, where E = E and func = func and aux = aux]) (rule that)
  have "sema_value s' sm = 0" "sema_waiters s' sm = w" using s'(10) l(3,4) sm by (simp_all add: kept_but_def)
  then have "starting lim T sm s' ?K ls [?K, ?u] [?u] [] 0 fs" using s'(2,6,7) d by (simp add: starting_def ls)
  with s' show ?thesis using that by blast
qed

lemma kernel_waits:
  assumes s: "starting lim T sm s K_THREAD_BASE ls xs [u] [] 0 fs" and i: "\<not> iflag s" and m: "room lim s"
    and sm: "clear_of K_THREAD_BASE sm" "clear_of K_THREAD_BASE (sm + 4)" and u: "thread_ok s u" "0xC0008000 \<le> unat u"
    and n: "new_stack_at sy u func aux (kmem s)"
  obtains s' where "sema_down_from E sm j s = ret (Switch K_THREAD_BASE u [In_sema_down sm j]) s'"
    and "starting lim T sm s' K_THREAD_BASE ls xs [] [K_THREAD_BASE] 0 fs" and "thr_status s' K_THREAD_BASE = TS_BLOCKED"
    and "thread_ok s' u" and "thr_status s' u = thr_status s u" and "new_stack_at sy u func aux (kmem s')"
    and "num_threads s' = num_threads s" and "unat (firstFreeSegment s') = unat (firstFreeSegment s) + 40"
proof -
  let ?K = K_THREAD_BASE
  obtain a r sl w where ls: "ls = (a, r, sl, w)" by (cases ls)
  let ?Q = "[a \<mapsto> xs, r \<mapsto> [u], sl \<mapsto> [], w \<mapsto> []]"
  have s0: "kernel_up lim T s ?K ?Q fs" and d: "distinct [a, r, sl, w]"
    and l: "all_threads s = a" "ready_threads s = r" "sema_value s sm = 0" "sema_waiters s sm = w"
    using s by (simp_all add: starting_def ls)
  have uK: "u \<noteq> ?K" using u(2) by (auto simp: K_THREAD_BASE_def)
  have s1: "sched lim s ?K ?Q" "?Q (ready_threads s) = Some [u]" "?Q (sema_waiters s sm) = Some []"
    "sema_waiters s sm \<noteq> ready_threads s" "room lim s" "next_of s [u] \<noteq> ?K" "\<not> iflag s" "sema_value s sm = 0"
    using s0 d l m i uK by (auto simp: kernel_up_def next_of_def)
  obtain s' where dn: "sema_down_from E sm j s = ret (Switch ?K (next_of s [u]) [In_sema_down sm j]) s'"
    and q': "sched lim s' ?K (?Q(sema_waiters s sm \<mapsto> [] @ [?K], ready_threads s \<mapsto> tl [u]))"
    and sk: "same_kernel s s'" and st: "thr_status s' ?K = TS_BLOCKED" and k: "kept_but {?K + 24} s s'"
    and f': "firstFreeSegment s' = firstFreeSegment s + 40"
    by (rule sema_down_from_wait [OF s1, where E = E and i = j]) (rule that)
  have Q: "?Q(sema_waiters s sm \<mapsto> [] @ [?K], ready_threads s \<mapsto> tl [u]) = [a \<mapsto> xs, r \<mapsto> [], sl \<mapsto> [], w \<mapsto> [?K]]"
    using d l by auto
  note f = same_kernelD(1-3,7,8) [OF sk]
  have "kernel_up lim T s' ?K [a \<mapsto> xs, r \<mapsto> [], sl \<mapsto> [], w \<mapsto> [?K]] fs"
    by (rule paging_status [OF s0 k]) (use q' [unfolded Q] f in \<open>auto simp: K_THREAD_BASE_def\<close>)
  moreover have "sema_value s' sm = 0" "sema_waiters s' sm = w"
    using k l(3,4) sm clear_of_neq [OF sm(1), of 24] clear_of_neq [OF sm(2), of 24] by (simp_all add: kept_but_def clear_of_def)
  ultimately have "starting lim T sm s' ?K ls xs [] [?K] 0 fs" using d l f by (simp add: starting_def ls)
  moreover have uw: "rd s' (u + j) = rd s (u + j)" if "unat j \<le> 4092" "aligned j" for j
    using k thread_word [OF u(1) that] thread_ok_field [OF u(1) that(1)] u(2) by (auto simp: kept_but_def K_THREAD_BASE_def)
  then have "thread_ok s' u" "thr_status s' u = thr_status s u" "new_stack_at sy u func aux (kmem s')"
    using u(1) n uw [of 0] by (simp_all add: thread_ok_def is_thread_def new_stack_at_def)
  moreover have "unat (firstFreeSegment s') = unat (firstFreeSegment s) + 40"
    using f' m queues_lim [OF schedD(1) [OF s1(1)]] unat_plus_small [of "firstFreeSegment s" 40] by (simp add: room_def)
  ultimately show ?thesis using that dn st f by (simp add: next_of_def)
qed

lemma thread_init_result:
  assumes c: "can_start lim T sm s (f # fs)"
  obtains s' ls where "thread_init E sm s = ret (Switch K_THREAD_BASE (Kptov f) [In_sema_down sm True]) s'"
    and "starting lim T sm s' K_THREAD_BASE ls [K_THREAD_BASE, Kptov f] [] [K_THREAD_BASE] 0 fs"
    and "num_threads s' = num_threads s + 2" and "thread_ok s' (Kptov f)" and "thr_status s' K_THREAD_BASE = TS_BLOCKED"
    and "unat (firstFreeSegment s') \<le> unat (firstFreeSegment s) + 320"
proof -
  let ?K = K_THREAD_BASE and ?u = "Kptov f" and ?sy = "env_symbols E"
  note sm = start_semaphore [OF c]
  have m: "unat (firstFreeSegment s) + 600 \<le> lim" and u: "0xC0008000 \<le> unat ?u"
    using c by (simp_all add: can_start_def frames_fit_def)
  obtain s1 ls where l: "init_lists E sm (kernel_thread_fields (snd (int_disable s))) = ret () s1"
      "starting lim T sm s1 ?K ls [?K] [] [] 0 (f # fs)"
      "num_threads s1 = num_threads s + 1" "unat (firstFreeSegment s1) = unat (firstFreeSegment s) + 200"
    by (rule lists_started [OF c, where E = E]) (rule that)
  have w: "kernel_word sm" "kernel_word (sm + 4)" "unat (sm + 4) + 4 \<le> unat ?u" "unat sm + 4 \<le> unat ?u"
    "unat (firstFreeSegment s1) + 104 \<le> lim"
    using sm u m l(4) by (simp_all add: clear_of_def)
  obtain s2 where s2: "thread_create E (sym_idle ?sy) sm s1 = ret ?u s2" "starting lim T sm s2 ?K ls [?K, ?u] [?u] [] 0 fs"
      "thread_ok s2 ?u" "thr_status s2 ?u = TS_READY" "new_stack_at ?sy ?u (sym_idle ?sy) sm (kmem s2)"
      "num_threads s2 = num_threads s1 + 1" "unat (firstFreeSegment s2) \<le> unat (firstFreeSegment s1) + 80"
    by (rule idle_created [OF l(2) w, where E = E and func = "sym_idle ?sy" and aux = sm]) (rule that)
  let ?s3 = "s2\<lparr>iflag := False\<rparr>"
  have s3: "starting lim T sm ?s3 ?K ls [?K, ?u] [?u] [] 0 fs" "\<not> iflag ?s3" "room lim ?s3" "thread_ok ?s3 ?u"
      "new_stack_at ?sy ?u (sym_idle ?sy) sm (kmem ?s3)"
    using s2(2,3,5,7) l(4) m
    by (simp_all add: starting_def kernel_up_def frames_fit_def paging_ok_def thread_ok_def is_thread_def room_def split: prod.splits)
  obtain s' where s': "sema_down_from E sm True ?s3 = ret (Switch ?K ?u [In_sema_down sm True]) s'"
      "starting lim T sm s' ?K ls [?K, ?u] [] [?K] 0 fs" "thr_status s' ?K = TS_BLOCKED" "thread_ok s' ?u"
      "num_threads s' = num_threads ?s3" "unat (firstFreeSegment s') = unat (firstFreeSegment ?s3) + 40"
    by (rule kernel_waits [OF s3(1-3) sm(2,3) s3(4) u s3(5), where E = E and j = True]) (rule that)
  have "init_lists E sm (kernel_thread_fields (s\<lparr>iflag := False\<rparr>)) = ret () s1"
    using l(1) by (simp add: int_defs Let_def)
  then have "thread_init E sm s = ret (Switch ?K ?u [In_sema_down sm True]) s'"
    using s'(1) sm(1) by (simp add: thread_init_split s2(1) sema_down_def int_defs Let_def)
  from this s'(2) show ?thesis
    by (rule that) (use s' s2 l in simp_all)
qed

section \<open>The idle thread's first run\<close>

text \<open>
  A thread's first run: \<^verbatim>\<open>first_switch\<close> calls \<^verbatim>\<open>switch_complete\<close>, then \<^verbatim>\<open>run\<close> calls the thread's function,
  here \<^verbatim>\<open>idle\<close> up to the switch in the first round of its loop.
\<close>

definition run :: "ptr \<Rightarrow> u32 \<Rightarrow> (kstate \<Rightarrow> go kres) \<Rightarrow> kstate \<Rightarrow> go kres" where
  "run prev function body s =
     seq (switch_complete prev s) (\<lambda>_ s. seq (run_start function s) (\<lambda>_ s. body s))"

definition idle :: "env \<Rightarrow> ptr \<Rightarrow> kstate \<Rightarrow> go kres" where
  "idle E idle_started s = seq (idle_start E idle_started s) (\<lambda>_ s. idle_round s)"

lemma esp_kernel_up:
  assumes "kernel_up lim T s t Q fs" and "thread_ok s u" and "get_base_page e = u"
  shows "kernel_up lim T (s\<lparr>esp := e\<rparr>) u Q fs"
  using assms by (simp add: kernel_up_def sched_def running_def thread_ok_def is_thread_def paging_ok_def frames_fit_def)

lemma switch_up:
  assumes s: "kernel_up lim T s t Q fs" and p: "thread_ok s p" "p \<noteq> t" "thr_status s p \<noteq> TS_DYING"
    and t: "0xC0007000 \<le> unat t"
  obtains s' where "switch_complete p s = ret () s'" and "kernel_up lim T s' t Q fs"
    and "s' = wr (t + 24) TS_RUNNING (s\<lparr>tick_count := 0\<rparr>)" and "kept_but {t + 24} s s'" and "thr_status s' t = TS_RUNNING"
proof -
  have sc: "sched lim s t Q" using s by (simp add: kernel_up_def)
  have ok: "thread_ok s t" by (rule schedD(3) [OF sc])
  let ?s = "wr (t + 24) TS_RUNNING (s\<lparr>tick_count := 0\<rparr>)"
  have "ld32 (st32 (t + 24) TS_RUNNING (kmem s)) (p + 24) \<noteq> TS_DYING"
    using status_other_thread [of t p] ok p by (simp add: thread_ok_def)
  then have "switch_complete p s = ret () ?s"
    by (intro switch_complete_result schedD(2) [OF sc]) simp
  moreover have k: "kept_but {t + 24} s ?s"
    by (intro kept_but_wr [OF thread_word [OF ok, of 24] _ kept_but_refl [OF refl]]) simp_all
  moreover have "kernel_up lim T ?s t Q fs"
  proof -
    have "unat (t + 24) = unat t + 24" using thread_ok_field [OF ok, of 24] by simp
    then have "frames_fit T ?s fs" "paging_ok ?s"
      using paging_kept(2,3) [OF _ _ k, of T fs] s t by (simp_all add: kernel_up_def)
    moreover have "sched lim ?s t Q" using sched_wr [OF _ _ , of lim "s\<lparr>tick_count := 0\<rparr>" t Q t 24] sc ok by simp
    ultimately show ?thesis using s by (simp add: kernel_up_def)
  qed
  ultimately show ?thesis using that thread_ok_aligned [OF ok] by simp
qed


lemma above_semaphore:
  assumes "thread_ok s u" and "0xC0008000 \<le> unat u" and "can_start lim T sm s0 fs"
  shows "clear_of u sm" "clear_of u (sm + 4)"
proof -
  note sm = start_semaphore [OF assms(3)]
  have "unat u \<le> unat (u + j)" if "unat j < 44" for j
    using thread_ok_field [OF assms(1), of j] that by simp
  then have "sm \<noteq> u + j \<and> sm + 4 \<noteq> u + j" if "unat j < 44" for j
    using assms(2) sm(4,6) that by fastforce
  then show "clear_of u sm" "clear_of u (sm + 4)"
    using sm(2,3) by (auto simp: clear_of_def)
qed

lemma idle_switched:
  assumes s: "starting lim T sm s K_THREAD_BASE ls xs ys ws v fs" and u: "thread_ok s u" "0xC0008000 \<le> unat u" "get_base_page e = u"
    and k: "thr_status s K_THREAD_BASE = TS_BLOCKED" and cu: "clear_of u sm" "clear_of u (sm + 4)"
  obtains s' where "switch_complete K_THREAD_BASE (s\<lparr>esp := e\<rparr>) = ret () s'" and "starting lim T sm s' u ls xs ys ws v fs"
    and "thread_ok s' K_THREAD_BASE" and "thr_status s' K_THREAD_BASE = TS_BLOCKED" and "num_threads s' = num_threads s"
    and "firstFreeSegment s' = firstFreeSegment s"
proof -
  let ?K = K_THREAD_BASE and ?se = "s\<lparr>esp := e\<rparr>"
  obtain a r sl w where ls: "ls = (a, r, sl, w)" by (cases ls)
  let ?Q = "[a \<mapsto> xs, r \<mapsto> ys, sl \<mapsto> [], w \<mapsto> ws]"
  have s0: "kernel_up lim T s ?K ?Q fs" using s by (simp add: starting_def ls)
  have K: "thread_ok s ?K" using s0 by (simp add: kernel_up_def sched_def running_def)
  have uK: "u \<noteq> ?K" using u(2) by (auto simp: K_THREAD_BASE_def)
  have se: "kernel_up lim T ?se u ?Q fs" by (rule esp_kernel_up [OF s0 u(1,3)])
  have K': "thread_ok ?se ?K" "?K \<noteq> u" "thr_status ?se ?K \<noteq> TS_DYING"
    using K uK k by (auto simp: thread_ok_def is_thread_def thread_statuses)
  obtain s1 where s1: "switch_complete ?K ?se = ret () s1" "kernel_up lim T s1 u ?Q fs"
      "s1 = wr (u + 24) TS_RUNNING (?se\<lparr>tick_count := 0\<rparr>)" "kept_but {u + 24} ?se s1"
    by (rule switch_up [OF se K']) (use u(2) that in auto)
  note ku = s1(4) [unfolded kept_but_def, rule_format]
  have "rd s1 sm = rd s sm" "rd s1 (sm + 4) = rd s (sm + 4)"
    using ku [of sm] ku [of "sm + 4"] cu clear_of_neq [OF cu(1), of 24] clear_of_neq [OF cu(2), of 24] by (simp_all add: clear_of_def)
  then have "starting lim T sm s1 u ls xs ys ws v fs" using s s1(2) by (simp add: starting_def ls) (simp add: s1(3))
  moreover have n: "?K + 24 \<noteq> u + 24" "?K + 40 \<noteq> u + 24"
    using u(2) thread_ok_field [OF u(1), of 24] by (auto simp: K_THREAD_BASE_def)
  then have "thread_ok s1 ?K" "thr_status s1 ?K = TS_BLOCKED"
    using thread_ok_kept [OF s1(4) K'(1)] ku [of "?K + 24"] thread_word [OF K'(1), of 24] k by simp_all
  ultimately show ?thesis using s1(1) that by (simp add: s1(3))
qed

lemma idle_wakes:
  assumes s: "starting lim T sm s u ls xs [] [K_THREAD_BASE] 0 fs" and K: "thread_ok s K_THREAD_BASE" "thr_status s K_THREAD_BASE = TS_BLOCKED"
    and sm: "sm \<noteq> 0" "clear_of K_THREAD_BASE sm" "clear_of K_THREAD_BASE (sm + 4)" "0xC0007000 \<le> unat sm" and cu: "clear_of u sm"
    and m: "room lim s"
  obtains s' where "idle_start E sm s = ret () s'" and "starting lim T sm s' u ls xs [K_THREAD_BASE] [] 1 fs" and "idle_thread s' = u"
    and "thread_ok s' K_THREAD_BASE" and "thr_status s' K_THREAD_BASE = TS_READY" and "num_threads s' = num_threads s"
    and "unat (firstFreeSegment s') \<le> unat (firstFreeSegment s) + 40"
proof -
  let ?K = K_THREAD_BASE and ?s = "s\<lparr>idle_thread := u\<rparr>"
  obtain a r sl w where ls: "ls = (a, r, sl, w)" by (cases ls)
  let ?Q = "[a \<mapsto> xs, r \<mapsto> [], sl \<mapsto> [], w \<mapsto> [?K]]"
  have s0: "kernel_up lim T s u ?Q fs" and d: "distinct [a, r, sl, w]"
    and l: "all_threads s = a" "ready_threads s = r" "sema_value s sm = 0" "sema_waiters s sm = w"
    using s by (simp_all add: starting_def ls)
  have run: "running s u" using s0 by (simp add: kernel_up_def sched_def)
  have s1: "sched lim ?s u ?Q" using s0 by (simp add: kernel_up_def sched_def running_def thread_ok_def is_thread_def)
  have r1: "?Q (ready_threads ?s) = Some []" "?Q (sema_waiters ?s sm) = Some [?K]" "sema_waiters ?s sm \<noteq> ready_threads ?s"
    "room lim ?s" "\<forall>v \<in> set [?K]. thread_ok ?s v \<and> clear_of v sm"
    using d l K(1) m sm(2) by (auto simp: room_def thread_ok_def is_thread_def)
  obtain s3 where s3: "sema_up E sm ?s = ret () s3"
      "sched lim s3 u (?Q(sema_waiters ?s sm \<mapsto> [], ready_threads ?s \<mapsto> [] @ [?K]))" "same_kernel ?s s3"
      "sema_value s3 sm = sema_value ?s sm + 1" "thr_status s3 ?K = TS_READY"
      "kept_but {sm, ?K + 24} ?s s3" "unat (firstFreeSegment s3) \<le> unat (firstFreeSegment ?s) + 40"
    using sema_up_step [OF s1 sm(1) cu r1, of E] K(2) by auto
  have Q3: "?Q(sema_waiters ?s sm \<mapsto> [], ready_threads ?s \<mapsto> [] @ [?K]) = [a \<mapsto> xs, r \<mapsto> [?K], sl \<mapsto> [], w \<mapsto> []]"
    using d l by auto
  have k: "kept_but {sm, ?K + 24} s s3" using s3(6) by (simp add: kept_but_def)
  have n: "sm + 4 \<noteq> ?K + 24" "?K + 40 \<noteq> ?K + 24" "?K + 40 \<noteq> sm" "sm + 4 \<noteq> sm"
    using clear_of_neq [OF sm(3), of 24] clear_of_neq [OF sm(2), of 40] by simp_all
  have f: "all_threads s3 = a" "ready_threads s3 = r" "idle_thread s3 = u" "num_threads s3 = num_threads s"
      "physical_page_entries s3 = physical_page_entries s"
    using same_kernelD(1-3,7,8) [OF s3(3)] l by simp_all
  have "kernel_up lim T s3 u [a \<mapsto> xs, r \<mapsto> [?K], sl \<mapsto> [], w \<mapsto> []] fs"
    by (rule paging_status [OF s0 k]) (use s3(2) [unfolded Q3] f(5) sm(4) in \<open>auto simp: K_THREAD_BASE_def\<close>)
  moreover have "sema_waiters s3 sm = w" using k n(1,4) sm(3) l(4) by (simp add: kept_but_def clear_of_def)
  ultimately have "starting lim T sm s3 u ls xs [?K] [] 1 fs"
    using d f s3(4) l(3) by (simp add: starting_def ls)
  moreover have "thread_ok s3 ?K" by (rule thread_ok_kept [OF k K(1)]) (use n in auto)
  moreover have "idle_start E sm s = ret () s3" using s3(1) run by (simp add: idle_start_def)
  ultimately show ?thesis using that s3(5,7) f(3,4) by simp
qed

lemma idle_blocks:
  assumes s: "starting lim T sm s u ls xs [v] [] 1 fs" and u: "0xC0007000 \<le> unat u" "v \<noteq> u"
    and cu: "clear_of u sm" "clear_of u (sm + 4)" and v: "thread_ok s v" "v + 24 \<noteq> u + 24" "v + 40 \<noteq> u + 24"
  obtains s' where "idle_round s = ret (Switch u v [In_idle]) s'" and "starting lim T sm s' u ls xs [] [] 1 fs" and "\<not> iflag s'"
    and "idle_thread s' = idle_thread s" and "num_threads s' = num_threads s" and "thread_ok s' v" and "thr_status s' v = thr_status s v"
    and "thr_status s' u = TS_BLOCKED" and "firstFreeSegment s' = firstFreeSegment s"
proof -
  let ?s = "s\<lparr>iflag := False\<rparr>"
  obtain a r sl w where ls: "ls = (a, r, sl, w)" by (cases ls)
  let ?Q = "[a \<mapsto> xs, r \<mapsto> [v], sl \<mapsto> [], w \<mapsto> []]"
  have s0: "kernel_up lim T s u ?Q fs" and d: "distinct [a, r, sl, w]"
    and l: "all_threads s = a" "ready_threads s = r" "sema_value s sm = 1" "sema_waiters s sm = w"
    using s by (simp_all add: starting_def ls)
  have s1: "sched lim ?s u ?Q" "?Q (ready_threads ?s) = Some [v]" "next_of ?s [v] \<noteq> u"
    using s0 d l u(2) by (auto simp: kernel_up_def next_of_def)
  obtain s' where bl: "thread_block ?s = ret (Switch u v []) s'"
      "sched lim s' u (?Q(ready_threads ?s \<mapsto> tl [v]))" "same_kernel ?s s'"
      "thr_status s' u = TS_BLOCKED" "iflag s' = False" "kept_but {u + 24} ?s s'" "firstFreeSegment s' = firstFreeSegment ?s"
    using block_step [OF s1] by (auto simp: next_of_def)
  have Q: "?Q(ready_threads ?s \<mapsto> tl [v]) = [a \<mapsto> xs, r \<mapsto> [], sl \<mapsto> [], w \<mapsto> []]" using d l by auto
  have f: "all_threads s' = a" "ready_threads s' = r" "idle_thread s' = idle_thread s" "num_threads s' = num_threads s"
      "physical_page_entries s' = physical_page_entries s"
    using same_kernelD(1-3,7,8) [OF bl(3)] l by simp_all
  have k: "kept_but {u + 24} s s'" using bl(6) by (simp add: kept_but_def)
  have "thread_ok s u" using s0 by (simp add: kernel_up_def sched_def running_def)
  from thread_ok_field [OF this, of 24] have "0xC0007000 \<le> unat (u + 24)" using u(1) by simp
  then have "kernel_up lim T s' u [a \<mapsto> xs, r \<mapsto> [], sl \<mapsto> [], w \<mapsto> []] fs"
    by (intro paging_status [OF s0 k]) (use bl(2) [unfolded Q] f(5) in auto)
  moreover have "sema_value s' sm = 1" "sema_waiters s' sm = w"
    using k l(3,4) cu clear_of_neq [OF cu(1), of 24] clear_of_neq [OF cu(2), of 24] by (simp_all add: kept_but_def clear_of_def)
  ultimately have "starting lim T sm s' u ls xs [] [] 1 fs" using d f by (simp add: starting_def ls)
  moreover have "idle_round s = ret (Switch u v [In_idle]) s'"
    using bl(1) by (simp add: idle_round_def andthen_def int_defs Let_def)
  moreover have "thread_ok s' v" "thr_status s' v = thr_status s v"
    using thread_ok_kept [OF k v(1)] v(2,3) k thread_word [OF v(1), of 24] by (simp_all add: kept_but_def)
  ultimately show ?thesis using that bl(4,5,7) f(3,4) by simp
qed

lemma idle_first_run:
  assumes c: "can_start lim T sm s0 fs0" and u: "thread_ok s u" "0xC0008000 \<le> unat u"
    and s: "starting lim T sm s K_THREAD_BASE ls xs [] [K_THREAD_BASE] 0 fs"
    and k: "thr_status s K_THREAD_BASE = TS_BLOCKED" and e: "get_base_page e = u" and f: "func \<noteq> 0" and m: "room lim s"
  obtains s' where "run K_THREAD_BASE func (idle E sm) (s\<lparr>esp := e\<rparr>) = ret (Switch u K_THREAD_BASE [In_idle]) s'"
    and "starting lim T sm s' u ls xs [] [] 1 fs" and "idle_thread s' = u" and "num_threads s' = num_threads s"
    and "thread_ok s' K_THREAD_BASE" and "thr_status s' u = TS_BLOCKED"
    and "unat (firstFreeSegment s') \<le> unat (firstFreeSegment s) + 40"
proof -
  let ?K = K_THREAD_BASE
  note sm = start_semaphore [OF c] and cu = above_semaphore [OF u c]
  obtain s1 where s1: "switch_complete ?K (s\<lparr>esp := e\<rparr>) = ret () s1" "starting lim T sm s1 u ls xs [] [?K] 0 fs"
      "thread_ok s1 ?K" "thr_status s1 ?K = TS_BLOCKED" "num_threads s1 = num_threads s" "firstFreeSegment s1 = firstFreeSegment s"
    by (rule idle_switched [OF s u e k cu]) (rule that)
  let ?s2 = "s1\<lparr>iflag := True\<rparr>"
  have s2: "starting lim T sm ?s2 u ls xs [] [?K] 0 fs" "thread_ok ?s2 ?K" "room lim ?s2"
    using s1(2,3,6) m by (simp_all add: starting_def kernel_up_def frames_fit_def paging_ok_def thread_ok_def is_thread_def room_def split: prod.splits)
  have sm': "0xC0007000 \<le> unat sm" "thr_status ?s2 ?K = TS_BLOCKED" using sm(5) s1(4) by simp_all
  obtain s3 where s3: "idle_start E sm ?s2 = ret () s3" "starting lim T sm s3 u ls xs [?K] [] 1 fs" "idle_thread s3 = u"
      "thread_ok s3 ?K" "thr_status s3 ?K = TS_READY" "num_threads s3 = num_threads ?s2"
      "unat (firstFreeSegment s3) \<le> unat (firstFreeSegment ?s2) + 40"
    by (rule idle_wakes [OF s2(1,2) sm'(2) sm(1-3) sm'(1) cu(1) s2(3), where E = E]) (rule that)
  have n: "0xC0007000 \<le> unat u" "?K \<noteq> u" "?K + 24 \<noteq> u + 24" "?K + 40 \<noteq> u + 24"
    using u(2) thread_ok_field [OF u(1), of 24] by (auto simp: K_THREAD_BASE_def)
  obtain s4 where s4: "idle_round s3 = ret (Switch u ?K [In_idle]) s4" "starting lim T sm s4 u ls xs [] [] 1 fs" "\<not> iflag s4"
      "idle_thread s4 = idle_thread s3" "num_threads s4 = num_threads s3" "thread_ok s4 ?K" "thr_status s4 ?K = thr_status s3 ?K"
      "thr_status s4 u = TS_BLOCKED" "firstFreeSegment s4 = firstFreeSegment s3"
    by (rule idle_blocks [OF s3(2) n(1,2) cu s3(4) n(3,4)]) (rule that)
  have "run ?K func (idle E sm) (s\<lparr>esp := e\<rparr>) = ret (Switch u ?K [In_idle]) s4"
    using s1(1) f s3(1) s4(1) by (simp add: run_def run_start_def idle_def int_defs Let_def)
  from this s4(2) show ?thesis
    by (rule that) (use s4 s3 s1(5,6) in simp_all)
qed

section \<open>The rest of \<^verbatim>\<open>main\<close>\<close>

lemma frames_apart:
  assumes "frames_fit T s (f # g # fs)" and "page_aligned (Kptov f)" and "page_aligned (Kptov g)"
  shows "unat (Kptov f) + 4096 \<le> unat (Kptov g)"
proof -
  obtain i j where "unat (Kptov f) = 4096 * i" "unat (Kptov g) = 4096 * j"
    using assms(2,3) by (auto simp: page_aligned_def elim!: dvdE)
  moreover have "unat (Kptov f) < unat (Kptov g)" using assms(1) by (simp add: frames_fit_def)
  ultimately show ?thesis by simp
qed

lemma thread_kept_below:
  assumes k: "kept_but {x. unat v < unat x + 4} s s'" and u: "thread_ok s u" "unat u + 4096 \<le> unat v"
    and n: "new_stack_at sy u func aux (kmem s)"
  shows "thread_ok s' u" and "thr_status s' u = thr_status s u" and "new_stack_at sy u func aux (kmem s')"
proof -
  have w: "rd s' (u + j) = rd s (u + j)" if "unat j \<le> 4092" "aligned j" for j
    using k thread_word [OF u(1) that] thread_ok_field [OF u(1) that(1)] u(2) that(1) by (simp add: kept_but_def)
  show "thread_ok s' u" "thr_status s' u = thr_status s u"
    using u(1) w [of 40] w [of 24] by (simp_all add: thread_ok_def is_thread_def)
  show "new_stack_at sy u func aux (kmem s')"
    using n w w [of 0] by (simp add: new_stack_at_def)
qed

lemma kernel_resumed:
  assumes c: "can_start lim T sm s0 fs0" and u: "thread_ok s u" "0xC0008000 \<le> unat u" "thr_status s u = TS_BLOCKED"
    and s: "kernel_up lim T s t [a \<mapsto> xs, r \<mapsto> [], sl \<mapsto> [], w \<mapsto> []] fs" and K: "thread_ok s K_THREAD_BASE"
    and l: "sema_value s sm = 1" and e: "get_base_page e = K_THREAD_BASE"
  obtains s' where "resume E u [In_sema_down sm True, In_boot] (s\<lparr>esp := e\<rparr>) = main_end E s'"
    and "kernel_up lim T s' K_THREAD_BASE [a \<mapsto> xs, r \<mapsto> [], sl \<mapsto> [], w \<mapsto> []] fs" and "iflag s'"
    and "all_threads s' = all_threads s" and "ready_threads s' = ready_threads s" and "num_threads s' = num_threads s"
    and "thr_status s' K_THREAD_BASE = TS_RUNNING" and "idle_thread s' = idle_thread s"
    and "firstFreeSegment s' = firstFreeSegment s" and "thr_status s' u = TS_BLOCKED"
proof -
  let ?K = K_THREAD_BASE and ?Q = "[a \<mapsto> xs, r \<mapsto> [], sl \<mapsto> [], w \<mapsto> []]" and ?se = "s\<lparr>esp := e\<rparr>"
  note sm = start_semaphore [OF c]
  have se: "kernel_up lim T ?se ?K ?Q fs" by (rule esp_kernel_up [OF s K e])
  have "u \<noteq> ?K" using u(2) by (auto simp: K_THREAD_BASE_def)
  then have p: "thread_ok ?se u" "u \<noteq> ?K" "thr_status ?se u \<noteq> TS_DYING"
    using u by (auto simp: thread_ok_def is_thread_def thread_statuses)
  have k: "0xC0007000 \<le> unat ?K" by (simp add: K_THREAD_BASE_def)
  obtain s1 where s1: "switch_complete u ?se = ret () s1" "kernel_up lim T s1 ?K ?Q fs"
      "s1 = wr (?K + 24) TS_RUNNING (?se\<lparr>tick_count := 0\<rparr>)" "kept_but {?K + 24} ?se s1" "thr_status s1 ?K = TS_RUNNING"
    by (rule switch_up [OF se p k]) (rule that)
  have "sema_value s1 sm = 1"
    using s1(4) sm(2) clear_of_neq [OF sm(2), of 24] l by (simp add: kept_but_def clear_of_def)
  then have dn: "sema_down_from E sm True s1 = ret Done (int_set True (wr sm 0 s1))"
    using sema_down_from_free [of s1 sm E True] by simp
  let ?s2 = "int_set True (wr sm 0 s1)" and ?s' = "boot_end (int_set True (wr sm 0 s1))"
  have "kept_but {sm} s1 ?s'"
    by (rule kept_but_wr [of sm _ s1 s1]) (use sm(2) in \<open>simp_all add: clear_of_def kept_but_refl boot_end_def int_defs Let_def\<close>)
  moreover have "sched lim (wr sm 0 s1) ?K ?Q"
    using sched_wr_clear [OF _ sm(2)] s1(2) by (simp add: kernel_up_def)
  then have "sched lim ?s' ?K ?Q" by (simp add: boot_end_def int_defs Let_def)
  ultimately have "kernel_up lim T ?s' ?K ?Q fs"
    by (intro paging_status [OF s1(2)]) (use sm(5) in \<open>auto simp: boot_end_def int_defs Let_def\<close>)
  moreover have "thr_status ?s' ?K = TS_RUNNING"
    using s1(5) clear_of_neq [OF sm(2), of 24] sm(2) by (simp add: boot_end_def int_defs Let_def clear_of_def kernel_word_def K_THREAD_BASE_def)
  moreover have "thr_status ?s' u = TS_BLOCKED"
  proof -
    have "unat (u + 24) = unat u + 24" "kernel_word (u + 24)" "unat ?K = 0xC0007000"
      using thread_ok_field [OF u(1), of 24] thread_word [OF u(1), of 24] by (simp_all add: K_THREAD_BASE_def)
    moreover have "unat (?K + 24) = 0xC0007018" "unat sm < 0xC0008000"
      using sm(6) by (simp_all add: K_THREAD_BASE_def)
    ultimately have "kernel_word (u + 24)" "u + 24 \<notin> {?K + 24}" "u + 24 \<notin> {sm}" using u(2) by auto
    then have "rd ?s' (u + 24) = rd ?se (u + 24)" using \<open>kept_but {sm} s1 ?s'\<close> s1(4) by (simp add: kept_but_def)
    then show ?thesis using u(3) by simp
  qed
  moreover have "resume E u [In_sema_down sm True, In_boot] ?se = main_end E ?s'"
    by (simp add: resume_def s1(1) dn seq_def split: sum.splits prod.splits go.splits)
  ultimately show ?thesis
    using that by (simp add: boot_end_def int_defs Let_def s1(3))
qed


lemma main_end_result:
  assumes s: "kernel_up lim T s t [a \<mapsto> as, r \<mapsto> [], sl \<mapsto> [], w \<mapsto> []] (f # g # fs)" and t: "unat t + 4096 \<le> unat (Kptov f)"
    and d: "distinct [a, r, sl, w]" and l: "all_threads s = a" "ready_threads s = r" and m: "unat (firstFreeSegment s) + 184 \<le> lim"
  obtains s' where "main_end E s = ret Done s'"
    and "kernel_up lim T s' t [a \<mapsto> as @ [Kptov f, Kptov g], r \<mapsto> [Kptov f, Kptov g], sl \<mapsto> [], w \<mapsto> []] fs"
    and "all_threads s' = a" and "ready_threads s' = r" and "num_threads s' = num_threads s + 2" and "iflag s' = iflag s"
    and "idle_thread s' = idle_thread s" and "thr_status s' t = thr_status s t"
    and "\<And>u. u \<in> {Kptov f, Kptov g} \<Longrightarrow> thread_ok s' u \<and> thr_status s' u = TS_READY \<and>
      new_stack_at (env_symbols E) u (sym_thread_echo (env_symbols E)) 0 (kmem s')"
    and "\<And>w. kernel_word w \<Longrightarrow> unat w + 4 \<le> unat (Kptov f) \<Longrightarrow> rd s' w = rd s w"
proof -
  let ?u = "Kptov f" and ?v = "Kptov g" and ?echo = "sym_thread_echo (env_symbols E)"
  have ff: "frames_fit T s (f # g # fs)" using s by (simp add: kernel_up_def)
  have le: "unat ?u \<le> unat ?v" using ff by (simp add: frames_fit_def)
  have m1: "unat (firstFreeSegment s) + 104 \<le> lim" using m by simp
  obtain s1 where s1: "thread_create E ?echo 0 s = ret ?u s1" "kernel_up lim T s1 t [a \<mapsto> as @ [?u], r \<mapsto> [] @ [?u], sl \<mapsto> [], w \<mapsto> []] (g # fs)"
      "thread_ok s1 ?u" "thr_status s1 ?u = TS_READY" "new_stack_at (env_symbols E) ?u ?echo 0 (kmem s1)" "all_threads s1 = a" "ready_threads s1 = r"
      "num_threads s1 = num_threads s + 1" "iflag s1 = iflag s" "idle_thread s1 = idle_thread s"
      "unat (firstFreeSegment s1) \<le> unat (firstFreeSegment s) + 80" "kept_but {x. unat ?u < unat x + 4} s s1"
    by (rule create_boot [OF s t d l m1, where E = E and func = ?echo and aux = 0]) (rule that)
  have t1: "unat t + 4096 \<le> unat ?v" "unat (firstFreeSegment s1) + 104 \<le> lim" using t le s1(11) m by simp_all
  obtain s2 where s2: "thread_create E ?echo 0 s1 = ret ?v s2"
      "kernel_up lim T s2 t [a \<mapsto> (as @ [?u]) @ [?v], r \<mapsto> ([] @ [?u]) @ [?v], sl \<mapsto> [], w \<mapsto> []] fs"
      "thread_ok s2 ?v" "thr_status s2 ?v = TS_READY" "new_stack_at (env_symbols E) ?v ?echo 0 (kmem s2)" "all_threads s2 = a" "ready_threads s2 = r"
      "num_threads s2 = num_threads s1 + 1" "iflag s2 = iflag s1" "idle_thread s2 = idle_thread s1"
      "unat (firstFreeSegment s2) \<le> unat (firstFreeSegment s1) + 80" "kept_but {x. unat ?v < unat x + 4} s1 s2"
    by (rule create_boot [OF s1(2) t1(1) d s1(6,7) t1(2), where E = E and func = ?echo and aux = 0]) (rule that)
  have "unat ?u + 4096 \<le> unat ?v" by (rule frames_apart [OF ff]) (use s1(3) s2(3) in \<open>simp_all add: thread_ok_def\<close>)
  note u2 = thread_kept_below [OF s2(12) s1(3) this s1(5)]
  have tt: "thread_ok s t" using s by (simp add: kernel_up_def sched_def running_def)
  have "thr_status s2 t = thr_status s t"
    using s1(12) s2(12) thread_word [OF tt, of 24] thread_ok_field [OF tt, of 24] t t1(1) by (simp add: kept_but_def)
  moreover have "main_end E s = ret Done s2" using s1(1) s2(1) by (simp add: main_end_def)
  moreover have "rd s2 x = rd s x" if "kernel_word x" "unat x + 4 \<le> unat ?u" for x
    using s1(12) s2(12) that le by (simp add: kept_but_def)
  ultimately show ?thesis
    using s1 s2 u2 by (intro that [where s' = s2]) auto
qed


section \<open>From \<^verbatim>\<open>thread_init\<close> to three threads\<close>

text \<open>
  C2: the kernel comes up. \<^verbatim>\<open>thread_init\<close> makes the boot stack's page the kernel thread, creates the
  idle thread and waits for it; the processor goes to the idle thread, whose first run enters itself
  as \<^verbatim>\<open>idle_thread\<close>, raises the semaphore and blocks; the kernel thread, woken by that, comes back from
  \<^verbatim>\<open>thread_init\<close> and \<^verbatim>\<open>boot\<close> with interrupts on and creates its two threads. Then four threads exist, both
  new ones are ready in the order of creation with the stacks that start them, the idle thread is
  blocked outside every queue, and memory and frames are still in order. \<open>e\<close> and \<open>e'\<close> are the stack
  pointers that \<^verbatim>\<open>context_switch\<close> loads.
\<close>

theorem kernel_comes_up:
  assumes c: "can_start lim T sm s (f # g # h # fs)" and i: "sym_idle (env_symbols E) \<noteq> 0"
    and e: "get_base_page e = Kptov f" "get_base_page e' = K_THREAD_BASE"
  shows "\<exists>s1 s2 s3 a r sl w.
    thread_init E sm s = ret (Switch K_THREAD_BASE (Kptov f) [In_sema_down sm True]) s1 \<and>
    run K_THREAD_BASE (sym_idle (env_symbols E)) (idle E sm) (s1\<lparr>esp := e\<rparr>) = ret (Switch (Kptov f) K_THREAD_BASE [In_idle]) s2 \<and>
    resume E (Kptov f) [In_sema_down sm True, In_boot] (s2\<lparr>esp := e'\<rparr>) = ret Done s3 \<and>
    kernel_up lim T s3 K_THREAD_BASE
      [a \<mapsto> [K_THREAD_BASE, Kptov f, Kptov g, Kptov h], r \<mapsto> [Kptov g, Kptov h], sl \<mapsto> [], w \<mapsto> []] fs \<and>
    distinct [a, r, sl, w] \<and> all_threads s3 = a \<and> ready_threads s3 = r \<and> idle_thread s3 = Kptov f \<and> iflag s3 \<and>
    num_threads s3 = num_threads s + 4 \<and> thr_status s3 K_THREAD_BASE = TS_RUNNING \<and>
    thr_status s3 (Kptov f) = TS_BLOCKED \<and>
    (\<forall>u \<in> {Kptov g, Kptov h}. thread_ok s3 u \<and> thr_status s3 u = TS_READY \<and>
      new_stack_at (env_symbols E) u (sym_thread_echo (env_symbols E)) 0 (kmem s3))"
proof -
  let ?K = K_THREAD_BASE and ?u = "Kptov f" and ?fs = "g # h # fs"
  obtain s1 ls where s1: "thread_init E sm s = ret (Switch ?K ?u [In_sema_down sm True]) s1"
      "starting lim T sm s1 ?K ls [?K, ?u] [] [?K] 0 ?fs" "num_threads s1 = num_threads s + 2"
      "thread_ok s1 ?u" "thr_status s1 ?K = TS_BLOCKED" "unat (firstFreeSegment s1) \<le> unat (firstFreeSegment s) + 320"
    by (rule thread_init_result [OF c, where E = E]) (rule that)
  have "frames_fit T s (f # ?fs)" and m: "unat (firstFreeSegment s) + 600 \<le> lim" using c by (simp_all add: can_start_def)
  then have u: "0xC0008000 \<le> unat ?u" "unat ?u < unat (Kptov g)" by (simp_all add: frames_fit_def)
  have n1: "room lim s1" using s1(6) m by (simp add: room_def)
  obtain s2 where s2: "run ?K (sym_idle (env_symbols E)) (idle E sm) (s1\<lparr>esp := e\<rparr>) = ret (Switch ?u ?K [In_idle]) s2"
      "starting lim T sm s2 ?u ls [?K, ?u] [] [] 1 ?fs" "idle_thread s2 = ?u" "num_threads s2 = num_threads s1"
      "thread_ok s2 ?K" "thr_status s2 ?u = TS_BLOCKED" "unat (firstFreeSegment s2) \<le> unat (firstFreeSegment s1) + 40"
    by (rule idle_first_run [OF c s1(4) u(1) s1(2,5) e(1) i n1, where E = E]) (rule that)
  obtain a r sl w where ls: "ls = (a, r, sl, w)" by (cases ls)
  have q2: "kernel_up lim T s2 ?u [a \<mapsto> [?K, ?u], r \<mapsto> [], sl \<mapsto> [], w \<mapsto> []] ?fs" "sema_value s2 sm = 1"
      "distinct [a, r, sl, w]" "all_threads s2 = a" "ready_threads s2 = r"
    using s2(2) by (simp_all add: starting_def ls)
  have u2: "thread_ok s2 ?u" using q2(1) by (simp add: kernel_up_def sched_def running_def)
  obtain s3 where s3: "resume E ?u [In_sema_down sm True, In_boot] (s2\<lparr>esp := e'\<rparr>) = main_end E s3"
      "kernel_up lim T s3 ?K [a \<mapsto> [?K, ?u], r \<mapsto> [], sl \<mapsto> [], w \<mapsto> []] ?fs" "iflag s3" "all_threads s3 = all_threads s2"
      "ready_threads s3 = ready_threads s2" "num_threads s3 = num_threads s2" "thr_status s3 ?K = TS_RUNNING"
      "idle_thread s3 = idle_thread s2" "firstFreeSegment s3 = firstFreeSegment s2" "thr_status s3 ?u = TS_BLOCKED"
    by (rule kernel_resumed [OF c u2 u(1) s2(6) q2(1) s2(5) q2(2) e(2), where E = E]) (rule that)
  have K: "unat ?K + 4096 \<le> unat (Kptov g)" using u by (simp add: K_THREAD_BASE_def)
  have l3: "all_threads s3 = a" "ready_threads s3 = r" "unat (firstFreeSegment s3) + 184 \<le> lim"
    using s3(4,5,9) q2(4,5) s2(7) s1(6) m by simp_all
  obtain s4 where s4: "main_end E s3 = ret Done s4"
      "kernel_up lim T s4 ?K [a \<mapsto> [?K, ?u] @ [Kptov g, Kptov h], r \<mapsto> [Kptov g, Kptov h], sl \<mapsto> [], w \<mapsto> []] fs"
      "all_threads s4 = a" "ready_threads s4 = r" "num_threads s4 = num_threads s3 + 2" "iflag s4 = iflag s3"
      "idle_thread s4 = idle_thread s3" "thr_status s4 ?K = thr_status s3 ?K"
      "\<And>u. u \<in> {Kptov g, Kptov h} \<Longrightarrow> thread_ok s4 u \<and> thr_status s4 u = TS_READY \<and>
        new_stack_at (env_symbols E) u (sym_thread_echo (env_symbols E)) 0 (kmem s4)"
      "\<And>w. kernel_word w \<Longrightarrow> unat w + 4 \<le> unat (Kptov g) \<Longrightarrow> rd s4 w = rd s3 w"
    by (rule main_end_result [OF s3(2) K q2(3) l3, where E = E]) (rule that)
  have r: "resume E ?u [In_sema_down sm True, In_boot] (s2\<lparr>esp := e'\<rparr>) = ret Done s4" using s3(1) s4(1) by simp
  have up: "kernel_up lim T s4 ?K [a \<mapsto> [?K, ?u, Kptov g, Kptov h], r \<mapsto> [Kptov g, Kptov h], sl \<mapsto> [], w \<mapsto> []] fs"
    using s4(2) by simp
  have x: "idle_thread s4 = ?u" "iflag s4" "num_threads s4 = num_threads s + 4" "thr_status s4 ?K = TS_RUNNING"
    using s4(5-8) s3(3,6-8) s2(3,4) s1(3) by simp_all
  have "unat ?u + 4096 \<le> unat (Kptov g)"
    by (rule frames_apart [of T s f g "h # fs"])
      (use \<open>frames_fit T s (f # ?fs)\<close> c in \<open>simp_all add: can_start_def paging_ok_def frames_ok_def\<close>)
  then have b: "thr_status s4 ?u = TS_BLOCKED"
    using s4(10) [of "?u + 24"] s3(10) thread_word [OF u2, of 24] thread_ok_field [OF u2, of 24] by simp
  show ?thesis
    by (intro exI conjI ballI, rule s1(1), rule s2(1), rule r, rule up, rule q2(3), rule s4(3), rule s4(4), rule x(1), rule x(2),
        rule x(3), rule x(4), rule b) (use s4(9) in blast)+
qed

definition boot_env :: env where
  "boot_env = example_env\<lparr>env_symbols := \<lparr>sym_run = 0x1000, sym_first_switch = 0x1100, sym_idle = 0x1200, sym_thread_echo = 0x1300\<rparr>\<rparr>"

text \<open>The kernel after \<^verbatim>\<open>paging_init\<close> on the boot code's page tables can start.\<close>

lemma boot_can_start:
  obtains s fs where "paging_init boot_ready = ret () s"
    and "can_start 4096 0xC1100000 0xC0007F80 s (0x25000 # 0x26000 # 0x27000 # fs)"
proof -
  obtain fs where fs: "free_frames boot_pages = 0x20000 # 0x21000 # 0x22000 # 0x23000 # 0x24000 # 0x25000 # 0x26000 # 0x27000 # fs"
    by (rule boot_frames)
  let ?s = "\<lambda>m c ps. boot_ready\<lparr>kmem := m, con := c, physical_page_entries := ps, kernel_pool := Kptov 0x20000, firstFreeSegment := 0\<rparr>"
  from paging_init_step [OF boot_memory_ready [unfolded fs] boot_pool_zero] obtain m c ps where
    m: "paging_init boot_ready = ret () (?s m c ps)" "queues 4096 (?s m c ps) Map.empty" "tables_ok m" "frames_ok m ps"
      "free_frames ps = 0x25000 # 0x26000 # 0x27000 # fs" "frames_fit 0xC1100000 (boot_ready\<lparr>kmem := m\<rparr>) (0x25000 # 0x26000 # 0x27000 # fs)"
    by blast
  have "frames_fit 0xC1100000 (?s m c ps) (0x25000 # 0x26000 # 0x27000 # fs)" using m(6) by (simp add: frames_fit_def)
  moreover have "get_base_page (esp (?s m c ps)) = K_THREAD_BASE"
    by (simp add: boot_ready_def get_base_page_def Let_def PGSIZE_def K_THREAD_BASE_def)
  ultimately have "can_start 4096 0xC1100000 0xC0007F80 (?s m c ps) (0x25000 # 0x26000 # 0x27000 # fs)"
    using m(2-5) by (simp add: can_start_def paging_ok_def aligned_def)
  with m(1) show ?thesis by (rule that)
qed

theorem kernel_comes_up_witness:
  "\<exists>s s1 s2 s3. paging_init boot_ready = ret () s \<and>
     thread_init boot_env 0xC0007F80 s = ret (Switch K_THREAD_BASE 0xC0025000 [In_sema_down 0xC0007F80 True]) s1 \<and>
     run K_THREAD_BASE 0x1200 (idle boot_env 0xC0007F80) (s1\<lparr>esp := 0xC0025FF0\<rparr>) = ret (Switch 0xC0025000 K_THREAD_BASE [In_idle]) s2 \<and>
     resume boot_env 0xC0025000 [In_sema_down 0xC0007F80 True, In_boot] (s2\<lparr>esp := 0xC0007E00\<rparr>) = ret Done s3 \<and>
     thr_status s3 0xC0026000 = TS_READY \<and> thr_status s3 0xC0027000 = TS_READY \<and> idle_thread s3 = 0xC0025000 \<and>
     thr_status s3 0xC0025000 = TS_BLOCKED"
proof -
  obtain s fs where s: "paging_init boot_ready = ret () s" "can_start 4096 0xC1100000 0xC0007F80 s (0x25000 # 0x26000 # 0x27000 # fs)"
    by (rule boot_can_start)
  have i: "sym_idle (env_symbols boot_env) \<noteq> 0" by (simp add: boot_env_def)
  have e: "get_base_page 0xC0025FF0 = Kptov 0x25000" "get_base_page 0xC0007E00 = K_THREAD_BASE"
    by (simp_all add: get_base_page_def Let_def PGSIZE_def K_THREAD_BASE_def Kptov_def KERN_BASE_def)
  have k: "Kptov 0x25000 = 0xC0025000" "Kptov 0x26000 = 0xC0026000" "Kptov 0x27000 = 0xC0027000"
    by (simp_all add: Kptov_def KERN_BASE_def)
  have b: "sym_idle (env_symbols boot_env) = 0x1200" by (simp add: boot_env_def)
  from kernel_comes_up [OF s(2) i e, unfolded k b] s(1) show ?thesis by blast
qed

end
