(* ===== verification/BootAsm.thy ===== *)
theory BootAsm
  imports BootTables
begin

text \<open>
  The assembly that builds the first page tables (\<^verbatim>\<open>src/boot/paging.asm\<close>), run before paging is on:
  memory here is physical memory. Each loop is a function on the registers it uses and memory; the
  loops end with \<^verbatim>\<open>jl\<close>, a signed comparison, after the first round. What they leave is the image
  \<open>boot_word\<close> from which the paging code starts, and as a translation it is two windows on the
  first 24 MiB.
\<close>

section \<open>The loops\<close>

definition PAGES_COUNT :: nat where "PAGES_COUNT = 6"

text \<open>The directory's physical address; \<^verbatim>\<open>PAGE_DIRECTORY_BASE\<close> of the C code is the virtual one.\<close>

definition asm_PAGE_DIRECTORY_BASE :: u32 where "asm_PAGE_DIRECTORY_BASE = 0x00006000"

lemma jl_next: "sint (b :: u32) < sint (n :: u32) \<Longrightarrow> sint (b + 1) = sint b + 1"
  using sint_lt [of n] sint_ge [of b] by (simp add: sint_word_ariths signed_take_bit_int_eq_self)

lemma jl_next2: "sint (a + 1 :: u32) < sint (n :: u32) \<Longrightarrow> sint (2 + a) = sint (a + 1) + 1"
  using jl_next [of "a + 1" n] by (simp add: add.commute)

function clear_loop :: "ptr \<Rightarrow> u32 \<Rightarrow> u32 \<Rightarrow> mem \<Rightarrow> mem" where
  "clear_loop base n eax m =
     (let m = m(base + eax := 0); eax = eax + 1
      in if sint eax < sint n then clear_loop base n eax m else m)"
  by pat_completeness auto
termination
  by (relation "measure (\<lambda>(base, n, eax, m). nat (sint n - sint (eax + 1)))") (auto simp: jl_next2)

declare clear_loop.simps [simp del]

definition clear_page_directory :: "mem \<Rightarrow> mem" where
  "clear_page_directory m = clear_loop asm_PAGE_DIRECTORY_BASE 0x1000 0 m"

definition clear_page_tables :: "mem \<Rightarrow> mem" where
  "clear_page_tables m = clear_loop PAGE_TABLES_BASE 0x400000 0 m"

text \<open>\<^verbatim>\<open>%rep\<close> writes the stores out; \<open>page_directory_definition\<close> is the macro.\<close>

definition page_directory_definition :: "u32 \<Rightarrow> ptr \<Rightarrow> u32 \<Rightarrow> mem \<Rightarrow> mem" where
  "page_directory_definition entry base off m = (let eax = entry + 3 in st32 (base + off) eax m)"

definition create_page_directory :: "mem \<Rightarrow> mem" where
  "create_page_directory m =
     (let m = fold (\<lambda>i. page_directory_definition (PAGE_TABLES_BASE + of_nat i * 0x1000) asm_PAGE_DIRECTORY_BASE (of_nat i * 4))
          [0..<PAGES_COUNT] m
      in fold (\<lambda>i. page_directory_definition (PAGE_TABLES_BASE + 0x00300000 + of_nat i * 0x1000)
           (asm_PAGE_DIRECTORY_BASE + 0xC00) (of_nat i * 4)) [0..<PAGES_COUNT] m)"

function fill_loop :: "ptr \<Rightarrow> u32 \<Rightarrow> u32 \<Rightarrow> u32 \<Rightarrow> mem \<Rightarrow> mem" where
  "fill_loop base n eax ebx m =
     (let ecx = ebx; ecx = ecx OR 3; m = st32 (base + eax * 4) ecx m;
          ebx = ebx + 0x1000; eax = eax + 1
      in if sint eax < sint n then fill_loop base n eax ebx m else m)"
  by pat_completeness auto
termination
  by (relation "measure (\<lambda>(base, n, eax, ebx, m). nat (sint n - sint (eax + 1)))") (auto simp: jl_next2)

declare fill_loop.simps [simp del]

definition create_identity_page_table :: "mem \<Rightarrow> mem" where
  "create_identity_page_table m = fill_loop PAGE_TABLES_BASE (of_nat PAGES_COUNT * 0x1000) 0 0 m"

definition create_kernel_page_table :: "mem \<Rightarrow> mem" where
  "create_kernel_page_table m = fill_loop (PAGE_TABLES_BASE + 0x00300000) (of_nat PAGES_COUNT * 0x1000) 0 0 m"

text \<open>The calls of \<^verbatim>\<open>BEGIN_PM\<close> up to \<^verbatim>\<open>enable_paging\<close>.\<close>

definition boot_paging :: "mem \<Rightarrow> mem" where
  "boot_paging m =
     create_kernel_page_table (create_identity_page_table (create_page_directory
       (clear_page_tables (clear_page_directory m))))"

text \<open>\<^verbatim>\<open>enable_paging\<close>: the new \<^verbatim>\<open>cr3\<close> and \<^verbatim>\<open>cr0\<close>, with the bits for paging and for native FPU errors set.\<close>

definition enable_paging :: "u32 \<Rightarrow> u32 \<times> u32" where
  "enable_paging cr0 =
     (let eax = asm_PAGE_DIRECTORY_BASE; cr3 = eax; eax = cr0; eax = eax OR 0x80000020 in (cr3, eax))"

lemma enable_paging_result: "fst (enable_paging r) = 0x6000 \<and> bit (snd (enable_paging r)) 31"
  by (simp add: enable_paging_def Let_def asm_PAGE_DIRECTORY_BASE_def bit_or_iff bit_numeral_rec)

section \<open>What the loops leave\<close>

lemma sint_small: "unat (a :: u32) < 2147483648 \<Longrightarrow> sint a = int (unat a)"
proof -
  assume "unat a < 2147483648"
  then have "uint a < 2147483648" by (metis of_nat_less_iff of_nat_numeral uint_nat)
  moreover have "- 2147483648 \<le> uint a" by (rule order.trans [of _ 0]) simp_all
  ultimately have "signed_take_bit 31 (uint a) = uint a" by (intro signed_take_bit_int_eq_self) simp_all
  then show "sint a = int (unat a)" by (simp add: sint_uint)
qed

lemma clear_loop_result:
  assumes "unat eax < unat n" and "unat n < 2147483648" and "unat base + unat n \<le> 4294967296"
  shows "clear_loop base n eax m x =
    (if unat base + unat eax \<le> unat x \<and> unat x < unat base + unat n then 0 else m x)"
  using assms
proof (induction base n eax m rule: clear_loop.induct)
  case (1 base n eax m)
  have e: "unat (eax + 1) = unat eax + 1" using "1.prems" by (simp add: unat_plus_small)
  have b: "unat (base + eax) = unat base + unat eax" using "1.prems" by (simp add: unat_plus_small)
  have s: "sint (eax + 1) < sint n \<longleftrightarrow> unat eax + 1 < unat n"
    using sint_small [of "eax + 1"] sint_small [of n] "1.prems" e by (simp only: of_nat_less_iff)
  have x: "x = base + eax \<longleftrightarrow> unat x = unat base + unat eax" using b by (metis word_unat_eq_iff)
  show ?case
  proof (cases "unat eax + 1 < unat n")
    case True
    then have "clear_loop base n eax m x = clear_loop base n (eax + 1) (m(base + eax := 0)) x"
      by (subst clear_loop.simps) (simp add: s Let_def)
    also have "\<dots> = (if unat base + unat (eax + 1) \<le> unat x \<and> unat x < unat base + unat n then 0 else (m(base + eax := 0)) x)"
      by (rule "1.IH" [OF refl refl]) (use True "1.prems" s e in simp_all)
    finally show ?thesis using e x True by auto
  next
    case False
    then have "clear_loop base n eax m x = (m(base + eax := 0)) x"
      by (subst clear_loop.simps) (simp add: s Let_def)
    then show ?thesis using x False "1.prems" by auto
  qed
qed

text \<open>The fill loop is the stores of its entries, in order.\<close>

definition put_words :: "ptr \<Rightarrow> (nat \<Rightarrow> u32) \<Rightarrow> nat list \<Rightarrow> mem \<Rightarrow> mem" where
  "put_words base f = fold (\<lambda>i. st32 (base + of_nat (4 * i)) (f i))"

lemma fill_loop_words:
  assumes "k < n" and "n < 524288"
  shows "fill_loop base (of_nat n) (of_nat k) (of_nat k * 0x1000) m =
    put_words base (\<lambda>i. (of_nat i * 0x1000) OR 3) [k..<n] m"
  using assms
proof (induction "n - k" arbitrary: k m)
  case (Suc d)
  have u: "unat (of_nat i :: u32) = i" if "i \<le> n" for i
    using that Suc.prems by (simp add: unsigned_of_nat take_bit_nat_eq_self)
  have e: "of_nat k + 1 = (of_nat (Suc k) :: u32)" by simp
  have s: "sint (of_nat k + 1 :: u32) < sint (of_nat n :: u32) \<longleftrightarrow> Suc k < n"
    unfolding e using Suc.prems by (subst (1 2) sint_small) (simp_all add: u del: of_nat_Suc)
  have b: "of_nat k * 0x1000 + 0x1000 = (of_nat (Suc k) * 0x1000 :: u32)" by (simp add: algebra_simps)
  let ?m = "st32 (base + of_nat (4 * k)) ((of_nat k * 0x1000) OR 3) m"
  show ?case
  proof (cases "Suc k < n")
    case True
    have "fill_loop base (of_nat n) (of_nat k) (of_nat k * 0x1000) m =
        fill_loop base (of_nat n) (of_nat (Suc k)) (of_nat (Suc k) * 0x1000) ?m"
      by (subst fill_loop.simps) (simp only: Let_def s [unfolded e] True if_True b e, simp add: mult.commute)
    also have "\<dots> = put_words base (\<lambda>i. (of_nat i * 0x1000) OR 3) [Suc k..<n] ?m"
      using Suc.hyps True by (intro Suc.hyps(1)) (use Suc.prems in simp_all)
    also have "\<dots> = put_words base (\<lambda>i. (of_nat i * 0x1000) OR 3) [k..<n] m"
      using Suc.prems by (simp add: put_words_def upt_conv_Cons)
    finally show ?thesis .
  next
    case False
    then have "[k..<n] = [k]" using Suc.prems by (simp add: upt_conv_Cons)
    moreover have "fill_loop base (of_nat n) (of_nat k) (of_nat k * 0x1000) m = ?m"
      by (subst fill_loop.simps) (simp only: Let_def s False if_False, simp add: mult.commute)
    ultimately show ?thesis by (simp add: put_words_def)
  qed
qed simp


lemma entry_aligned: "aligned base \<Longrightarrow> aligned (base + of_nat (4 * i))"
  by (intro aligned_plus aligned_of_nat4) simp_all

lemma put_words_other:
  assumes "aligned base" and "aligned a" and "\<And>i. i \<in> set is \<Longrightarrow> a \<noteq> base + of_nat (4 * i)"
  shows "ld32 (put_words base f is m) a = ld32 m a"
  using assms(3)
proof (induction "is" arbitrary: m)
  case (Cons i "is")
  then show ?case
    using ld32_st32_other [OF entry_aligned [OF assms(1)] assms(2) not_sym [OF Cons.prems [of i]], of "f i" m]
    by (simp add: put_words_def)
qed (simp add: put_words_def)

lemma entry_inj:
  assumes "i < 1073741824" and "j < 1073741824" and "(base :: ptr) + of_nat (4 * i) = base + of_nat (4 * j)"
  shows "i = j"
proof -
  have "(of_nat (4 * i) :: ptr) = of_nat (4 * j)" using assms(3) by (simp only: add_left_cancel)
  then have "unat (of_nat (4 * i) :: ptr) = unat (of_nat (4 * j) :: ptr)" by (simp only:)
  then show ?thesis using assms(1,2) by (simp add: unat_of_nat del: of_nat_mult)
qed

lemma put_words_entry:
  assumes "aligned base" and "set is \<subseteq> {..<1073741824}" and "i \<in> set is"
  shows "ld32 (put_words base f is m) (base + of_nat (4 * i)) = f i"
  using assms(2,3)
proof (induction "is" rule: rev_induct)
  case (snoc j "is")
  let ?m = "put_words base f is m"
  have p: "put_words base f (is @ [j]) m = st32 (base + of_nat (4 * j)) (f j) ?m" by (simp add: put_words_def)
  show ?case
  proof (cases "i = j")
    case True
    then show ?thesis unfolding p by (simp add: entry_aligned [OF assms(1)] del: of_nat_mult)
  next
    case False
    have "base + of_nat (4 * j) \<noteq> base + of_nat (4 * i)" using entry_inj [of j i base] False snoc.prems by auto
    then have "ld32 (put_words base f (is @ [j]) m) (base + of_nat (4 * i)) = ld32 ?m (base + of_nat (4 * i))"
      unfolding p by (intro ld32_st32_other entry_aligned assms(1))
    then show ?thesis using snoc False by simp
  qed
qed simp

text \<open>The five steps, as stores of words.\<close>

lemma entry_or_3: "(of_nat i * 0x1000) OR 3 = (of_nat i * 0x1000 + 3 :: u32)"
proof -
  have "(of_nat i * 0x1000 :: u32) = push_bit 12 (of_nat i)" by (simp add: push_bit_eq_mult)
  moreover have "(3 :: u32) = mask 2" by (simp add: mask_eq_exp_minus_1)
  ultimately show ?thesis by (simp only:) (rule disjunctive_add [symmetric], simp only: bit_mask_iff bit_push_bit_iff, auto)
qed

lemma table_fill:
  "create_identity_page_table m = put_words PAGE_TABLES_BASE (\<lambda>i. of_nat i * 0x1000 + 3) [0..<0x6000] m"
  "create_kernel_page_table m = put_words (PAGE_TABLES_BASE + 0x300000) (\<lambda>i. of_nat i * 0x1000 + 3) [0..<0x6000] m"
  using fill_loop_words [of 0 "0x6000"]
  by (simp_all add: create_identity_page_table_def create_kernel_page_table_def PAGES_COUNT_def entry_or_3 del: upt_rec_numeral)

lemma directory_fill:
  "create_page_directory m =
     put_words (asm_PAGE_DIRECTORY_BASE + 0xC00) (\<lambda>i. PAGE_TABLES_BASE + 0x300000 + of_nat i * 0x1000 + 3) [0..<6]
       (put_words asm_PAGE_DIRECTORY_BASE (\<lambda>i. PAGE_TABLES_BASE + of_nat i * 0x1000 + 3) [0..<6] m)"
proof -
  have d: "page_directory_definition e b (of_nat i * 4) = st32 (b + of_nat (4 * i)) (e + 3)" for e b i
    by (rule ext) (simp add: page_directory_definition_def Let_def mult.commute)
  show ?thesis unfolding create_page_directory_def put_words_def PAGES_COUNT_def Let_def d by (simp only:)
qed


lemma cleared:
  assumes "aligned a"
  shows "ld32 (clear_page_tables (clear_page_directory m)) a =
    (if 0x6000 \<le> unat a \<and> unat a < 0x7000 \<or> 0x1100000 \<le> unat a \<and> unat a < 0x1500000 then 0 else ld32 m a)"
proof -
  let ?m = "clear_page_tables (clear_page_directory m)"
  have b: "?m x = (if 0x1100000 \<le> unat x \<and> unat x < 0x1500000 \<or> 0x6000 \<le> unat x \<and> unat x < 0x7000 then 0 else m x)" for x
    by (simp add: clear_page_tables_def clear_page_directory_def clear_loop_result PAGE_TABLES_BASE_def asm_PAGE_DIRECTORY_BASE_def)
  have u: "unat (a + k) = unat a + unat k" if "unat k < 4" for k by (rule aligned_plus_unat [OF assms that])
  obtain q where q: "unat a = 4 * q" using assms unfolding aligned_def by (elim dvdE)
  show ?thesis
  proof (cases "0x6000 \<le> unat a \<and> unat a < 0x7000 \<or> 0x1100000 \<le> unat a \<and> unat a < 0x1500000")
    case True
    have "ld32 ?m a = ld32 (\<lambda>_. 0) a"
      by (rule ld32_cong) (use True in \<open>auto simp: b u q\<close>)
    then show ?thesis using True by (simp add: ld32_def)
  next
    case False
    have "ld32 ?m a = ld32 m a"
      by (rule ld32_cong) (use False in \<open>auto simp: b u q\<close>)
    then show ?thesis using False by auto
  qed
qed

lemma put_area:
  assumes "aligned a" and "aligned base" and "unat base + 4 * n \<le> 4294967296" and "n \<le> 1073741824"
  shows "ld32 (put_words base f [0..<n] m) a =
    (if unat base \<le> unat a \<and> unat a < unat base + 4 * n then f ((unat a - unat base) div 4) else ld32 m a)"
proof -
  have e: "unat (base + of_nat (4 * i)) = unat base + 4 * i" if "i < n" for i
    using that assms(3,4) by (simp add: unat_plus_small unat_of_nat del: of_nat_mult)
  show ?thesis
  proof (cases "unat base \<le> unat a \<and> unat a < unat base + 4 * n")
    case True
    obtain p q where p: "unat a = 4 * p" "unat base = 4 * q" using assms(1,2) unfolding aligned_def by (elim dvdE)
    let ?i = "p - q"
    have i: "?i < n" "unat a = unat base + 4 * ?i" "(unat a - unat base) div 4 = ?i" using True p by (simp_all, arith+)
    then have a: "a = base + of_nat (4 * ?i)" using e [of ?i] by (simp only: word_unat_eq_iff)
    have "ld32 (put_words base f [0..<n] m) (base + of_nat (4 * ?i)) = f ?i"
      by (rule put_words_entry [OF assms(2)]) (use i(1) assms(4) in auto)
    then show ?thesis using True i(3) a by simp
  next
    case False
    have "ld32 (put_words base f [0..<n] m) a = ld32 m a"
      by (rule put_words_other [OF assms(2,1)]) (use e False in auto)
    then show ?thesis using False by auto
  qed
qed

lemma word_index:
  assumes "unat (base :: ptr) \<le> unat a"
  shows "(a - base) div 4 = of_nat ((unat a - unat base) div 4)"
proof -
  have "unat (a - base) = unat a - unat base" using assms by (simp add: unat_sub word_le_nat_alt)
  then have "unat ((a - base) div 4) = (unat a - unat base) div 4" by (simp add: unat_div)
  then show ?thesis by (metis of_nat_unat ucast_id)
qed

text \<open>\<open>boot_word\<close> at a physical address of the first 24 MiB, with the indices as numbers.\<close>

lemma boot_word_physical:
  assumes "unat a < 0x1800000"
  shows "boot_word (Kptov a) =
    (if 0x6000 \<le> unat a \<and> unat a < 0x7000 then boot_pde (of_nat ((unat a - 0x6000) div 4))
     else if 0x1100000 \<le> unat a \<and> unat a < 0x1118000 then of_nat ((unat a - 0x1100000) div 4) * 0x1000 + 3
     else if 0x1400000 \<le> unat a \<and> unat a < 0x1418000 then of_nat ((unat a - 0x1400000) div 4) * 0x1000 + 3
     else 0)"
proof -
  have u: "unat (Kptov a) = unat a + 0xC0000000" using assms by (simp add: Kptov_def KERN_BASE_def unat_plus_small)
  show ?thesis
    using word_index [of PAGE_DIRECTORY_BASE "Kptov a"] word_index [of "0xC1100000" "Kptov a"] word_index [of "0xC1400000" "Kptov a"]
    by (simp add: boot_word_def word_le_nat_alt word_less_nat_alt u PAGE_DIRECTORY_BASE_def PAGE_TABLES_BASE_def Kptov_def [of "0x1100000"] KERN_BASE_def)
qed

lemma boot_pde_index:
  assumes "i < 1024"
  shows "boot_pde (of_nat i) = (if i < 6 then PAGE_TABLES_BASE + of_nat i * 0x1000 + 3
    else if 768 \<le> i \<and> i < 774 then PAGE_TABLES_BASE + 0x300000 + of_nat (i - 768) * 0x1000 + 3 else 0)"
proof -
  have u: "unat (of_nat i :: u32) = i" using assms by (simp add: unat_of_nat)
  have "(of_nat i - 768 :: u32) = of_nat (i - 768)" if "768 \<le> i" using that by (simp add: of_nat_diff)
  then show ?thesis by (simp add: boot_pde_def word_less_nat_alt word_le_nat_alt u)
qed

lemma boot_paging_leaves_step:
  assumes "aligned a"
  shows "ld32 (boot_paging m) a =
    (if 0x6000 \<le> unat a \<and> unat a < 0x7000 \<or> 0x1100000 \<le> unat a \<and> unat a < 0x1500000
     then boot_word (Kptov a) else ld32 m a)"
proof -
  let ?c = "clear_page_tables (clear_page_directory m)"
  have al: "aligned PAGE_TABLES_BASE" "aligned (PAGE_TABLES_BASE + 0x300000)" "aligned asm_PAGE_DIRECTORY_BASE" "aligned (asm_PAGE_DIRECTORY_BASE + 0xC00)"
    and u: "unat PAGE_TABLES_BASE = 0x1100000" "unat (PAGE_TABLES_BASE + 0x300000) = 0x1400000"
      "unat asm_PAGE_DIRECTORY_BASE = 0x6000" "unat (asm_PAGE_DIRECTORY_BASE + 0xC00) = 0x6C00"
    by (simp_all add: PAGE_TABLES_BASE_def asm_PAGE_DIRECTORY_BASE_def)
  have p: "ld32 (put_words PAGE_TABLES_BASE f [0..<0x6000] x) a =
      (if 0x1100000 \<le> unat a \<and> unat a < 0x1118000 then f ((unat a - 0x1100000) div 4) else ld32 x a)"
    "ld32 (put_words (PAGE_TABLES_BASE + 0x300000) f [0..<0x6000] x) a =
      (if 0x1400000 \<le> unat a \<and> unat a < 0x1418000 then f ((unat a - 0x1400000) div 4) else ld32 x a)"
    "ld32 (put_words asm_PAGE_DIRECTORY_BASE f [0..<6] x) a =
      (if 0x6000 \<le> unat a \<and> unat a < 0x6018 then f ((unat a - 0x6000) div 4) else ld32 x a)"
    "ld32 (put_words (asm_PAGE_DIRECTORY_BASE + 0xC00) f [0..<6] x) a =
      (if 0x6C00 \<le> unat a \<and> unat a < 0x6C18 then f ((unat a - 0x6C00) div 4) else ld32 x a)" for f x
    using put_area [OF assms al(1), of "0x6000" f x] put_area [OF assms al(2), of "0x6000" f x]
      put_area [OF assms al(3), of 6 f x] put_area [OF assms al(4), of 6 f x]
    unfolding u by (simp_all del: upt_rec_numeral)
  let ?d = "create_page_directory ?c"
  have d: "ld32 ?d a = (if 0x6000 \<le> unat a \<and> unat a < 0x7000 then boot_pde (of_nat ((unat a - 0x6000) div 4)) else ld32 ?c a)"
  proof (cases "0x6000 \<le> unat a \<and> unat a < 0x7000")
    case True
    let ?i = "(unat a - 0x6000) div 4"
    have i: "?i < 1024" "0x6C00 \<le> unat a \<and> unat a < 0x6C18 \<longleftrightarrow> 768 \<le> ?i \<and> ?i < 774" "unat a < 0x6018 \<longleftrightarrow> ?i < 6"
      and k: "0x6C00 \<le> unat a \<Longrightarrow> (unat a - 0x6C00) div 4 = ?i - 768"
      using True by (simp_all, arith+)
    show ?thesis
      unfolding directory_fill p boot_pde_index [OF i(1)] i(2) using True k i(2,3) cleared [OF assms, of m] by auto
  qed (auto simp: directory_fill p)
  have b: "ld32 (boot_paging m) a = (if 0x1400000 \<le> unat a \<and> unat a < 0x1418000 then of_nat ((unat a - 0x1400000) div 4) * 0x1000 + 3
      else if 0x1100000 \<le> unat a \<and> unat a < 0x1118000 then of_nat ((unat a - 0x1100000) div 4) * 0x1000 + 3 else ld32 ?d a)"
    unfolding boot_paging_def table_fill p by (rule refl)
  show ?thesis
    unfolding b d cleared [OF assms] using boot_word_physical [of a] by auto
qed


text \<open>
  C22: the assembly leaves exactly the image from which the paging code starts: after its five
  steps, whatever memory held before, every word of the page directory and of the 4 MiB of page
  tables is that of \<open>boot_word\<close> at the word's address in the kernel window, and every other word of
  memory is as before.
\<close>

theorem boot_paging_leaves:
  assumes "aligned a"
  shows "ld32 (boot_paging m) a =
    (if 0x6000 \<le> unat a \<and> unat a < 0x7000 \<or> 0x1100000 \<le> unat a \<and> unat a < 0x1500000
     then boot_word (Kptov a) else ld32 m a)"
  by (rule boot_paging_leaves_step [OF assms])

theorem boot_paging_leaves_witness:
  "ld32 (boot_paging (\<lambda>_. 0x55)) 0x1400004 = 0x1003 \<and> ld32 (boot_paging (\<lambda>_. 0x55)) 0x6C04 = 0x1401003 \<and>
   ld32 (boot_paging (\<lambda>_. 0x55)) 0x6018 = 0 \<and> ld32 (boot_paging (\<lambda>_. 0x55)) 0x7000 = 0x55555555"
  using boot_paging_leaves [of "0x1400004" "\<lambda>_. 0x55"] boot_paging_leaves [of "0x6C04" "\<lambda>_. 0x55"]
    boot_paging_leaves [of "0x6018" "\<lambda>_. 0x55"] boot_paging_leaves [of "0x7000" "\<lambda>_. 0x55"]
  by (simp add: boot_word_physical boot_pde_def PAGE_TABLES_BASE_def ld32_def)

section \<open>The translation\<close>

lemma pte_word:
  "p_present (pte_decode (x * 0x1000 + 3)) \<noteq> 0" "fld 12 (p_page_base_addr (pte_decode (x * 0x1000 + 3))) = x * 0x1000"
proof -
  have x: "x * 0x1000 = push_bit 12 x" by (simp add: push_bit_eq_mult)
  have e: "x * 0x1000 + 3 = push_bit 12 x OR mask 2"
  proof -
    have "(3 :: u32) = mask 2" by (simp add: mask_eq_exp_minus_1)
    then show ?thesis unfolding x by (simp only:) (rule disjunctive_add, simp only: bit_mask_iff bit_push_bit_iff, auto)
  qed
  have b: "bit (x * 0x1000 + 3) n \<longleftrightarrow> n < 2 \<or> n < 32 \<and> 12 \<le> n \<and> bit x (n - 12)" for n
    unfolding e by (simp only: bit_or_iff bit_mask_iff bit_push_bit_iff) auto
  have c: "bit (x * 0x1000) n \<longleftrightarrow> n < 32 \<and> 12 \<le> n \<and> bit x (n - 12)" for n
    unfolding x by (simp only: bit_push_bit_iff) auto
  have "bit (p_present (pte_decode (x * 0x1000 + 3))) 0"
    by (simp only: pte_decode_def page_table_entry.simps bit_unsigned_iff b) simp
  then show "p_present (pte_decode (x * 0x1000 + 3)) \<noteq> 0" by (metis bit_0_eq bot_apply bot_bool_def)
  show "fld 12 (p_page_base_addr (pte_decode (x * 0x1000 + 3))) = x * 0x1000"
    by (rule bit_word_eqI) (auto simp: pte_decode_def fld_def bit_push_bit_iff bit_unsigned_iff bit_drop_bit_eq b c)
qed

lemma translated:
  assumes "n = unat (p :: ptr) div 4096" and "unat (v :: ptr) mod 4096 = unat p mod 4096"
  shows "of_nat n * 0x1000 + take_bit 12 v = p"
proof -
  have "n < 4294967296" using assms(1) by (simp add: order.strict_trans1 [OF div_le_dividend])
  then have n: "unat (of_nat n :: u32) = n" "n * 4096 \<le> unat p" using assms(1) by (simp_all add: unat_of_nat)
  have t: "unat (take_bit 12 v) = unat p mod 4096" using assms(2) by (simp add: take_bit_eq_mod unat_mod)
  have "unat (of_nat n * 0x1000 :: u32) = n * 4096"
    using n unat_lt32 [of p] by (simp add: unat_word_ariths del: unat_lt32)
  moreover have "n * 4096 + unat p mod 4096 = unat p" using assms(1) by (simp add: div_mult_mod_eq)
  ultimately have "unat (of_nat n * 0x1000 + take_bit 12 v) = unat p"
    using unat_plus_small [of "of_nat n * 0x1000" "take_bit 12 v"] t unat_lt32 [of p] by simp
  then show ?thesis by (simp only: word_unat_eq_iff)
qed


lemma Kvtop_unat: "0xC0000000 \<le> unat a \<Longrightarrow> unat (Kvtop a) = unat a - 0xC0000000"
  by (simp add: Kvtop_def KERN_BASE_def unat_sub word_le_nat_alt)

lemma Kptov_Kvtop [simp]: "Kptov (Kvtop a) = a"
  by (simp add: Kptov_def Kvtop_def)

lemma aligned_Kvtop:
  assumes "aligned a"
  shows "aligned (Kvtop a)"
proof -
  have e: "a - 0xC0000000 = a + 0x40000000" by (simp add: diff_eq_eq add.assoc)
  show ?thesis unfolding Kvtop_def KERN_BASE_def e by (rule aligned_plus [OF assms]) simp
qed

text \<open>The words of the directory and the tables, seen through the kernel window.\<close>

lemma window_word:
  assumes "\<forall>a. aligned a \<and> unat a < 0x1800000 \<longrightarrow> ld32 k (Kptov a) = ld32 (boot_paging m) a" and "aligned a"
    and "0xC0006000 \<le> unat a \<and> unat a < 0xC0007000 \<or> 0xC1100000 \<le> unat a \<and> unat a < 0xC1500000"
  shows "ld32 k a = boot_word a"
proof -
  have u: "unat (Kvtop a) = unat a - 0xC0000000" by (rule Kvtop_unat) (use assms(3) in auto)
  have "unat (Kvtop a) < 0x1800000" using assms(3) by (auto simp: u)
  then have "ld32 k (Kptov (Kvtop a)) = ld32 (boot_paging m) (Kvtop a)" using assms(1) aligned_Kvtop [OF assms(2)] by blast
  also have "\<dots> = boot_word (Kptov (Kvtop a))"
    using assms(3) by (subst boot_paging_leaves_step [OF aligned_Kvtop [OF assms(2)]]) (auto simp: u)
  finally show ?thesis by simp
qed

lemma window_pde:
  assumes "\<forall>a. aligned a \<and> unat a < 0x1800000 \<longrightarrow> ld32 k (Kptov a) = ld32 (boot_paging m) a"
  shows "pde_at k v = pde_decode (boot_pde (pd_no v))"
proof -
  let ?a = "PAGE_DIRECTORY_BASE + 4 * pd_no v"
  have "unat ?a = unat PAGE_DIRECTORY_BASE + 4 * unat (pd_no v)"
    using page_plus_unat [OF page_aligned_PD pd_entry_small] by (simp add: pd_no_bound)
  then have "ld32 k ?a = boot_word ?a"
    using pd_no_bound [of v] by (intro window_word [OF assms]) (simp_all add: PAGE_DIRECTORY_BASE_def)
  moreover have "ld32 boot_mem ?a = boot_word ?a" by (simp add: boot_mem_def)
  ultimately show ?thesis using pde_at_boot [of v] by (simp add: pde_at_def)
qed

lemma window_pte:
  assumes k: "\<forall>a. aligned a \<and> unat a < 0x1800000 \<longrightarrow> ld32 k (Kptov a) = ld32 (boot_paging m) a"
    and t: "page_aligned t" "unat t = b + 0x1000 * q" "q < 6" "b = 0xC1100000 \<or> b = 0xC1400000"
  shows "ld32 k (t + 4 * pt_no v) = of_nat (q * 1024 + unat (pt_no v)) * 0x1000 + 3"
proof -
  let ?a = "t + 4 * pt_no v"
  have u: "unat ?a = b + 0x1000 * q + 4 * unat (pt_no v)"
    using page_plus_unat [OF t(1) pt_entry_small] t(2) by (simp add: pt_no_bound)
  have c: "unat (pt_no v) < 1024" by (rule pt_no_bound)
  have al: "aligned ?a" using t(1) by (intro aligned_plus) (simp_all add: page_aligned_imp_aligned)
  have "ld32 k ?a = boot_word ?a" by (rule window_word [OF k al]) (use u c t(3,4) in auto)
  moreover have v: "unat (Kvtop ?a) = b - 0xC0000000 + 0x1000 * q + 4 * unat (pt_no v)"
    using Kvtop_unat [of ?a] u t(4) by auto
  have "boot_word (Kptov (Kvtop ?a)) = of_nat (q * 1024 + unat (pt_no v)) * 0x1000 + 3"
    using t(4)
  proof (elim disjE)
    assume "b = 0xC1100000"
    then show ?thesis using c t(3) by (subst boot_word_physical) (simp_all add: v)
  next
    assume "b = 0xC1400000"
    then show ?thesis using c t(3) by (subst boot_word_physical) (simp_all add: v)
  qed
  ultimately show ?thesis by simp
qed


lemma boot_pde_present:
  "d_present (pde_decode (boot_pde i)) \<noteq> 0 \<longleftrightarrow> unat i < 6 \<or> 768 \<le> unat i \<and> unat i < 774"
proof
  assume "d_present (pde_decode (boot_pde i)) \<noteq> 0"
  then show "unat i < 6 \<or> 768 \<le> unat i \<and> unat i < 774" by (cases rule: boot_pde_cases) auto
next
  assume "unat i < 6 \<or> 768 \<le> unat i \<and> unat i < 774"
  then have "unat i \<in> {0, 1, 2, 3, 4, 5, 768, 769, 770, 771, 772, 773}" by auto
  moreover have "i = of_nat (unat i)" by simp
  ultimately have "i \<in> {0, 1, 2, 3, 4, 5, 768, 769, 770, 771, 772, 773}" by (elim insertE) auto
  then show "d_present (pde_decode (boot_pde i)) \<noteq> 0"
    by (elim insertE) (simp_all add: boot_pde_def pde_decode_def PAGE_TABLES_BASE_def)
qed

lemma page_number:
  "unat (pd_no v) = unat v div 0x400000" "unat (pd_no v) * 1024 + unat (pt_no v) = unat v div 4096"
proof -
  show d: "unat (pd_no v) = unat v div 0x400000" by (simp add: pd_no_def PDSHIFT_def drop_bit_eq_div unat_div)
  have "unat (pt_no v) = unat v div 4096 mod 1024" by (simp add: pt_no_mod unat_mod drop_bit_eq_div unat_div)
  moreover have "unat v div 0x400000 = unat v div 4096 div 1024" by (simp add: div_mult2_eq [symmetric])
  ultimately show "unat (pd_no v) * 1024 + unat (pt_no v) = unat v div 4096" unfolding d by simp
qed

lemma window_mmu:
  assumes k: "\<forall>a. aligned a \<and> unat a < 0x1800000 \<longrightarrow> ld32 k (Kptov a) = ld32 (boot_paging m) a"
    and p: "d_present (pde_decode (boot_pde (pd_no v))) \<noteq> 0" "q < 6" "b = 0xC1100000 \<or> b = 0xC1400000"
    and t: "unat (table_of (pde_decode (boot_pde (pd_no v)))) = b + 0x1000 * q"
    and n: "q * 1024 + unat (pt_no v) = unat p div 4096" "unat v mod 4096 = unat p mod 4096"
  shows "mmu k v = Some p"
proof -
  have "pte_at k v = pte_decode (of_nat (q * 1024 + unat (pt_no v)) * 0x1000 + 3)"
    unfolding pte_at_def window_pde [OF k] by (subst window_pte [OF k _ t p(2,3)]) simp_all
  then show ?thesis
    using p(1) pte_word [of "of_nat (unat p div 4096)"] translated [OF refl n(2)] unfolding mmu_def window_pde [OF k] n(1) by simp
qed

text \<open>
  C23: with the tables that the boot code leaves, seen through the kernel window, the machine
  translates exactly two windows on the first 24 MiB: the identity, and the kernel's from
  \<^verbatim>\<open>0xC0000000\<close> on. Every other address faults.
\<close>

theorem boot_translation:
  assumes k: "\<forall>a. aligned a \<and> unat a < 0x1800000 \<longrightarrow> ld32 k (Kptov a) = ld32 (boot_paging m) a"
  shows "mmu k v = (if unat v < 0x1800000 then Some v
    else if 0xC0000000 \<le> unat v \<and> unat v < 0xC1800000 then Some (Kvtop v) else None)"
proof -
  let ?i = "pd_no v"
  have i: "unat ?i < 6 \<longleftrightarrow> unat v < 0x1800000" "768 \<le> unat ?i \<and> unat ?i < 774 \<longleftrightarrow> 0xC0000000 \<le> unat v \<and> unat v < 0xC1800000"
    unfolding page_number(1) by arith+
  show ?thesis
  proof (cases "d_present (pde_decode (boot_pde ?i)) = 0")
    case True
    then show ?thesis using boot_pde_present [of ?i] i by (auto simp: mmu_def window_pde [OF k])
  next
    case False
    note t = table_of_boot [OF False]
    from False consider "unat ?i < 6" | "768 \<le> unat ?i" "unat ?i < 774" using boot_pde_present by blast
    then show ?thesis
    proof cases
      case 1
      then have "unat (table_of (pde_decode (boot_pde ?i))) = 0xC1100000 + 0x1000 * unat ?i"
        unfolding t by (simp add: word_less_nat_alt unat_plus_small unat_word_ariths)
      from window_mmu [OF k False 1 _ this, of v] show ?thesis using i(1) 1 page_number(2) [of v] by simp
    next
      case 2
      have q: "unat (?i - 768) = unat ?i - 768" using 2 by (simp add: unat_sub word_le_nat_alt)
      have "\<not> ?i < 6" using 2 by (simp add: word_less_nat_alt)
      then have "unat (table_of (pde_decode (boot_pde ?i))) = 0xC1400000 + 0x1000 * (unat ?i - 768)"
        unfolding t if_False using 2 by (simp add: unat_plus_small unat_word_ariths q)
      moreover have v: "unat (Kvtop v) = unat v - 0xC0000000" by (rule Kvtop_unat) (use 2 i(2) in simp)
      moreover have "(unat ?i - 768) * 1024 + unat (pt_no v) = unat (Kvtop v) div 4096" "unat v mod 4096 = unat (Kvtop v) mod 4096"
      proof -
        have "unat v = unat (Kvtop v) + 786432 * 4096" using 2 i(2) v by simp
        then have "unat v div 4096 = unat (Kvtop v) div 4096 + 786432" and m: "unat v mod 4096 = unat (Kvtop v) mod 4096"
          by (simp, simp only: mod_mult_self1)
        then show "(unat ?i - 768) * 1024 + unat (pt_no v) = unat (Kvtop v) div 4096"
          using 2(1) page_number(2) [of v] by (simp add: diff_mult_distrib)
        show "unat v mod 4096 = unat (Kvtop v) mod 4096" by (rule m)
      qed
      ultimately have "mmu k v = Some (Kvtop v)" using 2 by (intro window_mmu [OF k False]) auto
      then show ?thesis using i 2 by auto
    qed
  qed
qed


theorem boot_translation_witness:
  "mmu (\<lambda>x. boot_paging (\<lambda>_. 0) (Kvtop x)) 0xC0100004 = Some 0x100004 \<and>
   mmu (\<lambda>x. boot_paging (\<lambda>_. 0) (Kvtop x)) 0xC1800000 = None"
proof -
  have "\<forall>a. aligned a \<and> unat a < 0x1800000 \<longrightarrow>
      ld32 (\<lambda>x. boot_paging (\<lambda>_. 0) (Kvtop x)) (Kptov a) = ld32 (boot_paging (\<lambda>_. 0)) a"
    by (simp add: ld32_def Kptov_def Kvtop_def add.commute add.left_commute)
  note t = boot_translation [OF this]
  show ?thesis using t [of "0xC0100004"] t [of "0xC1800000"] by (simp add: Kvtop_def KERN_BASE_def)
qed


text \<open>
  C24: the page tables of the boot code, seen through the kernel window, satisfy the invariant under
  which the paging code works, for every frame table whose free frames are distinct pages between
  the directory and the boot tables.
\<close>

theorem boot_tables_invariant:
  assumes "\<forall>a. aligned a \<and> unat a < 0x1800000 \<longrightarrow> ld32 k (Kptov a) = ld32 (boot_paging m) a"
    and "distinct (free_frames ps)" and "\<forall>p \<in> set (free_frames ps). page_aligned p \<and> 0x7000 \<le> unat p \<and> unat p < 0x1100000"
  shows "tables_ok k \<and> frames_ok k ps"
proof -
  have "pde_at k v = pde_at boot_mem v" for v using window_pde [OF assms(1)] pde_at_boot by simp
  then show ?thesis using boot_tables_frames [OF assms(2,3)] by (simp add: tables_ok_def frames_ok_def)
qed

theorem boot_tables_invariant_witness:
  "frames_ok (\<lambda>x. boot_paging (\<lambda>_. 0) (Kvtop x)) [\<lparr>pp_type = M_RESERVED, pp_addr = 0\<rparr>, \<lparr>pp_type = M_FREE, pp_addr = 0x20000\<rparr>]"
proof -
  have "\<forall>a. aligned a \<and> unat a < 0x1800000 \<longrightarrow>
      ld32 (\<lambda>x. boot_paging (\<lambda>_. 0) (Kvtop x)) (Kptov a) = ld32 (boot_paging (\<lambda>_. 0)) a"
    by (simp add: ld32_def Kptov_def Kvtop_def add.commute add.left_commute)
  then show ?thesis
    by (rule conjunct2 [OF boot_tables_invariant]) (simp_all add: free_frames_def page_types page_aligned_def)
qed

end
