(* ===== verification/HeapFree.thy ===== *)
theory HeapFree
  imports Heap
begin

text \<open>
  \<^verbatim>\<open>free\<close> and \<^verbatim>\<open>CombineFreeSegments\<close> (\<^verbatim>\<open>src/heap/heap.c\<close>) on the last block of the heap: the block
  is merged with the free segment behind it, and the stores through the null links of that segment
  go to the header of the first block.
\<close>

lemma combine_end_run:
  assumes a: "header (kmem s) a la b pa b pf fr" "aligned a" "below 0 a"
    and b: "header (kmem s) b lb 0 pb 0 pfb frb" "aligned b" "below a b"
  obtains m where "combine_into a b s = s\<lparr>kmem := m\<rparr>" and "header m a (la + lb + 24) 0 pa 0 pf fr"
    and "ld32 m 8 = a" and "ld32 m 16 = a" and "same_outside {0, a} (kmem s) m"
proof
  let ?m1 = "st32 (a + 12) 0 (st32 (a + 4) 0 (st32 a (la + (lb + 24)) (kmem s)))"
  let ?m = "st32 16 a (st32 16 a (st32 8 a ?m1))"
  have n: "a \<noteq> 0" "8 \<noteq> a + k" "16 \<noteq> a + k" "a + k \<noteq> 8" "a + k \<noteq> 16" if "unat k < 24" for k
    using below_offsets [OF a(3), of 8 k] below_offsets [OF a(3), of 16 k] that a(3) by (auto simp: below_def)
  note n0 = n [of 0, simplified]
  have "below 0 b" using a(3) b(3) by (simp add: below_def)
  then have nb: "8 \<noteq> b + k" "16 \<noteq> b + k" "b + k \<noteq> 8" "b + k \<noteq> 16" "8 \<noteq> b" "16 \<noteq> b" if "unat k < 24" for k
    using below_offsets [of 0 b 8 k] below_offsets [of 0 b 16 k] below_offsets [of 0 b 8 0] below_offsets [of 0 b 16 0] that by auto
  show "combine_into a b s = s\<lparr>kmem := ?m\<rparr>"
    using a b n nb by (simp add: combine_into_def Let_def header_def sizeof_header_def)
  show "header ?m a (la + lb + 24) 0 pa 0 pf fr"
    using a n n0 by (simp add: header_def add.assoc)
  show "ld32 ?m 8 = a" "ld32 ?m 16 = a" by simp_all
  have a24: "unat a + 24 \<le> 4294967296" using b(3) unat_lt32 [of b] by (simp add: below_def)
  show "same_outside {0, a} (kmem s) ?m"
    using a24 st32_header [of 0 _ 8] st32_header [of 0 _ 16]
    by (simp add: same_outside_def st32_header st32_header0)
qed

lemma free_last_block:
  assumes c: "header (kmem s) cur z fr p fr 0 0" "aligned cur" "below 0 cur"
    and f: "header (kmem s) fr len 0 cur 0 0 1" "aligned fr" "below cur fr" "firstFreeSegment s = fr"
    and p: "p \<noteq> 0 \<Longrightarrow> aligned p \<and> below 0 p \<and> below p cur \<and> seg_next s p = cur \<and> seg_free s p = 0"
  obtains m where "free (cur + 24) s = s\<lparr>kmem := m, firstFreeSegment := cur\<rparr>"
    and "header m cur (z + len + 24) 0 p 0 0 1" and "ld32 m 8 = cur" and "ld32 m 16 = cur"
    and "same_outside {0, cur, fr} (kmem s) m"
proof -
  define m1 where "m1 = st32 (fr + 8) cur (st32 (fr + 16) cur (st32 (cur + 20) 1 (kmem s)))"
  have n: "cur \<noteq> 0" "fr \<noteq> 0" "cur < fr" using c(3) f(3) by (auto simp: below_def word_less_nat_alt)
  have h: "header m1 cur z fr p fr 0 1" "header m1 fr len 0 cur 0 cur 1"
    using c f by (simp_all add: m1_def header_def)
  let ?s1 = "s\<lparr>kmem := m1, firstFreeSegment := cur\<rparr>"
  obtain m where m: "combine_into cur fr ?s1 = ?s1\<lparr>kmem := m\<rparr>" "header m cur (z + len + 24) 0 p 0 0 1"
      "ld32 m 8 = cur" "ld32 m 16 = cur" "same_outside {0, cur} m1 m"
    using combine_end_run [of ?s1 cur z fr p 0 1 len cur cur 1] h c(2,3) f(2,3) by auto
  define t1 where "t1 = wr (cur + 20) 1 s"
  define t2 where "t2 = t1\<lparr>firstFreeSegment := cur\<rparr>"
  define t3 where "t3 = wr (fr + 16) cur t2"
  define t4 where "t4 = wr (fr + 8) cur t3"
  define t5 where "t5 = ?s1\<lparr>kmem := m\<rparr>"
  have t4: "t4 = ?s1" by (simp add: t4_def t3_def t2_def t1_def m1_def)
  have r: "cur < firstFreeSegment t1" "seg_next_free t2 cur = fr" "seg_prev_free t2 fr = 0" "seg_prev_free t3 cur = 0"
      "seg_next t3 cur = fr" "seg_next t4 cur = fr" "seg_free t4 fr \<noteq> 0" "seg_prev t5 cur = p"
    using c f n h m(2) by (simp_all add: t1_def t2_def t3_def t4 t5_def header_def word_neq_0_conv)
  have cur0: "0 < cur" using n(1) by (simp add: word_neq_0_conv)
  have cb: "CombineFreeSegments cur fr t4 = t5" using m(1) n by (simp add: CombineFreeSegments_def t4 t5_def)
  have c24: "cur + 24 - sizeof_header = cur" by (simp add: sizeof_header_def)
  have m1s: "same_outside {cur, fr} (kmem s) m1"
    using f(3) st32_header [of cur] st32_header [of fr] by (simp add: same_outside_def m1_def below_def)
  have kept: "same_outside {0, cur, fr} (kmem s) m"
    by (rule same_outside_trans [OF m1s m(5)]) auto
  have P: "wr (p + 4) cur t5 = t5" "seg_free t5 p = 0" if "p \<noteq> 0"
  proof -
    have p': "aligned p" "below 0 p" "below p cur" "seg_next s p = cur" "seg_free s p = 0" using p [OF that] by auto
    obtain l pv nf pf where "header (kmem s) p l cur pv nf pf 0" using p'(4,5) by (auto simp: header_def)
    then have "header m p l cur pv nf pf 0"
      by (rule header_same_outside [OF kept]) (use p'(2,3) f(3) in \<open>auto simp: below_def\<close>)
    then show "wr (p + 4) cur t5 = t5" "seg_free t5 p = 0" by (simp_all add: header_def t5_def st32_same_value)
  qed
  have "free (cur + 24) s = t5"
    by (cases "p = 0") (simp_all only: free_def Let_def c24 t1_def [symmetric] r(1) if_True t2_def [symmetric] r(2,3) n(1,2)
        not_False_eq_True cur0 simp_thms t3_def [symmetric] r(4,5) if_False t4_def [symmetric] r(6,7) cb r(8) P)
  then show ?thesis using that [of m] m(2-4) kept by (simp add: t5_def)
qed


lemma free_only_block:
  assumes c: "header (kmem s) 0 z fr 0 fr 0 0" and f: "header (kmem s) fr len 0 0 0 0 1" "aligned fr" "below 0 fr" "firstFreeSegment s = fr"
  obtains m where "free 24 s = s\<lparr>kmem := m, firstFreeSegment := 0\<rparr>" and "header m 0 z fr 0 fr 0 1" and "header m fr len 0 0 0 0 1"
proof
  let ?m = "st32 (fr + 8) 0 (st32 20 1 (kmem s))"
  have n: "fr \<noteq> 0" using f(3) by (auto simp: below_def)
  have k: "j \<noteq> fr + k" "fr + k \<noteq> j" if "unat j < 24" "unat k < 24" for j k
    using below_offsets [OF f(3), of j k] that by auto
  have k0: "j \<noteq> fr" "fr \<noteq> j" if "unat j < 24" for j using k(1,2) [of j 0] that by simp_all
  show "header ?m 0 z fr 0 fr 0 1" "header ?m fr len 0 0 0 0 1"
    using c f(1,2) k k0 n by (simp_all add: header_def)
  define t1 where "t1 = wr 20 1 s"
  define t2 where "t2 = t1\<lparr>firstFreeSegment := 0\<rparr>"
  define t3 where "t3 = wr (fr + 8) 0 t2"
  have "0 < fr" using n by (simp add: word_neq_0_conv)
  then have r: "0 < firstFreeSegment t1" "seg_next_free t2 0 = fr" "\<not> seg_prev_free t2 fr < 0" "seg_prev_free t2 0 = 0"
      "seg_next t2 0 = fr" "seg_next t3 0 = fr" "seg_free t3 fr \<noteq> 0" "seg_prev t3 0 = 0"
    using c f(1,2,4) k(1,2) k0 by (simp_all add: t1_def t2_def t3_def header_def)
  have c24: "(24 :: ptr) - sizeof_header = 0" by (simp add: sizeof_header_def)
  have a0: "(0 :: ptr) + j = j" for j by simp
  note ra = r [unfolded a0]
  have "free 24 s = t3"
    by (simp only: free_def Let_def c24 a0 t1_def [symmetric] ra(1) if_True t2_def [symmetric] ra(2-5) n simp_thms if_False
        t3_def [symmetric] ra(6-8) CombineFreeSegments_def)
  then show "free 24 s = s\<lparr>kmem := ?m, firstFreeSegment := 0\<rparr>" by (simp add: t3_def t2_def t1_def)
qed

text \<open>
  C19: freeing the last block of the heap. Any block but the first becomes one free segment with the
  space behind it, and is the first free segment; but the stores through the null links of the old
  end segment change the header of the first block, whose previous and previous free segment are now
  the freed one. The first block stays a free segment of its own, next to the free space.
\<close>

theorem free_last_result:
  assumes c: "header (kmem s) cur z fr p fr 0 0" "aligned cur" "cur = 0 \<or> below 0 cur"
    and f: "header (kmem s) fr len 0 cur 0 0 1" "aligned fr" "below cur fr" "firstFreeSegment s = fr"
    and p: "p = 0 \<or> aligned p \<and> below 0 p \<and> below p cur \<and> seg_next s p = cur \<and> seg_free s p = 0"
  shows "\<exists>m. free (cur + 24) s = s\<lparr>kmem := m, firstFreeSegment := cur\<rparr> \<and>
    (if cur = 0 then header m 0 z fr 0 fr 0 1 \<and> header m fr len 0 0 0 0 1
     else header m cur (z + len + 24) 0 p 0 0 1 \<and> ld32 m 8 = cur \<and> ld32 m 16 = cur \<and> same_outside {0, cur, fr} (kmem s) m)"
proof (cases "cur = 0")
  case True
  then have "p = 0" using p by (auto simp: below_def)
  then show ?thesis using free_only_block [of s z fr len] c f True by auto
next
  case False
  obtain m where "free (cur + 24) s = s\<lparr>kmem := m, firstFreeSegment := cur\<rparr>" "header m cur (z + len + 24) 0 p 0 0 1"
      "ld32 m 8 = cur" "ld32 m 16 = cur" "same_outside {0, cur, fr} (kmem s) m"
    by (rule free_last_block [OF c(1,2) _ f]) (use c(3) p False in auto)
  then show ?thesis using False by (intro exI [of _ m]) simp
qed

lemma malloc_end_run:
  assumes h: "header (kmem s) a l 0 p 0 0 1" and f: "firstFreeSegment s = a" and sz: "round8 sz = sz" "sz \<le> l"
    and al: "aligned a" "aligned sz" and n: "n = a + 24 + sz" "below a n" and p: "p \<noteq> 0 \<Longrightarrow> aligned p \<and> below p a \<and> below p n"
  obtains m where "malloc vp sz s = ret (a + 24) (s\<lparr>kmem := m, firstFreeSegment := n\<rparr>)"
    and "header m a sz n p n 0 0" and "header m n (l - (24 + sz)) 0 a 0 0 1"
    and "same_outside (if p = 0 then {a, n} else {p, a, n}) (kmem s) m"
proof -
  have "find_segment (kmem s) sz a = Some a" using h by (subst find_segment.simps) (simp add: header_def)
  then have "malloc vp sz s = malloc_split sz a s"
    using h f sz by (simp add: malloc_def Let_def header_def linorder_not_less [symmetric])
  then show ?thesis using malloc_split_run [OF h f al n p] that by metis
qed

theorem free_last_result_witness:
  "\<exists>s1 s2 s3. malloc 0 16 heap_state = ret 24 s1 \<and> malloc 0 16 s1 = ret 64 s2 \<and> free 64 s2 = s3 \<and>
     seg_prev s2 0 = 0 \<and> seg_prev s3 0 = 40 \<and> seg_len s3 40 = 4032"
proof -
  have h: "header (kmem heap_state) 0 4072 0 0 0 0 1" "firstFreeSegment heap_state = 0"
    using heap_state_ok by (simp_all add: heap_ok_def last_header_def)
  have b: "below 0 40" "below 40 80" "below 0 80" by (simp_all add: below_def)
  obtain m1 where m1: "malloc 0 16 heap_state = ret (0 + 24) (heap_state\<lparr>kmem := m1, firstFreeSegment := 40\<rparr>)"
      "header m1 0 16 40 0 40 0 0" "header m1 40 (4072 - (24 + 16)) 0 0 0 0 1"
    by (rule malloc_end_run [OF h, of 16 40 0]) (use b in \<open>simp_all add: round8_def\<close>)
  let ?s1 = "heap_state\<lparr>kmem := m1, firstFreeSegment := 40\<rparr>"
  have h1: "header (kmem ?s1) 40 4032 0 0 0 0 1" "firstFreeSegment ?s1 = 40" using m1(3) by simp_all
  obtain m2 where m2: "malloc 0 16 ?s1 = ret (40 + 24) (?s1\<lparr>kmem := m2, firstFreeSegment := 80\<rparr>)"
      "header m2 40 16 80 0 80 0 0" "header m2 80 (4032 - (24 + 16)) 0 40 0 0 1" "same_outside {40, 80} (kmem ?s1) m2"
    by (rule malloc_end_run [OF h1, of 16 80 0]) (use b in \<open>simp_all add: round8_def\<close>)
  let ?s2 = "?s1\<lparr>kmem := m2, firstFreeSegment := 80\<rparr>"
  have "header m2 0 16 40 0 40 0 0" by (rule header_same_outside [OF _ m1(2), of "{40, 80}"]) (use m2(4) in auto)
  then have p: "seg_prev ?s2 0 = 0" by (simp add: header_def)
  have "header (kmem ?s2) 40 16 80 0 80 0 0" "header (kmem ?s2) 80 3992 0 40 0 0 1" using m2(2,3) by simp_all
  then have "\<exists>m. free (40 + 24) ?s2 = ?s2\<lparr>kmem := m, firstFreeSegment := 40\<rparr> \<and>
      (if (40 :: ptr) = 0 then header m 0 16 80 0 80 0 1 \<and> header m 80 3992 0 0 0 0 1
       else header m 40 (16 + 3992 + 24) 0 0 0 0 1 \<and> ld32 m 8 = 40 \<and> ld32 m 16 = 40 \<and> same_outside {0, 40, 80} (kmem ?s2) m)"
    by (intro free_last_result) (use b in simp_all)
  then obtain m3 where m3: "free 64 ?s2 = ?s2\<lparr>kmem := m3, firstFreeSegment := 40\<rparr>" "ld32 m3 8 = 40" "ld32 m3 40 = 4032"
    by (auto simp: header_def)
  show ?thesis
    by (intro exI [of _ ?s1] exI [of _ ?s2] exI [of _ "free 64 ?s2"]) (use m1(1) m2(1) p m3 in simp)
qed

end
