(* ===== verification/Grow.thy ===== *)
theory Grow
  imports Heap Pages
begin

text \<open>
  The heap grows (\<^verbatim>\<open>malloc\<close> of \<^verbatim>\<open>src/heap/heap.c\<close> with \<^verbatim>\<open>palloc_heap\<close> of \<^verbatim>\<open>src/paging/paging.c\<close>): no free segment
  is large enough, so a page is mapped behind the heap and becomes a block and a free segment. The
  length given to that segment is taken from the request and not from the page, so that it reaches
  over the end of the page, into the one that the heap grows by next.
\<close>

section \<open>One more heap page\<close>

abbreviation heap_page :: "nat \<Rightarrow> ptr" where "heap_page i \<equiv> of_nat (4096 * i)"

text \<open>
  The heap's pages are the first two mebibytes, all translated by one page table. That table, the
  page directory and the pool lie above and apart from each other; \<open>i\<close> pages are in use.
\<close>

definition growable :: "kstate \<Rightarrow> nat \<Rightarrow> bool" where
  "growable s i \<longleftrightarrow> paging_ok s \<and> d_present (pde_at (kmem s) 0) \<noteq> 0 \<and>
     0x200000 \<le> unat (table_of (pde_at (kmem s) 0)) \<and>
     page_aligned (kernel_pool s) \<and> 0x200000 \<le> unat (kernel_pool s) \<and> unat (kernel_pool s) + 12288 \<le> 4294967296 \<and>
     (\<forall>t \<in> {PAGE_DIRECTORY_BASE, table_of (pde_at (kmem s) 0)}.
        unat t + 4096 \<le> unat (kernel_pool s) \<or> unat (kernel_pool s) + 12288 \<le> unat t) \<and>
     pool_index (kernel_pool s) s = of_nat i \<and> 1 \<le> i \<and> i < 512"

lemma heap_page_unat: "i \<le> 512 \<Longrightarrow> unat (heap_page i) = 4096 * i"
  by (simp add: unat_of_nat del: of_nat_mult)

lemma heap_page_entries:
  assumes "i < 512"
  shows "page_aligned (heap_page i)" and "pde_at m (heap_page i) = pde_at m 0"
proof -
  have u: "unat (heap_page i) = 4096 * i" using assms by (intro heap_page_unat) simp
  show "page_aligned (heap_page i)" unfolding page_aligned_def u by simp
  have "unat (pd_no (heap_page i)) = unat (heap_page i) div 4194304"
    unfolding pd_no_def PDSHIFT_def by (simp add: drop_bit_eq_div unat_div)
  then have "unat (pd_no (heap_page i)) = unat (pd_no 0)" using u assms by (simp add: pd_no_def)
  then have "pd_no (heap_page i) = pd_no 0" by (simp only: word_unat_eq_iff)
  then show "pde_at m (heap_page i) = pde_at m 0" by (simp only: pde_at_def)
qed

text \<open>A word of the pool is no word of the page directory or of the heap's page table.\<close>

lemma pool_word:
  assumes g: "growable s i" and k: "unat k < 12288" and e: "unat e < 4096"
    and t: "t \<in> {PAGE_DIRECTORY_BASE, table_of (pde_at (kmem s) 0)}"
  shows "kernel_pool s + k \<noteq> t + e" and "t + e \<noteq> kernel_pool s + k"
proof -
  have "unat (kernel_pool s + k) = unat (kernel_pool s) + unat k"
    by (rule unat_plus_small) (use g k in \<open>simp add: growable_def\<close>)
  moreover have "unat (t + e) = unat t + unat e" by (rule page_plus_unat) (use t e in auto)
  moreover have "unat t + 4096 \<le> unat (kernel_pool s) \<or> unat (kernel_pool s) + 12288 \<le> unat t"
    using g t unfolding growable_def by blast
  ultimately show "kernel_pool s + k \<noteq> t + e" using k e by auto
  then show "t + e \<noteq> kernel_pool s + k" by (rule not_sym)
qed

lemma high_word:
  assumes "\<And>x. 0x200000 \<le> unat x \<Longrightarrow> m' x = m x" and "aligned a" and "0x200000 \<le> unat a"
  shows "ld32 m' a = ld32 m a"
  by (rule ld32_cong, rule assms(1)) (use assms(2,3) in \<open>simp add: aligned_plus_unat\<close>)

lemma high_pde:
  assumes "\<And>x. 0x200000 \<le> unat x \<Longrightarrow> m' x = m x"
  shows "pde_at m' w = pde_at m w"
proof -
  have "unat (PAGE_DIRECTORY_BASE + 4 * pd_no w) = unat PAGE_DIRECTORY_BASE + unat (4 * pd_no w)"
    by (rule page_plus_unat) (simp_all add: pd_entry_small)
  then have "ld32 m' (PAGE_DIRECTORY_BASE + 4 * pd_no w) = ld32 m (PAGE_DIRECTORY_BASE + 4 * pd_no w)"
    by (intro high_word assms) (simp_all add: PAGE_DIRECTORY_BASE_def)
  then show ?thesis by (simp only: pde_at_def)
qed

lemma low_byte:
  assumes "aligned a" and "0x200000 \<le> unat a" and "unat x < 0x200000"
  shows "st32 a v m x = m x"
proof -
  have "unat (a + 3) = unat a + 3" using aligned_plus_unat [OF assms(1), of 3] by simp
  then have "unat a + 3 < 4294967296" by (metis unat_lt32)
  then show ?thesis using assms(2,3) by (intro st32_frame) simp_all
qed

lemma low_words:
  assumes "\<And>x. unat x < 0x200000 \<Longrightarrow> m x = m' x" and "unat b + 24 \<le> 0x200000" and "unat k \<le> 20"
  shows "ld32 m (b + k) = ld32 m' (b + k)"
proof (rule ld32_cong, rule assms(1))
  fix j :: u32 assume j: "unat j < 4"
  have "unat (k + j) = unat k + unat j" "unat (b + (k + j)) = unat b + unat (k + j)"
    using assms(2,3) j by (simp_all add: unat_plus_small)
  then show "unat (b + k + j) < 0x200000" using assms(2,3) j by (simp add: add.assoc)
qed

text \<open>Writes to the heap leave paging alone.\<close>

lemma growable_heap:
  assumes g: "growable s i" and k: "\<And>x. 0x200000 \<le> unat x \<Longrightarrow> m x = kmem s x"
  shows "growable (s\<lparr>kmem := m, firstFreeSegment := a\<rparr>) i" and "growable (s\<lparr>kmem := m\<rparr>) i"
proof -
  have p: "pde_at m w = pde_at (kmem s) w" for w by (rule high_pde [OF k])
  have "aligned (kernel_pool s + 4)" "unat (kernel_pool s + 4) = unat (kernel_pool s) + 4"
    using g by (auto simp: growable_def page_aligned_imp_aligned unat_plus_small)
  then have "ld32 m (kernel_pool s + 4) = rd s (kernel_pool s + 4)"
    using g by (intro high_word [OF k]) (simp_all add: growable_def)
  then show "growable (s\<lparr>kmem := m, firstFreeSegment := a\<rparr>) i" "growable (s\<lparr>kmem := m\<rparr>) i"
    using g by (simp_all add: growable_def paging_ok_def tables_ok_def frames_ok_def pool_index_def p)
qed

lemma high_mmu:
  assumes "\<And>x. 0x200000 \<le> unat x \<Longrightarrow> m' x = m x" and "0x200000 \<le> unat (table_of (pde_at m w))"
  shows "mmu m' w = mmu m w"
proof -
  have p: "pde_at m' w = pde_at m w" by (rule high_pde [OF assms(1)])
  have "unat (table_of (pde_at m w) + 4 * pt_no w) = unat (table_of (pde_at m w)) + unat (4 * pt_no w)"
    by (rule page_plus_unat) (simp_all add: pt_entry_small)
  then have "ld32 m' (table_of (pde_at m w) + 4 * pt_no w) = ld32 m (table_of (pde_at m w) + 4 * pt_no w)"
    using assms(2) by (intro high_word [OF assms(1)]) simp_all
  then show ?thesis by (simp add: mmu_def pte_at_def p)
qed

text \<open>
  The memory after \<^verbatim>\<open>palloc_heap\<close> has mapped frame \<open>f\<close> behind the last heap page: the page table entry,
  then the virtual page recorded in the pool and the pool's index.
\<close>

definition pool_slot :: "nat \<Rightarrow> u32" where
  "pool_slot i = of_nat (20 + 16 * (i - 1))"

definition page_mapped :: "ptr \<Rightarrow> nat \<Rightarrow> kstate \<Rightarrow> mem" where
  "page_mapped f i s = put_pte (heap_page i) (leaf f F_KERN (pte_at (kmem s) (heap_page i))) (kmem s)"

definition page_recorded :: "ptr \<Rightarrow> ptr \<Rightarrow> nat \<Rightarrow> kstate \<Rightarrow> mem" where
  "page_recorded vp f i s =
     st32 (kernel_pool s + 4) (of_nat i + 1) (st32 (kernel_pool s + pool_slot i) vp (page_mapped f i s))"

lemma pool_slot_facts:
  assumes "growable s i"
  shows "unat (pool_slot i) = 20 + 16 * (i - 1)" "aligned (kernel_pool s + pool_slot i)" "aligned (kernel_pool s)"
    "kernel_pool s + 4 \<noteq> kernel_pool s + pool_slot i"
    "virt_page (kernel_pool s) (of_nat i - 1) + 8 = kernel_pool s + pool_slot i"
proof -
  have i: "1 \<le> i" "i < 512" using assms by (simp_all add: growable_def)
  show u: "unat (pool_slot i) = 20 + 16 * (i - 1)"
    unfolding pool_slot_def using i by (simp only: unat_of_nat) simp
  show k: "aligned (kernel_pool s)" using assms by (simp add: growable_def page_aligned_imp_aligned)
  have "aligned (pool_slot i)" unfolding aligned_def u by presburger
  with k show "aligned (kernel_pool s + pool_slot i)" by (rule aligned_plus)
  have "unat (pool_slot i) \<noteq> unat (4 :: u32)" unfolding u by simp
  then show "kernel_pool s + 4 \<noteq> kernel_pool s + pool_slot i" by auto
  have "of_nat i - 1 = (of_nat (i - 1) :: u32)" using i by (simp add: of_nat_diff)
  then show "virt_page (kernel_pool s) (of_nat i - 1) + 8 = kernel_pool s + pool_slot i"
    by (simp add: virt_page_def pool_slot_def del: of_nat_diff)
qed

lemma pool_apart:
  assumes "growable s i" and "unat e < 4096" and "t \<in> {PAGE_DIRECTORY_BASE, table_of (pde_at (kmem s) 0)}"
  shows "kernel_pool s + 4 \<noteq> t + e" "kernel_pool s + pool_slot i \<noteq> t + e"
proof -
  have "i < 512" using assms(1) by (simp add: growable_def)
  then have "unat (pool_slot i) < 12288" unfolding pool_slot_facts(1) [OF assms(1)] by simp
  then show "kernel_pool s + 4 \<noteq> t + e" "kernel_pool s + pool_slot i \<noteq> t + e"
    by (intro pool_word(1) [OF assms(1) _ assms(2,3)]; simp)+
qed

lemma page_recorded_low:
  assumes g: "growable s i" and x: "unat x < 0x200000"
  shows "page_recorded vp f i s x = kmem s x"
proof -
  have i: "i < 512" and u: "0x200000 \<le> unat (kernel_pool s)" "unat (kernel_pool s) + 12288 \<le> 4294967296"
    "0x200000 \<le> unat (table_of (pde_at (kmem s) 0))"
    using g by (simp_all add: growable_def)
  note slot = pool_slot_facts [OF g]
  have "unat (kernel_pool s + 4) = unat (kernel_pool s) + unat (4 :: u32)"
    "unat (kernel_pool s + pool_slot i) = unat (kernel_pool s) + unat (pool_slot i)"
    by (rule unat_plus_small; use u slot(1) i in simp)+
  moreover have "unat (table_of (pde_at (kmem s) 0) + 4 * pt_no w) = unat (table_of (pde_at (kmem s) 0)) + unat (4 * pt_no w)" for w
    by (rule page_plus_unat) (simp_all add: pt_entry_small)
  ultimately show ?thesis
    using u slot(2,3) heap_page_entries(2) [OF i]
    by (simp add: page_recorded_def page_mapped_def put_pte_def low_byte [OF _ _ x])
qed

lemma page_recorded_tables:
  assumes g: "growable s i" and f: "page_aligned f"
  shows "pde_at (page_recorded vp f i s) w = pde_at (kmem s) w"
    "unat k < 4096 \<Longrightarrow> mmu (page_recorded vp f i s) (heap_page i + k) = Some (f + k)"
proof -
  let ?v = "heap_page i" and ?m = "page_recorded vp f i s" and ?mp = "page_mapped f i s"
  let ?t = "table_of (pde_at (kmem s) 0)"
  have i: "i < 512" and t: "tables_ok (kmem s)" using g by (simp_all add: growable_def paging_ok_def)
  note v = heap_page_entries [OF i]
  have pr: "d_present (pde_at (kmem s) ?v) \<noteq> 0" using g v(2) by (simp add: growable_def)
  note al = pool_slot_facts(2,3) [OF g]
  have pd: "pde_at ?m w = pde_at (kmem s) w" for w
    using t pr al pool_apart [OF g pd_entry_small] by (simp add: page_recorded_def page_mapped_def pde_at_wr)
  then show "pde_at ?m w = pde_at (kmem s) w" .
  have "ld32 ?m (?t + 4 * pt_no ?v) = ld32 ?mp (?t + 4 * pt_no ?v)"
    using al pool_apart [OF g pt_entry_small, of ?t] by (simp add: page_recorded_def)
  moreover have "pde_at ?m ?v = pde_at (kmem s) 0" "pde_at ?mp ?v = pde_at (kmem s) 0"
    using pd [of ?v] t pr v(2) by (simp_all add: page_mapped_def)
  ultimately have "pte_at ?m ?v = pte_at ?mp ?v" by (simp only: pte_at_def [of ?m] pte_at_def [of ?mp])
  then have pt: "pte_at ?m ?v = leaf f F_KERN (pte_at (kmem s) ?v)"
    using pte_at_put_pte(1) [OF t pr refl] by (simp add: page_mapped_def)
  assume "unat k < 4096"
  then show "mmu ?m (?v + k) = Some (f + k)"
    by (rule mmu_leaf [OF v(1) f _ _ pt]) (use pr pd in simp)
qed

lemma heap_page_pde:
  assumes "j < 512" and "unat k < 4096"
  shows "drop_bit 12 (heap_page j + k) = drop_bit 12 (heap_page j)" and "pde_at m (heap_page j + k) = pde_at m 0"
proof -
  have "k < 4096" using assms(2) by (simp add: word_less_nat_alt)
  then show d: "drop_bit 12 (heap_page j + k) = drop_bit 12 (heap_page j)"
    by (rule page_parts(1) [OF heap_page_entries(1) [OF assms(1)]])
  show "pde_at m (heap_page j + k) = pde_at m 0"
    using same_page_entries(1) [OF d] heap_page_entries(2) [OF assms(1)] by simp
qed

text \<open>The other pages of the heap stay where they are.\<close>

lemma page_recorded_others:
  assumes g: "growable s i" and j: "j < 512" "j \<noteq> i" "unat k < 4096"
  shows "mmu (page_recorded vp f i s) (heap_page j + k) = mmu (kmem s) (heap_page j + k)"
proof -
  let ?m = "page_recorded vp f i s" and ?mp = "page_mapped f i s" and ?w = "heap_page j + k"
  let ?t = "table_of (pde_at (kmem s) 0)"
  have i: "i < 512" and t: "tables_ok (kmem s)" using g by (simp_all add: growable_def paging_ok_def)
  have pr: "d_present (pde_at (kmem s) (heap_page i)) \<noteq> 0" using g heap_page_entries(2) [OF i] by (simp add: growable_def)
  note al = pool_slot_facts(2,3) [OF g]
  have w: "drop_bit 12 ?w \<noteq> drop_bit 12 (heap_page i)"
  proof
    assume "drop_bit 12 ?w = drop_bit 12 (heap_page i)"
    then have "unat (drop_bit 12 (heap_page j)) = unat (drop_bit 12 (heap_page i))"
      using heap_page_pde(1) [OF j(1,3)] by simp
    moreover have "unat (heap_page j) = 4096 * j" "unat (heap_page i) = 4096 * i"
      using i j by (intro heap_page_unat; simp)+
    ultimately show False using j(2) by (simp add: drop_bit_eq_div unat_div del: of_nat_mult)
  qed
  have p0: "pde_at ?mp u = pde_at (kmem s) u" for u using t pr by (simp add: page_mapped_def)
  have pd: "pde_at ?m u = pde_at (kmem s) u" for u
    using p0 al pool_apart [OF g pd_entry_small] by (simp add: page_recorded_def pde_at_wr)
  have "ld32 ?m (?t + 4 * pt_no ?w) = ld32 ?mp (?t + 4 * pt_no ?w)"
    using al pool_apart [OF g pt_entry_small, of ?t] by (simp add: page_recorded_def)
  moreover have "pde_at (kmem s) ?w = pde_at (kmem s) 0" by (rule heap_page_pde(2) [OF j(1,3)])
  ultimately have "pte_at ?m ?w = pte_at ?mp ?w" by (simp add: pte_at_def pd p0)
  also have "\<dots> = pte_at (kmem s) ?w"
    unfolding page_mapped_def
    by (rule pte_at_put_pte(2) [OF t pr w]) (use g in \<open>simp only: growable_def heap_page_pde(2) [OF j(1,3)], simp\<close>)
  finally show ?thesis by (simp add: mmu_def pd)
qed

lemma palloc_heap_run:
  assumes g: "growable s i" and next_frame: "get_next_free_physical_page s = (f, s\<lparr>physical_page_entries := ps\<rparr>)"
    and f: "page_aligned f"
  obtains c where "palloc_heap vp 1 (kernel_pool s) F_KERN s =
    ret (heap_page i) (s\<lparr>kmem := page_recorded vp f i s, con := c, physical_page_entries := ps\<rparr>)"
proof -
  define v where "v = heap_page i"
  let ?s = "s\<lparr>physical_page_entries := ps\<rparr>" and ?k = "kernel_pool s"
  let ?mp = "page_mapped f i s"
  have i: "1 \<le> i" "i < 512" and t: "tables_ok (kmem s)" and ix: "pool_index ?k s = of_nat i"
    using g by (simp_all add: growable_def paging_ok_def)
  note v = heap_page_entries [OF i(2), folded v_def]
  note slot = pool_slot_facts [OF g]
  have "d_present (pde_at (kmem s) v) \<noteq> 0" using g v(2) by (simp add: growable_def)
  then obtain c where map: "map_page f v F_KERN ?s = ret () (?s\<lparr>kmem := ?mp, con := c\<rparr>)"
    using map_page_present [of ?s f v F_KERN] t f v(1) by (auto simp: page_mapped_def v_def)
  have "?k + 4 \<noteq> table_of (pde_at (kmem s) 0) + 4 * pt_no v"
    by (rule pool_apart(1) [OF g]) (simp_all add: pt_entry_small)
  moreover have mp: "?mp = put_pte v (leaf f F_KERN (pte_at (kmem s) v)) (kmem s)" by (simp only: page_mapped_def v_def)
  ultimately have index: "ld32 ?mp (?k + 4) = of_nat i"
    using ix slot(3) by (simp add: mp put_pte_def v(2) pool_index_def)
  have px: "pool_index ?k ?s = of_nat i" using ix by (simp add: pool_index_def)
  have fn: "f \<noteq> NO_ADDR" using f by auto
  have vv: "of_nat i * 4096 = v" by (simp add: v_def)
  have "palloc_heap_loop vp 1 True 0 ?k F_KERN s =
      ret (Some v) (s\<lparr>kmem := page_recorded vp f i s, con := c, physical_page_entries := ps\<rparr>)"
    using fn next_frame px map slot(2-5) slot(4) [symmetric] index
    by (simp add: Let_def vv pool_index_def page_recorded_def del: of_nat_mult)
  then have "palloc_heap vp 1 ?k F_KERN s =
      ret v (s\<lparr>kmem := page_recorded vp f i s, con := c, physical_page_entries := ps\<rparr>)"
    by (simp add: palloc_heap_def page_flags)
  then show thesis unfolding v_def by (rule that)
qed

text \<open>\<^verbatim>\<open>palloc_heap\<close> for one page: the first free frame behind the last heap page.\<close>

lemma heap_page_added:
  assumes g: "growable s i" and f: "free_frames (physical_page_entries s) = f # fs"
  obtains m c ps where "palloc_heap vp 1 (kernel_pool s) F_KERN s =
      ret (heap_page i) (s\<lparr>kmem := m, con := c, physical_page_entries := ps\<rparr>)"
    and "free_frames ps = fs" and "\<And>x. unat x < 0x200000 \<Longrightarrow> m x = kmem s x"
    and "\<And>k. unat k < 4096 \<Longrightarrow> mmu m (heap_page i + k) = Some (f + k)" and "pde_at m 0 = pde_at (kmem s) 0"
    and "i + 1 < 512 \<Longrightarrow> growable (s\<lparr>kmem := m, con := c, physical_page_entries := ps\<rparr>) (i + 1)"
    and "\<And>j k. j < 512 \<Longrightarrow> j \<noteq> i \<Longrightarrow> unat k < 4096 \<Longrightarrow> mmu m (heap_page j + k) = mmu (kmem s) (heap_page j + k)"
proof (cases s rule: get_next_free_cases)
  case 1
  with f show ?thesis by simp
next
  case (2 f' ps)
  then have ff: "f' = f" "free_frames ps = fs" using f by simp_all
  have af: "page_aligned f" using g f by (simp add: growable_def paging_ok_def frames_ok_def)
  then have "f \<noteq> NO_ADDR" by auto
  then have "get_next_free_physical_page s = (f, s\<lparr>physical_page_entries := ps\<rparr>)" using 2(1) ff by simp
  then obtain c where run: "palloc_heap vp 1 (kernel_pool s) F_KERN s =
      ret (heap_page i) (s\<lparr>kmem := page_recorded vp f i s, con := c, physical_page_entries := ps\<rparr>)"
    by (rule palloc_heap_run [OF g _ af])
  note pd = page_recorded_tables(1) [OF g af, of vp]
  have index: "ld32 (page_recorded vp f i s) (kernel_pool s + 4) = of_nat i + 1" by (simp add: page_recorded_def)
  have gr: "growable (s\<lparr>kmem := page_recorded vp f i s, con := c, physical_page_entries := ps\<rparr>) (i + 1)" if "i + 1 < 512"
    using g that f ff unfolding growable_def
    by (auto simp: paging_ok_def tables_ok_def frames_ok_def pd pool_index_def index)
  show ?thesis
    by (rule that [OF run ff(2) page_recorded_low [OF g] page_recorded_tables(2) [OF g af] pd gr page_recorded_others [OF g]])
qed

section \<open>The segments of the new page\<close>

definition headers_apart :: "ptr \<Rightarrow> ptr \<Rightarrow> bool" where
  "headers_apart a b \<longleftrightarrow> below a b \<or> below b a"

lemma headers_apart_neq [simp]:
  assumes "headers_apart a b"
  shows "a \<noteq> b" "b \<noteq> a"
    and "unat l < 24 \<Longrightarrow> a \<noteq> b + l" "unat l < 24 \<Longrightarrow> b + l \<noteq> a"
    and "unat k < 24 \<Longrightarrow> a + k \<noteq> b" "unat k < 24 \<Longrightarrow> b \<noteq> a + k"
    and "unat k < 24 \<Longrightarrow> unat l < 24 \<Longrightarrow> a + k \<noteq> b + l" "unat k < 24 \<Longrightarrow> unat l < 24 \<Longrightarrow> b + l \<noteq> a + k"
  using assms below_neq [of a b] below_neq [of b a] unfolding headers_apart_def by blast+

lemma grow_pages_one: "unat sz \<le> 4048 \<Longrightarrow> sz \<noteq> 0 \<Longrightarrow> grow_pages sz = 1 \<and> sz mod PGSIZE = sz"
proof -
  assume sz: "unat sz \<le> 4048" "sz \<noteq> 0"
  have "unat (sz + 24) = unat sz + 24" using sz by (simp add: unat_plus_small)
  then have "unat ((sz + 24) div 4096) = 0" using sz by (simp add: unat_div)
  then have "(sz + 24) div 4096 = 0" by (simp only: unat_eq_0)
  moreover have "unat (sz mod 4096) = unat sz" using sz by (simp add: unat_mod)
  then have "sz mod 4096 = sz" by (simp only: word_unat_eq_iff)
  ultimately show ?thesis using sz(2) by (simp add: grow_pages_def sizeof_header_def PGSIZE_def Let_def)
qed

text \<open>The stores of \<^verbatim>\<open>malloc\<close> after it got the page \<open>v\<close>, for a last segment \<open>cur\<close> that is free.\<close>

lemma grow_links:
  assumes h: "header (kmem s) cur l 0 p 0 pf 1" and al: "aligned cur" "aligned v" "aligned n"
    and n: "n = v + 24 + sz" "below v n" and ap: "headers_apart cur v" "headers_apart cur n"
    and e: "palloc_heap vp 1 (kernel_pool t) F_KERN t = ret v s" and v: "v \<noteq> NO_ADDR"
    and sz: "24 < sz" "unat sz \<le> 4048"
  obtains m where "malloc_grow vp sz cur t = ret (v + 24) (s\<lparr>kmem := m\<rparr>)"
    and "header m cur l v p n pf 1" and "header m v (seg_len s v) n cur n cur 0" and "header m n (sz - 24) 0 v 0 cur 1"
    and "same_outside {cur, v, n} (kmem s) m"
proof -
  have "sz \<noteq> 0" using sz(1) by auto
  note g = grow_pages_one [OF sz(2) this]
  let ?m1 = "st32 (n + 16) cur (st32 (n + 8) v (st32 (n + 12) 0 (st32 (n + 4) 0 (st32 n (sz - 24) (st32 (n + 20) 1 (st32 (v + 20) 0 (kmem s)))))))"
  let ?m2 = "st32 (v + 4) n (st32 (v + 12) n (st32 (v + 16) cur (st32 (v + 8) cur ?m1)))"
  let ?m = "st32 (cur + 12) n (st32 (cur + 4) v ?m2)"
  have f: "seg_free (s\<lparr>kmem := st32 (n + 8) v (st32 (n + 12) 0 (st32 (n + 4) 0 (st32 n (sz - 24) (st32 (n + 20) 1 (st32 (v + 20) 0 (kmem s))))))\<rparr>) cur = 1"
    using h al ap by (simp add: header_def)
  have l: "last_segment ?m1 cur = Some cur"
    using h al ap by (subst last_segment.simps) (simp add: header_def)
  have "malloc_grow vp sz cur t = ret (v + 24) (s\<lparr>kmem := ?m\<rparr>)"
    using e v sz(1) l f al ap n(2) by (simp add: n(1) [symmetric] malloc_grow_def g Let_def sizeof_header_def header_def)
  moreover have "header ?m cur l v p n pf 1" using h al ap by (simp add: header_def)
  moreover have "header ?m v (seg_len s v) n cur n cur 0" using h al ap n(2) by (simp add: header_def)
  moreover have "header ?m n (sz - 24) 0 v 0 cur 1" using h al ap n(2) by (simp add: header_def)
  moreover have "same_outside {cur, v, n} (kmem s) ?m"
    using ap n(2) by (auto simp: same_outside_def st32_header st32_header0 below_def headers_apart_def)
  ultimately show ?thesis by (rule that)
qed

text \<open>A request of at most 24 bytes leaves no free segment on the page.\<close>

lemma grow_links_small:
  assumes h: "header (kmem s) cur l 0 p 0 pf 1" and al: "aligned cur" "aligned v" and ap: "headers_apart cur v"
    and e: "palloc_heap vp 1 (kernel_pool t) F_KERN t = ret v s" and v: "v \<noteq> NO_ADDR"
    and sz: "sz \<noteq> 0" "sz \<le> 24"
  obtains m where "malloc_grow vp sz cur t = ret (v + 24) (s\<lparr>kmem := m\<rparr>)"
    and "header m cur l 0 p 0 pf 1" and "header m v (seg_len s v) 0 cur 0 cur 0"
    and "same_outside {cur, v} (kmem s) m"
proof -
  have "unat sz \<le> 4048" using sz(2) by (simp add: word_le_nat_alt)
  note g = grow_pages_one [OF this sz(1)]
  let ?m1 = "st32 (v + 8) cur (st32 (v + 12) 0 (st32 (v + 4) 0 (st32 (v + 20) 0 (kmem s))))"
  let ?m = "st32 (cur + 12) 0 (st32 (cur + 4) 0 (st32 (v + 16) cur ?m1))"
  have f: "seg_free (s\<lparr>kmem := ?m1\<rparr>) cur = 1" using h al ap by (simp add: header_def)
  have "malloc_grow vp sz cur t = ret (v + 24) (s\<lparr>kmem := ?m\<rparr>)"
    using e v f sz by (simp add: malloc_grow_def g Let_def sizeof_header_def linorder_not_le [symmetric])
  moreover have "header ?m cur l 0 p 0 pf 1" using h al ap by (simp add: header_def)
  moreover have "header ?m v (seg_len s v) 0 cur 0 cur 0" using h al ap by (simp add: header_def)
  moreover have "same_outside {cur, v} (kmem s) ?m"
    using ap by (auto simp: same_outside_def st32_header st32_header0 below_def headers_apart_def)
  ultimately show ?thesis by (rule that)
qed

lemma heap_page_not_NO_ADDR: "i < 512 \<Longrightarrow> heap_page i \<noteq> NO_ADDR"
proof
  assume i: "i < 512" and e: "heap_page i = NO_ADDR"
  have "page_aligned (heap_page i)" by (rule heap_page_entries(1) [OF i])
  then show False unfolding e by simp
qed

text \<open>Writes to the heap leave the translation of the new page alone.\<close>

lemma new_page_mmu:
  assumes g: "growable s i" and p: "pde_at m 0 = pde_at (kmem s) 0" and k: "unat k < 4096"
    and hi: "\<And>x. 0x200000 \<le> unat x \<Longrightarrow> m' x = m x" and m: "mmu m (heap_page i + k) = Some y"
  shows "mmu m' (heap_page i + k) = Some y"
proof -
  have i: "i < 512" using g by (simp add: growable_def)
  have "k < 4096" using k by (simp add: word_less_nat_alt)
  then have "drop_bit 12 (heap_page i + k) = drop_bit 12 (heap_page i)"
    by (rule page_parts(1) [OF heap_page_entries(1) [OF i]])
  then have "pde_at m (heap_page i + k) = pde_at m (heap_page i)" by (rule same_page_entries(1))
  also have "\<dots> = pde_at (kmem s) 0" unfolding heap_page_entries(2) [OF i] by (rule p)
  finally have "mmu m' (heap_page i + k) = mmu m (heap_page i + k)"
    using g hi by (intro high_mmu) (simp_all add: growable_def)
  then show ?thesis using m by simp
qed

lemma heap_writes_mmu:
  assumes g: "growable s i" and p: "pde_at m 0 = pde_at (kmem s) 0" and j: "j < 512" "unat k < 4096"
    and hi: "\<And>x. 0x200000 \<le> unat x \<Longrightarrow> m' x = m x"
  shows "mmu m' (heap_page j + k) = mmu m (heap_page j + k)"
proof -
  have "pde_at m (heap_page j + k) = pde_at (kmem s) 0" unfolding heap_page_pde(2) [OF j] by (rule p)
  then show ?thesis using g hi by (intro high_mmu) (simp_all add: growable_def)
qed

text \<open>The page and its segments together.\<close>

lemma grow_run:
  assumes g: "growable s i" and f: "free_frames (physical_page_entries s) = f # fs"
    and h: "header (kmem s) cur l 0 p 0 pf 1" "aligned cur" "unat cur + 24 \<le> 0x200000"
    and v: "v = heap_page i" "n = v + 24 + sz" and ap: "headers_apart cur v" "headers_apart cur n"
    and sz: "24 < sz" "unat sz \<le> 4048" "aligned sz"
  obtains m c ps where "malloc_grow vp sz cur s = ret (v + 24) (s\<lparr>kmem := m, con := c, physical_page_entries := ps\<rparr>)"
    and "header m cur l v p n pf 1" and "header m v (seg_len s v) n cur n cur 0" and "header m n (sz - 24) 0 v 0 cur 1"
    and "\<And>x. unat x < 0x200000 \<Longrightarrow> (\<forall>b \<in> {cur, v, n}. \<not> inside (unat b) 24 x) \<Longrightarrow> m x = kmem s x"
    and "free_frames ps = fs" and "\<And>k. unat k < 4096 \<Longrightarrow> mmu m (v + k) = Some (f + k)"
    and "i + 1 < 512 \<Longrightarrow> growable (s\<lparr>kmem := m, con := c, physical_page_entries := ps\<rparr>) (i + 1)"
    and "\<And>j k. j < 512 \<Longrightarrow> j \<noteq> i \<Longrightarrow> unat k < 4096 \<Longrightarrow> mmu m (heap_page j + k) = mmu (kmem s) (heap_page j + k)"
proof -
  have i: "i < 512" using g by (simp add: growable_def)
  obtain m c ps where r: "palloc_heap vp 1 (kernel_pool s) F_KERN s =
      ret v (s\<lparr>kmem := m, con := c, physical_page_entries := ps\<rparr>)"
    "free_frames ps = fs" "\<And>x. unat x < 0x200000 \<Longrightarrow> m x = kmem s x"
    "\<And>k. unat k < 4096 \<Longrightarrow> mmu m (v + k) = Some (f + k)" "pde_at m 0 = pde_at (kmem s) 0"
    "i + 1 < 512 \<Longrightarrow> growable (s\<lparr>kmem := m, con := c, physical_page_entries := ps\<rparr>) (i + 1)"
    "\<And>j k. j < 512 \<Longrightarrow> j \<noteq> i \<Longrightarrow> unat k < 4096 \<Longrightarrow> mmu m (heap_page j + k) = mmu (kmem s) (heap_page j + k)"
    by (rule heap_page_added [OF g f, where vp = vp, folded v(1)]) (rule that)
  let ?s = "s\<lparr>kmem := m, con := c, physical_page_entries := ps\<rparr>"
  have u: "unat v = 4096 * i" "unat n = unat v + 24 + unat sz" "unat n + 24 \<le> 0x200000"
  proof -
    show a: "unat v = 4096 * i" unfolding v(1) using i by (intro heap_page_unat) simp
    have "unat (v + 24) = unat v + 24" using a i by (simp add: unat_plus_small)
    then show b: "unat n = unat v + 24 + unat sz" unfolding v(2) using a i sz(2) by (simp add: unat_plus_small)
    show "unat n + 24 \<le> 0x200000" using a b i sz(2) by simp
  qed
  have keep: "unat b + 24 \<le> 0x200000 \<Longrightarrow> unat k \<le> 20 \<Longrightarrow> ld32 m (b + k) = rd s (b + k)" for b k by (rule low_words [OF r(3)])
  have h1: "header (kmem ?s) cur l 0 p 0 pf 1" using h keep [of cur 0] keep [of cur] by (simp add: header_def)
  have av: "aligned v" unfolding v(1) by (rule page_aligned_imp_aligned, rule heap_page_entries(1) [OF i])
  then have an: "aligned n" unfolding v(2) using sz(3) by simp
  have bn: "below v n" using u sz(1) by (simp add: below_def)
  have nv: "v \<noteq> NO_ADDR" unfolding v(1) by (rule heap_page_not_NO_ADDR [OF i])
  obtain m' where m': "malloc_grow vp sz cur s = ret (v + 24) (?s\<lparr>kmem := m'\<rparr>)" "header m' cur l v p n pf 1"
    "header m' v (seg_len ?s v) n cur n cur 0" "header m' n (sz - 24) 0 v 0 cur 1" "same_outside {cur, v, n} (kmem ?s) m'"
    by (rule grow_links [OF h1 h(2) av an v(2) bn ap r(1) nv sz(1,2)]) (rule that)
  have sl: "seg_len ?s v = seg_len s v" using keep [of v 0] u by simp
  have hi: "m' x = m x" if "0x200000 \<le> unat x" for x
    using m'(5) that u h(3) by (simp add: same_outside_def inside_def)
  show ?thesis
  proof (rule that)
    show "malloc_grow vp sz cur s = ret (v + 24) (s\<lparr>kmem := m', con := c, physical_page_entries := ps\<rparr>)" using m'(1) by simp
    show "header m' v (seg_len s v) n cur n cur 0" using m'(3) unfolding sl .
    show "m' x = kmem s x" if "unat x < 0x200000" "\<forall>b \<in> {cur, v, n}. \<not> inside (unat b) 24 x" for x
      using m'(5) r(3) [OF that(1)] that(2) by (simp add: same_outside_def)
    show "mmu m' (v + k) = Some (f + k)" if "unat k < 4096" for k
      unfolding v(1) by (rule new_page_mmu [OF g r(5) that hi]) (use r(4) [OF that] v(1) in simp_all)
    show "mmu m' (heap_page j + k) = mmu (kmem s) (heap_page j + k)" if "j < 512" "j \<noteq> i" "unat k < 4096" for j k
      using heap_writes_mmu [OF g r(5) that(1,3) hi] r(7) [OF that] by simp
    show "growable (s\<lparr>kmem := m', con := c, physical_page_entries := ps\<rparr>) (i + 1)" if "i + 1 < 512"
    proof -
      have "growable (?s\<lparr>kmem := m'\<rparr>) (i + 1)" by (rule growable_heap(2) [OF r(6) [OF that]]) (simp add: hi)
      moreover have "?s\<lparr>kmem := m'\<rparr> = s\<lparr>kmem := m', con := c, physical_page_entries := ps\<rparr>" by simp
      ultimately show ?thesis by simp
    qed
  qed (use m' r(2) in simp_all)
qed

section \<open>Requests to a grown heap\<close>

text \<open>A free segment that is neither the first nor alone is carved up.\<close>

lemma split_grown:
  assumes a: "header (kmem s) a l v p n 0 1" "aligned a" and f: "firstFreeSegment s = a"
    and n: "header (kmem s) n ln nx v nf a 1" "aligned n" and w: "w = n + 24 + k" "aligned k" "below n w"
    and v: "aligned v" and nz: "below 0 a" "below 0 v" "below 0 n"
    and ap: "headers_apart a v" "headers_apart a n" "headers_apart a w" "headers_apart v n" "headers_apart v w"
  obtains m where "malloc_split k n s = ret (n + 24) (s\<lparr>kmem := m\<rparr>)"
    and "header m a l v p w 0 1" and "header m w (ln - (24 + k)) nx n nf a 1"
    and "same_outside {a, v, n, w} (kmem s) m"
proof -
  have aw: "aligned w" using n(2) w(1,2) by simp
  have z: "a \<noteq> 0" "v \<noteq> 0" "n \<noteq> 0" "w \<noteq> 0" "a \<noteq> n" using nz ap w(3) by (auto simp: below_def)
  obtain m1 where m1: "split_new w k n s = s\<lparr>kmem := m1\<rparr>" "header m1 n ln nx v nf a 1"
      "header m1 w (ln - (24 + k)) nx n nf a 1" "same_outside {w} (kmem s) m1"
    by (rule split_new_run [OF n aw w(3), of k])
  have h1: "header (kmem (s\<lparr>kmem := m1\<rparr>)) n ln nx v nf a 1" using m1(2) by simp
  have n24: "unat n + 24 \<le> 4294967296" using w(3) by (simp add: below_def)
  obtain m2 where m2: "split_cur w k n (s\<lparr>kmem := m1\<rparr>) = s\<lparr>kmem := m1\<rparr>\<lparr>kmem := m2\<rparr>"
      "header m2 n k w v w a 0" "same_outside {n} m1 m2"
    using split_cur_run [OF h1 n(2) n24, of w k] by auto
  have so: "same_outside {n, w} (kmem s) m2" by (rule same_outside_trans [OF m1(4) m2(3)]) simp
  have a24: "unat a + 24 \<le> 4294967296" using nz(1) by (simp add: below_def)
  have ha: "header m2 a l v p n 0 1"
    by (rule header_same_outside [OF so a(1) a24]) (use ap in \<open>auto simp: headers_apart_def below_def\<close>)
  have hw: "header m2 w (ln - (24 + k)) nx n nf a 1"
    by (rule header_same_outside [OF m2(3) m1(3)]) (use w(3) in \<open>auto simp: below_def\<close>)
  let ?m = "st32 (w + 16) a (st32 (v + 12) w (st32 (w + 16) a (st32 (a + 12) w m2)))"
  have "split_links n (s\<lparr>kmem := m2\<rparr>) = s\<lparr>kmem := ?m\<rparr>"
    using m2(2) z ap w(3) a(2) n(2) v aw by (simp add: split_links_def header_def Let_def)
  then have "malloc_split k n s = ret (n + 24) (s\<lparr>kmem := ?m\<rparr>)"
    using m1(1) m2(1) f z(5) by (simp add: malloc_split_def Let_def sizeof_header_def w(1) [symmetric])
  moreover have "header ?m a l v p w 0 1" using ha ap a(2) aw v by (simp add: header_def)
  moreover have "header ?m w (ln - (24 + k)) nx n nf a 1" using hw ap a(2) aw v by (simp add: header_def)
  moreover have "same_outside {a, v, n, w} m2 ?m"
    using ap w(3) by (auto simp: same_outside_def st32_header below_def headers_apart_def)
  then have "same_outside {a, v, n, w} (kmem s) ?m" by (rule same_outside_trans [OF so]) simp
  ultimately show ?thesis by (rule that)
qed

lemma round8_fixed: "8 dvd unat sz \<Longrightarrow> round8 sz = sz"
proof -
  assume "8 dvd unat sz"
  then have "unat (sz mod 8) = 0" by (simp add: unat_mod)
  then have "sz mod 8 = 0" by (simp only: unat_eq_0)
  then show "round8 sz = sz" by (simp add: round8_def)
qed

text \<open>The search from the first free segment \<open>a\<close>: it, or the one behind it.\<close>

lemma find_first: "header m a l nx pv 0 pf 1 \<Longrightarrow> find_segment m sz a = Some a"
  by (subst find_segment.simps) (simp add: header_def)

lemma find_second:
  assumes "header m a l nx pv n pf 1" and "l < sz" and "n \<noteq> 0" and "header m n ln nx' pv' 0 pf' 1"
  shows "find_segment m sz a = Some n"
proof -
  have "find_segment m sz a = find_segment m sz n"
    using assms(1-3) by (subst find_segment.simps) (simp add: header_def)
  then show ?thesis using find_first [OF assms(4)] by simp
qed

lemma find_second_fits:
  assumes "header m a l nx pv n pf 1" and "l < sz" and "n \<noteq> 0" and "header m n ln nx' pv' nf' pf' 1" and "sz \<le> ln"
  shows "find_segment m sz a = Some n"
proof -
  have "find_segment m sz a = find_segment m sz n"
    using assms(1-3) by (subst find_segment.simps) (simp add: header_def)
  moreover have "\<not> ld32 m n < sz" using assms(4,5) by (simp add: header_def not_less)
  ultimately show ?thesis by (subst (asm) (2) find_segment.simps) simp
qed

lemma grow_run_small:
  assumes g: "growable s i" and f: "free_frames (physical_page_entries s) = f # fs"
    and h: "header (kmem s) cur l 0 p 0 pf 1" "aligned cur" "unat cur + 24 \<le> 4096 * i"
    and v: "v = heap_page i" and sz: "sz \<noteq> 0" "sz \<le> 24"
  obtains m c ps where "malloc_grow vp sz cur s = ret (v + 24) (s\<lparr>kmem := m, con := c, physical_page_entries := ps\<rparr>)"
    and "header m cur l 0 p 0 pf 1" and "header m v (seg_len s v) 0 cur 0 cur 0"
    and "free_frames ps = fs" and "\<And>k. unat k < 4096 \<Longrightarrow> mmu m (v + k) = Some (f + k)"
    and "i + 1 < 512 \<Longrightarrow> growable (s\<lparr>kmem := m, con := c, physical_page_entries := ps\<rparr>) (i + 1)"
proof -
  have i: "i < 512" using g by (simp add: growable_def)
  obtain m c ps where r: "palloc_heap vp 1 (kernel_pool s) F_KERN s =
      ret v (s\<lparr>kmem := m, con := c, physical_page_entries := ps\<rparr>)"
    "free_frames ps = fs" "\<And>x. unat x < 0x200000 \<Longrightarrow> m x = kmem s x"
    "\<And>k. unat k < 4096 \<Longrightarrow> mmu m (v + k) = Some (f + k)" "pde_at m 0 = pde_at (kmem s) 0"
    "i + 1 < 512 \<Longrightarrow> growable (s\<lparr>kmem := m, con := c, physical_page_entries := ps\<rparr>) (i + 1)"
    by (rule heap_page_added [OF g f, where vp = vp, folded v(1)]) (rule that)
  let ?s = "s\<lparr>kmem := m, con := c, physical_page_entries := ps\<rparr>"
  have u: "unat v = 4096 * i" unfolding v using i by (intro heap_page_unat) simp
  have ap: "headers_apart cur v" using u h(3) i by (simp add: headers_apart_def below_def)
  have av: "aligned v" unfolding v by (rule page_aligned_imp_aligned, rule heap_page_entries(1) [OF i])
  have keep: "unat b + 24 \<le> 0x200000 \<Longrightarrow> unat k \<le> 20 \<Longrightarrow> ld32 m (b + k) = rd s (b + k)" for b k by (rule low_words [OF r(3)])
  have h1: "header (kmem ?s) cur l 0 p 0 pf 1" using h i keep [of cur 0] keep [of cur] by (simp add: header_def)
  have nv: "v \<noteq> NO_ADDR" unfolding v by (rule heap_page_not_NO_ADDR [OF i])
  obtain m' where m': "malloc_grow vp sz cur s = ret (v + 24) (?s\<lparr>kmem := m'\<rparr>)" "header m' cur l 0 p 0 pf 1"
    "header m' v (seg_len ?s v) 0 cur 0 cur 0" "same_outside {cur, v} (kmem ?s) m'"
    by (rule grow_links_small [OF h1 h(2) av ap r(1) nv sz]) (rule that)
  have hi: "m' x = m x" if "0x200000 \<le> unat x" for x
    using m'(4) that u h(3) i by (simp add: same_outside_def inside_def)
  have sl: "seg_len ?s v = seg_len s v" using keep [of v 0] u i by simp
  show ?thesis
  proof (rule that)
    show "malloc_grow vp sz cur s = ret (v + 24) (s\<lparr>kmem := m', con := c, physical_page_entries := ps\<rparr>)" using m'(1) by simp
    show "header m' v (seg_len s v) 0 cur 0 cur 0" using m'(3) unfolding sl .
    show "mmu m' (v + k) = Some (f + k)" if "unat k < 4096" for k
      unfolding v(1) by (rule new_page_mmu [OF g r(5) that hi]) (use r(4) [OF that] v(1) in simp_all)
    show "growable (s\<lparr>kmem := m', con := c, physical_page_entries := ps\<rparr>) (i + 1)" if "i + 1 < 512"
    proof -
      have "growable (?s\<lparr>kmem := m'\<rparr>) (i + 1)" by (rule growable_heap(2) [OF r(6) [OF that]]) (simp add: hi)
      moreover have "?s\<lparr>kmem := m'\<rparr> = s\<lparr>kmem := m', con := c, physical_page_entries := ps\<rparr>" by simp
      ultimately show ?thesis by simp
    qed
  qed (use m' r(2) in simp_all)
qed

lemma grow_no_frame:
  assumes "free_frames (physical_page_entries s) = []" and "sz \<noteq> 0" and "unat sz \<le> 4048"
  shows "malloc_grow vp sz cur s = ret NO_ADDR s"
proof -
  have g: "get_next_free_physical_page s = (NO_ADDR, s)" using assms(1) by (cases s rule: get_next_free_cases) simp_all
  have "F_KERN AND F_ASSERT = 0" by (simp add: page_flags)
  then have "palloc_heap vp 1 (kernel_pool s) F_KERN s = ret NO_ADDR s" using g by (simp add: palloc_heap_def)
  then show ?thesis using grow_pages_one [OF assms(3,2)] by (simp add: malloc_grow_def Let_def)
qed


text \<open>Where the three blocks lie: \<open>v\<close> and \<open>v'\<close> are the pages, \<open>n\<close>, \<open>n'\<close> and \<open>w\<close> the segments behind the blocks.\<close>

lemma overlap_layout:
  assumes i: "1 \<le> i" "i + 1 < 512" and v: "v = heap_page i" "n = v + 24 + sz" "w = n + 24 + k"
    and v': "v' = heap_page (i + 1)" "n' = v' + 24 + q"
    and sz: "unat sz \<le> 4048" "unat k + 48 \<le> unat sz" "4072 < unat sz + unat k"
    and q: "unat q \<le> 4048" "unat sz < unat q + 24" and a: "unat a + 24 \<le> 4096 * i"
  shows "unat v = 4096 * i" "unat v' = 4096 * i + 4096" "unat (v' + 24) = 4096 * i + 4120" "unat n' = 4096 * i + 4120 + unat q"
    "unat n = 4096 * i + 24 + unat sz" "unat (n + 24) = 4096 * i + 48 + unat sz" "unat w = 4096 * i + 48 + unat sz + unat k"
    and "headers_apart a v" "headers_apart a n" "headers_apart a w" "headers_apart v n" "headers_apart v w"
      "below n w" "below 0 v" "below 0 n" "headers_apart n v'" "headers_apart n n'"
proof -
  show u: "unat v = 4096 * i" unfolding v(1) using i by (subst heap_page_unat; simp)
  show u': "unat v' = 4096 * i + 4096" unfolding v'(1) using i by (subst heap_page_unat; simp)
  have u24: "unat (v + 24) = 4096 * i + 24" using u i by (simp add: unat_plus_small)
  show u24': "unat (v' + 24) = 4096 * i + 4120" using u' i by (simp add: unat_plus_small)
  show un: "unat n = 4096 * i + 24 + unat sz"
    unfolding v(2) using u24 i sz(1) by (simp add: unat_plus_small)
  show un': "unat n' = 4096 * i + 4120 + unat q"
    unfolding v'(2) using u24' i q(1) by (simp add: unat_plus_small)
  show un24: "unat (n + 24) = 4096 * i + 48 + unat sz" using un i sz(1) by (simp add: unat_plus_small)
  show uw: "unat w = 4096 * i + 48 + unat sz + unat k" unfolding v(3) using un24 i sz by (simp add: unat_plus_small)
  show "headers_apart a v" "headers_apart a n" "headers_apart a w" "headers_apart v n" "headers_apart v w"
      "below n w" "below 0 v" "below 0 n" "headers_apart n v'" "headers_apart n n'"
    using u u' un un' uw i sz q a by (simp_all add: headers_apart_def below_def)
qed

text \<open>
  C20: blocks of a grown heap can overlap. A request of \<open>sz\<close> bytes grows the heap by a page and leaves a
  free segment that claims \<open>sz - 24\<close> bytes, more than the rest of the page; one of \<open>q\<close> bytes, too large
  for that segment, grows the heap by the next page; a third one, of \<open>k\<close> bytes, is then served from the
  segment and gets a block that reaches over the beginning of the second block. All of it lies on the
  two pages, which are mapped.
\<close>

theorem grown_blocks_overlap:
  assumes g: "growable s i" "i + 1 < 512" and f: "free_frames (physical_page_entries s) = f # f' # fs"
    and h: "header (kmem s) a l 0 p 0 0 1" "firstFreeSegment s = a" "aligned a" "below 0 a" "unat a + 24 \<le> 4096 * i"
    and d: "8 dvd unat sz" "8 dvd unat k" "8 dvd unat q"
    and sz: "unat sz \<le> 4048" "unat k + 48 \<le> unat sz" "4072 < unat sz + unat k"
    and q: "unat q \<le> 4048" "unat sz < unat q + 24"
    and l: "l < sz" "l < k" "l < q"
  shows "\<exists>s1 s2 s3 b c. malloc vp sz s = ret (heap_page i + 24) s1 \<and> malloc vp q s1 = ret c s2 \<and> malloc vp k s2 = ret b s3 \<and>
    unat b < unat c \<and> unat c < unat b + unat k \<and> 4096 * i + 24 \<le> unat b \<and>
    unat b + unat k + 24 \<le> 4096 * (i + 2) \<and> unat c + unat q + 24 \<le> 4096 * (i + 2) \<and>
    (\<forall>j y. j \<in> {i, i + 1} \<and> unat y < 4096 \<longrightarrow> mmu (kmem s2) (heap_page j + y) \<noteq> None)"
proof -
  define v n w v' n' where "v = heap_page i" and "n = v + 24 + sz" and "w = n + 24 + k" and "v' = heap_page (i + 1)" and "n' = v' + 24 + q"
  have i: "1 \<le> i" using g(1) by (simp add: growable_def)
  note layout = overlap_layout [OF i g(2) v_def n_def w_def v'_def n'_def sz q h(5)]
  note u = layout(1-7) and ap = layout(8-17)
  have "4 dvd unat z" if "8 dvd unat z" for z :: u32 using that by (rule dvd_trans [rotated]) simp
  then have al: "aligned sz" "aligned k" "aligned q" using d by (simp_all add: aligned_def)
  have av: "aligned v" unfolding v_def by (rule page_aligned_imp_aligned, rule heap_page_entries(1)) (use g(2) in simp)
  have an: "aligned n" using al av by (simp add: n_def)
  have r: "round8 sz = sz" "round8 k = k" "round8 q = q" by (intro round8_fixed d)+
  have gt: "24 < sz" "24 < q" using sz q by (simp_all add: word_less_nat_alt)
  have us24: "unat (sz - 24) = unat sz - 24" using gt(1) by (simp add: unat_sub word_le_nat_alt word_less_nat_alt)
  have low: "unat a + 24 \<le> 0x200000" "unat n + 24 \<le> 0x200000" "unat w + 24 \<le> 0x200000" "unat v + 24 \<le> 0x200000"
    using h(5) g(2) u sz by simp_all
  obtain m c ps where m1: "malloc_grow vp sz a s = ret (v + 24) (s\<lparr>kmem := m, con := c, physical_page_entries := ps\<rparr>)"
      "header m a l v p n 0 1" "header m n (sz - 24) 0 v 0 a 1" "free_frames ps = f' # fs"
      "\<And>k. unat k < 4096 \<Longrightarrow> mmu m (v + k) = Some (f + k)"
      "i + 1 < 512 \<Longrightarrow> growable (s\<lparr>kmem := m, con := c, physical_page_entries := ps\<rparr>) (i + 1)"
    by (rule grow_run [OF g(1) f h(1,3) low(1) v_def n_def ap(1,2) gt(1) sz(1) al(1), where vp = vp]) (rule that)
  let ?s1 = "s\<lparr>kmem := m, con := c, physical_page_entries := ps\<rparr>"
  have "seg_len s a = l" using h(1) by (simp add: header_def)
  then have 1: "malloc vp sz s = ret (v + 24) ?s1"
    using find_first [OF h(1), of sz] h(2) l(1) m1(1) by (simp add: malloc_def Let_def r)
  have h1: "header (kmem ?s1) a l v p n 0 1" "header (kmem ?s1) n (sz - 24) 0 v 0 a 1" "firstFreeSegment ?s1 = a"
      "free_frames (physical_page_entries ?s1) = f' # fs"
    using m1(2-4) h(2) by simp_all
  have nz: "n \<noteq> 0" using u by auto
  obtain m2 c2 ps2 where m2: "malloc_grow vp q n ?s1 = ret (v' + 24) (?s1\<lparr>kmem := m2, con := c2, physical_page_entries := ps2\<rparr>)"
      "header m2 n (sz - 24) v' v n' a 1"
      "\<And>x. unat x < 0x200000 \<Longrightarrow> (\<forall>b \<in> {n, v', n'}. \<not> inside (unat b) 24 x) \<Longrightarrow> m2 x = kmem ?s1 x"
      "\<And>k. unat k < 4096 \<Longrightarrow> mmu m2 (v' + k) = Some (f' + k)"
      "\<And>j k. j < 512 \<Longrightarrow> j \<noteq> i + 1 \<Longrightarrow> unat k < 4096 \<Longrightarrow> mmu m2 (heap_page j + k) = mmu (kmem ?s1) (heap_page j + k)"
    by (rule grow_run [OF m1(6) [OF g(2)] h1(4,2) an low(2) v'_def n'_def ap(9,10) gt(2) q(1) al(3), where vp = vp]) (rule that)
  let ?s2 = "?s1\<lparr>kmem := m2, con := c2, physical_page_entries := ps2\<rparr>"
  have 2: "malloc vp q ?s1 = ret (v' + 24) ?s2"
  proof -
    have "sz - 24 < q" using us24 q(2) gt(1) by (simp add: word_less_nat_alt)
    then show ?thesis
      using find_second [OF h1(1) l(3) nz h1(2)] h1(2,3) m2(1) by (simp add: malloc_def Let_def r header_def)
  qed
  have ha: "header (kmem ?s2) a l v p n 0 1"
  proof -
    have ma: "m2 x = kmem ?s1 x" if "inside (unat a) 24 x" for x
      using that u h(5) sz q g(2) by (intro m2(3)) (auto simp: inside_def)
    have "ld32 m2 (a + j) = ld32 (kmem ?s1) (a + j)" if "unat j \<le> 20" for j
    proof (rule ld32_cong, rule ma)
      fix y :: u32 assume y: "unat y < 4"
      have "unat (j + y) = unat j + unat y" using that y by (simp add: unat_plus_small)
      moreover from this have "unat (a + (j + y)) = unat a + unat (j + y)" using low(1) that y by (intro unat_plus_small) simp
      ultimately show "inside (unat a) 24 (a + j + y)" using that y by (simp add: inside_def add.assoc)
    qed
    from this [of 0] this [of 4] this [of 8] this [of 12] this [of 16] this [of 20] show ?thesis
      using h1(1) by (simp add: header_def)
  qed
  have hn: "header (kmem ?s2) n (sz - 24) v' v n' a 1" "firstFreeSegment ?s2 = a" using m2(2) h(2) by simp_all
  obtain m3 where m3: "malloc_split k n ?s2 = ret (n + 24) (?s2\<lparr>kmem := m3\<rparr>)"
    by (rule split_grown [OF ha h(3) hn(2,1) an w_def al(2) ap(6) av h(4) ap(7,8,1-5)]) (rule that)
  have 3: "malloc vp k ?s2 = ret (n + 24) (?s2\<lparr>kmem := m3\<rparr>)"
  proof -
    have k: "k \<le> sz - 24" using us24 sz(2) by (simp add: word_le_nat_alt)
    then have "\<not> sz - 24 < k" by simp
    then show ?thesis
      using find_second_fits [OF ha l(2) nz hn(1) k] hn m3 by (simp add: malloc_def Let_def r header_def)
  qed
  have "mmu (kmem ?s2) (heap_page j + y) \<noteq> None" if "j \<in> {i, i + 1}" "unat y < 4096" for j y
    using that m2(4,5) m1(5) g(2) by (auto simp: v_def v'_def simp del: of_nat_mult)
  moreover have "unat (n + 24) < unat (v' + 24)" "unat (v' + 24) < unat (n + 24) + unat k" "4096 * i + 24 \<le> unat (n + 24)"
      "unat (n + 24) + unat k + 24 \<le> 4096 * (i + 2)" "unat (v' + 24) + unat q + 24 \<le> 4096 * (i + 2)"
    using u sz q by simp_all
  ultimately show ?thesis using 1 2 3 unfolding v_def by blast
qed

section \<open>An example\<close>

text \<open>A kernel with a pool in the page behind the boot stack's, one heap page in use, whose last segment has 16 bytes.\<close>

definition small_heap :: kstate where
  "small_heap = initialiseHeap 40 40 (wr 0xC0008004 1 (boot_state\<lparr>kernel_pool := 0xC0008000\<rparr>))"

lemma pool_word_no_pde: "(0xC0008004 :: ptr) \<noteq> PAGE_DIRECTORY_BASE + 4 * pd_no v"
proof
  assume e: "(0xC0008004 :: ptr) = PAGE_DIRECTORY_BASE + 4 * pd_no v"
  have "unat (PAGE_DIRECTORY_BASE + 4 * pd_no v) = unat PAGE_DIRECTORY_BASE + unat (4 * pd_no v)"
    by (rule page_plus_unat) (simp_all add: pd_entry_small)
  then show False using pd_entry_small [of v] unfolding e [symmetric] by (simp add: PAGE_DIRECTORY_BASE_def)
qed

lemma small_heap_facts:
  "header (kmem small_heap) 40 16 0 0 0 0 1" "firstFreeSegment small_heap = 40"
  "free_frames (physical_page_entries small_heap) = map (\<lambda>i. of_nat i * 4096) [32..<64]"
  by (simp_all add: small_heap_def initialiseHeap_def Let_def header_def sizeof_header_def boot_pages_free aligned_def)

lemma small_heap_growable: "growable small_heap 1"
proof -
  let ?t = "wr 0xC0008004 1 (boot_state\<lparr>kernel_pool := 0xC0008000\<rparr>)"
  have p: "pde_at (kmem ?t) v = pde_decode (boot_pde (pd_no v))" for v
    using pde_at_wr [of "0xC0008004" 1 boot_mem v] pool_word_no_pde by (simp add: pde_at_boot aligned_def)
  have "paging_ok (boot_state\<lparr>kernel_pool := 0xC0008000\<rparr>)" using paging_ok_boot by (simp add: paging_ok_def)
  then have "paging_ok ?t" by (rule paging_ok_wr) (simp_all add: aligned_def pool_word_no_pde)
  moreover have d: "d_present (pde_decode (boot_pde 0)) \<noteq> 0"
    by (simp add: boot_pde_def PAGE_TABLES_BASE_def pde_decode_def)
  moreover have "table_of (pde_decode (boot_pde 0)) = 0xC1100000" using table_of_boot [OF d] by simp
  ultimately have g: "growable ?t 1"
    unfolding growable_def p by (simp add: pd_no_def page_aligned_def PAGE_DIRECTORY_BASE_def pool_index_def)
  obtain m where m: "small_heap = ?t\<lparr>kmem := m, firstFreeSegment := 40\<rparr>" "\<And>x. 64 \<le> unat x \<Longrightarrow> m x = kmem ?t x"
  proof
    let ?m = "st32 60 1 (st32 48 0 (st32 56 0 (st32 44 0 (st32 52 0 (st32 40 16 (kmem ?t))))))"
    show "small_heap = ?t\<lparr>kmem := ?m, firstFreeSegment := 40\<rparr>"
      by (simp add: small_heap_def initialiseHeap_def Let_def sizeof_header_def)
    show "?m x = kmem ?t x" if "64 \<le> unat x" for x using that by (simp add: st32_frame)
  qed
  show ?thesis unfolding m(1) by (rule growable_heap(1) [OF g], rule m(2)) simp
qed


theorem grown_blocks_overlap_witness:
  "\<exists>s1 s2 s3 b c. malloc 0 3000 small_heap = ret 0x1018 s1 \<and> malloc 0 3000 s1 = ret c s2 \<and> malloc 0 2000 s2 = ret b s3 \<and>
     unat b < unat c \<and> unat c < unat b + 2000"
proof -
  have f: "free_frames (physical_page_entries small_heap) = 0x20000 # 0x21000 # map (\<lambda>i. of_nat i * 4096) [34..<64]"
    unfolding small_heap_facts(3) by (simp add: upt_conv_Cons del: upt_rec_numeral)
  have "below 0 40" by (simp add: below_def)
  then have "\<exists>s1 s2 s3 b c. malloc 0 3000 small_heap = ret (heap_page 1 + 24) s1 \<and> malloc 0 3000 s1 = ret c s2 \<and> malloc 0 2000 s2 = ret b s3 \<and>
     unat b < unat c \<and> unat c < unat b + unat (2000 :: u32)"
    using grown_blocks_overlap [OF small_heap_growable _ f small_heap_facts(1,2), of 3000 2000 3000 0]
    by (simp add: aligned_def del: upt_rec_numeral) blast
  then show ?thesis by simp
qed

end
