(* ===== verification/Slices.thy ===== *)
theory Slices
  imports Synch
begin

text \<open>
  Round robin over time slices: the timer interrupts of a machine on which threads compute. All of
  them have been preempted before, so each waits in the calls that \<^verbatim>\<open>idt_global_int_wrapper\<close> left open.
\<close>

text \<open>
  A timer interrupt with the kernel's state and the open calls of the threads that wait: it returns
  to the thread, or switches; then the thread that is switched to goes on with its open calls. \<open>e\<close>
  is the stack pointer that \<^verbatim>\<open>context_switch\<close> loads.
\<close>

inductive irq :: "env \<Rightarrow> kstate \<times> (ptr \<Rightarrow> frame list) \<Rightarrow> kstate \<times> (ptr \<Rightarrow> frame list) \<Rightarrow> bool" for E where
  irq_stay: "idt_int E 32 s = ret Done s' \<Longrightarrow> irq E (s, F) (s', F)"
| irq_switch: "idt_int E 32 s = ret (Switch c n fs) s1 \<Longrightarrow> get_base_page e = n \<Longrightarrow>
    resume E c (F n) (s1\<lparr>esp := e\<rparr>) = ret Done s' \<Longrightarrow> irq E (s, F) (s', F(c := fs))"

inductive_cases irqE: "irq E (s, F) S'"

text \<open>
  The threads \<open>ts\<close> of the round, the running one first, the others in the order of the ready list.
\<close>

abbreviation preempted :: "frame list" where
  "preempted \<equiv> [In_yield False, In_int 32, In_iret True]"

definition rotating :: "nat \<Rightarrow> kstate \<Rightarrow> (ptr \<Rightarrow> frame list) \<Rightarrow> ptr list \<Rightarrow> bool" where
  "rotating lim s F ts \<longleftrightarrow> distinct ts \<and> idle_thread s \<notin> set ts \<and> iflag s \<and> ts \<noteq> [] \<and>
     (\<exists>Q. sched lim s (hd ts) Q \<and> Q (ready_threads s) = Some (tl ts)) \<and>
     (\<forall>u \<in> set ts. thread_ok s u \<and> thr_status s u \<noteq> TS_DYING) \<and> (\<forall>u \<in> set (tl ts). F u = preempted)"

lemma irq_counts:
  assumes "unat (tick_count s) < 3"
  obtains c where "idt_int E 32 s = ret Done (s\<lparr>con := c, ticks := ticks s + 1, tick_count := tick_count s + 1\<rparr>)"
proof -
  have "sint (tick_count s + 1) < TIME_SLICE"
    using assms sint_inc [of "tick_count s"] by (simp add: TIME_SLICE_def uint_unat_less)
  then have n: "\<not> TIME_SLICE \<le> sint (tick_count s + 1)" by simp
  define s1 where "s1 = con_update (outportb PIC1_COMMAND PIC_EOI) ((time_tick (s\<lparr>iflag := False\<rparr>))\<lparr>tick_count := tick_count s + 1\<rparr>)"
  have "idt_int E 32 s = ret Done (s1\<lparr>iflag := iflag s\<rparr>)"
    using n by (simp add: s1_def idt_int_def idt_global_int_wrapper_def thread_tick_def time_tick_def andthen_def int_rest_def Let_def)
  moreover have "s1\<lparr>iflag := iflag s\<rparr> = s\<lparr>con := con s1, ticks := ticks s + 1, tick_count := tick_count s + 1\<rparr>"
    by (rule kstate.equality) (simp_all add: s1_def time_tick_def Let_def)
  ultimately show ?thesis using that by metis
qed

lemma rotating_counts:
  assumes "rotating lim s F ts"
  shows "rotating lim (s\<lparr>con := c, ticks := k, tick_count := j\<rparr>) F ts"
proof -
  obtain Q where Q: "sched lim s (hd ts) Q" "Q (ready_threads s) = Some (tl ts)" using assms by (auto simp: rotating_def)
  have "queues lim (s\<lparr>con := c, ticks := k, tick_count := j\<rparr>) Q" by (rule queues_cong [OF schedD(1) [OF Q(1)]]) simp_all
  then have "sched lim (s\<lparr>con := c, ticks := k, tick_count := j\<rparr>) (hd ts) Q"
    using Q(1) by (simp add: sched_def running_def thread_ok_def is_thread_def)
  then show ?thesis using assms Q(2) by (auto simp: rotating_def thread_ok_def is_thread_def)
qed

text \<open>A change of one thread's status, seen from the threads.\<close>

lemma status_kept:
  assumes k: "kept_but {t + 24} s s'" and t: "page_aligned t" and v: "thread_ok s v"
  shows "thread_ok s' v" and "v \<noteq> t \<Longrightarrow> thr_status s' v = thr_status s v"
proof -
  have "page_aligned v" using v by (simp add: thread_ok_def)
  then have "v + 40 \<noteq> t + 24" using t page_offset_inj [of v t 40 24] by simp
  then show "thread_ok s' v" by (intro thread_ok_kept [OF k v]) simp
  show "thr_status s' v = thr_status s v" if "v \<noteq> t"
    using k that thread_word [OF v, of 24] by (simp add: kept_but_def)
qed

lemma preempted_resumes:
  assumes s: "sched lim s t Q" and u: "thread_ok s u" "get_base_page e = u" and p: "t \<noteq> u" "thr_status s t \<noteq> TS_DYING"
  obtains s' where "resume E t preempted (s\<lparr>esp := e\<rparr>) = ret Done s'" and "sched lim s' u Q" and "kept_but {u + 24} s s'"
    and "thr_status s' u = TS_RUNNING" and "ready_threads s' = ready_threads s" and "idle_thread s' = idle_thread s"
    and "tick_count s' = 0" and "iflag s'" and "firstFreeSegment s' = firstFreeSegment s"
proof -
  let ?s1 = "wr (u + 24) TS_RUNNING (s\<lparr>esp := e, tick_count := 0\<rparr>)"
  let ?s' = "(con_update (outportb PIC1_COMMAND PIC_EOI) ?s1)\<lparr>iflag := True\<rparr>"
  have q: "queues lim (s\<lparr>esp := e\<rparr>) Q" by (rule queues_cong [OF schedD(1) [OF s]]) simp_all
  have se: "sched lim (s\<lparr>esp := e\<rparr>) u Q"
    using s q u by (simp add: sched_def running_def thread_ok_def is_thread_def)
  have al: "page_aligned u" "page_aligned t" using u(1) schedD(3) [OF s] by (simp_all add: thread_ok_def)
  have "switch_complete t (s\<lparr>esp := e\<rparr>) = ret () ?s1"
    using switch_complete_result [OF schedD(2) [OF se], of t] status_other_thread [OF al p(1)] p(2) by simp
  then have "resume E t preempted (s\<lparr>esp := e\<rparr>) = ret Done ?s'"
    by (simp add: resume_def int_rest_def int_defs Let_def)
  moreover have se0: "sched lim (s\<lparr>esp := e, tick_count := 0\<rparr>) u Q" using se by simp
  have "sched lim ?s1 u Q" using sched_wr [OF se0 schedD(3) [OF se0], of 24 TS_RUNNING] by simp
  moreover have "kept_but {u + 24} s ?s'"
    by (intro kept_but_wr [OF thread_word [OF u(1), of 24] _ kept_but_refl [OF refl]]) simp_all
  ultimately show ?thesis using that [of ?s'] thread_ok_aligned [OF u(1)] by simp
qed

lemma irq_rotates:
  assumes r: "rotating lim s F (t # u # us)" and m: "room lim s" and c: "tick_count s = 3"
  obtains s1 where "idt_int E 32 s = ret (Switch t u preempted) s1"
    and "\<And>e. get_base_page e = u \<Longrightarrow> \<exists>s'. resume E t (F u) (s1\<lparr>esp := e\<rparr>) = ret Done s' \<and>
      rotating lim s' (F(t := preempted)) (u # us @ [t]) \<and> tick_count s' = 0 \<and> firstFreeSegment s' = firstFreeSegment s + 40"
proof -
  obtain Q where Q: "sched lim s t Q" "Q (ready_threads s) = Some (u # us)" and i: "iflag s" "idle_thread s \<notin> set (t # u # us)"
    and d: "distinct (t # u # us)" and ok: "\<And>v. v \<in> set (t # u # us) \<Longrightarrow> thread_ok s v \<and> thr_status s v \<noteq> TS_DYING"
    and F: "\<And>v. v \<in> set (u # us) \<Longrightarrow> F v = preempted"
    using r by (auto simp: rotating_def)
  have y: "yield_queue s t (u # us) = u # us @ [t]" using i(2) by (auto simp: yield_queue_def)
  have n: "next_of s (u # us @ [t]) = u" by (simp add: next_of_def)
  have nt: "next_of s (yield_queue s t (u # us)) \<noteq> t" unfolding y n using d by auto
  have "3 \<le> unat (tick_count s)" "unat (tick_count s) < 2147483647" by (simp_all add: c)
  from timer_preempts_step [OF Q m nt this, of E] obtain s1 where s1: "idt_int E 32 s = ret (Switch t u preempted) s1"
      "sched lim s1 t (Q(ready_threads s \<mapsto> us @ [t]))" "thr_status s1 t = TS_READY" "\<not> iflag s1"
      "ready_threads s1 = ready_threads s" "idle_thread s1 = idle_thread s" "kept_but {t + 24} s s1"
      "firstFreeSegment s1 = firstFreeSegment s + 40"
    unfolding y n using i by auto
  show ?thesis
  proof (rule that [OF s1(1)])
    fix e assume e: "get_base_page e = u"
    have k1: "thread_ok s1 v" "v \<noteq> t \<Longrightarrow> thr_status s1 v = thr_status s v" if "v \<in> set (t # u # us)" for v
      using status_kept [OF s1(7) _ ok [THEN conjunct1, OF that]] ok [of t] by (simp_all add: thread_ok_def)
    have p: "t \<noteq> u" "thr_status s1 t \<noteq> TS_DYING" using d s1(3) by (auto simp: thread_statuses)
    obtain s' where s': "resume E t preempted (s1\<lparr>esp := e\<rparr>) = ret Done s'" "sched lim s' u (Q(ready_threads s \<mapsto> us @ [t]))"
        "kept_but {u + 24} s1 s'" "thr_status s' u = TS_RUNNING" "ready_threads s' = ready_threads s1" "idle_thread s' = idle_thread s1"
        "tick_count s' = 0" "iflag s'" "firstFreeSegment s' = firstFreeSegment s1"
      by (rule preempted_resumes [OF s1(2) k1(1) e p, where E = E]) (simp, rule that)
    have "thread_ok s' v \<and> thr_status s' v \<noteq> TS_DYING" if v: "v \<in> set (t # u # us)" for v
    proof -
      have "page_aligned u" using ok [of u] by (simp add: thread_ok_def)
      note k2 = status_kept [OF s'(3) this k1(1) [OF v]]
      have "thr_status s' v \<noteq> TS_DYING"
      proof (cases "v = u")
        case False
        then show ?thesis using k2(2) k1(2) [OF v] s1(3) ok [OF v] by (cases "v = t") (auto simp: thread_statuses)
      qed (use s'(4) in \<open>simp add: thread_statuses\<close>)
      with k2(1) show ?thesis by simp
    qed
    moreover have "(Q(ready_threads s \<mapsto> us @ [t])) (ready_threads s') = Some (us @ [t])" using s'(5) s1(5) by simp
    ultimately have "rotating lim s' (F(t := preempted)) (u # us @ [t])"
      using d i s'(2,6,8) s1(6) F by (auto simp: rotating_def)
    then show "\<exists>s'. resume E t (F u) (s1\<lparr>esp := e\<rparr>) = ret Done s' \<and>
      rotating lim s' (F(t := preempted)) (u # us @ [t]) \<and> tick_count s' = 0 \<and> firstFreeSegment s' = firstFreeSegment s + 40"
      using s'(1,7,9) s1(8) F [of u] by auto
  qed
qed


text \<open>The state after \<open>n\<close> interrupts, from one with a new time slice and the heap used up to \<open>f\<close>.\<close>

definition after_irqs :: "nat \<Rightarrow> nat \<Rightarrow> ptr list \<Rightarrow> nat \<Rightarrow> kstate \<Rightarrow> (ptr \<Rightarrow> frame list) \<Rightarrow> bool" where
  "after_irqs lim f ts n s F \<longleftrightarrow> rotating lim s F (rotate (n div 4) ts) \<and> tick_count s = of_nat (n mod 4) \<and>
     unat (firstFreeSegment s) = f + 40 * (n div 4)"

lemma irq_next:
  assumes a: "after_irqs lim f ts n s F" and l: "2 \<le> length ts" and m: "f + 10 * n + 64 \<le> lim"
  shows "(\<exists>S'. irq E (s, F) S') \<and> (\<forall>s' F'. irq E (s, F) (s', F') \<longrightarrow> after_irqs lim f ts (Suc n) s' F')"
proof (cases "n mod 4 = 3")
  case False
  then have c: "n mod 4 < 3" using mod_less_divisor [of 4 n] by linarith
  then have "unat (tick_count s) < 3" using a by (simp add: after_irqs_def unat_of_nat)
  then obtain c where r: "idt_int E 32 s = ret Done (s\<lparr>con := c, ticks := ticks s + 1, tick_count := tick_count s + 1\<rparr>)"
    by (rule irq_counts)
  have d: "Suc n div 4 = n div 4" "Suc n mod 4 = Suc (n mod 4)" using c by (simp_all add: div_Suc mod_Suc)
  have "after_irqs lim f ts (Suc n) (s\<lparr>con := c, ticks := ticks s + 1, tick_count := tick_count s + 1\<rparr>) F"
    using a rotating_counts [of lim s F] d by (simp add: after_irqs_def)
  moreover have "s' = s\<lparr>con := c, ticks := ticks s + 1, tick_count := tick_count s + 1\<rparr> \<and> F' = F" if "irq E (s, F) (s', F')" for s' F'
    using that by (auto elim!: irqE simp: r)
  ultimately show ?thesis using irq_stay [OF r] by blast
next
  case True
  let ?r = "rotate (n div 4) ts"
  obtain t u us where ts: "?r = t # u # us"
    using l length_rotate [of "n div 4" ts] by (metis Suc_le_length_iff numeral_2_eq_2)
  have d: "Suc n div 4 = Suc (n div 4)" "Suc n mod 4 = 0" using True by (simp_all add: div_Suc mod_Suc)
  then have nx: "rotate (Suc n div 4) ts = u # us @ [t]" using ts by (simp add: rotate1_rotate_swap [symmetric])
  have rt: "rotating lim s F (t # u # us)" and tc: "tick_count s = 3" using a True ts by (simp_all add: after_irqs_def)
  have "40 * (n div 4) \<le> 10 * n" by simp
  then have f: "unat (firstFreeSegment s) = f + 40 * (n div 4)" "room lim s" using a m by (simp_all add: after_irqs_def room_def)
  obtain s1 where s1: "idt_int E 32 s = ret (Switch t u preempted) s1"
    and k: "\<And>e. get_base_page e = u \<Longrightarrow> \<exists>s'. resume E t (F u) (s1\<lparr>esp := e\<rparr>) = ret Done s' \<and>
      rotating lim s' (F(t := preempted)) (u # us @ [t]) \<and> tick_count s' = 0 \<and> firstFreeSegment s' = firstFreeSegment s + 40"
    by (rule irq_rotates [OF rt f(2) tc, where E = E]) (rule that)
  have lim: "lim \<le> 0x80000000" using rt queues_lim [OF schedD(1)] by (auto simp: rotating_def)
  have up: "unat (firstFreeSegment s + 40) = f + 40 * (Suc n div 4)"
    using f lim unat_plus_small [of "firstFreeSegment s" 40] by (simp add: d room_def)
  have "page_aligned u" using rt by (simp add: rotating_def thread_ok_def)
  then have "unat (u mod PGSIZE) = 0" by (simp add: page_aligned_def PGSIZE_def unat_mod dvd_imp_mod_0)
  then have "get_base_page u = u" by (simp add: get_base_page_def Let_def unat_eq_0)
  with k obtain s' where "resume E t (F u) (s1\<lparr>esp := u\<rparr>) = ret Done s'" by blast
  then have "\<exists>S'. irq E (s, F) S'" using irq_switch [OF s1 \<open>get_base_page u = u\<close>] by blast
  moreover have "after_irqs lim f ts (Suc n) s' F'" if st: "irq E (s, F) (s', F')" for s' F'
  proof -
    obtain c fs s2 e where q: "F' = F(c := fs)" "idt_int E 32 s = ret (Switch c (get_base_page e) fs) s2"
        "resume E c (F (get_base_page e)) (s2\<lparr>esp := e\<rparr>) = ret Done s'"
      using st by (auto elim!: irqE simp: s1)
    then have c: "c = t" "get_base_page e = u" "fs = preempted" "s2 = s1" using s1 by simp_all
    obtain s3 where "resume E t (F u) (s1\<lparr>esp := e\<rparr>) = ret Done s3" "rotating lim s3 (F(t := preempted)) (u # us @ [t])"
        "tick_count s3 = 0" "firstFreeSegment s3 = firstFreeSegment s + 40"
      using k [OF c(2)] by auto
    then show ?thesis using q c nx up d(2) by (simp add: after_irqs_def)
  qed
  ultimately show ?thesis by blast
qed

lemma irqs_run:
  assumes r: "rotating lim s F ts" "tick_count s = 0" and l: "2 \<le> length ts" and m: "unat (firstFreeSegment s) + 10 * n + 64 \<le> lim"
  shows "(\<exists>S'. (irq E ^^ n) (s, F) S') \<and>
    (\<forall>s' F'. (irq E ^^ n) (s, F) (s', F') \<longrightarrow> after_irqs lim (unat (firstFreeSegment s)) ts n s' F')"
  using m
proof (induction n)
  case 0
  then show ?case using r by (auto simp: after_irqs_def)
next
  case (Suc n)
  let ?f = "unat (firstFreeSegment s)"
  have m: "?f + 10 * n + 64 \<le> lim" using Suc.prems by simp
  note IH = Suc.IH [OF m]
  have nx: "(\<exists>S''. irq E (s', F') S'') \<and> (\<forall>s'' F''. irq E (s', F') (s'', F'') \<longrightarrow> after_irqs lim ?f ts (Suc n) s'' F'')"
    if "(irq E ^^ n) (s, F) (s', F')" for s' F'
    using irq_next [OF _ l m, of s' F' E] IH that by blast
  obtain s' F' where "(irq E ^^ n) (s, F) (s', F')" using IH by auto
  then have "\<exists>S'. (irq E ^^ Suc n) (s, F) S'" using nx [of s' F'] by auto
  moreover have "after_irqs lim ?f ts (Suc n) s'' F''" if "(irq E ^^ Suc n) (s, F) (s'', F'')" for s'' F''
    using that nx by auto
  ultimately show ?case by blast
qed



end
