(* ===== verification/ManyLists.thy ===== *)
theory ManyLists
  imports Sched
begin

text \<open>
  The kernel's lists together: all threads, the ready list, the waiting lists of the semaphores
  share one heap. A script of \<^verbatim>\<open>append\<close>, \<^verbatim>\<open>pop\<close> and \<^verbatim>\<open>remove\<close> on any of them leaves every list
  well formed and each with the contents that its own operations give.
\<close>

datatype list_op = Append ptr u32 | Pop ptr | Remove ptr u32

fun list_of_op :: "list_op \<Rightarrow> ptr" where
  "list_of_op (Append l d) = l"
| "list_of_op (Pop l) = l"
| "list_of_op (Remove l d) = l"

text \<open>One operation on the sequence a list holds, with its answer; \<^verbatim>\<open>pop\<close> of an empty list is null.\<close>

fun on_sequence :: "list_op \<Rightarrow> u32 list \<Rightarrow> u32 \<times> u32 list" where
  "on_sequence (Append l d) xs = (0, xs @ [d])"
| "on_sequence (Pop l) xs = (if xs = [] then (0, []) else (hd xs, tl xs))"
| "on_sequence (Remove l d) xs = (of_bool (d \<in> set xs), remove1 d xs)"

fun on_list :: "ptr \<Rightarrow> list_op \<Rightarrow> kstate \<Rightarrow> u32 kres" where
  "on_list vp (Append l d) s = seq (append vp l d s) (\<lambda>_ s. ret 0 s)"
| "on_list vp (Pop l) s = (case pop l s of (d, s) \<Rightarrow> ret d s)"
| "on_list vp (Remove l d) s = seq (remove l d s) (\<lambda>b s. ret (of_bool b) s)"

text \<open>
  Scripts: \<open>run_lists\<close> on the machine, \<open>list_answers\<close> and \<open>list_contents\<close> on the sequences. \<^verbatim>\<open>remove\<close>
  must not be used on an empty list, whose null head it follows.
\<close>

fun run_lists :: "ptr \<Rightarrow> list_op list \<Rightarrow> kstate \<Rightarrow> u32 list kres" where
  "run_lists vp [] s = ret [] s"
| "run_lists vp (c # cs) s = seq (on_list vp c s) (\<lambda>a s. seq (run_lists vp cs s) (\<lambda>as s. ret (a # as) s))"

definition next_contents :: "list_op \<Rightarrow> (ptr \<Rightarrow> u32 list) \<Rightarrow> ptr \<Rightarrow> u32 list" where
  "next_contents c X = X(list_of_op c := snd (on_sequence c (X (list_of_op c))))"

fun list_answers :: "list_op list \<Rightarrow> (ptr \<Rightarrow> u32 list) \<Rightarrow> u32 list" where
  "list_answers [] X = []"
| "list_answers (c # cs) X = fst (on_sequence c (X (list_of_op c))) # list_answers cs (next_contents c X)"

fun list_contents :: "list_op list \<Rightarrow> (ptr \<Rightarrow> u32 list) \<Rightarrow> ptr \<Rightarrow> u32 list" where
  "list_contents [] X = X"
| "list_contents (c # cs) X = list_contents cs (next_contents c X)"

fun allowed :: "ptr set \<Rightarrow> list_op list \<Rightarrow> (ptr \<Rightarrow> u32 list) \<Rightarrow> bool" where
  "allowed L [] X = True"
| "allowed L (c # cs) X \<longleftrightarrow> list_of_op c \<in> L \<and>
     (case c of Remove l d \<Rightarrow> X l \<noteq> [] | _ \<Rightarrow> True) \<and> allowed L cs (next_contents c X)"

text \<open>The well-formed kernel lists \<open>L\<close> with the contents \<open>X\<close>.\<close>

definition lists_ok :: "nat \<Rightarrow> kstate \<Rightarrow> ptr set \<Rightarrow> (ptr \<Rightarrow> u32 list) \<Rightarrow> bool" where
  "lists_ok lim s L X \<longleftrightarrow> queues lim s (\<lambda>l. if l \<in> L then Some (X l) else None)"

lemma lists_ok_upd:
  "queues lim s ((\<lambda>l. if l \<in> L then Some (X l) else None)(k \<mapsto> xs)) \<Longrightarrow> k \<in> L \<Longrightarrow> lists_ok lim s L (X(k := xs))"
  unfolding lists_ok_def by (rule back_subst [of "queues lim s"]) (auto simp: fun_eq_iff)

lemma on_list_step:
  assumes q: "lists_ok lim s L X" and a: "allowed L (c # cs) X" and m: "room lim s"
  obtains s' where "on_list vp c s = ret (fst (on_sequence c (X (list_of_op c)))) s'" and "lists_ok lim s' L (next_contents c X)"
    and "unat (firstFreeSegment s') \<le> unat (firstFreeSegment s) + 40" and "\<And>x. lim \<le> unat x \<Longrightarrow> kmem s' x = kmem s x"
proof -
  let ?Q = "\<lambda>l. if l \<in> L then Some (X l) else None"
  have Q: "queues lim s ?Q" and l: "list_of_op c \<in> L" using q a by (simp_all add: lists_ok_def)
  have f: "unat (firstFreeSegment s + 40) = unat (firstFreeSegment s) + 40"
    using m queues_lim [OF Q] unat_plus_small [of "firstFreeSegment s" 40] by (simp add: room_def)
  show ?thesis
  proof (cases c)
    case (Append k d)
    then have k: "?Q k = Some (X k)" using l by simp
    obtain m' where m': "append vp k d s = ret () (s\<lparr>kmem := m', firstFreeSegment := firstFreeSegment s + 40\<rparr>)"
        "queues lim (s\<lparr>kmem := m', firstFreeSegment := firstFreeSegment s + 40\<rparr>) (?Q(k \<mapsto> X k @ [d]))"
        "\<And>x. lim \<le> unat x \<Longrightarrow> m' x = kmem s x"
      by (rule queues_append [OF Q k m, where vp = vp and d = d]) (rule that)
    then show ?thesis using that f lists_ok_upd [OF m'(2)] l Append by (simp add: next_contents_def)
  next
    case (Pop k)
    then have k: "?Q k = Some (X k)" using l by simp
    show ?thesis
    proof (cases "X k")
      case Nil
      then have "pop k s = (0, s)" using queues_empty [OF Q k] by (simp add: pop_def)
      moreover have "next_contents c X = X" using Nil Pop by (auto simp: next_contents_def)
      ultimately show ?thesis using that [of s] q Nil Pop by simp
    next
      case (Cons d ds)
      then have kc: "?Q k = Some (d # ds)" using k by simp
      obtain m' where m': "pop k s = (d, s\<lparr>kmem := m'\<rparr>)" "queues lim (s\<lparr>kmem := m'\<rparr>) (?Q(k \<mapsto> ds))"
          "\<And>x. lim \<le> unat x \<Longrightarrow> m' x = kmem s x"
        by (rule queues_pop [OF Q kc]) (rule that)
      then show ?thesis using that lists_ok_upd [OF m'(2)] l Pop Cons by (simp add: next_contents_def)
    qed
  next
    case (Remove k d)
    then have k: "?Q k = Some (X k)" "X k \<noteq> []" using l a by simp_all
    obtain m' where m': "remove k d s = ret (d \<in> set (X k)) (s\<lparr>kmem := m'\<rparr>)"
        "queues lim (s\<lparr>kmem := m'\<rparr>) (?Q(k \<mapsto> remove1 d (X k)))" "\<And>x. lim \<le> unat x \<Longrightarrow> m' x = kmem s x"
      by (rule queues_remove [OF Q k, where d = d]) (rule that)
    then show ?thesis using that lists_ok_upd [OF m'(2)] l Remove by (simp add: next_contents_def)
  qed
qed

lemma run_lists_step:
  assumes "lists_ok lim s L X" and "allowed L cs X" and "unat (firstFreeSegment s) + 40 * length cs + 24 \<le> lim"
  shows "\<exists>s'. run_lists vp cs s = ret (list_answers cs X) s' \<and> lists_ok lim s' L (list_contents cs X) \<and>
    (\<forall>x. lim \<le> unat x \<longrightarrow> kmem s' x = kmem s x)"
  using assms
proof (induction cs arbitrary: s X)
  case (Cons c cs)
  have "room lim s" using Cons.prems(3) by (simp add: room_def)
  from Cons.prems(1,2) this obtain s1 where
    s1: "on_list vp c s = ret (fst (on_sequence c (X (list_of_op c)))) s1" "lists_ok lim s1 L (next_contents c X)"
      "unat (firstFreeSegment s1) \<le> unat (firstFreeSegment s) + 40" "\<And>x. lim \<le> unat x \<Longrightarrow> kmem s1 x = kmem s x"
    by (rule on_list_step [where vp = vp]) (rule that)
  have "allowed L cs (next_contents c X)" "unat (firstFreeSegment s1) + 40 * length cs + 24 \<le> lim"
    using Cons.prems(2,3) s1(3) by simp_all
  from Cons.IH [OF s1(2) this] show ?case using s1(1,4) by auto
qed simp



end
