(* ===== verification/Offsets.thy ===== *)
theory Offsets
  imports Tss
begin

text \<open>
  Stores and loads at offsets of one address that need not be aligned: the bytes and words of a stack
  frame. Offsets are compared as numbers, so that the simplifier decides with literals whether a
  store reaches a load; \<open>blit\<close> stores a list of bytes. The rules are collected in \<open>stub_mem\<close>.
\<close>

definition blit :: "ptr \<Rightarrow> u8 list \<Rightarrow> mem \<Rightarrow> mem" where
  "blit a bs m = (\<lambda>b. if unat (b - a) < length bs then bs ! unat (b - a) else m b)"

named_theorems stub_mem \<open>bytes and words at offsets of the frame\<close>

lemma st32_below [stub_mem]:
  fixes k l :: u32
  assumes "unat k + 4 \<le> unat l"
  shows "st32 (k + a) v m (l + a) = m (l + a)"
proof (rule st32_other_byte)
  have "unat (l - k) = unat l - unat k"
    using assms by (intro unat_sub) (simp add: word_le_nat_alt)
  with assms show "4 \<le> unat (l + a - (k + a))" by simp
qed

lemma st32_above [stub_mem]:
  fixes k l :: u32
  assumes "unat l < unat k" and "unat k \<le> 4294967292"
  shows "st32 (k + a) v m (l + a) = m (l + a)"
proof -
  have "l + a \<noteq> k + a + j" if "unat j < 4" for j
  proof
    assume "l + a = k + a + j"
    then have "l = k + j" by (simp add: add.assoc add.left_commute [of a] add.left_commute [of b] add.commute [of a] add.commute [of b])
    moreover have "unat (k + j) = unat k + unat j"
      using assms that by (intro unat_plus_small) simp
    ultimately show False using assms(1) by simp
  qed
  from this [of 0] this [of 1] this [of 2] this [of 3] show ?thesis
    by (simp add: st32_def)
qed

lemma ld32_offset_cong:
  assumes "\<And>l. unat k \<le> unat l \<Longrightarrow> unat l < unat k + 4 \<Longrightarrow> m (l + a) = m' (l + b)" and "unat k \<le> 4294967292"
  shows "ld32 m (k + a) = ld32 m' (k + b)"
proof -
  have "m (k + a + j) = m' (k + b + j)" if "unat j < 4" for j
  proof -
    have "unat (k + j) = unat k + unat j"
      using assms(2) that by (intro unat_plus_small) simp
    then show ?thesis using assms(1) [of "k + j"] that by (simp add: add.assoc add.left_commute [of a] add.left_commute [of b] add.commute [of a] add.commute [of b])
  qed
  from this [of 0] this [of 1] this [of 2] this [of 3] show ?thesis
    by (simp add: ld32_def)
qed

lemma ld32_st32_below [stub_mem]:
  fixes k l :: u32
  assumes "unat k + 4 \<le> unat l" and "unat l \<le> 4294967292"
  shows "ld32 (st32 (k + a) v m) (l + a) = ld32 m (l + a)"
  using assms by (intro ld32_offset_cong st32_below) auto

lemma ld32_st32_above [stub_mem]:
  fixes k l :: u32
  assumes "unat l + 4 \<le> unat k" and "unat k \<le> 4294967292"
  shows "ld32 (st32 (k + a) v m) (l + a) = ld32 m (l + a)"
  using assms by (intro ld32_offset_cong st32_above) auto

lemma blit_inside [stub_mem]:
  fixes k l :: u32
  assumes "unat k \<le> unat l" and "unat l < unat k + length bs"
  shows "blit (k + a) bs m (l + a) = bs ! (unat l - unat k)"
proof -
  have "unat (l - k) = unat l - unat k" using assms(1) by (intro unat_sub) (simp add: word_le_nat_alt)
  moreover have "unat l - unat k < length bs" using assms by linarith
  ultimately show ?thesis by (simp add: blit_def)
qed

lemma blit_outside [stub_mem]:
  fixes k l :: u32
  assumes "unat l < unat k \<or> unat k + length bs \<le> unat l" and "unat k + length bs \<le> 4294967296"
  shows "blit (k + a) bs m (l + a) = m (l + a)"
proof -
  have "length bs \<le> unat (l - k)"
  proof (cases "unat l < unat k")
    case True
    then have "unat (l - k) + unat k = unat l + 4294967296"
      using less_imp_le [OF unat_lt32 [of k]] by (simp add: unat_sub_if_size word_size)
    with assms(2) show ?thesis by linarith
  next
    case False
    then have "unat (l - k) = unat l - unat k" by (intro unat_sub) (simp add: word_le_nat_alt)
    with False assms show ?thesis by simp
  qed
  then show ?thesis by (simp add: blit_def)
qed

lemma ld32_blit_outside [stub_mem]:
  fixes k l :: u32
  assumes "unat l + 4 \<le> unat k \<or> unat k + length bs \<le> unat l" and "unat k + length bs \<le> 4294967296"
    and "unat l \<le> 4294967292"
  shows "ld32 (blit (k + a) bs m) (l + a) = ld32 m (l + a)"
  using assms by (intro ld32_offset_cong blit_outside) auto

lemma outside_offset:
  fixes a b k :: u32
  assumes "n \<le> unat (a - (k + b))"
  shows "unat (a - b) < unat k \<or> unat k + n \<le> unat (a - b)"
proof -
  define j where "j = a - (k + b)"
  have a: "a - b = j + k" by (simp add: j_def)
  show ?thesis
  proof (cases "unat j + unat k < 4294967296")
    case True
    then show ?thesis using assms unat_plus_small [of j k] by (simp add: a j_def [symmetric])
  next
    case False
    moreover have "unat j + unat k - 4294967296 < 4294967296"
      using unat_lt32 [of j] unat_lt32 [of k] by linarith
    ultimately have "unat (j + k) = unat j + unat k - 4294967296"
      by (simp add: unat_word_ariths le_mod_geq)
    then show ?thesis using False unat_lt32 [of j] by (simp only: a) linarith
  qed
qed

lemma st16_below [stub_mem]:
  fixes k l :: u32
  assumes "unat k + 2 \<le> unat l"
  shows "st16 (k + a) v m (l + a) = m (l + a)"
proof -
  have "unat k + 1 < 4294967296" using assms unat_lt32 [of l] by linarith
  then have "unat (k + 1) = unat k + 1" using unat_plus_small [of k 1] by simp
  with assms have "l \<noteq> k" "l \<noteq> k + 1" by auto
  then show ?thesis by (simp add: st16_def add.left_commute [of _ a] add.commute [of _ a])
qed

lemma st16_above [stub_mem]:
  fixes k l :: u32
  assumes "unat l < unat k" and "unat k \<le> 4294967294"
  shows "st16 (k + a) v m (l + a) = m (l + a)"
proof -
  have "l \<noteq> k" "l \<noteq> k + 1"
    using assms unat_plus_small [of k 1] by (auto simp: word_unat_eq_iff)
  then show ?thesis by (simp add: st16_def add.left_commute [of _ a] add.commute [of _ a])
qed

lemma ld32_st16_below [stub_mem]:
  fixes k l :: u32
  assumes "unat k + 2 \<le> unat l" and "unat l \<le> 4294967292"
  shows "ld32 (st16 (k + a) v m) (l + a) = ld32 m (l + a)"
  using assms by (intro ld32_offset_cong st16_below) auto

lemma ld32_st16_above [stub_mem]:
  fixes k l :: u32
  assumes "unat l + 4 \<le> unat k" and "unat k \<le> 4294967294"
  shows "ld32 (st16 (k + a) v m) (l + a) = ld32 m (l + a)"
  using assms by (intro ld32_offset_cong st16_above) auto

text \<open>A stored table register reads back; the two bytes above it are what the stack had there.\<close>

lemma table_register_at:
  "take_bit 48 (ld64 (st32 (a + 2) v (st16 a w m)) a) = ucast w OR push_bit 16 (ucast v)"
proof (rule bit_word_eqI)
  let ?m = "st32 (a + 2) v (st16 a w m)"
  have b: "?m a = ucast w" "?m (a + 1) = ucast (drop_bit 8 w)" "?m (a + 2) = ucast v" "?m (a + 3) = ucast (drop_bit 8 v)"
    "?m (a + 4) = ucast (drop_bit 16 v)" "?m (5 + a) = ucast (drop_bit 24 v)"
    by (simp_all add: st32_def st16_def)
  fix n assume "n < LENGTH(64)"
  then consider "n < 8" | "8 \<le> n" "n < 16" | "16 \<le> n" "n < 24" | "24 \<le> n" "n < 32" | "32 \<le> n" "n < 40"
    | "40 \<le> n" "n < 48" | "48 \<le> n" "n < 64" by fastforce
  then show "bit (take_bit 48 (ld64 (st32 (a + 2) v (st16 a w m)) a)) n = bit (ucast w OR push_bit 16 (ucast v) :: u64) n"
    by cases (auto simp: ld64_def ld32_def b bit_simps less_diff_conv2 le_diff_conv2
        dest: bit_imp_le_length)
qed

end
