(* ===== verification/Stubs.thy ===== *)
theory Stubs
  imports Gates Offsets
begin

text \<open>
  The stubs behind the gates (\<^verbatim>\<open>src/interrupt/interrupt.asm\<close>), instruction by instruction on a
  processor with registers, an FPU image and byte memory. The compiled C handlers that the stubs
  call are an argument \<open>h\<close>: what is used of them is that they return, and that they keep the bytes
  of the frame they were given. The lemmas show that the frame on the stack is the struct of
  \<^verbatim>\<open>cpu_state.h\<close> that the handlers read, and that the interrupted code is resumed with its state.
\<close>

section \<open>The processor\<close>

record cpu =
  c_eax :: u32
  c_ebx :: u32
  c_ecx :: u32
  c_edx :: u32
  c_esi :: u32
  c_edi :: u32
  c_ebp :: u32
  c_esp :: u32
  c_eip :: u32
  c_cs :: u16
  c_eflags :: u32
  c_ds :: u16
  c_es :: u16
  c_fs :: u16
  c_gs :: u16
  c_cr0 :: u32
  c_cr2 :: u32
  c_cr3 :: u32
  c_cr4 :: u32
  c_gdtr :: gdt_info
  c_idtr :: idtr_t
  c_fpu :: "u8 list"
  c_mem :: mem

text \<open>The instructions that the stubs use. A register moved to \<^verbatim>\<open>eax\<close> from a segment is zero-extended.\<close>

definition i_push :: "u32 \<Rightarrow> cpu \<Rightarrow> cpu" where
  "i_push v c = c\<lparr>c_esp := c_esp c - 4, c_mem := st32 (c_esp c - 4) v (c_mem c)\<rparr>"

definition i_pop :: "cpu \<Rightarrow> u32 \<times> cpu" where
  "i_pop c = (ld32 (c_mem c) (c_esp c), c\<lparr>c_esp := c_esp c + 4\<rparr>)"

definition i_pusha :: "cpu \<Rightarrow> cpu" where
  "i_pusha c = fold i_push [c_eax c, c_ecx c, c_edx c, c_ebx c, c_esp c, c_ebp c, c_esi c, c_edi c] c"

definition i_popa :: "cpu \<Rightarrow> cpu" where
  "i_popa c =
     (let (v, c) = i_pop c; c = c\<lparr>c_edi := v\<rparr>; (v, c) = i_pop c; c = c\<lparr>c_esi := v\<rparr>;
          (v, c) = i_pop c; c = c\<lparr>c_ebp := v\<rparr>; (v, c) = i_pop c;
          (v, c) = i_pop c; c = c\<lparr>c_ebx := v\<rparr>; (v, c) = i_pop c; c = c\<lparr>c_edx := v\<rparr>;
          (v, c) = i_pop c; c = c\<lparr>c_ecx := v\<rparr>; (v, c) = i_pop c
      in c\<lparr>c_eax := v\<rparr>)"

definition i_cli :: "cpu \<Rightarrow> cpu" where
  "i_cli c = c\<lparr>c_eflags := c_eflags c AND NOT 0x200\<rparr>"

definition add_esp :: "u32 \<Rightarrow> cpu \<Rightarrow> cpu" where
  "add_esp k c = c\<lparr>c_esp := c_esp c + k\<rparr>"

definition sub_esp :: "u32 \<Rightarrow> cpu \<Rightarrow> cpu" where
  "sub_esp k c = c\<lparr>c_esp := c_esp c - k\<rparr>"

text \<open>
  \<^verbatim>\<open>fnsave\<close> stores the 108 bytes of the FPU and initialises it; \<^verbatim>\<open>frstor\<close> loads them.
\<close>

definition fpu_init :: "u8 list \<Rightarrow> u8 list" where
  "fpu_init bs = [0x7F, 0x03, 0, 0, 0, 0, 0, 0, 0xFF, 0xFF, 0, 0] @ replicate 16 0 @ drop 28 bs"

definition i_fnsave :: "cpu \<Rightarrow> cpu" where
  "i_fnsave c = c\<lparr>c_mem := blit (c_esp c) (c_fpu c) (c_mem c), c_fpu := fpu_init (c_fpu c)\<rparr>"

definition i_frstor :: "cpu \<Rightarrow> cpu" where
  "i_frstor c = c\<lparr>c_fpu := map (\<lambda>i. c_mem c (c_esp c + of_nat i)) [0..<108]\<rparr>"

text \<open>The two table registers: a 16-bit limit and a 32-bit base, six bytes.\<close>

definition i_sgdt :: "cpu \<Rightarrow> cpu" where
  "i_sgdt c = c\<lparr>c_mem := st32 (c_esp c + 2) (gi_offset (c_gdtr c)) (st16 (c_esp c) (gi_size (c_gdtr c)) (c_mem c))\<rparr>"

definition i_sidt :: "cpu \<Rightarrow> cpu" where
  "i_sidt c = c\<lparr>c_mem := st32 (c_esp c + 2) (idtr_base (c_idtr c)) (st16 (c_esp c) (idtr_limit (c_idtr c)) (c_mem c))\<rparr>"

text \<open>
  An interrupt in the kernel: through a trap gate of \<^verbatim>\<open>idt_set_descriptor\<close> the processor stays on its
  stack and pushes the flags, the code segment, the address of the next instruction and, for some
  exceptions, an error code. \<^verbatim>\<open>iret\<close> undoes this, without an error code.
\<close>

definition deliver :: "u32 \<Rightarrow> u32 option \<Rightarrow> cpu \<Rightarrow> cpu" where
  "deliver stub err c =
     (let c' = i_push (c_eip c) (i_push (ucast (c_cs c)) (i_push (c_eflags c) c));
          c' = (case err of None \<Rightarrow> c' | Some e \<Rightarrow> i_push e c')
      in c'\<lparr>c_eip := stub, c_cs := 8\<rparr>)"

definition i_iret :: "cpu \<Rightarrow> cpu" where
  "i_iret c =
     (let (v, c) = i_pop c; c = c\<lparr>c_eip := v\<rparr>; (v, c) = i_pop c; c = c\<lparr>c_cs := ucast v\<rparr>;
          (v, c) = i_pop c
      in c\<lparr>c_eflags := v\<rparr>)"

text \<open>\<^verbatim>\<open>call\<close> with the return address \<open>r\<close>; \<open>h\<close> is the callee up to and including its \<^verbatim>\<open>ret\<close>.\<close>

definition i_call :: "u32 \<Rightarrow> (cpu \<Rightarrow> cpu) \<Rightarrow> cpu \<Rightarrow> cpu" where
  "i_call r h c = h (i_push r c)"

section \<open>The stubs\<close>

text \<open>\<^verbatim>\<open>idt_int\<close>, then \<^verbatim>\<open>idt_int_wrapper\<close> up to the call, and from its return.\<close>

definition push_int_vector :: "u32 \<Rightarrow> cpu \<Rightarrow> cpu" where
  "push_int_vector n c = i_push n (i_cli c)"

definition int_entry :: "u32 \<Rightarrow> cpu \<Rightarrow> cpu" where
  "int_entry n c =
     (let c = push_int_vector n c; c = i_fnsave (sub_esp 108 c); c = i_pusha c in i_push (c_esp c) c)"

definition int_exit :: "cpu \<Rightarrow> cpu" where
  "int_exit c =
     (let (v, c) = i_pop c; c = c\<lparr>c_esp := v\<rparr>; c = i_frstor (i_popa c); c = add_esp 108 c
      in i_iret (add_esp 4 c))"

definition stub_int :: "u32 \<Rightarrow> u32 \<Rightarrow> (cpu \<Rightarrow> cpu) \<Rightarrow> cpu \<Rightarrow> cpu" where
  "stub_int n r h c = int_exit (i_call r h (int_entry n c))"

text \<open>
  \<^verbatim>\<open>idt_exc\<close> and \<^verbatim>\<open>idt_exc_wrapper\<close>: a 0 in the place of the error code for the exceptions that
  have none, and the other registers, each pushed from \<^verbatim>\<open>eax\<close> (\<^verbatim>\<open>store_register\<close>).
\<close>

definition error_code_vectors :: "u32 list" where
  "error_code_vectors = [8, 10, 11, 12, 13, 14, 17, 30]"

definition store_register :: "u32 \<Rightarrow> cpu \<Rightarrow> cpu" where
  "store_register v c = i_push v (c\<lparr>c_eax := v\<rparr>)"

definition store_registers :: "cpu \<Rightarrow> cpu" where
  "store_registers c =
     fold store_register [ucast (c_ds c), c_cr0 c, c_cr2 c, c_cr3 c, c_cr4 c, ucast (c_es c),
       ucast (c_fs c), ucast (c_gs c)] c"

definition push_exc_vector :: "u32 \<Rightarrow> cpu \<Rightarrow> cpu" where
  "push_exc_vector n c =
     (let c = i_cli c; c = (if n \<in> set error_code_vectors then c else i_push 0 c) in i_push n c)"

definition exc_entry :: "u32 \<Rightarrow> cpu \<Rightarrow> cpu" where
  "exc_entry n c =
     (let c = push_exc_vector n c;
          c = i_pusha (i_fnsave (sub_esp 108 c));
          c = store_registers c;
          c = i_sgdt (sub_esp 8 c);
          c = i_sidt (sub_esp 8 c)
      in i_push (c_esp c) c)"

definition exc_exit :: "cpu \<Rightarrow> cpu" where
  "exc_exit c =
     (let (v, c) = i_pop c; c = c\<lparr>c_esp := v\<rparr>; c = i_frstor (i_popa (add_esp 48 c)); c = add_esp 108 c
      in i_iret (add_esp 8 c))"

definition stub_exc :: "u32 \<Rightarrow> u32 \<Rightarrow> (cpu \<Rightarrow> cpu) \<Rightarrow> cpu \<Rightarrow> cpu" where
  "stub_exc n r h c = exc_exit (i_call r h (exc_entry n c))"

section \<open>The structs that the handlers read\<close>

definition fpu_state_at :: "mem \<Rightarrow> ptr \<Rightarrow> fpu_state" where
  "fpu_state_at m a =
     \<lparr>control_word = ld32 m a, status_word = ld32 m (a + 4), tag_word = ld32 m (a + 8),
      instruction_pointer_offset = ld32 m (a + 12), instruction_pointer_selector = ld16 m (a + 16),
      opcode = ld16 m (a + 18), operand_pointer_offset = ld32 m (a + 20),
      operand_pointer_selector = ld32 m (a + 24), fpu_registers = map (\<lambda>i. m (a + 28 + of_nat i)) [0..<80]\<rparr>"

definition registers_state_at :: "mem \<Rightarrow> ptr \<Rightarrow> registers_state" where
  "registers_state_at m a =
     \<lparr>r_edi = ld32 m a, r_esi = ld32 m (a + 4), r_ebp = ld32 m (a + 8), r_esp_unused = ld32 m (a + 12),
      r_ebx = ld32 m (a + 16), r_edx = ld32 m (a + 20), r_ecx = ld32 m (a + 24), r_eax = ld32 m (a + 28)\<rparr>"

definition interrupt_state_at :: "mem \<Rightarrow> ptr \<Rightarrow> interrupt_state" where
  "interrupt_state_at m a =
     \<lparr>i_registers = registers_state_at m a, i_fpu_state = fpu_state_at m (a + 32),
      interrupt_number = ld32 m (a + 140), i_eip = ld32 m (a + 144), i_cs = ld32 m (a + 148),
      i_eflags = ld32 m (a + 152), i_esp = ld32 m (a + 156), i_ss = ld32 m (a + 160)\<rparr>"

definition exception_state_at :: "mem \<Rightarrow> ptr \<Rightarrow> exception_state" where
  "exception_state_at m a =
     \<lparr>x_idtr = ld64 m a, x_gdtr = ld64 m (a + 8), x_gs = ld32 m (a + 16), x_fs = ld32 m (a + 20),
      x_es = ld32 m (a + 24), x_cr4 = ld32 m (a + 28), x_cr3 = ld32 m (a + 32), x_cr2 = ld32 m (a + 36),
      x_cr0 = ld32 m (a + 40), x_ds = ld32 m (a + 44), x_registers = registers_state_at m (a + 48),
      x_fpu_state = fpu_state_at m (a + 80), x_interrupt_number = ld32 m (a + 188),
      x_error_code = ld32 m (a + 192), x_eip = ld32 m (a + 196), x_cs = ld32 m (a + 200),
      x_eflags = ld32 m (a + 204), x_esp = ld32 m (a + 208), x_ss = ld32 m (a + 212)\<rparr>"

section \<open>What the frames hold\<close>

lemma fpu_state_at_cong:
  assumes "\<And>l. unat l < 108 \<Longrightarrow> m (l + a) = m' (l + b)"
  shows "fpu_state_at m a = fpu_state_at m' b"
proof -
  have w: "ld32 m (k + a) = ld32 m' (k + b)" if "unat k \<le> 104" for k
    by (rule ld32_offset_cong) (use that assms in auto)
  have "m (a + 28 + of_nat i) = m' (b + 28 + of_nat i)" if "i < 80" for i
  proof -
    have "unat (28 + of_nat i :: u32) = 28 + i" using that by (simp add: unat_word_ariths unat_of_nat)
    then show ?thesis using that assms [of "28 + of_nat i"] by (simp add: ac_simps)
  qed
  then show ?thesis
    using w [of 0] w [of 4] w [of 8] w [of 12] w [of 20] w [of 24]
      assms [of 16] assms [of 17] assms [of 18] assms [of 19]
    by (simp add: fpu_state_at_def ld16_def add.commute [of a] add.commute [of b])
qed

section \<open>The interrupt stubs\<close>

text \<open>The memory with the FPU image alone, and the registers as \<^verbatim>\<open>pusha\<close> stores them.\<close>

definition fpu_image :: "u8 list \<Rightarrow> fpu_state" where
  "fpu_image bs = fpu_state_at (blit 0 bs (\<lambda>_. 0)) 0"

definition saved_registers :: "u32 \<Rightarrow> cpu \<Rightarrow> registers_state" where
  "saved_registers sp c =
     \<lparr>r_edi = c_edi c, r_esi = c_esi c, r_ebp = c_ebp c, r_esp_unused = sp, r_ebx = c_ebx c,
      r_edx = c_edx c, r_ecx = c_ecx c, r_eax = c_eax c\<rparr>"

text \<open>The stack from \<open>b + 16\<close>: the argument, the registers, the FPU and the interrupt's own words.\<close>

definition pusha_words :: "ptr \<Rightarrow> u32 \<Rightarrow> cpu \<Rightarrow> mem \<Rightarrow> mem" where
  "pusha_words a sp c m =
     st32 a (c_edi c) (st32 (a + 4) (c_esi c) (st32 (a + 8) (c_ebp c) (st32 (a + 12) sp
       (st32 (a + 16) (c_ebx c) (st32 (a + 20) (c_edx c) (st32 (a + 24) (c_ecx c) (st32 (a + 28) (c_eax c) m)))))))"

definition int_stack :: "ptr \<Rightarrow> u32 \<Rightarrow> cpu \<Rightarrow> mem" where
  "int_stack b n c =
     st32 (b + 16) (b + 20) (pusha_words (b + 20) (b + 52) c (blit (b + 52) (c_fpu c) (st32 (b + 160) n
       (st32 (b + 164) (c_eip c) (st32 (b + 168) (ucast (c_cs c)) (st32 (b + 172) (c_eflags c) (c_mem c)))))))"

lemmas stub_instrs = i_push_def i_pop_def i_pusha_def i_popa_def i_cli_def add_esp_def sub_esp_def
  i_fnsave_def i_frstor_def i_iret_def i_call_def i_sgdt_def i_sidt_def push_int_vector_def push_exc_vector_def

lemma int_entry_result:
  assumes "c_esp c = b + 176"
  shows "int_entry n (deliver stub None c) =
    c\<lparr>c_esp := b + 16, c_eip := stub, c_cs := 8, c_eflags := c_eflags c AND NOT 0x200,
      c_fpu := fpu_init (c_fpu c), c_mem := int_stack b n c\<rparr>"
  by (simp add: int_entry_def deliver_def stub_instrs Let_def assms int_stack_def pusha_words_def add.commute [of b])

text \<open>What the frame of an interrupt holds, byte for byte.\<close>

lemma int_stack_words:
  assumes "length (c_fpu c) = 108"
  shows "ld32 (int_stack b n c) (16 + b) = 20 + b"
    "registers_state_at (int_stack b n c) (20 + b) = saved_registers (52 + b) c"
    "ld32 (int_stack b n c) (160 + b) = n" "ld32 (int_stack b n c) (164 + b) = c_eip c"
    "ld32 (int_stack b n c) (168 + b) = ucast (c_cs c)" "ld32 (int_stack b n c) (172 + b) = c_eflags c"
  using assms by (simp_all add: int_stack_def pusha_words_def add.commute [of b] registers_state_at_def
      saved_registers_def stub_mem)

lemma int_stack_outside:
  assumes "length (c_fpu c) = 108" and "unat l < 16 \<or> 176 \<le> unat l"
  shows "int_stack b n c (l + b) = c_mem c (l + b)"
  using assms by (auto simp: int_stack_def pusha_words_def add.commute [of b] stub_mem)

lemma int_stack_fpu:
  assumes "length (c_fpu c) = 108" and "unat l < 108"
  shows "int_stack b n c (l + (52 + b)) = blit 0 (c_fpu c) (\<lambda>_. 0) (l + 0)"
proof -
  define k where "k = l + 52"
  have k: "unat k = unat l + 52" using assms(2) by (simp add: k_def unat_plus_small)
  then have "int_stack b n c (k + b) = c_fpu c ! unat l"
    using assms by (simp add: int_stack_def pusha_words_def add.commute [of b] stub_mem)
  then show ?thesis using assms by (simp add: blit_def k_def add.assoc)
qed

lemma int_stub_frame_step:
  assumes "length (c_fpu c) = 108"
  shows "let c' = int_entry n (deliver stub None c); frame = ld32 (c_mem c') (c_esp c') in
    interrupt_state_at (c_mem c') frame =
      \<lparr>i_registers = saved_registers (c_esp c - 124) c, i_fpu_state = fpu_image (c_fpu c),
       interrupt_number = n, i_eip = c_eip c, i_cs = ucast (c_cs c), i_eflags = c_eflags c,
       i_esp = ld32 (c_mem c) (c_esp c), i_ss = ld32 (c_mem c) (c_esp c + 4)\<rparr> \<and>
    \<not> bit (c_eflags c') 9 \<and>
    (\<forall>a. 160 \<le> unat (a - (c_esp c - 160)) \<longrightarrow> c_mem c' a = c_mem c a)"
proof -
  define b where "b = c_esp c - 176"
  have e: "c_esp c = b + 176" by (simp add: b_def)
  let ?m = "int_stack b n c"
  have out: "ld32 ?m (k + b) = ld32 (c_mem c) (k + b)" if "176 \<le> unat k" "unat k \<le> 4294967292" for k
    using that by (intro ld32_offset_cong int_stack_outside [OF assms]) auto
  have "fpu_state_at ?m (52 + b) = fpu_image (c_fpu c)"
    unfolding fpu_image_def by (rule fpu_state_at_cong) (rule int_stack_fpu [OF assms])
  then have "interrupt_state_at ?m (20 + b) =
      \<lparr>i_registers = saved_registers (52 + b) c, i_fpu_state = fpu_image (c_fpu c),
       interrupt_number = n, i_eip = c_eip c, i_cs = ucast (c_cs c), i_eflags = c_eflags c,
       i_esp = ld32 (c_mem c) (176 + b), i_ss = ld32 (c_mem c) (180 + b)\<rparr>"
    using int_stack_words [OF assms, of b n] out [of 176] out [of 180]
    by (simp add: interrupt_state_at_def add.commute [of b])
  moreover have "?m a = c_mem c a" if "160 \<le> unat (a - (16 + b))" for a
    using outside_offset [OF that] int_stack_outside [OF assms, of "a - b" b n] by simp
  ultimately show ?thesis
    using int_stack_words(1) [OF assms, of b n]
    by (simp add: int_entry_result [OF e] e add.commute [of b] bit_simps)
qed

text \<open>
  C36: the frame on which \<^verbatim>\<open>idt_global_int_wrapper\<close> is called, with interrupts off, is the interrupted
  processor as a \<^verbatim>\<open>struct interrupt_state\<close>: its registers, the FPU, the vector and what \<^verbatim>\<open>iret\<close> needs;
  the fields for the stack of user mode are the two words that the interrupted code had on top of
  its stack. No byte but the 160 of the frame and its pointer is written.
\<close>

theorem int_stub_frame:
  assumes "length (c_fpu c) = 108"
  shows "let c' = int_entry n (deliver stub None c); frame = ld32 (c_mem c') (c_esp c') in
    interrupt_state_at (c_mem c') frame =
      \<lparr>i_registers = saved_registers (c_esp c - 124) c, i_fpu_state = fpu_image (c_fpu c),
       interrupt_number = n, i_eip = c_eip c, i_cs = ucast (c_cs c), i_eflags = c_eflags c,
       i_esp = ld32 (c_mem c) (c_esp c), i_ss = ld32 (c_mem c) (c_esp c + 4)\<rparr> \<and>
    \<not> bit (c_eflags c') 9 \<and>
    (\<forall>a. 160 \<le> unat (a - (c_esp c - 160)) \<longrightarrow> c_mem c' a = c_mem c a)"
  using assms by (rule int_stub_frame_step)

text \<open>
  What the stubs rely on: the C handler, entered in state \<open>c\<close>, returns to its caller and leaves the
  \<open>n\<close> bytes from its argument on as they were; the other registers and memory are its own.
\<close>

definition keeps_frame :: "nat \<Rightarrow> (cpu \<Rightarrow> cpu) \<Rightarrow> cpu \<Rightarrow> bool" where
  "keeps_frame n h c \<longleftrightarrow> c_esp (h c) = c_esp c + 4 \<and>
     (\<forall>a. unat (a - (c_esp c + 4)) < n \<longrightarrow> c_mem (h c) a = c_mem c a)"

text \<open>State \<open>d\<close> with all that an interrupt must give back to \<open>c\<close>.\<close>

definition resumed :: "cpu \<Rightarrow> cpu \<Rightarrow> cpu" where
  "resumed c d = d\<lparr>c_eax := c_eax c, c_ebx := c_ebx c, c_ecx := c_ecx c, c_edx := c_edx c,
     c_esi := c_esi c, c_edi := c_edi c, c_ebp := c_ebp c, c_esp := c_esp c, c_eip := c_eip c,
     c_cs := c_cs c, c_eflags := c_eflags c, c_fpu := c_fpu c\<rparr>"

lemma fpu_bytes_restored:
  fixes a :: ptr
  assumes "length bs = 108" and "\<And>l. unat l < 108 \<Longrightarrow> m (l + a) = bs ! unat l"
  shows "map (\<lambda>i. m (a + of_nat i)) [0..<108] = bs"
proof (rule nth_equalityI)
  fix i assume "i < length (map (\<lambda>i. m (a + of_nat i)) [0..<108])"
  then have i: "i < 108" by (simp del: upt_rec_numeral)
  then have "unat (of_nat i :: u32) = i" by (simp add: unat_of_nat)
  then have "m (a + of_nat i) = bs ! i" using i assms(2) [of "of_nat i"] by (simp add: add.commute)
  with i show "map (\<lambda>i. m (a + of_nat i)) [0..<108] ! i = bs ! i" by (simp del: upt_rec_numeral)
qed (simp add: assms(1) del: upt_rec_numeral)

lemma segment_of_word: "ucast (ucast x :: u32) = x" for x :: u16
  by (rule bit_word_eqI) (auto simp: bit_simps)

lemma frame_after_handler:
  assumes "keeps_frame n h (i_push r c)" and "c_esp c = 16 + b"
  shows "c_esp (h (i_push r c)) = 16 + b"
    "16 \<le> unat l \<Longrightarrow> unat l < 16 + n \<Longrightarrow> c_mem (h (i_push r c)) (l + b) = c_mem c (l + b)"
proof -
  have e: "c_esp (i_push r c) = 12 + b" "c_mem (i_push r c) = st32 (12 + b) r (c_mem c)"
    using assms(2) by (simp_all add: i_push_def)
  show "c_esp (h (i_push r c)) = 16 + b"
    using assms(1) by (simp add: keeps_frame_def e)
  assume l: "16 \<le> unat l" "unat l < 16 + n"
  have "unat (l - 16) = unat l - 16" using l(1) unat_sub [of 16 l] by (simp add: word_le_nat_alt)
  then have "unat (l + b - (16 + b)) < n" using l by simp
  then have "c_mem (h (i_push r c)) (l + b) = st32 (12 + b) r (c_mem c) (l + b)"
    using assms(1) by (simp add: keeps_frame_def e)
  then show "c_mem (h (i_push r c)) (l + b) = c_mem c (l + b)" using l by (simp add: stub_mem)
qed

lemma int_stub_resumes_step:
  assumes "length (c_fpu c) = 108"
    and "keeps_frame 160 h (i_push r (int_entry n (deliver stub None c)))"
  shows "stub_int n r h (deliver stub None c) =
    resumed c (h (i_push r (int_entry n (deliver stub None c))))"
proof -
  define b where "b = c_esp c - 176"
  have e: "c_esp c = b + 176" by (simp add: b_def)
  define e where "e = int_entry n (deliver stub None c)"
  have e': "c_esp e = 16 + b" "c_mem e = int_stack b n c"
    by (simp_all add: e_def int_entry_result [OF e] add.commute [of b])
  define d where "d = h (i_push r e)"
  note kept = frame_after_handler [OF assms(2) [folded e_def] e'(1), folded d_def, unfolded e'(2)]
  have w: "ld32 (c_mem d) (k + b) = ld32 (int_stack b n c) (k + b)" if "16 \<le> unat k" "unat k \<le> 172" for k
    using that by (intro ld32_offset_cong kept(2)) auto
  have fpu: "map (\<lambda>i. c_mem d (52 + b + of_nat i)) [0..<108] = c_fpu c"
  proof (rule fpu_bytes_restored [OF assms(1)])
    fix l :: u32 assume l: "unat l < 108"
    then have "unat (l + 52) = unat l + 52" by (simp add: unat_plus_small)
    then have "c_mem d (l + 52 + b) = int_stack b n c (l + 52 + b)" using l by (intro kept(2)) auto
    then show "c_mem d (l + (52 + b)) = c_fpu c ! unat l"
      using int_stack_fpu [OF assms(1) l, of b n] assms(1) l by (simp add: blit_def add.assoc)
  qed
  show ?thesis
    using int_stack_words [OF assms(1), of b n] kept(1)
    by (simp only: stub_int_def i_call_def e_def [symmetric] d_def [symmetric])
      (simp add: int_exit_def stub_instrs w fpu resumed_def e add.commute [of b] registers_state_at_def
        saved_registers_def segment_of_word del: upt_rec_numeral)
qed

text \<open>
  C7: an interrupt is not noticed by the code it interrupts: when the handler returns with its
  frame intact, the stub's \<^verbatim>\<open>iret\<close> resumes at the interrupted instruction with all registers, the
  flags, the stack pointer and the FPU as they were.
\<close>

theorem int_stub_resumes:
  assumes "length (c_fpu c) = 108"
    and "keeps_frame 160 h (i_push r (int_entry n (deliver stub None c)))"
  shows "stub_int n r h (deliver stub None c) =
    resumed c (h (i_push r (int_entry n (deliver stub None c))))"
  using assms by (rule int_stub_resumes_step)

section \<open>The exception stubs\<close>

text \<open>The stack from \<open>b + 16\<close>; the error code is the processor's or the 0 of the stub.\<close>

definition exc_code :: "u32 option \<Rightarrow> u32" where
  "exc_code e = (case e of None \<Rightarrow> 0 | Some v \<Rightarrow> v)"

definition exc_gate_words :: "ptr \<Rightarrow> u32 \<Rightarrow> u32 option \<Rightarrow> cpu \<Rightarrow> mem" where
  "exc_gate_words b n e c =
     st32 (b + 208) n (st32 (b + 212) (exc_code e) (st32 (b + 216) (c_eip c)
       (st32 (b + 220) (ucast (c_cs c)) (st32 (b + 224) (c_eflags c) (c_mem c)))))"

definition exc_registers :: "ptr \<Rightarrow> u32 \<Rightarrow> u32 option \<Rightarrow> cpu \<Rightarrow> mem" where
  "exc_registers b n e c =
     st32 (b + 36) (ucast (c_gs c)) (st32 (b + 40) (ucast (c_fs c)) (st32 (b + 44) (ucast (c_es c))
       (st32 (b + 48) (c_cr4 c) (st32 (b + 52) (c_cr3 c) (st32 (b + 56) (c_cr2 c) (st32 (b + 60) (c_cr0 c)
       (st32 (b + 64) (ucast (c_ds c)) (pusha_words (b + 68) (b + 100) c (blit (b + 100) (c_fpu c)
       (exc_gate_words b n e c))))))))))"

definition exc_stack :: "ptr \<Rightarrow> u32 \<Rightarrow> u32 option \<Rightarrow> cpu \<Rightarrow> mem" where
  "exc_stack b n e c =
     st32 (b + 16) (b + 20) (st32 (b + 22) (idtr_base (c_idtr c)) (st16 (b + 20) (idtr_limit (c_idtr c))
       (st32 (b + 30) (gi_offset (c_gdtr c)) (st16 (b + 28) (gi_size (c_gdtr c)) (exc_registers b n e c)))))"

lemmas exc_stack_defs = exc_stack_def exc_registers_def exc_gate_words_def pusha_words_def

lemma exc_entry_result:
  assumes "c_esp c = b + 228" and "e \<noteq> None \<longleftrightarrow> n \<in> set error_code_vectors"
  shows "exc_entry n (deliver stub e c) =
    c\<lparr>c_esp := b + 16, c_eip := stub, c_cs := 8, c_eflags := c_eflags c AND NOT 0x200, c_eax := ucast (c_gs c),
      c_fpu := fpu_init (c_fpu c), c_mem := exc_stack b n e c\<rparr>"
proof (cases e)
  case None
  then have n: "n \<notin> set error_code_vectors" using assms(2) by simp
  show ?thesis
    by (simp add: exc_entry_def deliver_def stub_instrs store_registers_def store_register_def Let_def n None
        exc_code_def assms(1) exc_stack_defs add.commute [of b])
next
  case (Some v)
  then have n: "n \<in> set error_code_vectors" using assms(2) by simp
  show ?thesis
    by (simp add: exc_entry_def deliver_def stub_instrs store_registers_def store_register_def Let_def n Some
        exc_code_def assms(1) exc_stack_defs add.commute [of b])
qed

lemma exc_stack_words:
  assumes "length (c_fpu c) = 108"
  shows "ld32 (exc_stack b n e c) (16 + b) = 20 + b"
    "registers_state_at (exc_stack b n e c) (68 + b) = saved_registers (100 + b) c"
    "ld32 (exc_stack b n e c) (208 + b) = n" "ld32 (exc_stack b n e c) (212 + b) = exc_code e"
    "ld32 (exc_stack b n e c) (216 + b) = c_eip c" "ld32 (exc_stack b n e c) (220 + b) = ucast (c_cs c)"
    "ld32 (exc_stack b n e c) (224 + b) = c_eflags c"
  using assms by (simp_all add: exc_stack_defs add.commute [of b] registers_state_at_def saved_registers_def stub_mem)

lemma exc_stack_diagnostics:
  assumes "length (c_fpu c) = 108"
  shows "ld32 (exc_stack b n e c) (36 + b) = ucast (c_gs c)" "ld32 (exc_stack b n e c) (40 + b) = ucast (c_fs c)"
    "ld32 (exc_stack b n e c) (44 + b) = ucast (c_es c)" "ld32 (exc_stack b n e c) (48 + b) = c_cr4 c"
    "ld32 (exc_stack b n e c) (52 + b) = c_cr3 c" "ld32 (exc_stack b n e c) (56 + b) = c_cr2 c"
    "ld32 (exc_stack b n e c) (60 + b) = c_cr0 c" "ld32 (exc_stack b n e c) (64 + b) = ucast (c_ds c)"
  using assms by (simp_all add: exc_stack_defs add.commute [of b] stub_mem)

lemma exc_stack_tables:
  assumes "length (c_fpu c) = 108"
  shows "take_bit 48 (ld64 (exc_stack b n e c) (20 + b)) =
      ucast (idtr_limit (c_idtr c)) OR push_bit 16 (ucast (idtr_base (c_idtr c)))"
    "take_bit 48 (ld64 (exc_stack b n e c) (28 + b)) =
      ucast (gi_size (c_gdtr c)) OR push_bit 16 (ucast (gi_offset (c_gdtr c)))"
proof -
  define m where "m = exc_registers b n e c"
  define m' where "m' = st32 (30 + b) (gi_offset (c_gdtr c)) (st16 (28 + b) (gi_size (c_gdtr c)) m)"
  define m'' where "m'' = st32 (22 + b) (idtr_base (c_idtr c)) (st16 (20 + b) (idtr_limit (c_idtr c)) m')"
  have s: "exc_stack b n e c = st32 (16 + b) (20 + b) m''"
    by (simp add: exc_stack_def m_def m'_def m''_def add.commute [of b])
  have "ld64 (exc_stack b n e c) (20 + b) = ld64 m'' (20 + b)"
    by (simp add: s ld64_def stub_mem)
  moreover have "ld64 (exc_stack b n e c) (28 + b) = ld64 m' (28 + b)"
    by (simp add: s m''_def ld64_def stub_mem)
  ultimately show "take_bit 48 (ld64 (exc_stack b n e c) (20 + b)) =
      ucast (idtr_limit (c_idtr c)) OR push_bit 16 (ucast (idtr_base (c_idtr c)))"
    "take_bit 48 (ld64 (exc_stack b n e c) (28 + b)) =
      ucast (gi_size (c_gdtr c)) OR push_bit 16 (ucast (gi_offset (c_gdtr c)))"
    using table_register_at [of "20 + b" _ _ m'] table_register_at [of "28 + b" _ _ m]
    by (simp_all add: m'_def m''_def)
qed

lemma exc_stack_outside:
  assumes "length (c_fpu c) = 108" and "unat l < 16 \<or> 228 \<le> unat l"
  shows "exc_stack b n e c (l + b) = c_mem c (l + b)"
  using assms by (auto simp: exc_stack_defs add.commute [of b] stub_mem)

lemma exc_stack_fpu:
  assumes "length (c_fpu c) = 108" and "unat l < 108"
  shows "exc_stack b n e c (l + (100 + b)) = blit 0 (c_fpu c) (\<lambda>_. 0) (l + 0)"
proof -
  define k where "k = l + 100"
  have k: "unat k = unat l + 100" using assms(2) by (simp add: k_def unat_plus_small)
  then have "exc_stack b n e c (k + b) = c_fpu c ! unat l"
    using assms by (simp add: exc_stack_defs add.commute [of b] stub_mem)
  then show ?thesis using assms by (simp add: blit_def k_def add.assoc)
qed

text \<open>
  C37: the frame on which \<^verbatim>\<open>idt_global_exc_wrapper\<close> is called is the interrupted processor as a
  \<^verbatim>\<open>struct exception_state\<close>, for exceptions with and without an error code alike, when the processor
  gives an error code for just the vectors that the macro knows. Of the two 64-bit fields the
  lower 48 bits are the table registers.
\<close>

theorem exc_stub_frame:
  assumes "length (c_fpu c) = 108" and "e \<noteq> None \<longleftrightarrow> n \<in> set error_code_vectors"
  shows "let c' = exc_entry n (deliver stub e c); st = exception_state_at (c_mem c') (ld32 (c_mem c') (c_esp c')) in
    st\<lparr>x_idtr := take_bit 48 (x_idtr st), x_gdtr := take_bit 48 (x_gdtr st)\<rparr> =
      \<lparr>x_idtr = ucast (idtr_limit (c_idtr c)) OR push_bit 16 (ucast (idtr_base (c_idtr c))),
       x_gdtr = ucast (gi_size (c_gdtr c)) OR push_bit 16 (ucast (gi_offset (c_gdtr c))),
       x_gs = ucast (c_gs c), x_fs = ucast (c_fs c), x_es = ucast (c_es c), x_cr4 = c_cr4 c, x_cr3 = c_cr3 c,
       x_cr2 = c_cr2 c, x_cr0 = c_cr0 c, x_ds = ucast (c_ds c),
       x_registers = saved_registers (c_esp c - 128) c, x_fpu_state = fpu_image (c_fpu c),
       x_interrupt_number = n, x_error_code = exc_code e, x_eip = c_eip c, x_cs = ucast (c_cs c),
       x_eflags = c_eflags c, x_esp = ld32 (c_mem c) (c_esp c), x_ss = ld32 (c_mem c) (c_esp c + 4)\<rparr> \<and>
    \<not> bit (c_eflags c') 9 \<and>
    (\<forall>a. 212 \<le> unat (a - (c_esp c - 212)) \<longrightarrow> c_mem c' a = c_mem c a)"
proof -
  define b where "b = c_esp c - 228"
  have b: "c_esp c = b + 228" by (simp add: b_def)
  let ?m = "exc_stack b n e c"
  note w = exc_stack_words [OF assms(1), of b n e] exc_stack_diagnostics [OF assms(1), of b n e]
    exc_stack_tables [OF assms(1), of b n e]
  have out: "ld32 ?m (k + b) = ld32 (c_mem c) (k + b)" if "228 \<le> unat k" "unat k \<le> 4294967292" for k
    using that by (intro ld32_offset_cong exc_stack_outside [OF assms(1)]) auto
  have "fpu_state_at ?m (100 + b) = fpu_image (c_fpu c)"
    unfolding fpu_image_def by (rule fpu_state_at_cong) (rule exc_stack_fpu [OF assms(1)])
  then have frame: "(exception_state_at ?m (20 + b))
      \<lparr>x_idtr := take_bit 48 (ld64 ?m (20 + b)), x_gdtr := take_bit 48 (ld64 ?m (28 + b))\<rparr> =
      \<lparr>x_idtr = ucast (idtr_limit (c_idtr c)) OR push_bit 16 (ucast (idtr_base (c_idtr c))),
       x_gdtr = ucast (gi_size (c_gdtr c)) OR push_bit 16 (ucast (gi_offset (c_gdtr c))),
       x_gs = ucast (c_gs c), x_fs = ucast (c_fs c), x_es = ucast (c_es c), x_cr4 = c_cr4 c, x_cr3 = c_cr3 c,
       x_cr2 = c_cr2 c, x_cr0 = c_cr0 c, x_ds = ucast (c_ds c),
       x_registers = saved_registers (100 + b) c, x_fpu_state = fpu_image (c_fpu c),
       x_interrupt_number = n, x_error_code = exc_code e, x_eip = c_eip c, x_cs = ucast (c_cs c),
       x_eflags = c_eflags c, x_esp = ld32 (c_mem c) (228 + b), x_ss = ld32 (c_mem c) (232 + b)\<rparr>"
    using w out [of 228] out [of 232] by (simp add: exception_state_at_def)
  have "?m a = c_mem c a" if "212 \<le> unat (a - (16 + b))" for a
    using outside_offset [OF that] exc_stack_outside [OF assms(1), of "a - b" b n e] by simp
  then show ?thesis
    using w(1) frame
    by (simp add: exc_entry_result [OF b assms(2)] b add.commute [of b] bit_simps exception_state_at_def)
qed

text \<open>
  the exception stub is as transparent: if its handler returned, the two table registers,
  the eight diagnostic words and the error code are dropped and the code goes on where the
  exception left it.
\<close>

theorem exc_stub_resumes:
  assumes "length (c_fpu c) = 108" and "e \<noteq> None \<longleftrightarrow> n \<in> set error_code_vectors"
    and "keeps_frame 212 h (i_push r (exc_entry n (deliver stub e c)))"
  shows "stub_exc n r h (deliver stub e c) = resumed c (h (i_push r (exc_entry n (deliver stub e c))))"
proof -
  define b where "b = c_esp c - 228"
  have b: "c_esp c = b + 228" by (simp add: b_def)
  define x where "x = exc_entry n (deliver stub e c)"
  have x': "c_esp x = 16 + b" "c_mem x = exc_stack b n e c"
    by (simp_all add: x_def exc_entry_result [OF b assms(2)] add.commute [of b])
  define d where "d = h (i_push r x)"
  note kept = frame_after_handler [OF assms(3) [folded x_def] x'(1), folded d_def, unfolded x'(2)]
  have w: "ld32 (c_mem d) (k + b) = ld32 (exc_stack b n e c) (k + b)" if "16 \<le> unat k" "unat k \<le> 224" for k
    using that by (intro ld32_offset_cong kept(2)) auto
  have fpu: "map (\<lambda>i. c_mem d (100 + b + of_nat i)) [0..<108] = c_fpu c"
  proof (rule fpu_bytes_restored [OF assms(1)])
    fix l :: u32 assume l: "unat l < 108"
    then have "unat (l + 100) = unat l + 100" by (simp add: unat_plus_small)
    then have "c_mem d (l + 100 + b) = exc_stack b n e c (l + 100 + b)" using l by (intro kept(2)) auto
    then show "c_mem d (l + (100 + b)) = c_fpu c ! unat l"
      using exc_stack_fpu [OF assms(1) l, of b n e] assms(1) l by (simp add: blit_def add.assoc)
  qed
  show ?thesis
    using exc_stack_words [OF assms(1), of b n e] kept(1)
    by (simp only: stub_exc_def i_call_def x_def [symmetric] d_def [symmetric])
      (simp add: exc_exit_def stub_instrs w fpu resumed_def b add.commute [of b] registers_state_at_def
        saved_registers_def segment_of_word del: upt_rec_numeral)
qed

section \<open>A processor and a handler\<close>

definition example_cpu :: cpu where
  "example_cpu = \<lparr>c_eax = 0x1234, c_ebx = 2, c_ecx = 3, c_edx = 4, c_esi = 5, c_edi = 6, c_ebp = 7,
     c_esp = 0xC0007F01, c_eip = 0x8123, c_cs = 8, c_eflags = 0x202, c_ds = 16, c_es = 16, c_fs = 16, c_gs = 16,
     c_cr0 = 0x80000021, c_cr2 = 0xDEAD000, c_cr3 = 0x6000, c_cr4 = 0,
     c_gdtr = \<lparr>gi_size = 47, gi_offset = 0xC0010000\<rparr>, c_idtr = \<lparr>idtr_limit = 2047, idtr_base = 0xC0011000\<rparr>,
     c_fpu = replicate 108 0xA5, c_mem = (\<lambda>_. 0)\<rparr>"

text \<open>A handler that uses the registers a C function may, the FPU, and the stack below its frame.\<close>

definition clobber :: "cpu \<Rightarrow> cpu" where
  "clobber c = c\<lparr>c_esp := c_esp c + 4, c_eax := 0, c_ecx := 1, c_edx := 2, c_fpu := replicate 108 0,
     c_mem := st32 (c_esp c - 8) 7 (c_mem c)\<rparr>"

lemma clobber_keeps_frame:
  assumes "n \<le> 4294967284"
  shows "keeps_frame n clobber c"
proof -
  have "st32 (c_esp c - 8) 7 (c_mem c) a = c_mem c a" if "unat (a - (c_esp c + 4)) < n" for a
  proof (rule st32_other_byte)
    define j where "j = a - (c_esp c + 4)"
    have d: "a - (c_esp c - 8) = j + 12" by (simp add: j_def)
    have "unat (j + 12) = unat j + 12" using that assms by (simp add: unat_plus_small j_def [symmetric])
    then show "4 \<le> unat (a - (c_esp c - 8))" unfolding d by linarith
  qed
  then show ?thesis by (simp add: keeps_frame_def clobber_def)
qed

theorem int_stub_frame_witness:
  "\<exists>c'. c' = int_entry 33 (deliver 0xC0009000 None example_cpu) \<and>
     interrupt_number (interrupt_state_at (c_mem c') (ld32 (c_mem c') (c_esp c'))) = 33 \<and>
     r_eax (i_registers (interrupt_state_at (c_mem c') (ld32 (c_mem c') (c_esp c')))) = 0x1234"
proof -
  have "length (c_fpu example_cpu) = 108" "c_eax example_cpu = 0x1234" by (simp_all add: example_cpu_def)
  with int_stub_frame [of example_cpu 33 "0xC0009000"] show ?thesis
    by (simp add: Let_def saved_registers_def)
qed

theorem int_stub_resumes_witness:
  "c_eax (stub_int 33 0xC0009100 clobber (deliver 0xC0009000 None example_cpu)) = 0x1234"
proof -
  have "length (c_fpu example_cpu) = 108" "c_eax example_cpu = 0x1234" by (simp_all add: example_cpu_def)
  with int_stub_resumes [OF _ clobber_keeps_frame, of example_cpu] show ?thesis
    by (simp add: resumed_def)
qed

lemma example_page_fault: "length (c_fpu example_cpu) = 108" "Some (2 :: u32) \<noteq> None \<longleftrightarrow> 14 \<in> set error_code_vectors"
  by (simp_all add: example_cpu_def error_code_vectors_def)

theorem exc_stub_frame_witness:
  "\<exists>c' st. c' = exc_entry 14 (deliver 0xC0009000 (Some 2) example_cpu) \<and>
     st = exception_state_at (c_mem c') (ld32 (c_mem c') (c_esp c')) \<and> x_cr2 st = 0xDEAD000 \<and> x_error_code st = 2"
proof -
  define c' where "c' = exc_entry 14 (deliver 0xC0009000 (Some 2) example_cpu)"
  define st where "st = exception_state_at (c_mem c') (ld32 (c_mem c') (c_esp c'))"
  note frame = exc_stub_frame [OF example_page_fault, of "0xC0009000", folded c'_def, unfolded Let_def, folded st_def,
      THEN conjunct1]
  have "x_cr2 st = c_cr2 example_cpu" "x_error_code st = exc_code (Some 2)"
    using arg_cong [OF frame, of x_cr2] arg_cong [OF frame, of x_error_code] by simp_all
  then show ?thesis unfolding c'_def st_def by (simp add: exc_code_def) (simp add: example_cpu_def)
qed

theorem exc_stub_resumes_witness:
  "c_eip (stub_exc 14 0xC0009100 clobber (deliver 0xC0009000 (Some 2) example_cpu)) = 0x8123"
proof -
  have "c_eip example_cpu = 0x8123" by (simp add: example_cpu_def)
  with exc_stub_resumes [OF example_page_fault clobber_keeps_frame] show ?thesis
    by (simp add: resumed_def)
qed

end
