(* ===== verification/Delivery.thy ===== *)
theory Delivery
  imports Stubs Sched
begin

text \<open>
  The two views of an interrupt: \<open>idt_int\<close>, with which the kernel's theories work, and the stub around
  a compiled handler (\<open>stub_int\<close>). The first is the abstraction of the second: the flag is the bit of
  the flags register, and memory is the machine's outside a region of dead stack below the stack
  pointer, where the frame and the handler's own frames lie.
\<close>

section \<open>The abstraction\<close>

definition kernel_view :: "ptr set \<Rightarrow> cpu \<Rightarrow> kstate \<Rightarrow> bool" where
  "kernel_view S c s \<longleftrightarrow> iflag s = bit (c_eflags c) 9 \<and> (\<forall>a. a \<notin> S \<longrightarrow> c_mem c a = kmem s a)"

text \<open>The \<open>k\<close> bytes below the stack pointer.\<close>

definition dead_stack :: "u32 \<Rightarrow> cpu \<Rightarrow> ptr set" where
  "dead_stack k c = {a. unat (a - (c_esp c - k)) < unat k}"

text \<open>
  Compiled code \<open>h\<close>, entered in state \<open>d\<close> with the address of a frame while the kernel's state is
  \<open>s\<close>, does to memory what \<open>idt_global_int_wrapper\<close> does in \<open>s\<close> for the vector in the frame, and leaves
  the frame as it was. (The kernel's variables, such as \<^verbatim>\<open>tick_count\<close>, are fields of \<open>s\<close> and not part of
  the machine's memory.)
\<close>

definition implements :: "ptr set \<Rightarrow> env \<Rightarrow> (cpu \<Rightarrow> cpu) \<Rightarrow> cpu \<Rightarrow> kstate \<Rightarrow> bool" where
  "implements S E h d s \<longleftrightarrow> keeps_frame 160 h d \<and>
     (let st = interrupt_state_at (c_mem d) (ld32 (c_mem d) (c_esp d + 4)) in
      kernel_view S d s \<longrightarrow> (case idt_global_int_wrapper E (interrupt_number st) s of
        Inr (Done, s') \<Rightarrow> \<forall>a. a \<notin> S \<longrightarrow> c_mem (h d) a = kmem s' a | _ \<Rightarrow> True))"

lemma pushed_frame:
  assumes "length (c_fpu c) = 108" and "d = i_push r (int_entry n (deliver stub None c))"
  shows "interrupt_number (interrupt_state_at (c_mem d) (ld32 (c_mem d) (c_esp d + 4))) = n"
    "\<not> bit (c_eflags d) 9" "a \<notin> dead_stack 164 c \<Longrightarrow> c_mem d a = c_mem c a"
proof -
  define b where "b = c_esp c - 176"
  have e: "c_esp c = b + 176" by (simp add: b_def)
  have d: "c_esp d = 12 + b" "c_mem d = st32 (12 + b) r (int_stack b n c)" "c_eflags d = c_eflags c AND NOT 0x200"
    by (simp_all add: assms(2) int_entry_result [OF e] i_push_def add.commute [of b])
  have "ld32 (c_mem d) (16 + b) = 20 + b" "ld32 (c_mem d) (160 + b) = n"
    using int_stack_words(1,3) [OF assms(1), of b n] by (simp_all add: d stub_mem)
  then show "interrupt_number (interrupt_state_at (c_mem d) (ld32 (c_mem d) (c_esp d + 4))) = n"
    by (simp add: d interrupt_state_at_def add.commute [of b])
  show "\<not> bit (c_eflags d) 9" by (simp add: d bit_simps)
  assume "a \<notin> dead_stack 164 c"
  then have "164 \<le> unat (a - (12 + b))" by (simp add: dead_stack_def e)
  then have "unat (a - b) < 12 \<or> 176 \<le> unat (a - b)" using outside_offset [of 164 a 12 b] by simp
  then obtain k where k: "a = k + b" "unat k < 12 \<or> 176 \<le> unat k" by (intro that [of "a - b"]) simp_all
  then have "int_stack b n c (k + b) = c_mem c (k + b)"
    by (intro int_stack_outside [OF assms(1)]) auto
  moreover have "st32 (12 + b) r (int_stack b n c) (k + b) = int_stack b n c (k + b)"
    using k(2) by (auto intro: st32_below st32_above)
  ultimately show "c_mem d a = c_mem c a" by (simp add: d k(1))
qed

text \<open>
  C6: the kernel's view of an interrupt that returns is what the machine does: from a machine state
  seen as \<open>s\<close>, the gate, the stub and a handler that implements the C function lead to a machine
  state seen as the result of \<open>idt_int\<close>, at the interrupted instruction with the interrupted
  registers.
\<close>

theorem interrupt_refines:
  assumes "length (c_fpu c) = 108" and "kernel_view S c s" and "dead_stack 164 c \<subseteq> S"
    and "implements S E h (i_push r (int_entry n (deliver stub None c))) (s\<lparr>iflag := False\<rparr>)"
    and "idt_int E n s = ret Done s'"
  shows "kernel_view S (stub_int n r h (deliver stub None c)) s' \<and>
    (\<exists>c'. stub_int n r h (deliver stub None c) = resumed c c')"
proof -
  define d where "d = i_push r (int_entry n (deliver stub None c))"
  note frame = pushed_frame [OF assms(1) d_def]
  obtain s1 where s1: "idt_global_int_wrapper E n (s\<lparr>iflag := False\<rparr>) = ret Done s1" "s' = s1\<lparr>iflag := iflag s\<rparr>"
  proof -
    obtain g s1 where g: "idt_global_int_wrapper E n (s\<lparr>iflag := False\<rparr>) = ret g s1"
      using assms(5) by (auto simp: idt_int_def andthen_def seq_eq_Inr)
    then show thesis using assms(5) that by (cases g) (simp_all add: idt_int_def andthen_def)
  qed
  have "c_mem d a = kmem s a" if "a \<notin> S" for a
    using that assms(2,3) frame(3) [of a] by (auto simp: kernel_view_def)
  with frame(2) have "kernel_view S d (s\<lparr>iflag := False\<rparr>)" by (simp add: kernel_view_def)
  with assms(4) s1(1) have m: "a \<notin> S \<Longrightarrow> c_mem (h d) a = kmem s1 a" for a
    unfolding implements_def d_def [symmetric] Let_def frame(1) by simp
  have "keeps_frame 160 h (i_push r (int_entry n (deliver stub None c)))"
    using assms(4) by (simp add: implements_def)
  from int_stub_resumes_step [OF assms(1) this]
  have stub: "stub_int n r h (deliver stub None c) = resumed c (h d)" by (simp add: d_def)
  have "kernel_view S (resumed c (h d)) s'"
    using m assms(2) by (simp add: kernel_view_def resumed_def s1(2))
  with stub show ?thesis by auto
qed

lemma dead_stack_nested:
  assumes "a \<notin> dead_stack k c" and "l \<le> k"
  shows "unat l \<le> unat (a - (c_esp c - l))"
proof -
  define j where "j = a - (c_esp c - k)"
  have j: "unat k \<le> unat j" using assms(1) by (simp add: dead_stack_def j_def)
  have kl: "unat (k - l) = unat k - unat l" "unat l \<le> unat k" using assms(2) unat_sub by (auto simp: word_le_nat_alt)
  have d: "a - (c_esp c - l) = j - (k - l)" by (simp add: j_def)
  have "unat (j - (k - l)) = unat j - unat (k - l)"
    using j kl by (intro unat_sub) (simp add: word_le_nat_alt)
  then show ?thesis using j kl unfolding d by linarith
qed

text \<open>
  The timer at the end of the time slice of the only thread: the thread yields to itself, which
  changes the heap, and the interrupt returns. The handler stores what the kernel's function does.
\<close>

lemma lone_thread:
  obtains s where "sched 4096 s 0xC0008000 [24 \<mapsto> []]" and "ready_threads s = 24" and "idle_thread s = 0xC000A000"
    and "tick_count s = 3" and "iflag s" and "unat (firstFreeSegment s) = 40"
proof -
  have f0: "unat (firstFreeSegment heap_state) = 0" using first_free_end [OF heap_state_ok] by simp
  then have "room 4096 heap_state" by (simp add: room_def)
  from heap_state_ok this obtain m l where l: "heap_ok (heap_state\<lparr>kmem := m, firstFreeSegment := firstFreeSegment heap_state + 40\<rparr>) ([] @ [16]) 4096"
    "list_at m ([] @ [16]) l [] []"
    by (rule list_init_result [where vp = 0]) (rule that)
  let ?s1 = "heap_state\<lparr>kmem := m, firstFreeSegment := firstFreeSegment heap_state + 40\<rparr>"
  have "unat l = 24" using l(2) by (simp add: list_at_def node_def)
  then have e: "l = 24" by (simp add: word_unat_eq_iff)
  have q: "queues 4096 ?s1 [24 \<mapsto> []]"
    by (rule queues_intro [OF l(1), where N = "\<lambda>_. []"]) (use l(2) e in \<open>auto split: if_splits\<close>)
  let ?s = "(wr 0xC0008028 T_MAGIC ?s1)\<lparr>esp := 0xC0008F00, iflag := True, idle_thread := 0xC000A000, ready_threads := 24, tick_count := 3\<rparr>"
  have "queues 4096 (wr 0xC0008028 T_MAGIC ?s1) [24 \<mapsto> []]" by (intro queues_wr q) simp_all
  then have "queues 4096 ?s [24 \<mapsto> []]" by (rule queues_cong) simp_all
  then have "sched 4096 ?s 0xC0008000 [24 \<mapsto> []]"
    by (simp add: sched_def running_def thread_ok_def is_thread_def page_aligned_def get_base_page_def Let_def PGSIZE_def)
  moreover have "unat (firstFreeSegment ?s) = 40" using f0 unat_plus_small [of "firstFreeSegment heap_state" 40] by simp
  ultimately show ?thesis by (intro that [of ?s]) simp_all
qed

lemma lone_timer:
  obtains s s1 where "iflag s" and "idt_global_int_wrapper example_env 32 (s\<lparr>iflag := False\<rparr>) = ret Done s1"
    and "rd s 80 = 0" and "rd s1 80 = 3992"
proof -
  obtain s where s: "sched 4096 s 0xC0008000 [24 \<mapsto> []]" "ready_threads s = 24" "idle_thread s = 0xC000A000"
    "tick_count s = 3" "iflag s" "unat (firstFreeSegment s) = 40" by (rule lone_thread)
  define s0 where "s0 = (time_tick (s\<lparr>iflag := False\<rparr>))\<lparr>tick_count := 4\<rparr>"
  have f: "kmem s0 = kmem s" "firstFreeSegment s0 = firstFreeSegment s" "esp s0 = esp s" "ready_threads s0 = 24"
    "idle_thread s0 = 0xC000A000" "tick_count (time_tick (s\<lparr>iflag := False\<rparr>)) = 3"
    using s by (simp_all add: s0_def time_tick_def Let_def)
  have "queues 4096 s0 [24 \<mapsto> []]" by (rule queues_cong [OF schedD(1) [OF s(1)]]) (simp_all add: f)
  then have sc: "sched 4096 s0 0xC0008000 [24 \<mapsto> []]"
    using s f by (simp add: sched_def running_def thread_ok_def is_thread_def)
  have h: "[24 \<mapsto> []] (ready_threads s0) = Some []" "room 4096 s0" "next_of s0 (yield_queue s0 0xC0008000 []) = 0xC0008000"
    using f s by (simp_all add: room_def next_of_def yield_queue_def)
  obtain s2 where s2: "sched 4096 s2 0xC0008000 ([24 \<mapsto> []](ready_threads s0 \<mapsto> tl (yield_queue s0 0xC0008000 [])))"
      "firstFreeSegment s2 = firstFreeSegment s0 + (if 0xC0008000 = idle_thread s0 then 0 else 40)"
    and y: "thread_yield example_env s0 =
      seq (if rd s2 24 = TS_DYING then thread_kill 0 s2 else ret () s2) (\<lambda>_ s''. ret Done (int_set (iflag s0) s''))"
    using lone_yield_step [OF sc h, of example_env] by blast
  have q2: "queues 4096 s2 ([24 \<mapsto> []](24 \<mapsto> []))" using schedD(1) [OF s2(1)] f by (simp add: yield_queue_def)
  obtain zs N where z: "heap_ok s2 zs 4096" "list_at (kmem s2) zs 24 N []"
    using q2 unfolding queues_def by (metis fun_upd_same)
  have "rd s2 24 = 0" using z(2) by (simp add: list_at_def)
  then have "thread_tick example_env (s\<lparr>iflag := False\<rparr>) = ret Done (int_set (iflag s0) s2)"
    using y f(6) s0_def by (simp add: thread_tick_def Let_def thread_statuses TIME_SLICE_def)
  moreover have "unat (firstFreeSegment s2) = 80" using s2(2) s(6) f(2,5) unat_plus_small [of "firstFreeSegment s0" 40] by simp
  then have "heap_end zs = 80" using first_free_end [OF z(1)] by simp
  then have "rd s2 80 = 3992" using z(1) by (simp add: heap_ok_def header_def)
  moreover have "rd s 80 = 0"
  proof -
    obtain ys where y: "heap_ok s ys 4096" using schedD(1) [OF s(1)] by (auto simp: queues_def)
    then have "heap_end ys = 40" using first_free_end s(6) by metis
    then have "kmem s (80 + k) = 0" if "unat k < 4" for k
      using y that by (simp add: heap_ok_def inside_def unat_plus_small)
    then show ?thesis by (rule ld32_zero)
  qed
  ultimately show ?thesis
    using s(5) by (intro that [of s "con_update (outportb PIC1_COMMAND PIC_EOI) (int_set (iflag s0) s2)"]) (simp_all add: idt_global_int_wrapper_def int_rest_def andthen_def int_defs Let_def)
qed

text \<open>The timer's vector.\<close>

theorem interrupt_refines_witness:
  "\<exists>s s' h. idt_int example_env 32 s = ret Done s' \<and> rd s 80 \<noteq> rd s' 80 \<and>
     (let c = example_cpu\<lparr>c_esp := 0xC0008F00, c_mem := kmem s\<rparr> in
      kernel_view (dead_stack 256 c) (stub_int 32 0xC0009100 h (deliver 0xC0009000 None c)) s')"
proof -
  obtain s s1 where s: "iflag s" "idt_global_int_wrapper example_env 32 (s\<lparr>iflag := False\<rparr>) = ret Done s1" "rd s 80 = 0" "rd s1 80 = 3992"
    by (rule lone_timer)
  define c where "c = example_cpu\<lparr>c_esp := 0xC0008F00, c_mem := kmem s\<rparr>"
  let ?S = "dead_stack 256 c"
  let ?h = "\<lambda>d. d\<lparr>c_esp := c_esp d + 4, c_mem := \<lambda>a. if a \<in> ?S then c_mem d a else kmem s1 a\<rparr>"
  define d where "d = i_push 0xC0009100 (int_entry 32 (deliver 0xC0009000 None c))"
  have len: "length (c_fpu c) = 108" by (simp add: c_def example_cpu_def)
  have view: "kernel_view ?S c s" using s(1) by (simp add: kernel_view_def c_def example_cpu_def bit_numeral_rec)
  have sub: "dead_stack 164 c \<subseteq> ?S"
    using dead_stack_nested [of _ 256 c 164] by (fastforce simp: dead_stack_def)
  have d: "c_esp d = c_esp c - 164"
    using int_entry_result [of c "c_esp c - 176"] by (simp add: d_def i_push_def)
  have "a \<in> ?S" if a: "unat (a - (c_esp d + 4)) < 160" for a
  proof (rule ccontr)
    assume "a \<notin> ?S"
    from dead_stack_nested [OF this, of 160] show False using a by (simp add: d)
  qed
  then have "implements ?S example_env ?h d (s\<lparr>iflag := False\<rparr>)"
    using pushed_frame(1) [OF len d_def] s(2) by (simp add: implements_def keeps_frame_def Let_def)
  moreover have "idt_int example_env 32 s = ret Done (s1\<lparr>iflag := iflag s\<rparr>)"
    using s(2) by (simp add: idt_int_def andthen_def)
  ultimately have "kernel_view ?S (stub_int 32 0xC0009100 ?h (deliver 0xC0009000 None c)) (s1\<lparr>iflag := iflag s\<rparr>)"
    using interrupt_refines [OF len view sub] by (simp add: d_def)
  then show ?thesis
    using s \<open>idt_int example_env 32 s = ret Done (s1\<lparr>iflag := iflag s\<rparr>)\<close>
    by (intro exI [of _ s] exI [of _ "s1\<lparr>iflag := iflag s\<rparr>"] exI [of _ ?h]) (simp add: c_def [symmetric])
qed

end
