(* ===== verification/BootReal.thy ===== *)
theory BootReal
  imports Start Stubs BootAsm
begin

text \<open>
  What runs before the kernel's \<^verbatim>\<open>main\<close> (\<^verbatim>\<open>src/boot/\<close>): the boot sector, the reading of the kernel from
  the disk, the memory map, the switch to protected mode and \<^verbatim>\<open>BEGIN_PM\<close>. Memory is physical; an
  address of real mode is a segment and an offset. The services of the firmware are an argument, a
  \<open>bios\<close>: the code relies on what \<^verbatim>\<open>int 0x13\<close> and \<^verbatim>\<open>int 0x15\<close> answer. The lemmas follow the memory map
  from the firmware to the kernel's list of usable regions. The words that calls push on the stack below 0x7c00 are left out.
\<close>

section \<open>The machine and its firmware\<close>

text \<open>The registers of a disk request; the answer is the carry flag, \<^verbatim>\<open>al\<close> and memory.\<close>

record disk_request =
  dr_ah :: u8
  dr_al :: u8
  dr_ch :: u8
  dr_cl :: u8
  dr_dh :: u8
  dr_dl :: u8

text \<open>
  \<^verbatim>\<open>int 0x15\<close> with \<^verbatim>\<open>eax\<close>, \<^verbatim>\<open>ebx\<close>, \<^verbatim>\<open>ecx\<close>, \<^verbatim>\<open>edx\<close> and the buffer \<^verbatim>\<open>es:di\<close> answers with \<^verbatim>\<open>ebx\<close>, \<^verbatim>\<open>edx\<close> and memory.
\<close>

record bios =
  bios_disk :: "disk_request \<Rightarrow> ptr \<Rightarrow> mem \<Rightarrow> bool \<times> u8 \<times> mem"
  bios_map :: "u32 \<Rightarrow> u32 \<Rightarrow> u32 \<Rightarrow> u32 \<Rightarrow> ptr \<Rightarrow> mem \<Rightarrow> u32 \<times> u32 \<times> mem"

record machine =
  b_mem :: mem
  b_con :: console
  b_tty :: "u8 list"
  b_video_mode :: u8
  b_cs :: u16
  b_ds :: u16
  b_es :: u16
  b_fs :: u16
  b_gs :: u16
  b_ss :: u16
  b_esp :: u32
  b_if :: bool
  b_cr0 :: u32
  b_cr3 :: u32
  b_gdtr :: gdt_info
  b_fpu :: "u8 list"

text \<open>The labels of the boot code, as offsets.\<close>

record labels =
  l_BOOT_DISK :: u16
  l_DiskReadErrorString :: u16
  l_MemoryRegionCount :: u16
  l_MSG_BOOT :: u16
  l_MSG_PROT_MODE :: u16
  l_gdt_start :: u16

definition linear :: "u16 \<Rightarrow> u16 \<Rightarrow> ptr" where
  "linear seg off = push_bit 4 (ucast seg) + ucast off"

section \<open>Printing (\<^verbatim>\<open>print.asm\<close>)\<close>

text \<open>The character is printed before it is compared: the terminating 0 is printed, too.\<close>

partial_function (option) printChar :: "u16 \<Rightarrow> u16 \<Rightarrow> mem \<Rightarrow> u8 list \<Rightarrow> u8 list option" where
  "printChar ds bx m out =
     (let al = m (linear ds bx); out = out @ [al]; bx = bx + 1
      in if al \<noteq> 0 then printChar ds bx m out else Some out)"

definition printString16 :: "u16 \<Rightarrow> machine \<Rightarrow> machine option" where
  "printString16 bx b = map_option (\<lambda>out. b\<lparr>b_tty := out\<rparr>) (printChar (b_ds b) bx (b_mem b) (b_tty b))"

definition VIDEO_MEMORY :: ptr where "VIDEO_MEMORY = 0xb8000"

partial_function (option) print_string_loop :: "ptr \<Rightarrow> ptr \<Rightarrow> mem \<Rightarrow> mem option" where
  "print_string_loop src dst m =
     (let al = m src; ah = 0x0f
      in if al = 0 then Some m else print_string_loop (src + 1) (dst + 2) (m(dst := al, dst + 1 := ah)))"

definition printString32 :: "ptr \<Rightarrow> machine \<Rightarrow> machine option" where
  "printString32 src b = map_option (\<lambda>m. b\<lparr>b_mem := m\<rparr>) (print_string_loop src VIDEO_MEMORY (b_mem b))"

section \<open>The boot sector (\<^verbatim>\<open>mbr.asm\<close>, \<^verbatim>\<open>diskRead.asm\<close>)\<close>

definition BOOTLOADER_ENTRY :: u16 where "BOOTLOADER_ENTRY = 0x8000"
definition SECTORS :: u8 where "SECTORS = 64"

text \<open>
  \<^verbatim>\<open>ReadDisk\<close> returns, or prints the error and then runs on into the byte \<^verbatim>\<open>BOOT_DISK\<close> behind the
  call, which is data.
\<close>

datatype disk_read = Disk_ok machine | Runs_into_data machine | Prints_forever

definition ReadDisk :: "labels \<Rightarrow> bios \<Rightarrow> machine \<Rightarrow> disk_read" where
  "ReadDisk L B b =
     (let dl = b_mem b (linear (b_ds b) (l_BOOT_DISK L));
          (carry, al, m) = bios_disk B \<lparr>dr_ah = 0x02, dr_al = SECTORS, dr_ch = 0, dr_cl = 0x02, dr_dh = 0, dr_dl = dl\<rparr>
            (linear (b_es b) BOOTLOADER_ENTRY) (b_mem b);
          b = b\<lparr>b_mem := m\<rparr>
      in if carry \<or> al \<noteq> SECTORS
         then (case printString16 (l_DiskReadErrorString L) b of None \<Rightarrow> Prints_forever | Some b \<Rightarrow> Runs_into_data b)
         else Disk_ok b)"

definition mbr :: "labels \<Rightarrow> bios \<Rightarrow> u8 \<Rightarrow> machine \<Rightarrow> disk_read" where
  "mbr L B dl b =
     ReadDisk L B (b\<lparr>b_mem := (b_mem b)(linear (b_ds b) (l_BOOT_DISK L) := dl), b_esp := 0x7c00\<rparr>)"

section \<open>The memory map (\<^verbatim>\<open>detectMemory.asm\<close>)\<close>

text \<open>
  The count is raised between two calls, so not for the entry with which the firmware returns 0 in
  \<^verbatim>\<open>ebx\<close>; \<^verbatim>\<open>edx\<close> is not set again. \<open>None\<close> is a firmware that goes on for ever.
\<close>

partial_function (option) detect_repeat :: "bios \<Rightarrow> u16 \<Rightarrow> ptr \<Rightarrow> u32 \<Rightarrow> u32 \<Rightarrow> u16 \<Rightarrow> mem \<Rightarrow> mem option" where
  "detect_repeat B seg count rbx rdx off m =
     (let rax = 0xE820; rcx = 24; (rbx, rdx, m) = bios_map B rax rbx rcx rdx (linear seg off) m
      in if rbx = 0 then Some m
         else detect_repeat B seg count rbx rdx (off + 24) (m(count := m count + 1)))"

definition DetectMemory :: "labels \<Rightarrow> bios \<Rightarrow> machine \<Rightarrow> machine option" where
  "DetectMemory L B b =
     (let b = b\<lparr>b_es := 0\<rparr>
      in map_option (\<lambda>m. b\<lparr>b_mem := m\<rparr>)
           (detect_repeat B (b_es b) (linear (b_ds b) (l_MemoryRegionCount L)) 0 0x534D4150 0x5000 (b_mem b)))"

section \<open>The switch to protected mode (\<^verbatim>\<open>switchPM.asm\<close>)\<close>

definition enableA20 :: "machine \<Rightarrow> machine" where
  "enableA20 b =
     (let (al, c) = port_byte_in 0x92 (b_con b); al = al OR 2 in b\<lparr>b_con := port_byte_out 0x92 al c\<rparr>)"

definition disablePic :: "machine \<Rightarrow> machine" where
  "disablePic b =
     (let al = 0xff; c = port_byte_out 0xa1 al (b_con b) in b\<lparr>b_con := port_byte_out 0x21 al c\<rparr>)"

definition CODE_SEQ :: u16 where "CODE_SEQ = 8"
definition DATA_SEQ :: u16 where "DATA_SEQ = 16"

text \<open>The descriptor of \<^verbatim>\<open>gdt.asm\<close>: three entries of eight bytes.\<close>

definition gdt_descriptor :: "labels \<Rightarrow> gdt_info" where
  "gdt_descriptor L = \<lparr>gi_size = 3 * 8 - 1, gi_offset = ucast (l_gdt_start L)\<rparr>"

definition initProtMode :: "machine \<Rightarrow> machine" where
  "initProtMode b =
     (let ax = DATA_SEQ in b\<lparr>b_ds := ax, b_ss := ax, b_es := ax, b_fs := ax, b_gs := ax\<rparr>)"

definition switchToProtMode :: "labels \<Rightarrow> bios \<Rightarrow> machine \<Rightarrow> machine option" where
  "switchToProtMode L B b =
     (case DetectMemory L B b of None \<Rightarrow> None
      | Some b \<Rightarrow>
        (let b = b\<lparr>b_video_mode := 3\<rparr>; b = b\<lparr>b_if := False\<rparr>; b = enableA20 b;
             b = b\<lparr>b_gdtr := gdt_descriptor L\<rparr>; b = b\<lparr>b_cr0 := b_cr0 b OR 1\<rparr>; b = b\<lparr>b_cs := CODE_SEQ\<rparr>
         in Some (initProtMode b)))"

section \<open>The way to \<^verbatim>\<open>main\<close> (\<^verbatim>\<open>bootstrap.asm\<close>)\<close>

definition BEGIN_PM :: "labels \<Rightarrow> machine \<Rightarrow> machine option" where
  "BEGIN_PM L b =
     (case printString32 (ucast (l_MSG_PROT_MODE L)) b of None \<Rightarrow> None
      | Some b \<Rightarrow>
        (let b = b\<lparr>b_mem := boot_paging (b_mem b)\<rparr>; (cr3, cr0) = enable_paging (b_cr0 b); b = b\<lparr>b_cr3 := cr3, b_cr0 := cr0\<rparr>;
             b = b\<lparr>b_esp := 0xC0008000\<rparr>
         in Some (b\<lparr>b_fpu := fpu_init (b_fpu b)\<rparr>)))"

definition bootstrap :: "labels \<Rightarrow> bios \<Rightarrow> machine \<Rightarrow> machine option" where
  "bootstrap L B b =
     Option.bind (printString16 (l_MSG_BOOT L) b) (\<lambda>b. Option.bind (switchToProtMode L B b) (BEGIN_PM L))"

section \<open>Texts\<close>

text \<open>\<open>text16\<close>: a 0-terminated text at an offset of a segment; \<open>text32\<close>: at a linear address.\<close>

definition text16 :: "mem \<Rightarrow> u16 \<Rightarrow> u16 \<Rightarrow> u8 list \<Rightarrow> bool" where
  "text16 m seg off cs \<longleftrightarrow> 0 \<notin> set cs \<and>
     (\<forall>i \<le> length cs. m (linear seg (off + of_nat i)) = (cs @ [0]) ! i)"

definition text32 :: "mem \<Rightarrow> ptr \<Rightarrow> u8 list \<Rightarrow> bool" where
  "text32 m a cs \<longleftrightarrow> 0 \<notin> set cs \<and> (\<forall>i \<le> length cs. m (a + of_nat i) = (cs @ [0]) ! i)"

lemma text16_Cons:
  assumes "text16 m seg off (c # cs)"
  shows "m (linear seg off) = c" "c \<noteq> 0" "text16 m seg (off + 1) cs"
proof -
  have t: "m (linear seg (off + of_nat i)) = ((c # cs) @ [0]) ! i" if "i \<le> Suc (length cs)" for i
    using assms that by (simp add: text16_def)
  show "m (linear seg off) = c" "c \<noteq> 0" using t [of 0] assms by (auto simp: text16_def)
  show "text16 m seg (off + 1) cs"
    using assms t [of "Suc i" for i] by (auto simp: text16_def add.assoc)
qed

lemma text32_Cons:
  assumes "text32 m a (c # cs)"
  shows "m a = c" "c \<noteq> 0" "text32 m (a + 1) cs"
proof -
  have t: "m (a + of_nat i) = ((c # cs) @ [0]) ! i" if "i \<le> Suc (length cs)" for i
    using assms that by (simp add: text32_def)
  show "m a = c" "c \<noteq> 0" using t [of 0] assms by (auto simp: text32_def)
  show "text32 m (a + 1) cs"
    using assms t [of "Suc i" for i] by (auto simp: text32_def add.assoc)
qed

lemma printChar_result:
  "text16 m seg off cs \<Longrightarrow> printChar seg off m out = Some (out @ cs @ [0])"
proof (induction cs arbitrary: off out)
  case Nil
  then have "m (linear seg off) = 0" by (simp add: text16_def)
  then show ?case by (subst printChar.simps) (simp add: Let_def)
next
  case (Cons c cs)
  note t = text16_Cons [OF Cons.prems]
  show ?case by (subst printChar.simps) (simp add: Let_def t Cons.IH [OF t(3)])
qed

text \<open>The cells that \<^verbatim>\<open>printString32\<close> writes: character and attribute.\<close>

fun show_cells :: "ptr \<Rightarrow> u8 list \<Rightarrow> mem \<Rightarrow> mem" where
  "show_cells a [] m = m"
| "show_cells a (c # cs) m = show_cells (a + 2) cs (m(a := c, a + 1 := 0x0f))"

lemma show_cells_outside:
  assumes "unat a + 2 * length cs \<le> 4294967295" and "unat x < unat a \<or> unat a + 2 * length cs \<le> unat x"
  shows "show_cells a cs m x = m x"
  using assms
proof (induction cs arbitrary: a m)
  case (Cons c cs)
  have u: "unat (a + 2) = unat a + 2" "unat (a + 1) = unat a + 1"
    using Cons.prems(1) by (simp_all add: unat_plus_small)
  have "x \<noteq> a" "x \<noteq> a + 1" using Cons.prems(2) u by auto
  moreover have "show_cells (a + 2) cs (m(a := c, a + 1 := 0x0f)) x = (m(a := c, a + 1 := 0x0f)) x"
    by (rule Cons.IH) (use Cons.prems u in auto)
  ultimately show ?case by simp
qed simp

lemma print_string_loop_result:
  assumes "text32 m a cs" and "unat a + length cs < unat v" and "unat v + 2 * length cs \<le> 4294967295"
  shows "print_string_loop a v m = Some (show_cells v cs m)"
  using assms
proof (induction cs arbitrary: a v m)
  case Nil
  then have "m a = 0" by (simp add: text32_def)
  then show ?case by (subst print_string_loop.simps) (simp add: Let_def)
next
  case (Cons c cs)
  note t = text32_Cons [OF Cons.prems(1)]
  have u: "unat (a + 1) = unat a + 1" "unat (v + 2) = unat v + 2" "unat (v + 1) = unat v + 1"
    using Cons.prems by (simp_all add: unat_plus_small)
  have "text32 (m(v := c, v + 1 := 0x0f)) (a + 1) cs"
  proof -
    have "a + 1 + of_nat i \<noteq> v \<and> a + 1 + of_nat i \<noteq> v + 1" if "i \<le> length cs" for i
    proof -
      have "unat (of_nat i :: u32) = i" using that Cons.prems(3) by (simp add: unat_of_nat)
      then have "unat (a + 1 + of_nat i) = unat a + 1 + i"
        using that Cons.prems u by (simp add: unat_plus_small)
      then have "unat (a + 1 + of_nat i) < unat v" using that Cons.prems(2) by simp
      then show ?thesis using u(3) by (metis less_irrefl less_Suc_eq Suc_eq_plus1)
    qed
    with t(3) show ?thesis by (simp add: text32_def)
  qed
  then have "print_string_loop (a + 1) (v + 2) (m(v := c, v + 1 := 0x0f)) =
      Some (show_cells (v + 2) cs (m(v := c, v + 1 := 0x0f)))"
    by (rule Cons.IH) (use Cons.prems u in simp_all)
  then show ?case by (subst print_string_loop.simps) (simp add: Let_def t)
qed

section \<open>The memory map\<close>

lemma blit_at:
  assumes "unat a + length bs \<le> 4294967296"
  shows "blit a bs m x = (if unat a \<le> unat x \<and> unat x < unat a + length bs then bs ! (unat x - unat a) else m x)"
  using assms blit_inside [of a x bs 0 m] blit_outside [of x a bs 0 m] by auto

lemma blit_append:
  assumes "unat a + length r + length bs \<le> 4294967296" and "unat a' = unat a + length r"
  shows "blit a' bs (blit a r m) = blit a (r @ bs) m"
  using assms by (intro ext) (auto simp: blit_at nth_append)

lemma blit_upd:
  assumes "unat a + length bs \<le> 4294967296" and "unat c < unat a \<or> unat a + length bs \<le> unat c"
  shows "blit a bs (m(c := v)) = (blit a bs m)(c := v)"
  using assms by (intro ext) (auto simp: blit_at)

text \<open>
  Documented behaviour of \<^verbatim>\<open>int 0x15\<close>, \<^verbatim>\<open>eax\<close> = 0xE820 (ACPI specification): each call stores one
  24-byte entry and answers with the value for the next call in \<^verbatim>\<open>ebx\<close>, 0 with the last entry;
  the first call has 0 there. \<open>cont i\<close> is the value for entry \<open>i\<close>.
\<close>

definition answers :: "bios \<Rightarrow> (nat \<Rightarrow> u32) \<Rightarrow> u8 list list \<Rightarrow> bool" where
  "answers B cont rs \<longleftrightarrow> cont 0 = 0 \<and> (\<forall>r \<in> set rs. length r = 24) \<and>
     (\<forall>i < length rs. (0 < i \<longrightarrow> cont i \<noteq> 0) \<and>
       (\<forall>buf m. bios_map B 0xE820 (cont i) 24 0x534D4150 buf m =
         (if Suc i < length rs then cont (Suc i) else 0, 0x534D4150, blit buf (rs ! i) m)))"

lemma unat_ucast16: "unat (ucast x :: u32) = unat (x :: u16)"
proof -
  have "unat x < 2 ^ 16" using unsigned_less [of x] by simp
  then show ?thesis unfolding unsigned_ucast_eq by (intro take_bit_nat_eq_self) simp
qed

lemma length_concat24: "\<forall>r \<in> set rs. length r = 24 \<Longrightarrow> length (concat rs) = 24 * length rs"
  by (induction rs) auto

lemma entry_offset:
  assumes "j \<le> 170"
  shows "unat (0x5000 + 24 * of_nat j :: u32) = 0x5000 + 24 * j"
    "unat (0x5000 + 24 * of_nat j :: u16) = 0x5000 + 24 * j"
proof -
  have e: "(0x5000 + 24 * of_nat j :: 'a::len word) = of_nat (0x5000 + 24 * j)" by simp
  have n: "0x5000 + 24 * j < 2 ^ 16" "0x5000 + 24 * j < 2 ^ 32" using assms by simp_all
  show "unat (0x5000 + 24 * of_nat j :: u32) = 0x5000 + 24 * j"
    unfolding e unsigned_of_nat of_nat_id by (rule take_bit_nat_eq_self) (use n in simp)
  show "unat (0x5000 + 24 * of_nat j :: u16) = 0x5000 + 24 * j"
    unfolding e unsigned_of_nat of_nat_id by (rule take_bit_nat_eq_self) (use n in simp)
qed

text \<open>Storing entry \<open>i\<close>, the count and then the rest is storing the map from entry \<open>i\<close> on.\<close>

lemma store_entry:
  assumes "\<forall>r \<in> set rs. length r = 24" and "length rs \<le> 170" and "i < length rs" and "0x8000 \<le> unat c"
  shows "blit (0x5000 + 24 * of_nat (Suc i)) (concat (drop (Suc i) rs)) ((blit (0x5000 + 24 * of_nat i) (rs ! i) m)(c := v)) =
    (blit (0x5000 + 24 * of_nat i) (concat (drop i rs)) m)(c := v)"
proof -
  let ?a = "0x5000 + 24 * of_nat i :: u32" and ?a' = "0x5000 + 24 * of_nat (Suc i) :: u32"
  have i: "i < 170" and r: "length (rs ! i) = 24" using assms by simp_all
  have u: "unat ?a = 0x5000 + 24 * i" using entry_offset(1) [of i] i by simp
  have u': "unat ?a' = unat ?a + 24"
    unfolding u entry_offset(1) [OF Suc_leI [OF i]] by simp
  have d: "drop i rs = rs ! i # drop (Suc i) rs" using assms(3) by (simp add: Cons_nth_drop_Suc)
  have l: "length (concat (drop (Suc i) rs)) = 24 * (length rs - Suc i)"
    using assms(1) by (subst length_concat24) (auto dest: in_set_dropD)
  have "blit ?a' (concat (drop (Suc i) rs)) ((blit ?a (rs ! i) m)(c := v)) =
      (blit ?a' (concat (drop (Suc i) rs)) (blit ?a (rs ! i) m))(c := v)"
    using u' u l i assms(2-4) by (intro blit_upd) auto
  also have "blit ?a' (concat (drop (Suc i) rs)) (blit ?a (rs ! i) m) = blit ?a (concat (drop i rs)) m"
    unfolding d concat.simps using u' u l i r assms(2) by (intro blit_append) auto
  finally show ?thesis .
qed

text \<open>From entry \<open>i\<close> on the loop stores the rest of the map and counts all but the last.\<close>

lemma detect_repeat_result:
  assumes "answers B cont rs" and "length rs \<le> 170" and "0x8000 \<le> unat c"
    and "i < length rs"
  shows "detect_repeat B 0 c (cont i) 0x534D4150 (0x5000 + 24 * of_nat i) m =
    Some ((blit (0x5000 + 24 * of_nat i) (concat (drop i rs)) m)(c := m c + of_nat (length rs - 1 - i)))"
  using assms(4)
proof (induction "length rs - i" arbitrary: i m)
  case (Suc d)
  let ?a = "0x5000 + 24 * of_nat i :: u32" and ?o = "0x5000 + 24 * of_nat i :: u16"
  have i: "i < 170" using Suc.prems assms(2) by simp
  have u: "unat ?a = 0x5000 + 24 * i" "unat ?o = 0x5000 + 24 * i" using entry_offset [of i] i by simp_all
  have o: "linear 0 ?o = ?a"
  proof -
    have "unat (ucast ?o :: u32) = unat ?a"
      unfolding unsigned_ucast_eq u using i by (intro take_bit_nat_eq_self) simp
    then have "ucast ?o = ?a" by (simp only: word_unat_eq_iff)
    then show ?thesis by (simp add: linear_def)
  qed
  have bios: "bios_map B 0xE820 (cont i) 24 0x534D4150 ?a m =
      (if Suc i < length rs then cont (Suc i) else 0, 0x534D4150, blit ?a (rs ! i) m)"
    and r: "length (rs ! i) = 24"
    using assms(1) Suc.prems by (auto simp: answers_def)
  have d: "drop i rs = rs ! i # drop (Suc i) rs" using Suc.prems by (simp add: Cons_nth_drop_Suc)
  show ?case
  proof (cases "Suc i < length rs")
    case True
    let ?m = "(blit ?a (rs ! i) m)(c := m c + 1)"
    have c: "blit ?a (rs ! i) m c = m c" using u r i assms(3) by (simp add: blit_at)
    have off: "0x5000 + 24 * of_nat (Suc i) = ?o + 24" by (simp add: algebra_simps)
    have "cont (Suc i) \<noteq> 0" using True assms(1) by (simp add: answers_def)
    then have "detect_repeat B 0 c (cont i) 0x534D4150 ?o m =
        detect_repeat B 0 c (cont (Suc i)) 0x534D4150 (0x5000 + 24 * of_nat (Suc i)) ?m"
      unfolding off using True c by (subst detect_repeat.simps) (simp add: Let_def o bios)
    also have "\<dots> = Some ((blit (0x5000 + 24 * of_nat (Suc i)) (concat (drop (Suc i) rs)) ?m)
        (c := ?m c + of_nat (length rs - 1 - Suc i)))"
      using Suc True by (intro Suc.hyps(1)) auto
    also have "blit (0x5000 + 24 * of_nat (Suc i)) (concat (drop (Suc i) rs)) ?m =
        (blit ?a (concat (drop i rs)) m)(c := m c + 1)"
      by (rule store_entry [OF _ assms(2) Suc.prems assms(3)]) (use assms(1) in \<open>simp add: answers_def\<close>)
    finally show ?thesis
      using True by (auto simp: fun_eq_iff of_nat_diff)
  next
    case False
    then have "drop (Suc i) rs = []" "length rs - 1 - i = 0" by simp_all
    moreover have "(blit ?a (rs ! i) m)(c := m c) = blit ?a (rs ! i) m"
      using u r i assms(3) by (intro fun_upd_idem) (simp add: blit_at)
    ultimately show ?thesis
      using False d by (subst detect_repeat.simps) (simp add: Let_def o bios)
  qed
qed simp

lemma DetectMemory_step:
  assumes "answers B cont rs" and "0 < length rs" and "length rs \<le> 170"
    and "b_ds b = 0" and "0x8000 \<le> l_MemoryRegionCount L"
  shows "DetectMemory L B b = Some (b\<lparr>b_es := 0, b_mem := (blit 0x5000 (concat rs) (b_mem b))
    (ucast (l_MemoryRegionCount L) := b_mem b (ucast (l_MemoryRegionCount L)) + of_nat (length rs - 1))\<rparr>)"
proof -
  let ?c = "ucast (l_MemoryRegionCount L) :: ptr"
  have c: "0x8000 \<le> unat ?c" using assms(5) by (simp add: word_le_nat_alt unat_ucast16)
  have "detect_repeat B 0 ?c 0 0x534D4150 0x5000 (b_mem b) =
      Some ((blit 0x5000 (concat rs) (b_mem b))(?c := b_mem b ?c + of_nat (length rs - 1)))"
    using detect_repeat_result [OF assms(1,3) c assms(2)] assms(1) by (simp add: answers_def)
  then show ?thesis using assms(4) by (simp add: DetectMemory_def linear_def)
qed

end
