(* ===== verification/Handover.thy ===== *)
theory Handover
  imports BootReal
begin

text \<open>
  From the firmware to the kernel: the state in which the boot code enters \<^verbatim>\<open>main\<close>, and what becomes
  of the firmware's memory map in \<^verbatim>\<open>getUsableMemoryRegions\<close>.
\<close>

section \<open>What the kernel finds\<close>

lemma bytes_of_ld32:
  assumes "ld32 m a = ld32 m' a" and "unat k < 4"
  shows "m (a + k) = m' (a + k)"
proof -
  have b: "m a = ucast (ld32 m a)" "m (a + 1) = ucast (drop_bit 8 (ld32 m a))"
    "m (a + 2) = ucast (drop_bit 16 (ld32 m a))" "m (a + 3) = ucast (drop_bit 24 (ld32 m a))" for m
    unfolding ld32_def by (simp_all only: split_bytes)
  have "unat k = 0 \<or> unat k = 1 \<or> unat k = 2 \<or> unat k = 3" using assms(2) by linarith
  then have "k = 0 \<or> k = 1 \<or> k = 2 \<or> k = 3" unfolding word_unat_eq_iff by simp
  then show ?thesis using b [of m] b [of m'] assms(1) by auto
qed

lemma boot_paging_keeps_byte:
  assumes "unat x < 0x6000 \<or> 0x7000 \<le> unat x \<and> unat x < 0x1100000"
  shows "boot_paging m x = m x"
proof -
  define a where "a = x - x mod 4"
  have m4: "unat (x mod 4) = unat x mod 4" by (simp add: unat_mod)
  then have u: "unat a = unat x - unat x mod 4"
    unfolding a_def by (subst unat_sub) (simp_all add: word_le_nat_alt)
  then have "aligned a" unfolding aligned_def by (simp add: dvd_minus_mod)
  moreover have "\<not> (0x6000 \<le> unat a \<and> unat a < 0x7000 \<or> 0x1100000 \<le> unat a \<and> unat a < 0x1500000)"
  proof -
    have "unat a \<le> unat x" "unat x < unat a + 4" "4 dvd unat a" using u by (simp_all add: dvd_minus_mod)
    with assms show ?thesis by presburger
  qed
  ultimately have "ld32 (boot_paging m) a = ld32 m a" by (simp only: boot_paging_leaves_step if_False)
  then have "boot_paging m (a + x mod 4) = m (a + x mod 4)"
    by (rule bytes_of_ld32) (simp add: m4)
  then show ?thesis by (simp add: a_def)
qed

text \<open>The kernel's loop picks the entries of type 1, in order.\<close>

definition entries :: "ptr \<Rightarrow> nat \<Rightarrow> ptr list" where
  "entries a n = map (\<lambda>i. a + 24 * of_nat i) [0..<n]"

lemma entries_Suc: "entries a (Suc n) = a # entries (a + 24) n"
  by (simp add: entries_def upt_conv_Cons map_Suc_upt [symmetric] algebra_simps comp_def del: upt_Suc)

abbreviation usable :: "mem \<Rightarrow> ptr \<Rightarrow> bool" where
  "usable m a \<equiv> me_Type (MemoryMapEntry_at m a) = 1"

lemma usable_loop_picks:
  assumes "length regions + length (filter (usable m) (entries (a + 24) n)) \<le> 10"
  shows "usable_loop n a regions m = Some (regions @ filter (usable m) (entries (a + 24) n))"
  using assms
proof (induction n arbitrary: a regions)
  case 0
  then show ?case by (simp add: entries_def)
next
  case (Suc n)
  show ?case
  proof (cases "usable m (a + 24)")
    case True
    then have "usable_loop n (a + 24) (regions @ [a + 24]) m =
        Some ((regions @ [a + 24]) @ filter (usable m) (entries (a + 24 + 24) n))"
      using Suc.prems by (intro Suc.IH) (simp only: entries_Suc, simp)
    with True Suc.prems show ?thesis by (simp add: sizeof_MemoryMapEntry_def Let_def entries_Suc add.assoc)
  next
    case False
    then have "usable_loop n (a + 24) regions m = Some (regions @ filter (usable m) (entries (a + 24 + 24) n))"
      using Suc.prems by (intro Suc.IH) (simp only: entries_Suc, simp)
    with False show ?thesis by (simp add: sizeof_MemoryMapEntry_def Let_def entries_Suc add.assoc)
  qed
qed

text \<open>The type that the firmware gives a region.\<close>

definition region_type :: "u8 list \<Rightarrow> u32" where
  "region_type r = ld32 (blit 0 r (\<lambda>_. 0)) 16"

lemma nth_concat24:
  "\<forall>r \<in> set rs. length r = 24 \<Longrightarrow> i < length rs \<Longrightarrow> j < 24 \<Longrightarrow> concat rs ! (24 * i + j) = rs ! i ! j"
proof (induction rs arbitrary: i)
  case (Cons r rs)
  then show ?case by (cases i) (simp_all add: nth_append)
qed simp

text \<open>
  The boot code in memory: its two texts, and the count of regions, 0 as assembled, in the 2048
  bytes from 0x8000 on.
\<close>

definition boot_code :: "labels \<Rightarrow> mem \<Rightarrow> bool" where
  "boot_code L m \<longleftrightarrow> 0x8000 \<le> l_MemoryRegionCount L \<and> l_MemoryRegionCount L < 0x8800 \<and>
     0x8000 \<le> l_MSG_PROT_MODE L \<and> l_MSG_PROT_MODE L < 0x8800 \<and> m (ucast (l_MemoryRegionCount L)) = 0 \<and>
     text16 m 0 (l_MSG_BOOT L) (lit ''Successfully loaded from floppy disk'') \<and>
     text32 m (ucast (l_MSG_PROT_MODE L)) (lit ''Successfully in 32-bit protected mode with paging'') \<and>
     (\<forall>i \<le> 49. ucast (l_MSG_PROT_MODE L) + of_nat i \<noteq> (ucast (l_MemoryRegionCount L) :: ptr))"

text \<open>Memory with the firmware's map and the count, and as \<^verbatim>\<open>main\<close> finds it.\<close>

definition map_stored :: "labels \<Rightarrow> u8 list list \<Rightarrow> mem \<Rightarrow> mem" where
  "map_stored L rs m = (blit 0x5000 (concat rs) m)(ucast (l_MemoryRegionCount L) := of_nat (length rs - 1))"

definition handed_over :: "labels \<Rightarrow> u8 list list \<Rightarrow> mem \<Rightarrow> mem" where
  "handed_over L rs m =
     boot_paging (show_cells VIDEO_MEMORY (lit ''Successfully in 32-bit protected mode with paging'') (map_stored L rs m))"

lemma text32_map_stored:
  assumes "boot_code L m" and "\<forall>r \<in> set rs. length r = 24" and "length rs \<le> 170"
  shows "text32 (map_stored L rs m) (ucast (l_MSG_PROT_MODE L)) (lit ''Successfully in 32-bit protected mode with paging'')"
proof -
  let ?p = "ucast (l_MSG_PROT_MODE L) :: ptr" and ?t = "lit ''Successfully in 32-bit protected mode with paging''"
  have p: "0x8000 \<le> unat ?p" "unat ?p < 0x8800"
    using assms(1) by (simp_all add: boot_code_def unat_ucast16 word_le_nat_alt word_less_nat_alt)
  have "map_stored L rs m (?p + of_nat i) = m (?p + of_nat i)" if "i \<le> 49" for i
  proof -
    have "unat (of_nat i :: u32) = i" using that by (simp add: unat_of_nat)
    then have "unat (?p + of_nat i) = unat ?p + i" using p that by (simp add: unat_plus_small)
    then show ?thesis
      using assms p that length_concat24 [OF assms(2)] by (simp add: map_stored_def blit_at boot_code_def)
  qed
  moreover have "length ?t = 49" by simp
  ultimately show ?thesis
    using assms(1) unfolding boot_code_def text32_def by (simp del: list.map)
qed

lemma bootstrap_result:
  assumes "boot_code L (b_mem b)" and "b_ds b = 0" and "answers B cont rs" and "0 < length rs" and "length rs \<le> 170"
  shows "\<exists>b'. bootstrap L B b = Some b' \<and> b_mem b' = handed_over L rs (b_mem b) \<and>
    b_cr3 b' = 0x6000 \<and> b_cr0 b' = b_cr0 b OR 1 OR 0x80000020 \<and> b_cs b' = 8 \<and>
    b_ds b' = 16 \<and> b_es b' = 16 \<and> b_ss b' = 16 \<and> b_gdtr b' = gdt_descriptor L \<and>
    b_esp b' = 0xC0008000 \<and> \<not> b_if b' \<and> b_fpu b' = fpu_init (b_fpu b)"
proof -
  let ?m = "map_stored L rs (b_mem b)"
  note code = assms(1) [unfolded boot_code_def]
  have r: "\<forall>r \<in> set rs. length r = 24" using assms(3) by (simp add: answers_def)
  obtain out where p16: "printString16 (l_MSG_BOOT L) b = Some (b\<lparr>b_tty := out\<rparr>)"
    using printChar_result code assms(2) by (fastforce simp: printString16_def)
  have detect: "DetectMemory L B (b\<lparr>b_tty := out\<rparr>) = Some (b\<lparr>b_tty := out, b_es := 0, b_mem := ?m\<rparr>)"
    using DetectMemory_step [OF assms(3,4,5), of "b\<lparr>b_tty := out\<rparr>"] code assms(2) by (simp add: map_stored_def)
  have "unat (ucast (l_MSG_PROT_MODE L) :: ptr) < 0x8800"
    using code by (simp add: unat_ucast16 word_less_nat_alt)
  then have p32: "print_string_loop (ucast (l_MSG_PROT_MODE L)) VIDEO_MEMORY ?m =
      Some (show_cells VIDEO_MEMORY (lit ''Successfully in 32-bit protected mode with paging'') ?m)"
    by (intro print_string_loop_result text32_map_stored [OF assms(1) r assms(5)]) (simp_all add: VIDEO_MEMORY_def)
  obtain b1 where b1: "switchToProtMode L B (b\<lparr>b_tty := out\<rparr>) = Some b1" "b_mem b1 = ?m"
      "b_cr0 b1 = b_cr0 b OR 1" "b_cs b1 = 8" "b_ds b1 = 16" "b_es b1 = 16" "b_ss b1 = 16"
      "b_gdtr b1 = gdt_descriptor L" "\<not> b_if b1" "b_fpu b1 = b_fpu b"
    using detect by (simp add: switchToProtMode_def enableA20_def initProtMode_def Let_def port_byte_in_def
        CODE_SEQ_def DATA_SEQ_def)
  then show ?thesis
    using p32 by (simp add: bootstrap_def p16 BEGIN_PM_def printString32_def enable_paging_def handed_over_def
        asm_PAGE_DIRECTORY_BASE_def Let_def or.assoc)
qed

lemma handed_over_low:
  assumes "unat x < 0x6000 \<or> 0x8000 \<le> unat x \<and> unat x < 0x10000"
  shows "handed_over L rs m x = map_stored L rs m x"
proof -
  have "handed_over L rs m x =
      show_cells VIDEO_MEMORY (lit ''Successfully in 32-bit protected mode with paging'') (map_stored L rs m) x"
    unfolding handed_over_def by (rule boot_paging_keeps_byte) (use assms in auto)
  also have "\<dots> = map_stored L rs m x"
    by (rule show_cells_outside) (use assms in \<open>auto simp: VIDEO_MEMORY_def\<close>)
  finally show ?thesis .
qed

lemma map_stored_count: "map_stored L rs m (ucast (l_MemoryRegionCount L)) = of_nat (length rs - 1)"
  by (simp add: map_stored_def)

lemma map_stored_entry:
  assumes "boot_code L m" and "\<forall>r \<in> set rs. length r = 24" and "length rs \<le> 170" and "i < length rs" and "j < 24"
  shows "map_stored L rs m (of_nat j + (0x5000 + 24 * of_nat i)) = rs ! i ! j"
proof -
  let ?x = "of_nat j + (0x5000 + 24 * of_nat i) :: ptr"
  have "unat (of_nat j :: ptr) = j" using assms(5) by (simp add: unat_of_nat)
  then have x: "unat ?x = j + (0x5000 + 24 * i)"
    using assms entry_offset(1) [of i] by (simp add: unat_plus_small)
  moreover have "?x \<noteq> ucast (l_MemoryRegionCount L)"
  proof
    assume "?x = ucast (l_MemoryRegionCount L)"
    then have "unat ?x = unat (l_MemoryRegionCount L)" by (simp add: unat_ucast16)
    with x show False using assms by (simp add: boot_code_def word_le_nat_alt)
  qed
  ultimately have "map_stored L rs m ?x = blit 0x5000 (concat rs) m ?x" by (simp add: map_stored_def)
  also have "\<dots> = concat rs ! (unat ?x - 0x5000)"
    using x assms(3-5) length_concat24 [OF assms(2)] by (subst blit_at) auto
  also have "\<dots> = rs ! i ! j" unfolding x using nth_concat24 [OF assms(2,4,5)] by (simp add: add.commute)
  finally show ?thesis .
qed

text \<open>
  C25: the boot code hands over to \<^verbatim>\<open>main\<close>: with the firmware's answers to \<^verbatim>\<open>int 0x15\<close> as documented the
  machine arrives in protected mode with paging on, flat segments, the stack under \<^verbatim>\<open>0xC0008000\<close>,
  interrupts off, the FPU initialised and the page tables of \<^verbatim>\<open>boot_paging\<close>; the firmware's whole
  memory map lies at 0x5000, and the count that belongs to it is one less than the number of its
  entries.
\<close>

theorem bootstrap_hands_over:
  assumes "boot_code L (b_mem b)" and "b_ds b = 0" and "answers B cont rs" and "0 < length rs" and "length rs \<le> 170"
  shows "\<exists>b' m. bootstrap L B b = Some b' \<and> b_mem b' = boot_paging m \<and>
    (\<forall>i < length rs. \<forall>j < 24. b_mem b' (of_nat j + (0x5000 + 24 * of_nat i)) = rs ! i ! j) \<and>
    b_mem b' (ucast (l_MemoryRegionCount L)) = of_nat (length rs - 1) \<and>
    b_cr3 b' = 0x6000 \<and> b_cr0 b' = b_cr0 b OR 1 OR 0x80000020 \<and> b_cs b' = 8 \<and>
    b_ds b' = 16 \<and> b_es b' = 16 \<and> b_ss b' = 16 \<and> b_gdtr b' = gdt_descriptor L \<and>
    b_esp b' = 0xC0008000 \<and> \<not> b_if b' \<and> b_fpu b' = fpu_init (b_fpu b)"
proof -
  obtain b' where b': "bootstrap L B b = Some b'" "b_mem b' = handed_over L rs (b_mem b)"
    "b_cr3 b' = 0x6000" "b_cr0 b' = b_cr0 b OR 1 OR 0x80000020" "b_cs b' = 8"
    "b_ds b' = 16" "b_es b' = 16" "b_ss b' = 16" "b_gdtr b' = gdt_descriptor L"
    "b_esp b' = 0xC0008000" "\<not> b_if b'" "b_fpu b' = fpu_init (b_fpu b)"
    using bootstrap_result [OF assms] by blast
  have r: "\<forall>r \<in> set rs. length r = 24" using assms(3) by (simp add: answers_def)
  have "b_mem b' (of_nat j + (0x5000 + 24 * of_nat i)) = rs ! i ! j" if "i < length rs" "j < 24" for i j
  proof -
    have "unat (of_nat j :: ptr) = j" using that by (simp add: unat_of_nat)
    then have "unat (of_nat j + (0x5000 + 24 * of_nat i) :: ptr) < 0x6000"
      using that assms(5) entry_offset(1) [of i] by (simp add: unat_plus_small)
    then show ?thesis using that by (simp add: b' handed_over_low map_stored_entry [OF assms(1) r assms(5)])
  qed
  moreover have "b_mem b' (ucast (l_MemoryRegionCount L)) = of_nat (length rs - 1)"
    using assms(1) unfolding b'(2)
    by (subst handed_over_low)
      (simp_all add: map_stored_count boot_code_def unat_ucast16 word_le_nat_alt word_less_nat_alt)
  ultimately show ?thesis
    using b' unfolding handed_over_def by blast
qed

lemma type_at:
  assumes "\<And>j. j < 24 \<Longrightarrow> m (of_nat j + a) = r ! j" and "length r = 24"
  shows "me_Type (MemoryMapEntry_at m a) = region_type r"
proof -
  have "ld32 m (16 + a) = ld32 (blit 0 r (\<lambda>_. 0)) (16 + 0)"
  proof (rule ld32_offset_cong)
    fix l :: u32
    assume "unat (16 :: u32) \<le> unat l" "unat l < unat (16 :: u32) + 4"
    then have "unat l < 24" by simp
    then show "m (l + a) = blit 0 r (\<lambda>_. 0) (l + 0)"
      using assms(1) [of "unat l"] assms(2) by (simp add: blit_def)
  qed simp
  then show ?thesis by (simp add: MemoryMapEntry_at_def region_type_def add.commute)
qed

lemma kernel_regions:
  assumes "\<And>i j. i < n \<Longrightarrow> j < 24 \<Longrightarrow> kmem s (of_nat j + (0x5000 + 24 * of_nat i)) = rs ! i ! j"
    and "\<And>i. i < n \<Longrightarrow> length (rs ! i) = 24" and "n < 256"
    and "length (filter (\<lambda>i. region_type (rs ! i) = 1) [0..<n]) \<le> 10"
    and "R = map (\<lambda>i. 0x5000 + 24 * of_nat i) (filter (\<lambda>i. region_type (rs ! i) = 1) [0..<n])"
  shows "getUsableMemoryRegions (of_nat n) s =
    ret R (s\<lparr>UsableMemoryRegionCount := int (length R), usableMemoryRegions := R\<rparr>)"
proof -
  have "usable (kmem s) (0x5000 + 24 * of_nat i) \<longleftrightarrow> region_type (rs ! i) = 1" if "i < n" for i
    using type_at [of "kmem s" "0x5000 + 24 * of_nat i" "rs ! i"] assms(1,2) that by simp
  then have "filter (usable (kmem s)) (entries 0x5000 n) = R"
    unfolding entries_def assms(5) filter_map comp_def by (intro arg_cong [of _ _ "map _"] filter_cong) auto
  moreover have "length R \<le> 10" using assms(4,5) by simp
  ultimately have "usable_loop n (0x5000 - 24) [] (kmem s) = Some R"
    using usable_loop_picks [of "[]" "kmem s" "0x5000 - 24" n] by simp
  moreover have "unat (of_nat n :: u8) = n" using assms(3) by (simp add: unat_of_nat)
  ultimately show ?thesis by (simp add: getUsableMemoryRegions_def sizeof_MemoryMapEntry_def)
qed

text \<open>
  C26: the last region of the firmware's map is never used: of what the boot code stored the kernel
  takes the regions of type 1 among all but the last entry, in order, whatever the last one is.
\<close>

theorem last_region_not_used:
  assumes "boot_code L (b_mem b)" and "b_ds b = 0" and "answers B cont rs" and "0 < length rs" and "length rs \<le> 170"
    and "bootstrap L B b = Some b'"
    and "\<forall>x. unat x < 0x6000 \<or> 0x8000 \<le> unat x \<and> unat x < 0x10000 \<longrightarrow> kmem s x = b_mem b' x"
    and "R = map (\<lambda>i. 0x5000 + 24 * of_nat i) (filter (\<lambda>i. region_type (rs ! i) = 1) [0..<length rs - 1])"
    and "length R \<le> 10"
  shows "getUsableMemoryRegions (kmem s (ucast (l_MemoryRegionCount L))) s =
    ret R (s\<lparr>UsableMemoryRegionCount := int (length R), usableMemoryRegions := R\<rparr>)"
proof -
  have r: "\<forall>r \<in> set rs. length r = 24" using assms(3) by (simp add: answers_def)
  have m: "b_mem b' = handed_over L rs (b_mem b)" using bootstrap_result [OF assms(1-5)] assms(6) by auto
  have "kmem s (of_nat j + (0x5000 + 24 * of_nat i)) = rs ! i ! j" if "i < length rs - 1" "j < 24" for i j
  proof -
    have "unat (of_nat j :: ptr) = j" using that by (simp add: unat_of_nat)
    then have "unat (of_nat j + (0x5000 + 24 * of_nat i) :: ptr) < 0x6000"
      using that assms(5) entry_offset(1) [of i] by (simp add: unat_plus_small)
    then show ?thesis
      using that assms(7) by (simp add: m handed_over_low map_stored_entry [OF assms(1) r assms(5)])
  qed
  moreover have "kmem s (ucast (l_MemoryRegionCount L)) = of_nat (length rs - 1)"
    using assms(1,7)
    by (simp add: m handed_over_low map_stored_count boot_code_def unat_ucast16 word_le_nat_alt word_less_nat_alt)
  ultimately show ?thesis
    using kernel_regions [of "length rs - 1" s rs R] r assms(5,8,9) by simp
qed

section \<open>The boot sector\<close>

text \<open>
  \<^verbatim>\<open>ReadDisk\<close> asks for 64 sectors from the second one on. It returns when the firmware read all of
  them; in every other case it prints its message and then leaves the code.
\<close>

lemma mbr_reads_kernel:
  assumes "b_ds b = 0" and "b_es b = 0"
    and "bios_disk B \<lparr>dr_ah = 2, dr_al = 64, dr_ch = 0, dr_cl = 2, dr_dh = 0, dr_dl = dl\<rparr> 0x8000
      ((b_mem b)(ucast (l_BOOT_DISK L) := dl)) = (carry, al, m)"
  shows "mbr L B dl b =
    (if \<not> carry \<and> al = 64 then Disk_ok (b\<lparr>b_mem := m, b_esp := 0x7c00\<rparr>)
     else case printChar 0 (l_DiskReadErrorString L) m (b_tty b) of None \<Rightarrow> Prints_forever
       | Some out \<Rightarrow> Runs_into_data (b\<lparr>b_mem := m, b_esp := 0x7c00, b_tty := out\<rparr>))"
  using assms by (auto simp: mbr_def ReadDisk_def linear_def SECTORS_def BOOTLOADER_ENTRY_def Let_def
      printString16_def split: option.splits)

section \<open>A firmware\<close>

definition example_region :: "u8 \<Rightarrow> u8 list" where
  "example_region base = [0, 0, base, 0, 0, 0, 0, 0, 0, 0, 8, 0, 0, 0, 0, 0, 1, 0, 0, 0, 1, 0, 0, 0]"

text \<open>Two usable regions, at 0 and at 1 MiB.\<close>

definition example_bios :: bios where
  "example_bios = \<lparr>bios_disk = (\<lambda>r a m. (False, dr_al r, m)),
     bios_map = (\<lambda>rax rbx rcx rdx buf m. if rbx = 0 then (7, rdx, blit buf (example_region 0) m)
       else (0, rdx, blit buf (example_region 16) m))\<rparr>"

definition example_labels :: labels where
  "example_labels = \<lparr>l_BOOT_DISK = 0x7d00, l_DiskReadErrorString = 0x7d10, l_MemoryRegionCount = 0x8400,
     l_MSG_BOOT = 0x8100, l_MSG_PROT_MODE = 0x8200, l_gdt_start = 0x8300\<rparr>"

definition example_machine :: machine where
  "example_machine = \<lparr>b_mem = blit 0x8100 (lit ''Successfully loaded from floppy disk'' @ [0])
       (blit 0x8200 (lit ''Successfully in 32-bit protected mode with paging'' @ [0]) (\<lambda>_. 0)),
     b_con = console_at 0, b_tty = [], b_video_mode = 3, b_cs = 0, b_ds = 0, b_es = 0, b_fs = 0, b_gs = 0, b_ss = 0,
     b_esp = 0x7c00, b_if = True, b_cr0 = 0x10, b_cr3 = 0, b_gdtr = \<lparr>gi_size = 0, gi_offset = 0\<rparr>, b_fpu = replicate 108 0\<rparr>"

lemma example_answers: "answers example_bios (\<lambda>i. 7 * of_nat i) [example_region 0, example_region 16]"
  by (auto simp: answers_def example_bios_def example_region_def less_Suc_eq nth_Cons')

lemma text32_blit:
  assumes "0 \<notin> set cs" and "unat a + length cs < 4294967296"
  shows "text32 (blit a (cs @ [0]) m) a cs"
proof -
  have "blit a (cs @ [0]) m (a + of_nat i) = (cs @ [0]) ! i" if "i \<le> length cs" for i
  proof -
    have "unat (of_nat i :: u32) = i" using that assms(2) by (simp add: unat_of_nat)
    then show ?thesis using that by (simp add: blit_def)
  qed
  with assms(1) show ?thesis by (simp add: text32_def)
qed

lemma text16_of_text32:
  assumes "text32 m (ucast a) cs" and "unat a + length cs < 65536"
  shows "text16 m 0 a cs"
proof -
  have "linear 0 (a + of_nat i) = ucast a + of_nat i" if "i \<le> length cs" for i
  proof -
    have i: "unat (of_nat i :: u16) = i" "unat (of_nat i :: u32) = i"
      using that assms(2) by (simp_all add: unat_of_nat)
    have "unat (a + of_nat i) = unat a + i" using that assms(2) i(1) by (simp add: unat_word_ariths)
    moreover have "unat (ucast a + of_nat i :: u32) = unat a + i"
      using that assms(2) i(2) by (simp add: unat_plus_small unat_ucast16)
    ultimately have "unat (ucast (a + of_nat i) :: u32) = unat (ucast a + of_nat i :: u32)" by (simp only: unat_ucast16)
    then have "(ucast (a + of_nat i) :: u32) = ucast a + of_nat i" by (simp only: word_unat_eq_iff)
    then show ?thesis by (simp add: linear_def)
  qed
  with assms(1) show ?thesis by (simp add: text16_def text32_def)
qed

lemma example_boot_code: "boot_code example_labels (b_mem example_machine)"
proof -
  let ?one = "lit ''Successfully loaded from floppy disk''"
    and ?two = "lit ''Successfully in 32-bit protected mode with paging''"
  let ?m = "b_mem example_machine"
  have l: "length ?one = 36" "length ?two = 49" "0 \<notin> set ?one" "0 \<notin> set ?two" by simp_all
  have m: "?m = blit 0x8100 (?one @ [0]) (blit 0x8200 (?two @ [0]) (\<lambda>_. 0))" by (simp only: example_machine_def machine.simps)
  have off: "unat (0x8200 + of_nat i :: u32) = 0x8200 + i" if "i \<le> 49" for i
  proof -
    have "unat (of_nat i :: u32) = i" using that by (simp add: unat_of_nat)
    then show ?thesis using that by (simp add: unat_plus_small)
  qed
  have one: "text32 ?m 0x8100 ?one" unfolding m by (rule text32_blit [OF l(3)]) (simp only: l(1), simp)
  have "text32 (blit 0x8200 (?two @ [0]) (\<lambda>_. 0)) 0x8200 ?two" by (rule text32_blit [OF l(4)]) (simp only: l(2), simp)
  moreover have "?m (0x8200 + of_nat i) = blit 0x8200 (?two @ [0]) (\<lambda>_. 0) (0x8200 + of_nat i)" if "i \<le> 49" for i
    unfolding m using that by (subst blit_at) (simp_all only: length_append l off [OF that], simp_all)
  ultimately have two: "text32 ?m 0x8200 ?two" unfolding text32_def l(2) by simp
  have zero: "?m 0x8400 = 0" unfolding m by (subst blit_at, simp_all only: length_append l, simp)+ simp
  have "text16 ?m 0 0x8100 ?one" by (rule text16_of_text32) (use one in simp_all)
  moreover have "0x8200 + of_nat i \<noteq> (0x8400 :: ptr)" if "i \<le> 49" for i
  proof
    assume "0x8200 + of_nat i = (0x8400 :: ptr)"
    then have "unat (0x8200 + of_nat i :: u32) = unat (0x8400 :: u32)" by simp
    with off [OF that] that show False by simp
  qed
  ultimately show ?thesis using two zero by (simp add: boot_code_def example_labels_def)
qed

theorem bootstrap_hands_over_witness:
  "\<exists>b'. bootstrap example_labels example_bios example_machine = Some b' \<and> b_mem b' 0x8400 = 1 \<and> b_esp b' = 0xC0008000"
proof -
  have "b_ds example_machine = 0" by (simp add: example_machine_def)
  from bootstrap_hands_over [OF example_boot_code this example_answers] show ?thesis
    by (auto simp: example_labels_def)
qed

text \<open>Of the two usable regions only the first is found.\<close>

theorem last_region_not_used_witness:
  "\<exists>b' s. bootstrap example_labels example_bios example_machine = Some b' \<and> kmem s = b_mem b' \<and>
     getUsableMemoryRegions (kmem s 0x8400) s = ret [0x5000] (s\<lparr>UsableMemoryRegionCount := 1, usableMemoryRegions := [0x5000]\<rparr>)"
proof -
  have ds: "b_ds example_machine = 0" by (simp add: example_machine_def)
  obtain b' where b': "bootstrap example_labels example_bios example_machine = Some b'"
    using bootstrap_result [OF example_boot_code ds example_answers] by auto
  have r: "region_type (example_region 0) = 1"
    by (simp add: region_type_def example_region_def ld32_def blit_def)
  let ?s = "heap_state\<lparr>kmem := b_mem b'\<rparr>"
  have "getUsableMemoryRegions (kmem ?s (ucast (l_MemoryRegionCount example_labels))) ?s =
      ret [0x5000] (?s\<lparr>UsableMemoryRegionCount := int (length [0x5000 :: ptr]), usableMemoryRegions := [0x5000]\<rparr>)"
    by (rule last_region_not_used [OF example_boot_code ds example_answers _ _ b']) (simp_all add: r)
  then have "kmem ?s = b_mem b' \<and> getUsableMemoryRegions (kmem ?s 0x8400) ?s =
      ret [0x5000] (?s\<lparr>UsableMemoryRegionCount := 1, usableMemoryRegions := [0x5000]\<rparr>)"
    by (simp add: example_labels_def)
  with b' show ?thesis by blast
qed

end
