(* ===== verification/Spec2Isabelle.thy ===== *)
theory Spec2Isabelle
  imports Strings Screen Segments PageTables Gates Machine Paging BootTables Palloc Heap Lists Queues Switch
    Threads Sched Synch Locks Chains Kv Files Pages Tss Start Create
    Firstrun BootAsm HeapFree Grow Slices ManyLists Offsets Stubs Delivery BootReal Handover
begin

text \<open>
  A model of NickOS3, a small i386 kernel in C (\<^verbatim>\<open>src/\<close>), and proofs of what its parts do.

  \<^bold>\<open>The program.\<close> The boot sector reads the kernel from the disk; the boot code asks the BIOS for the
  memory map, enters protected mode, fills a first set of page tables and jumps to \<^verbatim>\<open>main\<close> (\<^verbatim>\<open>kernel/start.c\<close>). \<^verbatim>\<open>boot\<close> clears the bss, picks the usable regions of the memory map
  (\<^verbatim>\<open>lib/smap.c\<close>), makes the table of physical frames, loads the segment table (\<^verbatim>\<open>gdt/\<close>), sets up page
  directories, the heap pool and the heap (\<^verbatim>\<open>paging/\<close>, \<^verbatim>\<open>heap/\<close>), installs the interrupt gates and starts
  the interrupt controllers (\<^verbatim>\<open>interrupt/\<close>) and the threads (\<^verbatim>\<open>thread/\<close>). From then on the timer interrupt
  drives a round robin scheduler over the ready list; semaphores and locks block threads in lists of
  their own; all lists live on the heap, all threads are pages of physical memory. Messages go to
  the text screen (\<^verbatim>\<open>lib/screen.c\<close>), fatal ones through \<^verbatim>\<open>PANIC\<close>.

  \<^bold>\<open>How code becomes definitions.\<close> A C function is a definition with its name. Structs in memory are
  read and written at the offsets the compiler gives them, by little-endian loads and stores in a
  byte memory (\<open>mem\<close>, theory Prelude); static variables are the fields of the record \<open>kstate\<close> (Machine),
  which each function takes and returns. The result type \<open>res\<close> has a value and a state, \<open>PANIC\<close> with
  its message and state, \<open>Hang\<close> for a loop that does not end, and \<open>Undefined\<close> for a write outside a static
  array. 32-bit integers are words and wrap around. A loop that follows pointers is a
  \<^verbatim>\<open>partial_function\<close>, whose value is \<open>None\<close> where the loop does not end; all theorems on such functions
  state that there is a result. No fuel is used. A function that switches threads returns \<open>Switch\<close>
  with the calls still open on its stack; \<open>resume\<close> (Threads) goes on from them when another
  thread switches back.

  \<^bold>\<open>Theories and what their lemmas show.\<close>
  \<^item> Prelude: types, byte memory, results, lemmas on words.
  \<^item> Strings (\<^verbatim>\<open>lib/string.c\<close>, \<^verbatim>\<open>int.c\<close>, \<^verbatim>\<open>memory.c\<close>): the text \<^verbatim>\<open>itoa\<close> writes reads back as the number;
    \<^verbatim>\<open>memset\<close> and \<^verbatim>\<open>memcpy\<close> work on words.
  \<^item> Screen (\<^verbatim>\<open>drivers/low_level.c\<close>, \<^verbatim>\<open>lib/screen.c\<close>, \<^verbatim>\<open>panic.c\<close>): ports as a log and a device that answers;
    printing stays in the buffer and shows the message, with scrolling.
  \<^item> Segments (\<^verbatim>\<open>gdt/\<close>), Gates (\<^verbatim>\<open>interrupt/\<close>): descriptors as the processor decodes them; the gates
    \<^verbatim>\<open>idt_init\<close> installs; the exception report; the state of the interrupt controllers after \<^verbatim>\<open>irq_remap\<close>.
  \<^item> Machine: the kernel state, printing of numbers, the interrupt flag.
  \<^item> PageTables (\<^verbatim>\<open>paging.h\<close>, \<^verbatim>\<open>pte.h\<close>), Paging and Palloc (\<^verbatim>\<open>paging.c\<close>, \<^verbatim>\<open>lib/smap.c\<close>): page table entries and
    their images, the walk of the processor (\<open>mmu\<close>), the invariant \<open>paging_ok\<close> (page tables and directory
    lie in different frames, free frames are distinct, mapped and hold no table), which \<^verbatim>\<open>map_page\<close>
    preserves; frames are handed out once (locale \<open>frame_pool\<close>); \<^verbatim>\<open>palloc_kern\<close>. Pages: the exact memory
    after a zeroed page is allocated.
  \<^item> BootAsm (\<^verbatim>\<open>boot/paging.asm\<close>): the loops that fill the first page tables, on physical memory. They
    leave exactly the image of BootTables, their translation is two windows on the first 24 MiB, and
    it satisfies the invariant.
  \<^item> Heap (\<^verbatim>\<open>heap.c\<close>): the invariant \<open>heap_ok\<close> of a heap of which nothing was freed (blocks in a row, one free
    segment at the end, its bytes zero); \<^verbatim>\<open>malloc\<close> keeps it and all blocks, so blocks never overlap (locale
    \<open>block_store\<close>); what goes wrong at the edges of the heap. HeapFree: freeing the last block, which
    stores through null links. Grow: \<^verbatim>\<open>malloc\<close> and \<^verbatim>\<open>palloc_heap\<close> together when the heap is full, and the
    overlapping blocks that can follow.
  \<^item> Lists (\<^verbatim>\<open>lib/list.c\<close>): lists as chains of heap blocks; \<^verbatim>\<open>append\<close> and \<^verbatim>\<open>pop\<close> refine a FIFO queue for every
    script of operations (locale \<open>queue\<close>). Chains: removal and indexing in a doubly linked list of either
    layout; \<^verbatim>\<open>append\<close>, \<^verbatim>\<open>remove\<close> and \<^verbatim>\<open>list_get\<close> refine a sequence (locale \<open>keyed_sequence\<close>). Kv (\<^verbatim>\<open>lib/kv.c\<close>): the
    same contract for pairs. Queues: several lists on one heap do not disturb each other;
    ManyLists: for any script of operations on them.
  \<^item> Switch (\<^verbatim>\<open>thread.h\<close>, \<^verbatim>\<open>tswitch.asm\<close>): a thread that is switched away from comes back with its registers
    and stack; the first switch to a new thread reaches \<^verbatim>\<open>run\<close> with its function and argument.
  \<^item> Threads (\<^verbatim>\<open>thread.c\<close>, \<^verbatim>\<open>synch.c\<close>, \<^verbatim>\<open>lib/timer.c\<close>, dispatch of interrupts): every function. Sched: the
    invariant \<open>sched\<close> of a running kernel (current thread, heap, lists) and what yielding, blocking,
    unblocking and preemption do. Create: \<^verbatim>\<open>thread_create\<close> from a free frame to the ready list, and the
    end of a thread. Synch: waiting on a semaphore. Locks: threads that use a lock as a step
    relation over the code's functions, with any interleaving; in every reachable state at most
    one thread holds the lock, for any number of threads other than three (see the text there).
  \<^item> Firstrun: the start as one run: \<^verbatim>\<open>thread_init\<close>, the idle thread's first run, the return to \<^verbatim>\<open>boot\<close> and \<^verbatim>\<open>main\<close>
    leave four threads in the states they should have. Slices: \<open>n\<close> timer interrupts pass the processor
    on \<open>n div 4\<close> times, in the order of the ready list.
  \<^item> Stubs (\<^verbatim>\<open>interrupt/interrupt.asm\<close>): the assembly stubs instruction by instruction on a processor record
    (registers, FPU image, memory). The frame they build is the struct that the C handlers read, and
    \<^verbatim>\<open>iret\<close> gives the interrupted code its state back; Offsets has the loads and stores at offsets of an
    unaligned stack. Delivery: the kernel's \<open>idt_int\<close> is the abstraction of gate, stub and handler.
  \<^item> BootReal (\<^verbatim>\<open>boot/mbr.asm\<close>, \<^verbatim>\<open>diskRead.asm\<close>, \<^verbatim>\<open>detectMemory.asm\<close>, \<^verbatim>\<open>print.asm\<close>, \<^verbatim>\<open>switchPM.asm\<close>, \<^verbatim>\<open>gdt.asm\<close>,
    \<^verbatim>\<open>bootstrap.asm\<close>): the boot sector and the way to \<^verbatim>\<open>main\<close>; its loops end when the texts are terminated and
    the firmware ends its map. Handover: the state in which \<^verbatim>\<open>main\<close> is entered, and the regions that
    \<^verbatim>\<open>getUsableMemoryRegions\<close> finds in the firmware's map (all usable ones but the last entry).
  \<^item> Files (\<^verbatim>\<open>filesystem/\<close>): dispatch through a node's functions, reading from the RAM disk. Tss (\<^verbatim>\<open>process/tss.c\<close>).
  \<^item> Start (\<^verbatim>\<open>kernel/start.c\<close>, \<^verbatim>\<open>shell.c\<close>): \<^verbatim>\<open>boot\<close> and \<^verbatim>\<open>main\<close> as written, the timer's divisor, and what can go
    wrong early.

  \<^bold>\<open>Bounds.\<close> Heaps lie below \<^verbatim>\<open>0x80000000\<close> and thread pages above it, as in the kernel. \<open>room lim s\<close> asks for the
  64 bytes that one list element needs; the room for a script of operations is \<open>list_capacity\<close>. These
  are hypotheses because \<^verbatim>\<open>malloc\<close> without room asks for pages, from a pool whose index it
  reads from memory that nothing initialises.

  \<^bold>\<open>Parameters.\<close> \<open>env\<close> and \<open>image\<close> hold what compiler and linker decide: addresses of functions and
  variables, bytes behind a constant table, the address of a local variable that the heap pool
  keeps. The device behind the ports is a function of the accesses so far. Function pointers of
  file system nodes are a parameter of its dispatch. The services of the firmware are the record \<open>bios\<close>,
  with the documented behaviour of \<^verbatim>\<open>int 0x15\<close> as the hypothesis \<open>answers\<close>; the compiled C handler that a stub
  calls is a function on the processor, with \<open>keeps_frame\<close> (it returns and leaves its frame alone) or
  \<open>implements\<close> (it also does what the C function does) as hypothesis.

  \<^bold>\<open>Not modelled.\<close> The linker script, the words that calls of the boot code push on its stack, interrupts
  out of user mode (the kernel has none), the processor beyond paging, stacks, interrupts and the FPU
  image (caches, privilege checks, faults of the memory accesses themselves). A memory access is to
  linear memory as the kernel sees it: the model does not route kernel accesses through \<open>mmu\<close>. So the steps before \<^verbatim>\<open>thread_init\<close>, where \<^verbatim>\<open>paging_init\<close> gives address 0 another
  frame, are proved one by one and not as one run: Firstrun starts from an empty heap (\<open>can_start\<close>).
  Slices starts from threads that have all been preempted before: the first slice of a new thread
  ends with no interrupt, since the end of interrupt is sent only after the switch back. The
  endless loops of \<^verbatim>\<open>idle\<close> and \<^verbatim>\<open>thread_echo\<close> are their rounds. Of the file system, \<^verbatim>\<open>open_fs\<close>, \<^verbatim>\<open>close_fs\<close>, \<^verbatim>\<open>initrd_finddir\<close> and
  \<^verbatim>\<open>initialise_rd_fs\<close> do not compile or have no body. \<^verbatim>\<open>strcpy\<close>, \<^verbatim>\<open>strcmp\<close> and some declared functions have no
  definition in the source; the 16-bit port functions have no caller.
\<close>

end
